(* ===== verification/DCC_Prelude.thy ===== *)
theory DCC_Prelude
  imports Main "HOL-Library.Word" "HOL-Library.Multiset"
begin

text \<open>
  Shared vocabulary of the development: the status codes of \<^verbatim>\<open>include/dcc/error.h\<close>, the
  machine integers of the C sources at their widths, the C library idioms the sources use
  (\<open>memchr\<close>/\<open>strchr\<close>, \<open>strncmp\<close> against a literal, \<open>tolower\<close>, decimal printing) and
  saturating 64-bit arithmetic, with the lemmas that the component theories share.

  Conventions of the whole development:
  \<^item> a C string is the list of its bytes before the terminating NUL (\<open>string\<close>); a buffer with
    an explicit length is a list too;
  \<^item> a pointer the code compares with \<open>NULL\<close> is an \<open>option\<close> where its absence is a case of the
    code's behaviour; an out parameter that the code reads or keeps on failure is an \<open>option\<close>
    cell passed in and returned;
  \<^item> \<open>size_t\<close> values that count bytes or entries already held in memory are \<open>nat\<close> (the checks
    against \<open>SIZE_MAX\<close> are kept); every other integer is a word of its width;
  \<^item> a call of the allocator is a boolean argument, whether that call succeeds, or a code with many calls
    has the list of the allocator's answers as an argument.
\<close>

unbundle bit_operations_syntax

section \<open>Status codes\<close>

datatype dcc_status =
    DCC_OK
  | DCC_ERR_INVALID_ARG
  | DCC_ERR_NOMEM
  | DCC_ERR_RUNTIME
  | DCC_ERR_NETWORK
  | DCC_ERR_TLS
  | DCC_ERR_JSON
  | DCC_ERR_DISCORD
  | DCC_ERR_RATE_LIMITED
  | DCC_ERR_CANCELED
  | DCC_ERR_STATE
  | DCC_ERR_TIMEOUT
  | DCC_ERR_NOT_FOUND
  | DCC_ERR_RESOURCE_LIMIT

section \<open>Machine integers\<close>

type_synonym u8 = "8 word"
type_synonym u16 = "16 word"
type_synonym u32 = "32 word"
type_synonym u64 = "64 word"
type_synonym snowflake = u64

named_theorems dcc_simps \<open>unfoldings and reductions of the modelled operations\<close>
named_theorems dcc_inv \<open>preservation of the component invariants\<close>

definition UINT64_MAX :: u64 where
  "UINT64_MAX = - 1"

definition SIZE_MAX :: nat where
  "SIZE_MAX = 2 ^ 64 - 1"

lemma unat_UINT64_MAX [simp]: "unat UINT64_MAX = 2 ^ 64 - 1"
  by (simp add: UINT64_MAX_def unsigned_minus_1_eq_mask mask_eq_exp_minus_1)

lemma le_UINT64_MAX [simp]: "x \<le> UINT64_MAX"
  by (simp add: UINT64_MAX_def)

lemma unat_UINT64_MAX_minus: "unat (UINT64_MAX - x) = 2 ^ 64 - 1 - unat x"
  using unat_sub [OF le_UINT64_MAX [of x]] by simp

lemma unat_u64_less: "unat (x :: u64) < 2 ^ 64"
  using unsigned_less [of x] by simp

lemma unat_ucast_u32: "unat (ucast (x :: u32) :: u64) = unat x"
proof -
  have "unat x < 2 ^ 32"
    using unsigned_less [of x] by simp
  then show ?thesis
    by (simp add: unsigned_ucast_eq take_bit_nat_eq_self)
qed

lemma unat_of_nat_eq_u64: "n < 2 ^ 64 \<Longrightarrow> unat (of_nat n :: u64) = n"
  by (simp add: unat_of_nat)

text \<open>Addition that saturates at \<open>UINT64_MAX\<close>, and the guarded counter increment.\<close>

definition sat_add :: "u64 \<Rightarrow> u64 \<Rightarrow> u64" where
  "sat_add base delta = (if UINT64_MAX - base < delta then UINT64_MAX else base + delta)"

definition sat_inc :: "u64 \<Rightarrow> u64" where
  "sat_inc x = (if x \<noteq> UINT64_MAX then x + 1 else x)"

lemma unat_sat_add: "unat (sat_add a b) = min (unat a + unat b) (2 ^ 64 - 1)"
proof -
  have "UINT64_MAX - a < b \<longleftrightarrow> 2 ^ 64 - 1 - unat a < unat b"
    by (simp add: word_less_nat_alt unat_UINT64_MAX_minus)
  moreover have "unat (a + b) = unat a + unat b" if "\<not> 2 ^ 64 - 1 - unat a < unat b"
    using that unat_u64_less [of a] by (subst unat_add_lem [THEN iffD1]) auto
  ultimately show ?thesis
    using unat_u64_less [of a] by (auto simp: sat_add_def)
qed

lemma sat_add_ge: "a \<le> sat_add a b"
  using unat_u64_less [of a] by (simp add: word_le_nat_alt unat_sat_add)

lemma unat_sat_inc: "unat (sat_inc x) = min (unat x + 1) (2 ^ 64 - 1)"
proof (cases "x = UINT64_MAX")
  case True
  then show ?thesis by (simp add: sat_inc_def)
next
  case False
  then have "unat x \<noteq> unat UINT64_MAX"
    by (simp add: word_unat_eq_iff)
  then have "unat x + 1 < 2 ^ 64"
    using unat_u64_less [of x] by simp
  then have "unat (x + 1) = unat x + 1"
    by (subst unat_add_lem [THEN iffD1]) auto
  with False \<open>unat x + 1 < 2 ^ 64\<close> show ?thesis
    by (simp add: sat_inc_def)
qed

lemma notin_image_ball: "k \<notin> f ` A \<longleftrightarrow> (\<forall>x \<in> A. f x \<noteq> k)"
  by auto

section \<open>Linked lists as lists\<close>

text \<open>Unlinking the \<open>j\<close>th node of a linked list, and linking a node in at position \<open>j\<close>.\<close>

definition remove_nth :: "nat \<Rightarrow> 'a list \<Rightarrow> 'a list" where
  "remove_nth j xs = take j xs @ drop (Suc j) xs"

definition insert_nth :: "nat \<Rightarrow> 'a \<Rightarrow> 'a list \<Rightarrow> 'a list" where
  "insert_nth j x xs = take j xs @ x # drop j xs"

lemma mset_remove_nth: "j < length xs \<Longrightarrow> add_mset (xs ! j) (mset (remove_nth j xs)) = mset xs"
  by (subst (3) id_take_nth_drop [of j xs]) (simp_all add: remove_nth_def)

lemma set_remove_nth_subset: "set (remove_nth j xs) \<subseteq> set xs"
  using set_take_subset [of j xs] set_drop_subset [of "Suc j" xs] by (auto simp: remove_nth_def)

lemma length_remove_nth: "j < length xs \<Longrightarrow> Suc (length (remove_nth j xs)) = length xs"
  by (simp add: remove_nth_def)

lemma mset_insert_nth [simp]: "mset (insert_nth j x xs) = add_mset x (mset xs)"
proof -
  have "mset (take j xs) + mset (drop j xs) = mset xs"
    by (simp flip: mset_append)
  then show ?thesis
    by (simp add: insert_nth_def)
qed

lemma insert_remove_nth: "j < length xs \<Longrightarrow> insert_nth j (xs ! j) (remove_nth j xs) = xs"
  by (simp add: insert_nth_def remove_nth_def min_def id_take_nth_drop [symmetric])

section \<open>C strings and buffers\<close>

abbreviation code :: "char \<Rightarrow> nat" where
  "code c \<equiv> of_char c"

text \<open>\<open>strncmp(s, p, strlen(p)) == 0\<close>.\<close>

definition has_prefix :: "'a list \<Rightarrow> 'a list \<Rightarrow> bool" where
  "has_prefix s p \<longleftrightarrow> take (length p) s = p"

lemma has_prefix_iff: "has_prefix s p \<longleftrightarrow> (\<exists>r. s = p @ r)"
  by (metis append_eq_conv_conj append_take_drop_id has_prefix_def)

lemma has_prefix_append [simp]: "has_prefix (p @ r) p"
  by (simp add: has_prefix_def)

text \<open>\<open>memchr\<close>/\<open>strchr\<close>: the index of the first occurrence.\<close>

fun find_byte :: "'a \<Rightarrow> 'a list \<Rightarrow> nat option" where
  "find_byte c [] = None"
| "find_byte c (x # xs) = (if x = c then Some 0 else map_option Suc (find_byte c xs))"

lemma find_byte_None [simp]: "find_byte c xs = None \<longleftrightarrow> c \<notin> set xs"
  by (induction xs) auto

lemma find_byte_SomeD:
  "find_byte c xs = Some i \<Longrightarrow> i < length xs \<and> xs ! i = c \<and> c \<notin> set (take i xs)"
  by (induction xs arbitrary: i) (auto split: if_splits)

lemma find_byte_append: "c \<notin> set xs \<Longrightarrow> find_byte c (xs @ c # ys) = Some (length xs)"
  by (induction xs) auto

text \<open>\<open>tolower\<close> in the C locale, on byte codes.\<close>

definition to_lower :: "char \<Rightarrow> nat" where
  "to_lower c = (if 65 \<le> code c \<and> code c \<le> 90 then code c + 32 else code c)"

section \<open>Decimal numbers\<close>

definition is_digit :: "char \<Rightarrow> bool" where
  "is_digit c \<longleftrightarrow> 48 \<le> code c \<and> code c \<le> 57"

definition digit_char :: "nat \<Rightarrow> char" where
  "digit_char d = char_of (48 + d)"

text \<open>What \<open>%llu\<close> prints.\<close>

fun dec_string :: "nat \<Rightarrow> string" where
  "dec_string n = (if n < 10 then [digit_char n] else dec_string (n div 10) @ [digit_char (n mod 10)])"

declare dec_string.simps [simp del]

text \<open>The number a string of digits denotes.\<close>

definition dec_value :: "string \<Rightarrow> nat" where
  "dec_value s = foldl (\<lambda>a c. a * 10 + (code c - 48)) 0 s"

lemma code_digit_char [simp]: "d < 10 \<Longrightarrow> code (digit_char d) = 48 + d"
  by (simp add: digit_char_def)

lemma is_digit_digit_char [simp]: "d < 10 \<Longrightarrow> is_digit (digit_char d)"
  by (simp add: is_digit_def)

lemma dec_value_Nil [simp]: "dec_value [] = 0"
  by (simp add: dec_value_def)

lemma dec_value_snoc [simp]: "dec_value (s @ [c]) = dec_value s * 10 + (code c - 48)"
  by (simp add: dec_value_def)

lemma dec_string_props: "dec_string n \<noteq> [] \<and> list_all is_digit (dec_string n) \<and> dec_value (dec_string n) = n"
proof (induction n rule: dec_string.induct)
  case (1 n)
  show ?case
  proof (cases "n < 10")
    case True
    then show ?thesis by (simp add: dec_string.simps [of n] dec_value_def)
  next
    case False
    with 1 show ?thesis by (simp add: dec_string.simps [of n])
  qed
qed

lemmas dec_string_nonempty [simp] = dec_string_props [THEN conjunct1]
lemmas dec_string_digits [simp] = dec_string_props [THEN conjunct2, THEN conjunct1]
lemmas dec_value_dec_string [simp] = dec_string_props [THEN conjunct2, THEN conjunct2]

lemma length_dec_string: "0 < k \<Longrightarrow> n < 10 ^ k \<Longrightarrow> length (dec_string n) \<le> k"
proof (induction n arbitrary: k rule: dec_string.induct)
  case (1 n)
  show ?case
  proof (cases "n < 10")
    case False
    then have "1 < k" using 1(2,3) by (cases "k = 1") auto
    moreover have "n div 10 < 10 ^ (k - 1)" using 1(2,3) by (cases k) auto
    ultimately have "length (dec_string (n div 10)) \<le> k - 1" using 1(1) [OF False, of "k - 1"] by simp
    with False \<open>1 < k\<close> show ?thesis by (simp add: dec_string.simps [of n])
  qed (use 1(2) in \<open>simp add: dec_string.simps [of n]\<close>)
qed

text \<open>\<open>strtoul(s, &end, 10)\<close>: the value and the unread rest, which is \<open>s\<close> when nothing was converted.\<close>

definition is_space :: "char \<Rightarrow> bool" where
  "is_space c \<longleftrightarrow> code c = 32 \<or> 9 \<le> code c \<and> code c \<le> 13"

definition c_strtoul :: "string \<Rightarrow> nat \<times> string" where
  "c_strtoul s =
     (let t = dropWhile is_space s;
          neg = (t \<noteq> [] \<and> hd t = CHR ''-'');
          u = (if t \<noteq> [] \<and> (hd t = CHR ''-'' \<or> hd t = CHR ''+'') then tl t else t);
          digits = takeWhile is_digit u;
          v = dec_value digits in
      if digits = [] then (0, s)
      else (if v \<ge> 2 ^ 64 then 2 ^ 64 - 1 else if neg then (2 ^ 64 - v) mod 2 ^ 64 else v,
            drop (length digits) u))"

lemma is_digit_not_space: "is_digit c \<Longrightarrow> \<not> is_space c \<and> c \<noteq> CHR ''-'' \<and> c \<noteq> CHR ''+'' \<and> code c \<noteq> 0"
  by (auto simp: is_digit_def is_space_def)

lemma strtoul_digits:
  assumes "s \<noteq> []" "list_all is_digit s"
  shows "c_strtoul s = (min (dec_value s) (2 ^ 64 - 1), [])"
proof -
  obtain c cs where s: "s = c # cs"
    using assms(1) by (cases s) auto
  then have "is_digit c"
    using assms(2) by simp
  then have "dropWhile is_space s = s" "hd s \<noteq> CHR ''-''" "hd s \<noteq> CHR ''+''"
    using is_digit_not_space s by auto
  moreover have "takeWhile is_digit s = s"
    using assms(2) by (simp add: takeWhile_eq_all_conv list_all_iff)
  ultimately show ?thesis
    using assms(1) by (simp add: c_strtoul_def Let_def del: takeWhile_eq_all_conv)
qed

end
