(* ===== verification/DCC_Snowflake.thy ===== *)
theory DCC_Snowflake
  imports DCC_Prelude
begin

text \<open>
  \<^verbatim>\<open>src/snowflake.c\<close>: parsing of snowflake identifiers and of the Discord mention syntax, and the
  timestamps they carry. The out parameter is a cell: \<open>None\<close> is a \<open>NULL\<close> pointer, \<open>Some v\<close> a
  pointer to storage holding \<open>v\<close>; every operation returns the status and the cell it leaves.
\<close>

section \<open>Definitions\<close>

text \<open>The digit loop of \<open>dcc_snowflake_parse_len\<close>: \<open>None\<close> is its early error return.\<close>

fun snowflake_digits :: "u64 \<Rightarrow> string \<Rightarrow> u64 option" where
  "snowflake_digits value [] = Some value"
| "snowflake_digits value (ch # rest) =
     (if code ch < 48 \<or> code ch > 57 then None
      else let digit = (of_nat (code ch - 48) :: u64) in
        if value > (UINT64_MAX - digit) div 10 then None
        else snowflake_digits (value * 10 + digit) rest)"

definition dcc_snowflake_parse_len ::
  "string option \<Rightarrow> nat \<Rightarrow> snowflake option \<Rightarrow> dcc_status \<times> snowflake option" where
  "dcc_snowflake_parse_len text text_len out =
     (case text of
        None \<Rightarrow> (DCC_ERR_INVALID_ARG, out)
      | Some t \<Rightarrow>
          if text_len = 0 \<or> out = None then (DCC_ERR_INVALID_ARG, out)
          else (case snowflake_digits 0 (take text_len t) of
              None \<Rightarrow> (DCC_ERR_INVALID_ARG, out)
            | Some value \<Rightarrow>
                if value = 0 then (DCC_ERR_INVALID_ARG, out) else (DCC_OK, Some value)))"

definition dcc_snowflake_parse ::
  "string option \<Rightarrow> snowflake option \<Rightarrow> dcc_status \<times> snowflake option" where
  "dcc_snowflake_parse text out =
     (case text of
        None \<Rightarrow> (DCC_ERR_INVALID_ARG, out)
      | Some t \<Rightarrow> dcc_snowflake_parse_len (Some t) (length t) out)"

text \<open>The prefix and suffix are string literals of the callers, never \<open>NULL\<close>.\<close>

definition dcc_snowflake_parse_wrapped ::
  "string option \<Rightarrow> string \<Rightarrow> string \<Rightarrow> snowflake option \<Rightarrow> dcc_status \<times> snowflake option" where
  "dcc_snowflake_parse_wrapped text prefix suffix out =
     (case text of
        None \<Rightarrow> (DCC_ERR_INVALID_ARG, out)
      | Some t \<Rightarrow>
          if out = None then (DCC_ERR_INVALID_ARG, out)
          else if length t \<le> length prefix + length suffix
            \<or> \<not> has_prefix t prefix
            \<or> drop (length t - length suffix) t \<noteq> suffix
          then (DCC_ERR_INVALID_ARG, out)
          else dcc_snowflake_parse_len (Some (drop (length prefix) t))
                 (length t - length prefix - length suffix) out)"

definition dcc_snowflake_parse_user_mention ::
  "string option \<Rightarrow> snowflake option \<Rightarrow> dcc_status \<times> snowflake option" where
  "dcc_snowflake_parse_user_mention text out =
     (let (status, out') = dcc_snowflake_parse_wrapped text ''<@!'' ''>'' out in
      if status = DCC_OK then (status, out')
      else dcc_snowflake_parse_wrapped text ''<@'' ''>'' out')"

definition dcc_snowflake_parse_member_mention ::
  "string option \<Rightarrow> snowflake option \<Rightarrow> dcc_status \<times> snowflake option" where
  "dcc_snowflake_parse_member_mention text out = dcc_snowflake_parse_wrapped text ''<@!'' ''>'' out"

definition dcc_snowflake_parse_role_mention ::
  "string option \<Rightarrow> snowflake option \<Rightarrow> dcc_status \<times> snowflake option" where
  "dcc_snowflake_parse_role_mention text out = dcc_snowflake_parse_wrapped text ''<@&'' ''>'' out"

definition dcc_snowflake_parse_channel_mention ::
  "string option \<Rightarrow> snowflake option \<Rightarrow> dcc_status \<times> snowflake option" where
  "dcc_snowflake_parse_channel_mention text out = dcc_snowflake_parse_wrapped text ''<#'' ''>'' out"

definition dcc_snowflake_parse_any_mention ::
  "string option \<Rightarrow> snowflake option \<Rightarrow> dcc_status \<times> snowflake option" where
  "dcc_snowflake_parse_any_mention text out =
     (let (s1, o1) = dcc_snowflake_parse_channel_mention text out in
      if s1 = DCC_OK then (s1, o1)
      else let (s2, o2) = dcc_snowflake_parse_role_mention text o1 in
      if s2 = DCC_OK then (s2, o2)
      else let (s3, o3) = dcc_snowflake_parse_member_mention text o2 in
      if s3 = DCC_OK then (s3, o3)
      else dcc_snowflake_parse_user_mention text o3)"

definition dcc_snowflake_parse_any ::
  "string option \<Rightarrow> snowflake option \<Rightarrow> dcc_status \<times> snowflake option" where
  "dcc_snowflake_parse_any text out =
     (let (status, out') = dcc_snowflake_parse text out in
      if status = DCC_OK then (status, out')
      else dcc_snowflake_parse_any_mention text out')"

definition DCC_SNOWFLAKE_DISCORD_EPOCH_MS :: u64 where
  "DCC_SNOWFLAKE_DISCORD_EPOCH_MS = 1420070400000"

definition dcc_snowflake_created_at_ms :: "snowflake \<Rightarrow> u64 option \<Rightarrow> dcc_status \<times> u64 option" where
  "dcc_snowflake_created_at_ms snowflake out =
     (if snowflake = 0 \<or> out = None then (DCC_ERR_INVALID_ARG, out)
      else (DCC_OK, Some (drop_bit 22 snowflake + DCC_SNOWFLAKE_DISCORD_EPOCH_MS)))"

text \<open>The result is an \<open>int64_t\<close>; a 64-bit word read with \<open>sint\<close>.\<close>

definition dcc_snowflake_created_at_unix_seconds ::
  "snowflake \<Rightarrow> 64 word option \<Rightarrow> dcc_status \<times> 64 word option" where
  "dcc_snowflake_created_at_unix_seconds snowflake out =
     (let (status, unix_ms) = dcc_snowflake_created_at_ms snowflake (Some 0) in
      if status \<noteq> DCC_OK \<or> out = None then (DCC_ERR_INVALID_ARG, out)
      else (DCC_OK, Some (the unix_ms div 1000)))"

section \<open>The digit loop computes the decimal value, without overflow\<close>

lemma foldl_dec_ge: "a \<le> foldl (\<lambda>a c. a * 10 + (code c - 48)) a s"
proof (induction s arbitrary: a)
  case (Cons c s)
  have "a \<le> a * 10 + (code c - 48)" by simp
  also have "\<dots> \<le> foldl (\<lambda>a c. a * 10 + (code c - 48)) (a * 10 + (code c - 48)) s"
    by (rule Cons.IH)
  finally show ?case by simp
qed simp

lemma digit_guard:
  assumes "d < 10"
  shows "v > (UINT64_MAX - of_nat d) div 10 \<longleftrightarrow> \<not> unat v * 10 + d < 2 ^ 64"
    and "unat v * 10 + d < 2 ^ 64 \<Longrightarrow> unat (v * 10 + of_nat d) = unat v * 10 + d"
proof -
  have d: "unat (of_nat d :: u64) = d"
    using assms by (simp add: unat_of_nat)
  have "unat ((UINT64_MAX - of_nat d) div 10) = (2 ^ 64 - 1 - d) div 10"
    by (simp add: unat_div unat_UINT64_MAX_minus d)
  then show "v > (UINT64_MAX - of_nat d) div 10 \<longleftrightarrow> \<not> unat v * 10 + d < 2 ^ 64"
    using assms by (simp add: word_less_nat_alt div_less_iff_less_mult) arith
  show "unat (v * 10 + of_nat d) = unat v * 10 + d" if "unat v * 10 + d < 2 ^ 64"
    using that d by (simp add: unat_word_ariths)
qed

lemma snowflake_digits_spec:
  "snowflake_digits v s = Some r \<longleftrightarrow>
     list_all is_digit s \<and> foldl (\<lambda>a c. a * 10 + (code c - 48)) (unat v) s < 2 ^ 64
     \<and> unat r = foldl (\<lambda>a c. a * 10 + (code c - 48)) (unat v) s"
proof (induction s arbitrary: v)
  case Nil
  show ?case using unat_u64_less [of v] by (auto simp: word_unat_eq_iff)
next
  case (Cons c s)
  let ?d = "code c - 48"
  show ?case
  proof (cases "is_digit c")
    case False
    then show ?thesis by (auto simp: is_digit_def)
  next
    case True
    then have d: "?d < 10" and c: "\<not> (code c < 48 \<or> code c > 57)"
      by (auto simp: is_digit_def)
    show ?thesis
    proof (cases "unat v * 10 + ?d < 2 ^ 64")
      case fits: True
      then show ?thesis
        using Cons.IH [of "v * 10 + of_nat ?d"] True c digit_guard [OF d, of v]
        by (simp add: Let_def)
    next
      case False
      then have "\<not> foldl (\<lambda>a c. a * 10 + (code c - 48)) (unat v * 10 + ?d) s < 2 ^ 64"
        using foldl_dec_ge [of "unat v * 10 + ?d" s] by linarith
      then show ?thesis
        using False c digit_guard(1) [OF d, of v] by (simp add: Let_def)
    qed
  qed
qed

lemma snowflake_digits_zero:
  "snowflake_digits 0 s = Some r \<longleftrightarrow> list_all is_digit s \<and> dec_value s < 2 ^ 64 \<and> unat r = dec_value s"
  using snowflake_digits_spec [of 0 s r] by (simp add: dec_value_def)

text \<open>The failing cases of \<open>dcc_snowflake_parse_len\<close> all leave the cell alone.\<close>

lemma parse_len_cases:
  "dcc_snowflake_parse_len (Some t) n (Some w) =
     (if 0 < n \<and> list_all is_digit (take n t) \<and> 0 < dec_value (take n t) \<and> dec_value (take n t) < 2 ^ 64
      then (DCC_OK, Some (of_nat (dec_value (take n t))))
      else (DCC_ERR_INVALID_ARG, Some w))"
proof (cases "snowflake_digits 0 (take n t)")
  case None
  have "\<not> (list_all is_digit (take n t) \<and> dec_value (take n t) < 2 ^ 64)"
  proof
    assume "list_all is_digit (take n t) \<and> dec_value (take n t) < 2 ^ 64"
    then have "snowflake_digits 0 (take n t) = Some (of_nat (dec_value (take n t)))"
      by (simp add: snowflake_digits_zero unat_of_nat)
    with None show False by simp
  qed
  with None show ?thesis by (auto simp: dcc_snowflake_parse_len_def)
next
  case (Some r)
  then have *: "list_all is_digit (take n t)" "dec_value (take n t) < 2 ^ 64" "unat r = dec_value (take n t)"
    by (simp_all add: snowflake_digits_zero)
  then have "r = of_nat (dec_value (take n t))"
    by (metis word_unat_eq_iff unat_of_nat_eq_u64)
  moreover have "r = 0 \<longleftrightarrow> dec_value (take n t) = 0"
    using *(3) by (simp add: word_unat_eq_iff)
  ultimately show ?thesis
    using Some * by (auto simp: dcc_snowflake_parse_len_def)
qed

lemma parse_wrapped_cases:
  "dcc_snowflake_parse_wrapped (Some t) p q (Some w) =
     (if \<exists>m. t = p @ m @ q \<and> m \<noteq> [] \<and> list_all is_digit m \<and> 0 < dec_value m \<and> dec_value m < 2 ^ 64
      then (DCC_OK, Some (of_nat (dec_value (take (length t - length p - length q) (drop (length p) t)))))
      else (DCC_ERR_INVALID_ARG, Some w))"
  (is "?lhs = ?rhs")
proof -
  let ?m = "take (length t - length p - length q) (drop (length p) t)"
  let ?shape = "length p + length q < length t \<and> has_prefix t p \<and> drop (length t - length q) t = q"
  have shape: "?shape \<longleftrightarrow> t = p @ ?m @ q \<and> ?m \<noteq> []"
  proof
    assume A: ?shape
    then obtain r where r: "t = p @ r" by (auto simp: has_prefix_iff)
    with A have "length q < length r" and "drop (length t - length q) t = q" by simp_all
    with r have "drop (length r - length q) r = q"
      by (simp add: drop_append)
    then have "r = take (length r - length q) r @ q"
      by (metis append_take_drop_id)
    with r A show "t = p @ ?m @ q \<and> ?m \<noteq> []" by auto
  next
    assume A: "t = p @ ?m @ q \<and> ?m \<noteq> []"
    define m where "m = ?m"
    with A have "t = p @ m @ q" "m \<noteq> []" by simp_all
    then show ?shape by simp
  qed
  have uniq: "m = ?m" if "t = p @ m @ q" for m
    using that by simp
  show ?thesis
  proof (cases ?shape)
    case True
    then have m: "t = p @ ?m @ q" "?m \<noteq> []"
      using shape by blast+
    have "?lhs = dcc_snowflake_parse_len (Some (drop (length p) t)) (length t - length p - length q) (Some w)"
      using True by (simp add: dcc_snowflake_parse_wrapped_def)
    also have "\<dots> = ?rhs"
      using m uniq True by (auto simp: parse_len_cases)
    finally show ?thesis .
  next
    case False
    then have "\<not> (t = p @ ?m @ q \<and> ?m \<noteq> [])"
      using shape by blast
    then have "\<nexists>m. t = p @ m @ q \<and> m \<noteq> []"
      using uniq by metis
    then show ?thesis
      using False by (auto simp: dcc_snowflake_parse_wrapped_def)
  qed
qed

section \<open>Properties\<close>

text \<open>The number a text denotes between a prefix and a suffix, as a snowflake.\<close>

definition denotes :: "string \<Rightarrow> string \<Rightarrow> string \<Rightarrow> snowflake \<Rightarrow> bool" where
  "denotes p q t v \<longleftrightarrow>
     (\<exists>m. t = p @ m @ q \<and> m \<noteq> [] \<and> list_all is_digit m \<and> v \<noteq> 0 \<and> dec_value m = unat v)"

definition mention_forms :: "(string \<times> string) list" where
  "mention_forms =
     [([], []), (''<#'', ''>''), (''<@&'', ''>''), (''<@!'', ''>''), (''<@'', ''>'')]"

lemma eq_of_nat_iff:
  "n < 2 ^ 64 \<and> (v :: u64) = of_nat n \<longleftrightarrow> n = unat v"
proof
  assume "n < 2 ^ 64 \<and> v = of_nat n"
  then show "n = unat v" by (simp only: unat_of_nat_eq_u64)
next
  assume "n = unat v"
  then show "n < 2 ^ 64 \<and> v = of_nat n"
    using unat_u64_less [of v] by (simp add: word_unat_eq_iff unat_of_nat_eq_u64 del: unat_of_nat)
qed

lemma denotes_iff:
  "denotes p q t v \<longleftrightarrow>
     (\<exists>m. t = p @ m @ q \<and> m \<noteq> [] \<and> list_all is_digit m \<and> 0 < dec_value m \<and> dec_value m < 2 ^ 64
        \<and> v = of_nat (dec_value m))"
proof -
  have "v \<noteq> 0 \<and> dec_value m = unat v \<longleftrightarrow> 0 < dec_value m \<and> dec_value m < 2 ^ 64 \<and> v = of_nat (dec_value m)" for m
    unfolding eq_of_nat_iff using unat_u64_less [of v] by (auto simp: word_unat_eq_iff)
  then show ?thesis by (auto simp: denotes_def)
qed

lemma parse_wrapped_denotes:
  "dcc_snowflake_parse_wrapped (Some t) p q (Some w) = (DCC_OK, Some v) \<longleftrightarrow> denotes p q t v"
  unfolding parse_wrapped_cases denotes_iff by auto

lemma parse_wrapped_result:
  "dcc_snowflake_parse_wrapped (Some t) p q (Some w) = (DCC_ERR_INVALID_ARG, Some w)
   \<and> (\<forall>v. \<not> denotes p q t v)
   \<or> (\<exists>v. dcc_snowflake_parse_wrapped (Some t) p q (Some w) = (DCC_OK, Some v) \<and> denotes p q t v)"
proof (cases "\<exists>v. denotes p q t v")
  case True
  then show ?thesis using parse_wrapped_denotes [of t p q w] by metis
next
  case False
  then show ?thesis by (auto simp: parse_wrapped_cases denotes_iff)
qed

lemma parse_result:
  "dcc_snowflake_parse (Some t) (Some w) = (DCC_ERR_INVALID_ARG, Some w) \<and> (\<forall>v. \<not> denotes [] [] t v)
   \<or> (\<exists>v. dcc_snowflake_parse (Some t) (Some w) = (DCC_OK, Some v) \<and> denotes [] [] t v)"
  by (auto simp: dcc_snowflake_parse_def parse_len_cases denotes_iff)

lemma denotes_unique: "denotes p q t v \<Longrightarrow> denotes p q t v' \<Longrightarrow> v = v'"
  by (auto simp: denotes_def word_unat_eq_iff)

text \<open>A digit cannot be confused with the sigil that distinguishes the forms.\<close>

lemma digits_Cons: "m \<noteq> [] \<Longrightarrow> list_all is_digit m \<Longrightarrow> \<exists>d m'. m = d # m' \<and> 48 \<le> code d \<and> code d \<le> 57"
  by (cases m) (auto simp: is_digit_def)

lemma denotes_forms_disjoint:
  assumes "(p, q) \<in> set mention_forms" "(p', q') \<in> set mention_forms"
    and "denotes p q t v" "denotes p' q' t v'"
  shows "p = p'"
proof -
  from assms(3) obtain d m where m: "t = p @ (d # m) @ q" "48 \<le> code d" "code d \<le> 57"
    unfolding denotes_def using digits_Cons by metis
  from assms(4) obtain d' m' where m': "t = p' @ (d' # m') @ q'" "48 \<le> code d'" "code d' \<le> 57"
    unfolding denotes_def using digits_Cons by metis
  show ?thesis
    using m m' assms(1,2) by (auto simp: mention_forms_def)
qed

lemma wrapped_or_else:
  "(let (s, r) = dcc_snowflake_parse_wrapped (Some t) p q (Some w) in if s = DCC_OK then (s, r) else k r)
     = (DCC_OK, Some v) \<longleftrightarrow>
   denotes p q t v \<or> (\<forall>u. \<not> denotes p q t u) \<and> k (Some w) = (DCC_OK, Some v)"
  using parse_wrapped_result [of t p q w] denotes_unique [of p q t] by (auto simp: Let_def)

lemma any_mention_denotes:
  "dcc_snowflake_parse_any_mention (Some t) (Some w) = (DCC_OK, Some v) \<longleftrightarrow>
     (denotes ''<#'' ''>'' t v \<or> denotes ''<@&'' ''>'' t v \<or> denotes ''<@!'' ''>'' t v \<or> denotes ''<@'' ''>'' t v)"
proof -
  note d = denotes_forms_disjoint [of _ _ _ _ t, unfolded mention_forms_def]
  have "dcc_snowflake_parse_any_mention (Some t) (Some w) = (DCC_OK, Some v) \<longleftrightarrow>
      denotes ''<#'' ''>'' t v \<or> (\<forall>u. \<not> denotes ''<#'' ''>'' t u) \<and>
      (denotes ''<@&'' ''>'' t v \<or> (\<forall>u. \<not> denotes ''<@&'' ''>'' t u) \<and>
      (denotes ''<@!'' ''>'' t v \<or> (\<forall>u. \<not> denotes ''<@!'' ''>'' t u) \<and> denotes ''<@'' ''>'' t v))"
    unfolding dcc_snowflake_parse_any_mention_def dcc_snowflake_parse_user_mention_def
      dcc_snowflake_parse_channel_mention_def dcc_snowflake_parse_role_mention_def
      dcc_snowflake_parse_member_mention_def wrapped_or_else parse_wrapped_denotes
    by blast
  moreover have "\<not> (denotes ''<#'' ''>'' t u \<and> (denotes ''<@&'' ''>'' t v \<or> denotes ''<@!'' ''>'' t v \<or> denotes ''<@'' ''>'' t v))" for u
    using d [of "''<#''" "''>''"] by auto
  moreover have "\<not> (denotes ''<@&'' ''>'' t u \<and> (denotes ''<@!'' ''>'' t v \<or> denotes ''<@'' ''>'' t v))" for u
    using d [of "''<@&''" "''>''"] by auto
  moreover have "\<not> (denotes ''<@!'' ''>'' t u \<and> denotes ''<@'' ''>'' t v)" for u
    using d [of "''<@!''" "''>''"] by auto
  ultimately show ?thesis by blast
qed

lemma parse_any_denotes:
  "dcc_snowflake_parse_any (Some t) (Some w) = (DCC_OK, Some v) \<longleftrightarrow>
     (\<exists>(p, q) \<in> set mention_forms. denotes p q t v)"
proof -
  note d = denotes_forms_disjoint [of "[]" "[]" _ _ t]
  consider (plain) u where "dcc_snowflake_parse (Some t) (Some w) = (DCC_OK, Some u)" "denotes [] [] t u"
    | (other) "dcc_snowflake_parse (Some t) (Some w) = (DCC_ERR_INVALID_ARG, Some w)" "\<forall>v. \<not> denotes [] [] t v"
    using parse_result [of t w] by blast
  then show ?thesis
  proof cases
    case plain
    then have "(\<exists>(p, q) \<in> set mention_forms. denotes p q t v) \<longleftrightarrow> denotes [] [] t v"
      using d by (fastforce simp: mention_forms_def)
    also have "\<dots> \<longleftrightarrow> u = v" using plain denotes_unique by blast
    finally show ?thesis using plain by (simp add: dcc_snowflake_parse_any_def)
  next
    case other
    then show ?thesis
      by (auto simp: dcc_snowflake_parse_any_def any_mention_denotes mention_forms_def)
  qed
qed

lemma denotes_dec_string: "v \<noteq> 0 \<Longrightarrow> denotes p q (p @ dec_string (unat v) @ q) v"
  by (auto simp: denotes_def)

lemma unat_created_at:
  "unat (drop_bit 22 (x :: u64) + DCC_SNOWFLAKE_DISCORD_EPOCH_MS) = unat x div 2 ^ 22 + 1420070400000"
proof -
  have 1: "unat (drop_bit 22 x) = unat x div 2 ^ 22"
    unfolding unat_drop_bit_eq by (rule drop_bit_eq_div)
  have "unat x div 2 ^ 22 < 2 ^ 42"
    using unat_u64_less [of x] by (simp add: div_less_iff_less_mult)
  then show ?thesis
    by (simp add: unat_word_ariths 1 DCC_SNOWFLAKE_DISCORD_EPOCH_MS_def)
qed

text \<open>
  C35. \<open>dcc_snowflake_parse\<close> accepts exactly the non-empty digit strings whose decimal value is
  positive and fits in 64 bits, stores that value (no wrap-around), and on every other input
  reports \<open>DCC_ERR_INVALID_ARG\<close> and leaves the caller's cell unchanged.
\<close>

theorem snowflake_parse_correct:
  "dcc_snowflake_parse (Some t) (Some w) =
     (if t \<noteq> [] \<and> list_all is_digit t \<and> 0 < dec_value t \<and> dec_value t < 2 ^ 64
      then (DCC_OK, Some (of_nat (dec_value t)))
      else (DCC_ERR_INVALID_ARG, Some w))"
  by (auto simp: dcc_snowflake_parse_def parse_len_cases)

text \<open>
  \<open>dcc_snowflake_parse_any\<close> succeeds with \<open>v\<close> exactly when the text is a decimal numeral of
  the non-zero \<open>v\<close>, bare or wrapped as a channel, role, member or user mention; the five forms
  never overlap, so the order in which the code tries them cannot change the answer.
\<close>

theorem snowflake_parse_any_iff:
  "dcc_snowflake_parse_any (Some t) (Some w) = (DCC_OK, Some v) \<longleftrightarrow>
     (\<exists>(p, q) \<in> set mention_forms. denotes p q t v)"
  by (rule parse_any_denotes)

text \<open>
  Printing and parsing round-trip: for every non-zero snowflake, its decimal numeral in any of
  the five forms is parsed back to the same snowflake.
\<close>

theorem snowflake_parse_any_roundtrip:
  assumes "v \<noteq> 0" and "(p, q) \<in> set mention_forms"
  shows "dcc_snowflake_parse_any (Some (p @ dec_string (unat v) @ q)) (Some w) = (DCC_OK, Some v)"
  using denotes_dec_string [OF assms(1)] assms(2) unfolding parse_any_denotes by blast

theorem snowflake_parse_any_roundtrip_witness:
  "(175928847299117063 :: snowflake) \<noteq> 0 \<and> (''<@'', ''>'') \<in> set mention_forms \<and>
   dcc_snowflake_parse_any (Some (''<@'' @ dec_string (unat (175928847299117063 :: snowflake)) @ ''>'')) (Some 0)
     = (DCC_OK, Some 175928847299117063)"
  using snowflake_parse_any_roundtrip [of 175928847299117063 "''<@''" "''>''" 0]
  by (simp add: mention_forms_def)

text \<open>
  The creation time of a non-zero snowflake is its upper 42 bits plus the Discord epoch, with
  no 64-bit overflow; the seconds variant is that time divided by 1000 and is non-negative as an
  \<open>int64_t\<close>; and later identifiers never have earlier creation times.
\<close>

theorem snowflake_created_at:
  assumes "x \<noteq> 0" and "x \<le> y"
  shows "\<exists>mx my sx.
      dcc_snowflake_created_at_ms x (Some w) = (DCC_OK, Some mx)
    \<and> dcc_snowflake_created_at_ms y (Some w) = (DCC_OK, Some my)
    \<and> unat mx = unat x div 2 ^ 22 + 1420070400000 \<and> mx \<le> my
    \<and> dcc_snowflake_created_at_unix_seconds x (Some w) = (DCC_OK, Some sx)
    \<and> unat sx = unat mx div 1000 \<and> unat sx < 2 ^ 63"
proof -
  let ?f = "\<lambda>x :: u64. drop_bit 22 x + DCC_SNOWFLAKE_DISCORD_EPOCH_MS"
  have y: "y \<noteq> 0"
    using assms by (auto simp: word_le_nat_alt word_unat_eq_iff)
  have mono: "?f x \<le> ?f y"
    using assms(2) by (simp add: word_le_nat_alt unat_created_at div_le_mono)
  have s: "unat (?f x div 1000) = unat (?f x) div 1000"
    by (simp add: unat_div)
  have "unat (?f x) div 1000 < 2 ^ 63"
    using unat_u64_less [of "?f x"] by (simp add: div_less_iff_less_mult)
  then show ?thesis
    using assms(1) y mono s
    by (simp add: dcc_snowflake_created_at_ms_def dcc_snowflake_created_at_unix_seconds_def unat_created_at)
qed

theorem snowflake_created_at_witness:
  "(175928847299117063 :: snowflake) \<noteq> 0 \<and> (175928847299117063 :: snowflake) \<le> 175928847299117064 \<and>
   (\<exists>mx. dcc_snowflake_created_at_ms 175928847299117063 (Some 0) = (DCC_OK, Some mx)
       \<and> unat mx = 1462015105796)"
  using snowflake_created_at [of 175928847299117063 175928847299117064 0] by auto

end
