(* ===== verification/DCC_Object_Store.thy ===== *)
theory DCC_Object_Store
  imports DCC_Prelude
begin

text \<open>
  The interface between the object cache and its table: a keyed store of bounded capacity whose
  entries carry sequence numbers. Its abstract state is an association list, the last key stored
  first; an insertion puts its key in front and cuts the list at the capacity, so that the keys
  stored longest ago are the ones that go. The laws are what \<^verbatim>\<open>src/cache/cache_objects_*.c\<close> relies
  on; the lemmas of the locale, proved once from the laws, compare any history of insertions and
  removals with that list.
\<close>

section \<open>The reference\<close>

definition drop_key :: "'k \<Rightarrow> ('k \<times> 'v) list \<Rightarrow> ('k \<times> 'v) list" where
  "drop_key k xs = filter (\<lambda>(k', v). k' \<noteq> k) xs"

definition bounded_put :: "nat \<Rightarrow> 'k \<Rightarrow> 'v \<Rightarrow> ('k \<times> 'v) list \<Rightarrow> ('k \<times> 'v) list" where
  "bounded_put cap k v xs =
     (let ys = (k, v) # drop_key k xs in if cap = 0 then ys else take cap ys)"

lemma drop_key_Nil [simp]: "drop_key k [] = []"
  by (simp add: drop_key_def)

lemma map_of_drop_key: "map_of (drop_key k xs) = (map_of xs)(k := None)"
  by (induction xs) (auto simp: drop_key_def)

lemma length_drop_key: "length (drop_key k xs) \<le> length xs"
  by (simp add: drop_key_def)

lemma length_bounded_put: "cap \<noteq> 0 \<Longrightarrow> length (bounded_put cap k v xs) \<le> cap"
  by (simp add: bounded_put_def Let_def)

lemma map_of_take_le: "distinct (map fst xs) \<Longrightarrow> map_of (take n xs) \<subseteq>\<^sub>m map_of xs"
proof -
  assume d: "distinct (map fst xs)"
  have "map_of xs k = Some v" if "map_of (take n xs) k = Some v" for k v
    using in_set_takeD [OF map_of_SomeD [OF that]] d by (rule map_of_is_SomeI [rotated])
  then show ?thesis by (auto simp: map_le_def)
qed

lemma distinct_bounded_put:
  "distinct (map fst xs) \<Longrightarrow> distinct (map fst (bounded_put cap k v xs))"
proof -
  assume "distinct (map fst xs)"
  then have "distinct (map fst ((k, v) # drop_key k xs))"
    by (induction xs) (auto simp: drop_key_def)
  then show ?thesis
    by (auto simp: bounded_put_def Let_def take_map [symmetric] intro: distinct_take)
qed

lemma distinct_drop_key: "distinct (map fst xs) \<Longrightarrow> distinct (map fst (drop_key k xs))"
  by (induction xs) (auto simp: drop_key_def)

section \<open>Histories\<close>

text \<open>
  A history runs on the store, the sequence counter and the two references of the caller: the
  bounded list and the unbounded map. An insertion is numbered by the incremented counter, and only
  a successful one is recorded. The tables of a cache share the counter: \<open>Elsewhere\<close> is an
  insertion into another table.
\<close>

datatype ('a, 'k, 'v) store_op = Put 'a 'k 'v | Remove 'k | Elsewhere

type_synonym ('t, 'k, 'v) store_run = "'t \<times> u64 \<times> ('k \<times> 'v) list \<times> ('k \<rightharpoonup> 'v)"

fun store_step ::
  "('a \<Rightarrow> 't \<Rightarrow> 'k \<Rightarrow> 'v \<Rightarrow> u64 \<Rightarrow> nat \<Rightarrow> dcc_status \<times> 't) \<Rightarrow> ('t \<Rightarrow> 'k \<Rightarrow> 't) \<Rightarrow> nat
    \<Rightarrow> ('t, 'k, 'v) store_run \<Rightarrow> ('a, 'k, 'v) store_op \<Rightarrow> ('t, 'k, 'v) store_run" where
  "store_step put remove cap (t, s, xs, m) (Put a k v) =
     (let (st, t') = put a t k v (s + 1) cap in
      if st = DCC_OK then (t', s + 1, bounded_put cap k v xs, m(k \<mapsto> v)) else (t', s + 1, xs, m))"
| "store_step put remove cap (t, s, xs, m) (Remove k) = (remove t k, s, drop_key k xs, m(k := None))"
| "store_step put remove cap (t, s, xs, m) Elsewhere = (t, s + 1, xs, m)"

definition run_store ::
  "('a \<Rightarrow> 't \<Rightarrow> 'k \<Rightarrow> 'v \<Rightarrow> u64 \<Rightarrow> nat \<Rightarrow> dcc_status \<times> 't) \<Rightarrow> ('t \<Rightarrow> 'k \<Rightarrow> 't) \<Rightarrow> nat
    \<Rightarrow> ('t, 'k, 'v) store_run \<Rightarrow> ('a, 'k, 'v) store_op list \<Rightarrow> ('t, 'k, 'v) store_run" where
  "run_store put remove cap = foldl (store_step put remove cap)"

section \<open>The interface\<close>

locale object_store =
  fixes inv :: "'t \<Rightarrow> bool"
    and contents :: "'t \<Rightarrow> ('k \<times> 'v) list"
    and newest :: "'t \<Rightarrow> u64 \<Rightarrow> bool"
    and put :: "'a \<Rightarrow> 't \<Rightarrow> 'k \<Rightarrow> 'v \<Rightarrow> u64 \<Rightarrow> nat \<Rightarrow> dcc_status \<times> 't"
    and remove :: "'t \<Rightarrow> 'k \<Rightarrow> 't"
  assumes put_inv: "inv t \<Longrightarrow> put a t k v s n = (st, t') \<Longrightarrow> inv t'"
    and put_contents: "inv t \<Longrightarrow> newest t s \<Longrightarrow> put a t k v s n = (DCC_OK, t')
      \<Longrightarrow> contents t' = bounded_put n k v (contents t)"
    and put_fails: "inv t \<Longrightarrow> newest t s \<Longrightarrow> put a t k v s n = (st, t') \<Longrightarrow> st \<noteq> DCC_OK \<Longrightarrow> contents t' = contents t"
    and put_ages: "inv t \<Longrightarrow> newest t s \<Longrightarrow> s < s' \<Longrightarrow> put a t k v s n = (st, t') \<Longrightarrow> newest t' s'"
    and ages: "newest t s \<Longrightarrow> s < s' \<Longrightarrow> newest t s'"
    and remove_inv: "inv t \<Longrightarrow> inv (remove t k)"
    and remove_contents: "inv t \<Longrightarrow> newest t s \<Longrightarrow> contents (remove t k) = drop_key k (contents t)"
    and remove_ages: "inv t \<Longrightarrow> newest t s \<Longrightarrow> newest (remove t k) s"
begin

definition coherent :: "nat \<Rightarrow> ('t, 'k, 'v) store_run \<Rightarrow> bool" where
  "coherent cap = (\<lambda>(t, s, xs, m).
     inv t \<and> newest t (s + 1) \<and> contents t = xs \<and> distinct (map fst xs) \<and> (cap \<noteq> 0 \<longrightarrow> length xs \<le> cap)
     \<and> map_of xs \<subseteq>\<^sub>m m \<and> (cap = 0 \<longrightarrow> map_of xs = m))"

lemma succ_less: "unat (s :: u64) + 1 < 2 ^ 64 \<Longrightarrow> s < s + 1 \<and> unat (s + 1) = unat s + 1"
proof -
  assume "unat s + 1 < 2 ^ 64"
  then have "unat (s + 1) = unat s + 1"
    by (subst unat_add_lem [THEN iffD1]) auto
  then show ?thesis by (simp add: word_less_nat_alt)
qed

text \<open>The bounded list stays within the unbounded map.\<close>

lemma bounded_put_map:
  assumes "distinct (map fst xs)" "map_of xs \<subseteq>\<^sub>m m" "cap = 0 \<longrightarrow> map_of xs = m"
  shows "map_of (bounded_put cap k v xs) \<subseteq>\<^sub>m m(k \<mapsto> v) \<and> (cap = 0 \<longrightarrow> map_of (bounded_put cap k v xs) = m(k \<mapsto> v))"
proof -
  let ?ys = "(k, v) # drop_key k xs"
  have "distinct (map fst ?ys)"
    using distinct_bounded_put [OF assms(1), of 0 k v] by (simp add: bounded_put_def)
  then have "map_of (bounded_put cap k v xs) \<subseteq>\<^sub>m map_of ?ys"
    using map_of_take_le [of ?ys cap] by (simp add: bounded_put_def Let_def)
  moreover have "map_of ?ys \<subseteq>\<^sub>m m(k \<mapsto> v)"
    using assms(2) by (auto simp: map_of_drop_key map_le_def)
  moreover have "map_of (bounded_put 0 k v xs) = (map_of xs)(k \<mapsto> v)"
    by (auto simp: bounded_put_def map_of_drop_key)
  ultimately show ?thesis using assms(3) map_le_trans by fastforce
qed

lemma step_coherent:
  assumes "coherent cap (t, s, xs, m)" "unat s + 2 < 2 ^ 64"
  shows "coherent cap (store_step put remove cap (t, s, xs, m) op)
    \<and> unat (fst (snd (store_step put remove cap (t, s, xs, m) op))) \<le> unat s + 1"
proof -
  have c: "inv t" "newest t (s + 1)" "contents t = xs" "distinct (map fst xs)"
    "cap \<noteq> 0 \<longrightarrow> length xs \<le> cap" "map_of xs \<subseteq>\<^sub>m m" "cap = 0 \<longrightarrow> map_of xs = m"
    using assms(1) by (simp_all add: coherent_def)
  have s: "unat (s + 1) = unat s + 1" "s + 1 < s + 1 + 1"
    using succ_less [of s] succ_less [of "s + 1"] assms(2) by auto
  show ?thesis
  proof (cases op)
    case (Put a k v)
    obtain st t' where p: "put a t k v (s + 1) cap = (st, t')" by fastforce
    have aged: "newest t' (s + 1 + 1)" using put_ages [OF c(1,2) s(2) p] .
    show ?thesis
    proof (cases "st = DCC_OK")
      case True
      then have "contents t' = bounded_put cap k v xs"
        using put_contents [OF c(1,2), of a k v cap t'] p c(3) by simp
      then show ?thesis
        using Put p True put_inv [OF c(1) p] aged s bounded_put_map [OF c(4,6,7), of k v]
          distinct_bounded_put [OF c(4)] length_bounded_put [of cap k v xs]
        by (simp add: coherent_def)
    next
      case False
      then show ?thesis
        using Put p put_inv [OF c(1) p] put_fails [OF c(1,2) p False] c aged s by (simp add: coherent_def)
    qed
  next
    case (Remove k)
    have "map_of (drop_key k xs) \<subseteq>\<^sub>m m(k := None)"
      using c(6) by (auto simp: map_of_drop_key map_le_def)
    then show ?thesis
      using c Remove length_drop_key [of k xs] distinct_drop_key [OF c(4), of k]
      by (auto simp: coherent_def remove_inv remove_contents remove_ages map_of_drop_key)
  next
    case Elsewhere
    then show ?thesis using c ages [OF c(2) s(2)] s by (simp add: coherent_def)
  qed
qed

lemma run_coherent:
  assumes "coherent cap (t, s, xs, m)" "unat s + length ops + 1 < 2 ^ 64"
  shows "coherent cap (run_store put remove cap (t, s, xs, m) ops)"
  using assms
proof (induction ops arbitrary: t s xs m)
  case Nil
  then show ?case by (simp add: run_store_def)
next
  case (Cons op ops)
  obtain t1 s1 xs1 m1 where r: "store_step put remove cap (t, s, xs, m) op = (t1, s1, xs1, m1)" by (metis surj_pair)
  have "coherent cap (t1, s1, xs1, m1) \<and> unat s1 \<le> unat s + 1"
    using step_coherent [OF Cons.prems(1), of op] Cons.prems(2) r by simp
  then have "coherent cap (run_store put remove cap (t1, s1, xs1, m1) ops)"
    using Cons.IH [of t1 s1 xs1 m1] Cons.prems(2) by simp
  then show ?case by (simp add: run_store_def r)
qed

text \<open>The store holds exactly what the bounded list holds, in its order.\<close>

lemma run_sound:
  assumes "inv t" "newest t (s + 1)" "contents t = []" "unat s + length ops + 1 < 2 ^ 64"
    and "run_store put remove cap (t, s, [], Map.empty) ops = (t', s', xs, m)"
  shows "inv t' \<and> contents t' = xs \<and> (cap \<noteq> 0 \<longrightarrow> length xs \<le> cap)
    \<and> map_of xs \<subseteq>\<^sub>m m \<and> (cap = 0 \<longrightarrow> map_of xs = m)"
  using run_coherent [of cap t s "[]" Map.empty ops] assms by (auto simp: coherent_def)

end

end
