(* ===== verification/DCC_Cache_Table.thy ===== *)
theory DCC_Cache_Table
  imports DCC_Object_Store
begin

text \<open>
  \<^verbatim>\<open>src/cache/cache_table.c\<close>, \<^verbatim>\<open>cache_table_resize.c\<close>, \<^verbatim>\<open>cache_table_lifecycle.c\<close> and the table
  part of \<^verbatim>\<open>cache_table_sequence.c\<close>: the chained hash table behind the object cache, keyed by a
  pair of snowflakes, growing by doubling and evicting the entry with the smallest sequence number
  when it exceeds its capacity.

  A bucket chain is the list of its entries from the head; \<open>buckets = None\<close> is the \<open>NULL\<close> bucket
  array. The values a \<open>free_value\<close> callback receives are returned in call order, so that ownership
  can be stated. The two calls of \<open>calloc\<close> (bucket array, entry) are boolean arguments.
\<close>

section \<open>Data\<close>

record 'v dcc_cache_entry =
  major :: snowflake
  minor :: snowflake
  entry_sequence :: u64
  entry_value :: 'v

record 'v dcc_cache_table =
  buckets :: "'v dcc_cache_entry list list option"
  bucket_count :: nat
  table_size :: nat

abbreviation entry_key :: "'v dcc_cache_entry \<Rightarrow> snowflake \<times> snowflake" where
  "entry_key e \<equiv> (major e, minor e)"

definition empty_table :: "'v dcc_cache_table" where
  "empty_table = \<lparr>buckets = None, bucket_count = 0, table_size = 0\<rparr>"

section \<open>Hashing and resizing\<close>

definition DCC_CACHE_INITIAL_BUCKETS :: nat where
  "DCC_CACHE_INITIAL_BUCKETS = 256"

definition dcc_cache_hash_pair :: "snowflake \<Rightarrow> snowflake \<Rightarrow> u64" where
  "dcc_cache_hash_pair mj mn =
     (let x0 = mj + 0x9E3779B97F4A7C15;
          x1 = x0 XOR (mn + 0xBF58476D1CE4E5B9 + push_bit 6 x0 + drop_bit 2 x0);
          x2 = x1 XOR drop_bit 30 x1;
          x3 = x2 * 0xBF58476D1CE4E5B9;
          x4 = x3 XOR drop_bit 27 x3;
          x5 = x4 * 0x94D049BB133111EB
      in x5 XOR drop_bit 31 x5)"

definition bucket_index :: "nat \<Rightarrow> snowflake \<Rightarrow> snowflake \<Rightarrow> nat" where
  "bucket_index n mj mn = unat (dcc_cache_hash_pair mj mn) mod n"

text \<open>The rehash loops: every entry of every chain is pushed on the head of its new chain.\<close>

fun rehash_chain :: "nat \<Rightarrow> 'v dcc_cache_entry list \<Rightarrow> 'v dcc_cache_entry list list \<Rightarrow> 'v dcc_cache_entry list list" where
  "rehash_chain n [] nb = nb"
| "rehash_chain n (e # es) nb =
     (let i = bucket_index n (major e) (minor e) in rehash_chain n es (nb[i := e # nb ! i]))"

fun rehash_buckets :: "nat \<Rightarrow> 'v dcc_cache_entry list list \<Rightarrow> 'v dcc_cache_entry list list \<Rightarrow> 'v dcc_cache_entry list list" where
  "rehash_buckets n [] nb = nb"
| "rehash_buckets n (b # bs) nb = rehash_buckets n bs (rehash_chain n b nb)"

text \<open>\<open>sizeof(*table->buckets)\<close> is the size of a pointer, 8 bytes.\<close>

definition dcc_cache_table_resize ::
  "bool \<Rightarrow> 'v dcc_cache_table \<Rightarrow> nat \<Rightarrow> dcc_status \<times> 'v dcc_cache_table" where
  "dcc_cache_table_resize calloc_ok t n =
     (if n = 0 \<or> n > SIZE_MAX div 8 then (DCC_ERR_NOMEM, t)
      else if \<not> calloc_ok then (DCC_ERR_NOMEM, t)
      else let nb = (case buckets t of
                       None \<Rightarrow> replicate n []
                     | Some bs \<Rightarrow> rehash_buckets n bs (replicate n []))
           in (DCC_OK, t\<lparr>buckets := Some nb, bucket_count := n\<rparr>))"

definition dcc_cache_table_reserve_for_insert ::
  "bool \<Rightarrow> 'v dcc_cache_table \<Rightarrow> dcc_status \<times> 'v dcc_cache_table" where
  "dcc_cache_table_reserve_for_insert calloc_ok t =
     (if bucket_count t = 0 then dcc_cache_table_resize calloc_ok t DCC_CACHE_INITIAL_BUCKETS
      else if bucket_count t > SIZE_MAX div 2 then (DCC_ERR_NOMEM, t)
      else let next_bucket_count = bucket_count t * 2 in
        if table_size t \<le> next_bucket_count then (DCC_OK, t)
        else dcc_cache_table_resize calloc_ok t next_bucket_count)"

section \<open>Eviction\<close>

text \<open>
  The scan for the oldest entry: \<open>best\<close> is the cursor (bucket and position) and the sequence of the
  oldest entry so far; only a strictly smaller sequence replaces it.
\<close>

fun scan_chain :: "nat \<Rightarrow> nat \<Rightarrow> (nat \<times> nat \<times> u64) option \<Rightarrow> 'v dcc_cache_entry list \<Rightarrow> (nat \<times> nat \<times> u64) option" where
  "scan_chain i j best [] = best"
| "scan_chain i j best (e # es) =
     scan_chain i (Suc j)
       (case best of
          None \<Rightarrow> Some (i, j, entry_sequence e)
        | Some (i', j', s) \<Rightarrow> if entry_sequence e < s then Some (i, j, entry_sequence e) else best) es"

fun scan_buckets :: "nat \<Rightarrow> (nat \<times> nat \<times> u64) option \<Rightarrow> 'v dcc_cache_entry list list \<Rightarrow> (nat \<times> nat \<times> u64) option" where
  "scan_buckets i best [] = best"
| "scan_buckets i best (b # bs) = scan_buckets (Suc i) (scan_chain i 0 best b) bs"

text \<open>\<open>None\<close> is the return value 0; \<open>Some\<close> carries the new table and the unlinked entry.\<close>

definition dcc_cache_table_evict_oldest ::
  "'v dcc_cache_table \<Rightarrow> ('v dcc_cache_table \<times> 'v dcc_cache_entry) option" where
  "dcc_cache_table_evict_oldest t =
     (case buckets t of
        None \<Rightarrow> None
      | Some bs \<Rightarrow>
          if bucket_count t = 0 \<or> table_size t = 0 then None
          else (case scan_buckets 0 None bs of
              None \<Rightarrow> None
            | Some (i, j, s) \<Rightarrow>
                Some (t\<lparr>buckets := Some (bs[i := remove_nth j (bs ! i)]), table_size := table_size t - 1\<rparr>,
                      bs ! i ! j)))"

function evict_while :: "'v dcc_cache_table \<Rightarrow> nat \<Rightarrow> 'v dcc_cache_table \<times> 'v dcc_cache_entry list" where
  "evict_while t max_size =
     (if table_size t > max_size then
        (case dcc_cache_table_evict_oldest t of
           None \<Rightarrow> (t, [])
         | Some (t', e) \<Rightarrow> (let (t'', es) = evict_while t' max_size in (t'', e # es)))
      else (t, []))"
  by pat_completeness auto
termination
  by (relation "measure (\<lambda>(t, _). table_size t)")
    (auto simp: dcc_cache_table_evict_oldest_def split: option.splits if_splits)

declare evict_while.simps [simp del]

definition dcc_cache_table_trim ::
  "'v dcc_cache_table \<Rightarrow> nat \<Rightarrow> 'v dcc_cache_table \<times> 'v dcc_cache_entry list" where
  "dcc_cache_table_trim t max_size = (if max_size = 0 then (t, []) else evict_while t max_size)"

section \<open>Insert, lookup, remove, clear\<close>

text \<open>The chain walks: the first entry with the key is overwritten, read or unlinked.\<close>

fun chain_replace ::
  "snowflake \<Rightarrow> snowflake \<Rightarrow> 'v \<Rightarrow> u64 \<Rightarrow> 'v dcc_cache_entry list \<Rightarrow> ('v dcc_cache_entry list \<times> 'v) option" where
  "chain_replace mj mn v s [] = None"
| "chain_replace mj mn v s (e # es) =
     (if major e = mj \<and> minor e = mn
      then Some (e\<lparr>entry_value := v, entry_sequence := s\<rparr> # es, entry_value e)
      else map_option (\<lambda>(es', old). (e # es', old)) (chain_replace mj mn v s es))"

fun chain_get :: "snowflake \<Rightarrow> snowflake \<Rightarrow> 'v dcc_cache_entry list \<Rightarrow> 'v option" where
  "chain_get mj mn [] = None"
| "chain_get mj mn (e # es) =
     (if major e = mj \<and> minor e = mn then Some (entry_value e) else chain_get mj mn es)"

fun chain_remove ::
  "snowflake \<Rightarrow> snowflake \<Rightarrow> 'v dcc_cache_entry list \<Rightarrow> ('v dcc_cache_entry list \<times> 'v) option" where
  "chain_remove mj mn [] = None"
| "chain_remove mj mn (e # es) =
     (if major e = mj \<and> minor e = mn then Some (es, entry_value e)
      else map_option (\<lambda>(es', old). (e # es', old)) (chain_remove mj mn es))"

text \<open>
  \<open>put\<close> returns the status, the table and the values freed. \<open>resize_ok\<close> and \<open>entry_ok\<close> say whether
  the two allocations succeed; a \<open>NULL\<close> value is \<open>None\<close>.
\<close>

definition dcc_cache_table_put ::
  "bool \<Rightarrow> bool \<Rightarrow> 'v dcc_cache_table \<Rightarrow> snowflake \<Rightarrow> snowflake \<Rightarrow> 'v option \<Rightarrow> u64 \<Rightarrow> nat
    \<Rightarrow> dcc_status \<times> 'v dcc_cache_table \<times> 'v list" where
  "dcc_cache_table_put resize_ok entry_ok t mj mn value seq max_size =
     (case value of
        None \<Rightarrow> (DCC_ERR_INVALID_ARG, t, [])
      | Some v \<Rightarrow>
          let (status, t1) = dcc_cache_table_reserve_for_insert resize_ok t in
          if status \<noteq> DCC_OK then (status, t1, [])
          else let index = bucket_index (bucket_count t1) mj mn; bs = the (buckets t1) in
            (case chain_replace mj mn v seq (bs ! index) of
               Some (chain, old) \<Rightarrow>
                 let (t2, evicted) = dcc_cache_table_trim (t1\<lparr>buckets := Some (bs[index := chain])\<rparr>) max_size
                 in (DCC_OK, t2, old # map entry_value evicted)
             | None \<Rightarrow>
                 if \<not> entry_ok then (DCC_ERR_NOMEM, t1, [])
                 else let entry = \<lparr>major = mj, minor = mn, entry_sequence = seq, entry_value = v\<rparr>;
                          (t2, evicted) = dcc_cache_table_trim
                            (t1\<lparr>buckets := Some (bs[index := entry # bs ! index]),
                                table_size := table_size t1 + 1\<rparr>) max_size
                      in (DCC_OK, t2, map entry_value evicted)))"

definition dcc_cache_table_get :: "'v dcc_cache_table \<Rightarrow> snowflake \<Rightarrow> snowflake \<Rightarrow> 'v option" where
  "dcc_cache_table_get t mj mn =
     (case buckets t of
        None \<Rightarrow> None
      | Some bs \<Rightarrow>
          if bucket_count t = 0 then None
          else chain_get mj mn (bs ! bucket_index (bucket_count t) mj mn))"

definition dcc_cache_table_remove ::
  "'v dcc_cache_table \<Rightarrow> snowflake \<Rightarrow> snowflake \<Rightarrow> bool \<times> 'v dcc_cache_table \<times> 'v list" where
  "dcc_cache_table_remove t mj mn =
     (case buckets t of
        None \<Rightarrow> (False, t, [])
      | Some bs \<Rightarrow>
          if bucket_count t = 0 then (False, t, [])
          else let index = bucket_index (bucket_count t) mj mn in
            (case chain_remove mj mn (bs ! index) of
               None \<Rightarrow> (False, t, [])
             | Some (chain, old) \<Rightarrow>
                 (True, t\<lparr>buckets := Some (bs[index := chain]), table_size := table_size t - 1\<rparr>, [old])))"

definition dcc_cache_table_clear :: "'v dcc_cache_table \<Rightarrow> 'v dcc_cache_table \<times> 'v list" where
  "dcc_cache_table_clear t =
     (case buckets t of
        None \<Rightarrow> (t, [])
      | Some bs \<Rightarrow> (t\<lparr>buckets := Some (map (\<lambda>_. []) bs), table_size := 0\<rparr>, map entry_value (concat bs)))"

definition dcc_cache_table_deinit :: "'v dcc_cache_table \<Rightarrow> 'v dcc_cache_table \<times> 'v list" where
  "dcc_cache_table_deinit t =
     (let (t1, freed) = dcc_cache_table_clear t in (t1\<lparr>buckets := None, bucket_count := 0\<rparr>, freed))"

section \<open>Renumbering of the sequence\<close>

fun resequence_chain :: "u64 \<Rightarrow> 'v dcc_cache_entry list \<Rightarrow> u64 \<times> 'v dcc_cache_entry list" where
  "resequence_chain s [] = (s, [])"
| "resequence_chain s (e # es) =
     (let s1 = sat_inc s; (s2, es') = resequence_chain s1 es
      in (s2, e\<lparr>entry_sequence := s1\<rparr> # es'))"

fun resequence_buckets :: "u64 \<Rightarrow> 'v dcc_cache_entry list list \<Rightarrow> u64 \<times> 'v dcc_cache_entry list list" where
  "resequence_buckets s [] = (s, [])"
| "resequence_buckets s (b # bs) =
     (let (s1, b') = resequence_chain s b; (s2, bs') = resequence_buckets s1 bs in (s2, b' # bs'))"

definition dcc_cache_table_resequence :: "'v dcc_cache_table \<Rightarrow> u64 \<Rightarrow> u64 \<times> 'v dcc_cache_table" where
  "dcc_cache_table_resequence t s =
     (case buckets t of
        None \<Rightarrow> (s, t)
      | Some bs \<Rightarrow> (let (s', bs') = resequence_buckets s bs in (s', t\<lparr>buckets := Some bs'\<rparr>)))"

section \<open>Invariant and abstraction\<close>

definition table_entries :: "'v dcc_cache_table \<Rightarrow> 'v dcc_cache_entry list" where
  "table_entries t = (case buckets t of None \<Rightarrow> [] | Some bs \<Rightarrow> concat bs)"

definition well_hashed :: "'v dcc_cache_entry list list \<Rightarrow> bool" where
  "well_hashed bs \<longleftrightarrow>
     (\<forall>i < length bs. \<forall>e \<in> set (bs ! i). bucket_index (length bs) (major e) (minor e) = i)"

definition table_inv :: "'v dcc_cache_table \<Rightarrow> bool" where
  "table_inv t \<longleftrightarrow>
     (case buckets t of
        None \<Rightarrow> bucket_count t = 0 \<and> table_size t = 0
      | Some bs \<Rightarrow> bs \<noteq> [] \<and> bucket_count t = length bs \<and> table_size t = length (concat bs)
          \<and> well_hashed bs \<and> distinct (map entry_key (concat bs)))"

text \<open>The finite map a table stands for.\<close>

definition table_map :: "'v dcc_cache_table \<Rightarrow> snowflake \<times> snowflake \<rightharpoonup> 'v" where
  "table_map t = map_of (map (\<lambda>e. (entry_key e, entry_value e)) (table_entries t))"

lemma table_inv_empty [dcc_inv]: "table_inv empty_table"
  by (simp add: table_inv_def empty_table_def)

lemma bucket_index_less: "0 < n \<Longrightarrow> bucket_index n mj mn < n"
  by (simp add: bucket_index_def)

lemma table_inv_buckets:
  "buckets t = Some bs \<Longrightarrow> table_inv t \<longleftrightarrow>
     bs \<noteq> [] \<and> bucket_count t = length bs \<and> table_size t = length (concat bs)
     \<and> well_hashed bs \<and> distinct (map entry_key (concat bs))"
  by (simp add: table_inv_def)

lemma table_size_entries: "table_inv t \<Longrightarrow> table_size t = length (table_entries t)"
  by (auto simp: table_inv_def table_entries_def split: option.splits)

lemma distinct_table_entries: "table_inv t \<Longrightarrow> distinct (map entry_key (table_entries t))"
  by (auto simp: table_inv_def table_entries_def split: option.splits)

lemma mset_concat_update:
  "i < length bs \<Longrightarrow> mset (concat (bs[i := c])) + mset (bs ! i) = mset (concat bs) + mset c"
proof (induction bs arbitrary: i)
  case (Cons b bs)
  then show ?case by (cases i) (auto simp: ac_simps)
qed simp

lemma distinct_map_mset: "mset xs = mset ys \<Longrightarrow> distinct (map f xs) \<longleftrightarrow> distinct (map f ys)"
  by (metis mset_eq_imp_distinct_iff mset_map)

lemma table_map_iff:
  "table_inv t \<Longrightarrow> table_map t k = Some v \<longleftrightarrow> (\<exists>e \<in> set (table_entries t). entry_key e = k \<and> entry_value e = v)"
  using distinct_table_entries [of t]
  by (auto simp: table_map_def comp_def map_of_eq_Some_iff image_iff)

lemma table_map_None: "table_map t k = None \<longleftrightarrow> (\<forall>e \<in> set (table_entries t). entry_key e \<noteq> k)"
  by (auto simp: table_map_def map_of_eq_None_iff image_image)

lemma table_map_eqI:
  assumes "table_inv t" "table_inv t'" "mset (table_entries t) = mset (table_entries t')"
  shows "table_map t = table_map t'"
proof
  fix k
  have "set (table_entries t) = set (table_entries t')"
    using assms(3) by (rule mset_eq_setD)
  then show "table_map t k = table_map t' k"
    using table_map_iff [OF assms(1), of k] table_map_iff [OF assms(2), of k]
    by (metis option.exhaust)
qed

section \<open>Chains\<close>

lemma chain_get_iff: "chain_get mj mn es = map_of (map (\<lambda>e. (entry_key e, entry_value e)) es) (mj, mn)"
  by (induction es) auto

lemma chain_replace_None: "chain_replace mj mn v s es = None \<longleftrightarrow> (\<forall>e \<in> set es. entry_key e \<noteq> (mj, mn))"
  by (induction es) auto

lemma chain_replace_Some:
  assumes "chain_replace mj mn v s es = Some (es', old)"
  shows "\<exists>xs e ys. es = xs @ e # ys \<and> es' = xs @ e\<lparr>entry_value := v, entry_sequence := s\<rparr> # ys
    \<and> entry_key e = (mj, mn) \<and> old = entry_value e"
  using assms
proof (induction es arbitrary: es')
  case (Cons a es)
  show ?case
  proof (cases "entry_key a = (mj, mn)")
    case True
    with Cons.prems show ?thesis by (intro exI [of _ "[]"]) auto
  next
    case False
    with Cons.prems obtain es1 where es1: "chain_replace mj mn v s es = Some (es1, old)" "es' = a # es1"
      by (auto split: if_splits)
    from Cons.IH [OF es1(1)] obtain xs e ys where
      "es = xs @ e # ys" "es1 = xs @ e\<lparr>entry_value := v, entry_sequence := s\<rparr> # ys"
      "entry_key e = (mj, mn)" "old = entry_value e" by blast
    with es1(2) show ?thesis by (intro exI [of _ "a # xs"]) auto
  qed
qed simp

lemma chain_remove_None: "chain_remove mj mn es = None \<longleftrightarrow> (\<forall>e \<in> set es. entry_key e \<noteq> (mj, mn))"
  by (induction es) auto

lemma chain_remove_Some:
  assumes "chain_remove mj mn es = Some (es', old)"
  shows "\<exists>xs e ys. es = xs @ e # ys \<and> es' = xs @ ys \<and> entry_key e = (mj, mn) \<and> old = entry_value e"
  using assms
proof (induction es arbitrary: es')
  case (Cons a es)
  show ?case
  proof (cases "entry_key a = (mj, mn)")
    case True
    with Cons.prems show ?thesis by (intro exI [of _ "[]"]) auto
  next
    case False
    with Cons.prems obtain es1 where es1: "chain_remove mj mn es = Some (es1, old)" "es' = a # es1"
      by (auto split: if_splits)
    from Cons.IH [OF es1(1)] obtain xs e ys where
      "es = xs @ e # ys" "es1 = xs @ ys" "entry_key e = (mj, mn)" "old = entry_value e" by blast
    with es1(2) show ?thesis by (intro exI [of _ "a # xs"]) auto
  qed
qed simp

section \<open>Updating one chain\<close>

text \<open>
  Every mutation replaces one chain \<open>bs ! i\<close> by a chain whose entries still hash to \<open>i\<close>; the table
  invariant then only needs the entry count and the distinctness of the keys.
\<close>

lemma well_hashed_update:
  assumes "well_hashed bs" "i < length bs" "\<forall>e \<in> set c. bucket_index (length bs) (major e) (minor e) = i"
  shows "well_hashed (bs[i := c])"
  using assms by (auto simp: well_hashed_def nth_list_update)

lemma well_hashed_bucket:
  "well_hashed bs \<Longrightarrow> e \<in> set (concat bs) \<Longrightarrow> e \<in> set (bs ! bucket_index (length bs) (major e) (minor e))"
proof -
  assume wh: "well_hashed bs" and "e \<in> set (concat bs)"
  then obtain i where "i < length bs" "e \<in> set (bs ! i)"
    by (auto simp: in_set_conv_nth [of _ bs])
  with wh show ?thesis by (auto simp: well_hashed_def)
qed

lemma map_of_well_hashed:
  assumes "well_hashed bs" "bs \<noteq> []" "distinct (map entry_key (concat bs))"
  shows "map_of (map (\<lambda>e. (entry_key e, entry_value e)) (bs ! bucket_index (length bs) mj mn)) (mj, mn)
       = map_of (map (\<lambda>e. (entry_key e, entry_value e)) (concat bs)) (mj, mn)"
    (is "map_of (map ?f ?b) _ = _")
proof -
  have i: "bucket_index (length bs) mj mn < length bs"
    using assms(2) by (simp add: bucket_index_less)
  then have b: "?b \<in> set bs" by simp
  have in_iff: "e \<in> set ?b \<longleftrightarrow> e \<in> set (concat bs)" if "entry_key e = (mj, mn)" for e
    using that b well_hashed_bucket [OF assms(1), of e] by auto
  have dc: "distinct (map fst (map ?f (concat bs)))"
    using assms(3) by (simp add: comp_def)
  have "distinct (map entry_key ?b)"
    using assms(3) b by (simp add: map_concat distinct_concat_iff)
  then have db: "distinct (map fst (map ?f ?b))"
    by (simp add: comp_def)
  show ?thesis
  proof (cases "map_of (map ?f (concat bs)) (mj, mn)")
    case None
    then have "\<forall>e \<in> set (concat bs). entry_key e \<noteq> (mj, mn)"
      by (simp add: map_of_eq_None_iff) force
    then have "\<forall>e \<in> set ?b. entry_key e \<noteq> (mj, mn)"
      using in_iff by blast
    then have "map_of (map ?f ?b) (mj, mn) = None"
      by (simp add: map_of_eq_None_iff) force
    with None show ?thesis by simp
  next
    case (Some v)
    then obtain e where "e \<in> set (concat bs)" "entry_key e = (mj, mn)" "entry_value e = v"
      using dc by (auto simp: map_of_eq_Some_iff)
    then have "((mj, mn), v) \<in> set (map ?f ?b)"
      using in_iff by force
    then have "map_of (map ?f ?b) (mj, mn) = Some v"
      using db by (simp only: map_of_eq_Some_iff)
    with Some show ?thesis by simp
  qed
qed

lemma table_get_map: "table_inv t \<Longrightarrow> dcc_cache_table_get t mj mn = table_map t (mj, mn)"
  by (auto simp: dcc_cache_table_get_def table_inv_def table_map_def table_entries_def
      chain_get_iff map_of_well_hashed split: option.splits)

section \<open>Resizing keeps the entries\<close>

lemma concat_replicate_Nil [simp]: "concat (replicate n []) = []"
  by (induction n) auto

lemma rehash_chain_props:
  assumes "length nb = n" "0 < n" "well_hashed nb"
  shows "length (rehash_chain n es nb) = n \<and> well_hashed (rehash_chain n es nb)
    \<and> mset (concat (rehash_chain n es nb)) = mset (concat nb) + mset es"
  using assms
proof (induction es arbitrary: nb)
  case (Cons e es)
  let ?i = "bucket_index n (major e) (minor e)"
  let ?nb = "nb[?i := e # nb ! ?i]"
  have i: "?i < length nb"
    using Cons.prems by (simp add: bucket_index_less)
  have wh: "well_hashed ?nb"
    using Cons.prems i by (intro well_hashed_update) (auto simp: well_hashed_def)
  have "mset (concat ?nb) = mset (concat nb) + {#e#}"
    using mset_concat_update [OF i, of "e # nb ! ?i"] by simp
  then show ?case
    using Cons.IH [of ?nb] Cons.prems wh by (simp add: Let_def)
qed simp

lemma rehash_buckets_props:
  assumes "length nb = n" "0 < n" "well_hashed nb"
  shows "length (rehash_buckets n bs nb) = n \<and> well_hashed (rehash_buckets n bs nb)
    \<and> mset (concat (rehash_buckets n bs nb)) = mset (concat nb) + mset (concat bs)"
  using assms
proof (induction bs arbitrary: nb)
  case (Cons b bs)
  then show ?case
    using rehash_chain_props [OF Cons.prems, of b] Cons.IH [of "rehash_chain n b nb"] by simp
qed simp

lemma resize_props:
  assumes "table_inv t" "dcc_cache_table_resize ok t n = (st, t')"
  shows "table_inv t' \<and> mset (table_entries t') = mset (table_entries t) \<and> (st = DCC_OK \<longrightarrow> buckets t' \<noteq> None)"
proof (cases "n = 0 \<or> n > SIZE_MAX div 8 \<or> \<not> ok")
  case True
  with assms show ?thesis by (auto simp: dcc_cache_table_resize_def split: if_splits)
next
  case False
  define nb where "nb = (case buckets t of None \<Rightarrow> replicate n [] | Some bs \<Rightarrow> rehash_buckets n bs (replicate n []))"
  have t': "t' = t\<lparr>buckets := Some nb, bucket_count := n\<rparr>"
    using False assms(2) by (auto simp: dcc_cache_table_resize_def Let_def nb_def)
  have "well_hashed (replicate n [])"
    by (auto simp: well_hashed_def)
  then have props: "length nb = n \<and> well_hashed nb \<and> mset (concat nb) = mset (table_entries t)"
    using rehash_buckets_props [of "replicate n []" n] False
    by (auto simp: nb_def table_entries_def split: option.splits)
  then have ne: "nb \<noteq> []" using False by auto
  from props have m: "mset (concat nb) = mset (table_entries t)" by blast
  have "distinct (map entry_key (concat nb))"
    using distinct_table_entries [OF assms(1)] distinct_map_mset [OF m, of entry_key] by simp
  moreover have "length (concat nb) = table_size t"
    using table_size_entries [OF assms(1)] mset_eq_length [OF m] by simp
  moreover note props
  ultimately have "table_inv t'" "table_entries t' = concat nb"
    using ne t' by (simp_all add: table_inv_def table_entries_def)
  with m t' show ?thesis by simp
qed

lemma reserve_props:
  assumes "table_inv t" "dcc_cache_table_reserve_for_insert ok t = (st, t')"
  shows "table_inv t' \<and> mset (table_entries t') = mset (table_entries t) \<and> (st = DCC_OK \<longrightarrow> buckets t' \<noteq> None)"
proof -
  have "buckets t \<noteq> None" if "bucket_count t \<noteq> 0"
    using that assms(1) by (auto simp: table_inv_def split: option.splits)
  then show ?thesis
    using assms resize_props [OF assms(1)]
    by (auto simp: dcc_cache_table_reserve_for_insert_def Let_def split: if_splits)
qed

section \<open>Eviction removes a minimum\<close>

lemma scan_chain_props:
  assumes "scan_chain i j0 best es = r"
  shows "(r = None \<longleftrightarrow> best = None \<and> es = [])"
    and "r = Some (i', j', s) \<Longrightarrow>
      (best = Some (i', j', s) \<or> i' = i \<and> j0 \<le> j' \<and> j' < j0 + length es \<and> entry_sequence (es ! (j' - j0)) = s)
      \<and> (\<forall>e \<in> set es. s \<le> entry_sequence e) \<and> (\<forall>a b c. best = Some (a, b, c) \<longrightarrow> s \<le> c)"
proof -
  have "(scan_chain i j0 best es = None \<longleftrightarrow> best = None \<and> es = []) \<and>
     (\<forall>i' j' s. scan_chain i j0 best es = Some (i', j', s) \<longrightarrow>
      (best = Some (i', j', s) \<or> i' = i \<and> j0 \<le> j' \<and> j' < j0 + length es \<and> entry_sequence (es ! (j' - j0)) = s)
      \<and> (\<forall>e \<in> set es. s \<le> entry_sequence e) \<and> (\<forall>a b c. best = Some (a, b, c) \<longrightarrow> s \<le> c))"
  proof (induction es arbitrary: j0 best)
    case Nil
    then show ?case by auto
  next
    case (Cons e es)
    let ?best = "case best of None \<Rightarrow> Some (i, j0, entry_sequence e)
        | Some (i', j', s) \<Rightarrow> if entry_sequence e < s then Some (i, j0, entry_sequence e) else best"
    have nth: "(e # es) ! (j - j0) = es ! (j - Suc j0)" if "Suc j0 \<le> j" for j
      using that by (simp add: nth_Cons')
    show ?case
      using Cons.IH [of "Suc j0" ?best]
      by (cases best) (fastforce simp: nth split: if_splits)+
  qed
  with assms show "(r = None \<longleftrightarrow> best = None \<and> es = [])"
    and "r = Some (i', j', s) \<Longrightarrow>
      (best = Some (i', j', s) \<or> i' = i \<and> j0 \<le> j' \<and> j' < j0 + length es \<and> entry_sequence (es ! (j' - j0)) = s)
      \<and> (\<forall>e \<in> set es. s \<le> entry_sequence e) \<and> (\<forall>a b c. best = Some (a, b, c) \<longrightarrow> s \<le> c)"
    by auto
qed

lemma scan_buckets_props:
  "(scan_buckets i0 best bs = None \<longleftrightarrow> best = None \<and> concat bs = []) \<and>
   (\<forall>i j s. scan_buckets i0 best bs = Some (i, j, s) \<longrightarrow>
      (best = Some (i, j, s) \<or> i0 \<le> i \<and> i < i0 + length bs \<and> j < length (bs ! (i - i0))
         \<and> entry_sequence (bs ! (i - i0) ! j) = s)
      \<and> (\<forall>e \<in> set (concat bs). s \<le> entry_sequence e) \<and> (\<forall>a b c. best = Some (a, b, c) \<longrightarrow> s \<le> c))"
proof (induction bs arbitrary: i0 best)
  case Nil
  then show ?case by auto
next
  case (Cons b bs)
  let ?best = "scan_chain i0 0 best b"
  note IH = Cons.IH [of "Suc i0" ?best]
  note chain = scan_chain_props [of i0 0 best b ?best, OF refl]
  have nth: "(b # bs) ! (i - i0) = bs ! (i - Suc i0)" if "Suc i0 \<le> i" for i
    using that by (simp add: nth_Cons')
  show ?case
  proof (intro conjI allI impI)
    show "scan_buckets i0 best (b # bs) = None \<longleftrightarrow> best = None \<and> concat (b # bs) = []"
      using IH chain(1) by auto
  next
    fix i j s assume r: "scan_buckets i0 best (b # bs) = Some (i, j, s)"
    then have r': "?best = Some (i, j, s) \<or> Suc i0 \<le> i \<and> i < Suc i0 + length bs \<and> j < length (bs ! (i - Suc i0))
         \<and> entry_sequence (bs ! (i - Suc i0) ! j) = s"
      and le: "\<forall>e \<in> set (concat bs). s \<le> entry_sequence e" "\<forall>a b c. ?best = Some (a, b, c) \<longrightarrow> s \<le> c"
      using IH by auto
    from r' show "best = Some (i, j, s) \<or> i0 \<le> i \<and> i < i0 + length (b # bs) \<and> j < length ((b # bs) ! (i - i0))
         \<and> entry_sequence ((b # bs) ! (i - i0) ! j) = s"
      using chain(2) [of i j s] nth by auto
    have bound: "s \<le> entry_sequence e" if "e \<in> set b" for e
    proof (cases ?best)
      case None
      with chain(1) that show ?thesis by simp
    next
      case (Some x)
      obtain a1 a2 c1 where x: "x = (a1, a2, c1)" by (cases x)
      have "s \<le> c1" using le(2) Some x by simp
      also have "c1 \<le> entry_sequence e" using chain(2) [of a1 a2 c1] Some x that by simp
      finally show ?thesis .
    qed
    with le(1) show "\<forall>e \<in> set (concat (b # bs)). s \<le> entry_sequence e" by auto
    show "s \<le> c" if "best = Some (a, b', c)" for a b' c
    proof (cases ?best)
      case None
      with chain(1) that show ?thesis by simp
    next
      case (Some x)
      obtain a1 a2 c1 where x: "x = (a1, a2, c1)" by (cases x)
      have "s \<le> c1" using le(2) Some x by simp
      also have "c1 \<le> c" using chain(2) [of a1 a2 c1] Some x that by simp
      finally show ?thesis .
    qed
  qed
qed

text \<open>Removing one entry from a chain keeps the table invariant.\<close>

lemma table_inv_shrink_chain:
  assumes "table_inv t" "buckets t = Some bs" "i < length bs"
    and "add_mset e (mset chain) = mset (bs ! i)" "set chain \<subseteq> set (bs ! i)"
    and "t' = t\<lparr>buckets := Some (bs[i := chain]), table_size := table_size t - 1\<rparr>"
  shows "table_inv t' \<and> add_mset e (mset (table_entries t')) = mset (table_entries t)
    \<and> Suc (table_size t') = table_size t"
proof -
  have inv: "bs \<noteq> []" "bucket_count t = length bs" "table_size t = length (concat bs)" "well_hashed bs"
      "distinct (map entry_key (concat bs))"
    using assms(1,2) by (simp_all add: table_inv_buckets)
  have "mset (concat (bs[i := chain])) + mset (bs ! i) = mset (concat bs) + mset chain"
    using assms(3) by (rule mset_concat_update)
  then have "add_mset e (mset (concat (bs[i := chain]))) + mset chain = mset (concat bs) + mset chain"
    unfolding assms(4) [symmetric] by simp
  then have m: "add_mset e (mset (concat (bs[i := chain]))) = mset (concat bs)"
    by (rule add_right_imp_eq)
  then have "mset (e # concat (bs[i := chain])) = mset (concat bs)" by simp
  note m' = this
  have "distinct (map entry_key (e # concat (bs[i := chain])))"
    using inv(5) distinct_map_mset [OF m'] by blast
  moreover have "length (e # concat (bs[i := chain])) = length (concat bs)"
    using m' by (rule mset_eq_length)
  moreover have "well_hashed (bs[i := chain])"
    using inv(4) assms(3,5) by (intro well_hashed_update) (auto simp: well_hashed_def)
  ultimately show ?thesis
    using inv m assms(2,6) by (auto simp: table_inv_def table_entries_def)
qed

lemma evict_props:
  assumes "table_inv t" "dcc_cache_table_evict_oldest t = Some (t', e)"
  shows "table_inv t'" "add_mset e (mset (table_entries t')) = mset (table_entries t)"
    "Suc (table_size t') = table_size t" "\<forall>e' \<in> set (table_entries t). entry_sequence e \<le> entry_sequence e'"
proof -
  from assms(2) obtain bs i j s where bs: "buckets t = Some bs" and sc: "scan_buckets 0 None bs = Some (i, j, s)"
    and t': "t' = t\<lparr>buckets := Some (bs[i := remove_nth j (bs ! i)]), table_size := table_size t - 1\<rparr>"
    and e: "e = bs ! i ! j"
    by (auto simp: dcc_cache_table_evict_oldest_def split: option.splits if_splits)
  have ij: "i < length bs" "j < length (bs ! i)" "entry_sequence e = s"
      and min: "\<forall>e \<in> set (concat bs). s \<le> entry_sequence e"
    using scan_buckets_props [of 0 None bs] sc e by auto
  have "add_mset e (mset (remove_nth j (bs ! i))) = mset (bs ! i)"
    using mset_remove_nth [OF ij(2)] e by simp
  from table_inv_shrink_chain [OF assms(1) bs ij(1) this set_remove_nth_subset t']
  show "table_inv t'" "add_mset e (mset (table_entries t')) = mset (table_entries t)"
    "Suc (table_size t') = table_size t" by auto
  show "\<forall>e' \<in> set (table_entries t). entry_sequence e \<le> entry_sequence e'"
    using min ij(3) bs by (simp add: table_entries_def)
qed

lemma evict_None: "table_inv t \<Longrightarrow> dcc_cache_table_evict_oldest t = None \<longleftrightarrow> table_size t = 0"
  using scan_buckets_props [of 0 None "the (buckets t)"]
  by (auto simp: dcc_cache_table_evict_oldest_def table_inv_def split: option.splits if_splits)

lemma evict_while_props:
  assumes "table_inv t" "evict_while t n = (t', es)"
  shows "table_inv t' \<and> mset (table_entries t') + mset es = mset (table_entries t)
    \<and> table_size t' = min n (table_size t)
    \<and> (\<forall>e \<in> set es. \<forall>e' \<in> set (table_entries t'). entry_sequence e \<le> entry_sequence e')"
  using assms
proof (induction t n arbitrary: t' es rule: evict_while.induct)
  case (1 t n)
  show ?case
  proof (cases "table_size t > n")
    case False
    with "1.prems" show ?thesis by (simp add: evict_while.simps [of t n] min_def)
  next
    case True
    with evict_None [OF "1.prems"(1)] obtain t1 e where ev: "dcc_cache_table_evict_oldest t = Some (t1, e)"
      by (cases "dcc_cache_table_evict_oldest t") auto
    obtain es1 where es: "evict_while t1 n = (t', es1)" "es = e # es1"
      using "1.prems"(2) True ev by (auto simp: evict_while.simps [of t n] split: prod.splits)
    note p = evict_props [OF "1.prems"(1) ev]
    have IH: "table_inv t' \<and> mset (table_entries t') + mset es1 = mset (table_entries t1)
      \<and> table_size t' = min n (table_size t1)
      \<and> (\<forall>e \<in> set es1. \<forall>e' \<in> set (table_entries t'). entry_sequence e \<le> entry_sequence e')"
      using "1.IH" [OF True ev refl p(1) es(1)] .
    then have m: "mset (table_entries t') + mset es = mset (table_entries t)"
      using p(2) es(2) by simp
    then have "set (table_entries t') \<subseteq> set (table_entries t)"
      by (metis mset_eq_setD set_append mset_append sup_ge1)
    with p(4) IH m es(2) p(3) True show ?thesis by auto
  qed
qed

lemma trim_props:
  assumes "table_inv t" "dcc_cache_table_trim t n = (t', es)"
  shows "table_inv t'" "mset (table_entries t') + mset es = mset (table_entries t)"
    "table_size t' = (if n = 0 then table_size t else min n (table_size t))"
    "\<forall>e \<in> set es. \<forall>e' \<in> set (table_entries t'). entry_sequence e \<le> entry_sequence e'"
  using assms evict_while_props [OF assms(1), of n t' es]
  by (auto simp: dcc_cache_table_trim_def split: if_splits)

section \<open>Insertion\<close>

definition table_values :: "'v dcc_cache_table \<Rightarrow> 'v multiset" where
  "table_values t = image_mset entry_value (mset (table_entries t))"

abbreviation new_entry :: "snowflake \<Rightarrow> snowflake \<Rightarrow> 'v \<Rightarrow> u64 \<Rightarrow> 'v dcc_cache_entry" where
  "new_entry mj mn v s \<equiv> \<lparr>major = mj, minor = mn, entry_sequence = s, entry_value = v\<rparr>"

text \<open>The entries other than those of one key, and those of it: at most one.\<close>

lemma table_bucket_key:
  assumes "table_inv t" "buckets t = Some bs" "e \<in> set (concat bs)" "entry_key e = (mj, mn)"
  shows "e \<in> set (bs ! bucket_index (length bs) mj mn)"
  using assms well_hashed_bucket [of bs e] by (auto simp: table_inv_buckets)

text \<open>
  What linking does before the trim: the entry of the key is replaced or added, nothing else
  changes. \<open>old\<close> is the value the code frees at this point.
\<close>

definition linked :: "'v dcc_cache_table \<Rightarrow> snowflake \<Rightarrow> snowflake \<Rightarrow> 'v \<Rightarrow> u64 \<Rightarrow> 'v dcc_cache_table \<Rightarrow> 'v list \<Rightarrow> bool" where
  "linked t mj mn v s t2 old \<longleftrightarrow>
     table_inv t2
     \<and> set (table_entries t2) = insert (new_entry mj mn v s) {e \<in> set (table_entries t). entry_key e \<noteq> (mj, mn)}
     \<and> table_values t2 + mset old = table_values t + {#v#}
     \<and> old = (case table_map t (mj, mn) of None \<Rightarrow> [] | Some u \<Rightarrow> [u])"

lemma linked_replace:
  assumes inv: "table_inv t" and bs: "buckets t = Some bs" and i: "i = bucket_index (length bs) mj mn"
    and c: "chain_replace mj mn v s (bs ! i) = Some (chain, old)"
  shows "linked t mj mn v s (t\<lparr>buckets := Some (bs[i := chain])\<rparr>) [old]"
proof -
  let ?n = "new_entry mj mn v s" and ?t2 = "t\<lparr>buckets := Some (bs[i := chain])\<rparr>"
  note I = inv [unfolded table_inv_buckets [OF bs]]
  have il: "i < length bs" using I i by (simp add: bucket_index_less)
  from chain_replace_Some [OF c] obtain xs e ys where e: "bs ! i = xs @ e # ys"
      "chain = xs @ e\<lparr>entry_value := v, entry_sequence := s\<rparr> # ys" "entry_key e = (mj, mn)" "old = entry_value e"
    by blast
  have ne: "e\<lparr>entry_value := v, entry_sequence := s\<rparr> = ?n"
    using e(3) by simp
  have "add_mset e (mset (concat (bs[i := chain]))) = add_mset ?n (mset (concat bs))"
    using mset_concat_update [OF il, of chain] e(1,2) ne by (simp add: ac_simps)
  then have m: "mset (e # concat (bs[i := chain])) = mset (?n # concat bs)" by simp
  have "e \<in> set (concat bs)" using e(1) nth_mem [OF il] by (auto intro!: bexI [of _ "bs ! i"])
  then obtain as zs where az: "concat bs = as @ e # zs" by (meson split_list)
  with m have m2: "mset (concat (bs[i := chain])) = mset (?n # as @ zs)" by simp
  have d: "distinct (map entry_key (?n # as @ zs))"
    using I az e(3) by auto
  then have d2: "distinct (map entry_key (concat (bs[i := chain])))"
    using distinct_map_mset [OF m2] by blast
  have "well_hashed (bs[i := chain])"
    using I il e i by (intro well_hashed_update) (auto simp: well_hashed_def)
  then have inv2: "table_inv ?t2"
    using I il d2 mset_eq_length [OF m2] az by (simp add: table_inv_def)
  have ents: "table_entries ?t2 = concat (bs[i := chain])" "table_entries t = as @ e # zs"
    using bs az by (simp_all add: table_entries_def)
  have "(mj, mn) \<notin> entry_key ` set (as @ zs)"
    using d by (simp add: image_Un)
  then have "\<forall>x \<in> set (as @ zs). entry_key x \<noteq> (mj, mn)"
    by (simp only: notin_image_ball)
  then have "set (table_entries ?t2) = insert ?n {x \<in> set (table_entries t). entry_key x \<noteq> (mj, mn)}"
    using mset_eq_setD [OF m2] e(3) ents by auto
  moreover have "table_values ?t2 + mset [old] = table_values t + {#v#}"
    using m2 ents e(4) by (simp add: table_values_def)
  moreover have "table_map t (mj, mn) = Some old"
    using table_map_iff [OF inv] ents(2) e(3,4) by simp
  ultimately show ?thesis
    using inv2 by (simp add: linked_def)
qed

lemma linked_insert:
  assumes inv: "table_inv t" and bs: "buckets t = Some bs" and i: "i = bucket_index (length bs) mj mn"
    and c: "chain_replace mj mn v s (bs ! i) = None"
  shows "linked t mj mn v s
     (t\<lparr>buckets := Some (bs[i := new_entry mj mn v s # bs ! i]), table_size := table_size t + 1\<rparr>) []"
proof -
  let ?n = "new_entry mj mn v s"
  let ?t2 = "t\<lparr>buckets := Some (bs[i := ?n # bs ! i]), table_size := table_size t + 1\<rparr>"
  note I = inv [unfolded table_inv_buckets [OF bs]]
  have il: "i < length bs" using I i by (simp add: bucket_index_less)
  have new: "\<forall>e \<in> set (concat bs). entry_key e \<noteq> (mj, mn)"
    using table_bucket_key [OF inv bs] c i by (auto simp: chain_replace_None)
  have m: "mset (concat (bs[i := ?n # bs ! i])) = mset (?n # concat bs)"
    using mset_concat_update [OF il, of "?n # bs ! i"] by simp
  have "distinct (map entry_key (?n # concat bs))"
    using I new by auto
  then have d2: "distinct (map entry_key (concat (bs[i := ?n # bs ! i])))"
    using distinct_map_mset [OF m] by blast
  have "well_hashed (bs[i := ?n # bs ! i])"
    using I il i by (intro well_hashed_update) (auto simp: well_hashed_def)
  then have inv2: "table_inv ?t2"
    using I il d2 mset_eq_length [OF m] by (simp add: table_inv_def)
  have ents: "table_entries ?t2 = concat (bs[i := ?n # bs ! i])" "table_entries t = concat bs"
    using bs by (simp_all add: table_entries_def)
  have "set (table_entries ?t2) = insert ?n {x \<in> set (table_entries t). entry_key x \<noteq> (mj, mn)}"
    using mset_eq_setD [OF m] new ents by auto
  moreover have "table_values ?t2 = table_values t + {#v#}"
    using m ents by (simp add: table_values_def)
  moreover have "table_map t (mj, mn) = None"
    using table_map_None [of t] ents(2) new by simp
  ultimately show ?thesis
    using inv2 by (simp add: linked_def)
qed

text \<open>The two outcomes of \<open>put\<close>: an allocation failed and nothing visible changed, or link and trim.\<close>

lemma put_cases:
  assumes inv: "table_inv t"
    and put: "dcc_cache_table_put rok eok t mj mn (Some v) s n = (st, t', freed)"
  obtains (failed) "st \<noteq> DCC_OK" "table_inv t'" "mset (table_entries t') = mset (table_entries t)" "freed = []"
  | (stored) t2 old evicted where "st = DCC_OK" "linked t mj mn v s t2 old"
      "dcc_cache_table_trim t2 n = (t', evicted)" "freed = old @ map entry_value evicted"
proof -
  obtain st1 t1 where r: "dcc_cache_table_reserve_for_insert rok t = (st1, t1)" by fastforce
  note rp = reserve_props [OF inv r]
  show ?thesis
  proof (cases "st1 = DCC_OK")
    case False
    then show ?thesis
      using failed put r rp by (simp add: dcc_cache_table_put_def)
  next
    case True
    then obtain bs where bs: "buckets t1 = Some bs" using rp by auto
    define i where "i = bucket_index (length bs) mj mn"
    have cnt: "bucket_count t1 = length bs"
      using rp bs by (auto simp: table_inv_buckets)
    have same: "linked t1 mj mn v s t2 old \<Longrightarrow> linked t mj mn v s t2 old" for t2 old
      using rp table_map_eqI [of t1 t] inv mset_eq_setD [of "table_entries t1" "table_entries t"]
      unfolding linked_def table_values_def by auto
    note put' = put [unfolded dcc_cache_table_put_def r, simplified, unfolded Let_def, simplified, unfolded cnt bs]
    show ?thesis
    proof (cases "chain_replace mj mn v s (bs ! i)")
      case None
      then show ?thesis
        using put' True bs rp failed stored [OF _ same [OF linked_insert [OF _ bs i_def None]]]
        by (auto simp: i_def split: if_splits prod.splits)
    next
      case (Some p)
      then obtain chain old where Some': "chain_replace mj mn v s (bs ! i) = Some (chain, old)" by (cases p) auto
      then show ?thesis
        using put' True bs rp stored [OF _ same [OF linked_replace [OF _ bs i_def Some']]]
        by (auto simp: i_def split: prod.splits)
    qed
  qed
qed

section \<open>Consequences for the map, the values and the capacity\<close>

lemma linked_map:
  assumes "table_inv t" "linked t mj mn v s t2 old"
  shows "table_map t2 = (table_map t)((mj, mn) \<mapsto> v)"
proof
  fix k
  have inv2: "table_inv t2"
    and ents: "set (table_entries t2) = insert (new_entry mj mn v s) {e \<in> set (table_entries t). entry_key e \<noteq> (mj, mn)}"
    using assms(2) by (auto simp: linked_def)
  have "table_map t2 k = Some u \<longleftrightarrow> ((table_map t)((mj, mn) \<mapsto> v)) k = Some u" for u
    unfolding table_map_iff [OF inv2] ents by (auto simp: table_map_iff [OF assms(1)])
  then show "table_map t2 k = ((table_map t)((mj, mn) \<mapsto> v)) k"
    by (metis option.exhaust)
qed

lemma trim_map:
  assumes "table_inv t" "dcc_cache_table_trim t n = (t', es)"
  shows "table_map t' \<subseteq>\<^sub>m table_map t"
proof -
  have "set (table_entries t') \<subseteq> set (table_entries t)"
    using trim_props(2) [OF assms] by (metis mset_append mset_eq_setD set_append sup_ge1)
  then have "table_map t k = Some v" if "table_map t' k = Some v" for k v
    using that table_map_iff [OF assms(1)] table_map_iff [OF trim_props(1) [OF assms]] by blast
  then show ?thesis by (auto simp: map_le_def)
qed

lemma put_inv [dcc_inv]:
  assumes "table_inv t" "dcc_cache_table_put rok eok t mj mn value s n = (st, t', freed)"
  shows "table_inv t'"
proof (cases "value")
  case None
  with assms show ?thesis by (simp add: dcc_cache_table_put_def)
next
  case (Some v)
  show ?thesis
    using assms(2) [unfolded Some]
    by (rule put_cases [OF assms(1)]) (auto simp: linked_def dest: trim_props(1) [rotated])
qed

lemma put_values:
  assumes "table_inv t" "dcc_cache_table_put rok eok t mj mn (Some v) s n = (st, t', freed)"
  shows "table_values t' + mset freed = table_values t + (if st = DCC_OK then {#v#} else {#})"
  using assms(2)
proof (rule put_cases [OF assms(1)])
  assume "st \<noteq> DCC_OK" "mset (table_entries t') = mset (table_entries t)" "freed = []"
  then show ?thesis by (simp add: table_values_def)
next
  fix t2 old evicted
  assume A: "st = DCC_OK" "linked t mj mn v s t2 old" "dcc_cache_table_trim t2 n = (t', evicted)"
    "freed = old @ map entry_value evicted"
  have "table_inv t2" using A(2) by (simp add: linked_def)
  from trim_props(2) [OF this A(3)]
  have "table_values t' + mset (map entry_value evicted) = table_values t2"
    by (metis table_values_def image_mset_union mset_map)
  moreover have "table_values t2 + mset old = table_values t + {#v#}"
    using A(2) unfolding linked_def by blast
  ultimately show ?thesis
    using A(1,4) by (simp add: union_assoc [symmetric] union_commute union_lcomm)
qed

lemma put_failed_map:
  assumes "table_inv t" "dcc_cache_table_put rok eok t mj mn value s n = (st, t', freed)" "st \<noteq> DCC_OK"
  shows "table_map t' = table_map t \<and> freed = []"
proof (cases "value")
  case None
  with assms show ?thesis by (simp add: dcc_cache_table_put_def)
next
  case (Some v)
  show ?thesis
    using assms(2) [unfolded Some]
    by (rule put_cases [OF assms(1)]) (use assms table_map_eqI in auto)
qed

lemma put_map_le:
  assumes "table_inv t" "dcc_cache_table_put rok eok t mj mn (Some v) s n = (DCC_OK, t', freed)"
  shows "table_map t' \<subseteq>\<^sub>m (table_map t)((mj, mn) \<mapsto> v)"
  using assms(2)
proof (rule put_cases [OF assms(1)])
  fix t2 old evicted
  assume A: "linked t mj mn v s t2 old" "dcc_cache_table_trim t2 n = (t', evicted)"
  then show ?thesis
    using trim_map [of t2 n t' evicted] linked_map [OF assms(1) A(1)] by (simp add: linked_def)
qed simp

text \<open>A sequence number above every number in the table.\<close>

definition table_newest :: "'v dcc_cache_table \<Rightarrow> u64 \<Rightarrow> bool" where
  "table_newest t s \<longleftrightarrow> (\<forall>e \<in> set (table_entries t). entry_sequence e < s)"

lemma put_newest:
  assumes "table_inv t" "table_newest t s" "s < s'"
    and "dcc_cache_table_put rok eok t mj mn (Some v) s n = (st, t', freed)"
  shows "table_newest t' s'"
  using assms(4)
proof (rule put_cases [OF assms(1)])
  assume "mset (table_entries t') = mset (table_entries t)"
  then show ?thesis
    using assms(2,3) mset_eq_setD [of "table_entries t'" "table_entries t"] by (auto simp: table_newest_def)
next
  fix t2 old evicted
  assume A: "linked t mj mn v s t2 old" "dcc_cache_table_trim t2 n = (t', evicted)"
  have "table_inv t2" using A(1) by (simp add: linked_def)
  from trim_props(2) [OF this A(2)]
  have "set (table_entries t') \<subseteq> set (table_entries t2)"
    by (metis mset_append mset_eq_setD set_append sup_ge1)
  then show ?thesis
    using A(1) assms(2,3) by (fastforce simp: linked_def table_newest_def)
qed

lemma put_get_newest:
  assumes "table_inv t" "table_newest t s"
    and "dcc_cache_table_put rok eok t mj mn (Some v) s n = (DCC_OK, t', freed)"
  shows "table_map t' (mj, mn) = Some v"
  using assms(3)
proof (rule put_cases [OF assms(1)])
  fix t2 old evicted
  assume A: "linked t mj mn v s t2 old" "dcc_cache_table_trim t2 n = (t', evicted)"
  let ?n = "new_entry mj mn v s"
  have inv2: "table_inv t2"
    and ents: "set (table_entries t2) = insert ?n {e \<in> set (table_entries t). entry_key e \<noteq> (mj, mn)}"
    using A(1) by (auto simp: linked_def)
  note tp = trim_props [OF inv2 A(2)]
  have split: "set (table_entries t2) = set (table_entries t') \<union> set evicted"
    using tp(2) by (metis mset_append mset_eq_setD set_append)
  have d: "distinct (map entry_key (table_entries t' @ evicted))"
    using distinct_table_entries [OF inv2] distinct_map_mset [of "table_entries t' @ evicted" "table_entries t2" entry_key] tp(2)
    by simp
  have "0 < table_size t2" using table_size_entries [OF inv2] ents by (cases "table_entries t2") auto
  then have "0 < table_size t'" using tp(3) by auto
  then obtain e' where e': "e' \<in> set (table_entries t')"
    using table_size_entries [OF tp(1)] by (cases "table_entries t'") auto
  have "?n \<in> set (table_entries t')"
  proof (rule ccontr)
    assume no: "?n \<notin> set (table_entries t')"
    then have "?n \<in> set evicted" using split ents by auto
    then have "s \<le> entry_sequence e'" using tp(4) e' by force
    moreover have "e' \<in> set (table_entries t)" 
    proof -
      have "e' \<in> insert ?n {e \<in> set (table_entries t). entry_key e \<noteq> (mj, mn)}"
        using e' split ents by blast
      with no e' show ?thesis by auto
    qed
    ultimately show False using assms(2) by (auto simp: table_newest_def)
  qed
  then show ?thesis
    unfolding table_map_iff [OF tp(1)] by force
qed simp

section \<open>Removal and clearing\<close>

lemma remove_props:
  assumes inv: "table_inv t" and rm: "dcc_cache_table_remove t mj mn = (b, t', freed)"
  shows "table_inv t' \<and> table_map t' = (table_map t)((mj, mn) := None)
    \<and> (b \<longleftrightarrow> table_map t (mj, mn) \<noteq> None)
    \<and> freed = (case table_map t (mj, mn) of None \<Rightarrow> [] | Some u \<Rightarrow> [u])
    \<and> table_values t' + mset freed = table_values t
    \<and> set (table_entries t') \<subseteq> set (table_entries t)"
proof (cases "table_map t (mj, mn)")
  case None
  have "chain_remove mj mn (bs ! bucket_index (bucket_count t) mj mn) = None" if "buckets t = Some bs" for bs
    using that None inv table_map_None [of t "(mj, mn)"] nth_mem [of "bucket_index (length bs) mj mn" bs]
    by (auto simp: chain_remove_None table_entries_def table_inv_buckets bucket_index_less)
  then have "b = False \<and> t' = t \<and> freed = []"
    using rm by (auto simp: dcc_cache_table_remove_def Let_def split: option.splits if_splits)
  with None inv show ?thesis by (auto simp: fun_upd_idem)
next
  case (Some u)
  then obtain e0 where e0: "e0 \<in> set (table_entries t)" "entry_key e0 = (mj, mn)"
    by (auto simp: table_map_iff [OF inv])
  then obtain bs where bs: "buckets t = Some bs" by (cases "buckets t") (auto simp: table_entries_def)
  define i where "i = bucket_index (length bs) mj mn"
  note I = inv [unfolded table_inv_buckets [OF bs]]
  have il: "i < length bs" using I by (simp add: i_def bucket_index_less)
  have "e0 \<in> set (bs ! i)"
    using table_bucket_key [OF inv bs, of e0] e0 bs by (simp add: table_entries_def i_def)
  then obtain chain old where c: "chain_remove mj mn (bs ! i) = Some (chain, old)"
    using chain_remove_None [of mj mn "bs ! i"] e0(2) by (cases "chain_remove mj mn (bs ! i)") auto
  then have t': "t' = t\<lparr>buckets := Some (bs[i := chain]), table_size := table_size t - 1\<rparr>"
    and b: "b" and freed: "freed = [old]"
    using rm bs I il by (auto simp: dcc_cache_table_remove_def Let_def i_def)
  from chain_remove_Some [OF c] obtain xs e ys where e: "bs ! i = xs @ e # ys" "chain = xs @ ys"
      "entry_key e = (mj, mn)" "old = entry_value e" by blast
  have m: "add_mset e (mset chain) = mset (bs ! i)" and sub: "set chain \<subseteq> set (bs ! i)"
    using e by auto
  note sh = table_inv_shrink_chain [OF inv bs il m sub t']
  then have inv': "table_inv t'" and m': "add_mset e (mset (table_entries t')) = mset (table_entries t)" by auto
  then have ents: "set (table_entries t) = insert e (set (table_entries t'))"
    by (metis mset.simps(2) mset_eq_setD list.simps(15))
  have "distinct (map entry_key (e # table_entries t'))"
    using distinct_table_entries [OF inv] m' distinct_map_mset [of "e # table_entries t'" "table_entries t" entry_key] by simp
  then have "entry_key e \<notin> entry_key ` set (table_entries t')" by simp
  then have notin: "\<forall>x \<in> set (table_entries t'). entry_key x \<noteq> (mj, mn)"
    unfolding notin_image_ball e(3) .
  have "table_map t' k = ((table_map t)((mj, mn) := None)) k" for k
  proof -
    have "table_map t' k = Some w \<longleftrightarrow> ((table_map t)((mj, mn) := None)) k = Some w" for w
      unfolding table_map_iff [OF inv'] using notin e(3) ents by (auto simp: table_map_iff [OF inv])
    then show ?thesis by (metis option.exhaust)
  qed
  moreover have "table_map t (mj, mn) = Some old"
    using e(3,4) ents by (auto simp: table_map_iff [OF inv])
  moreover have "table_values t' + {#old#} = table_values t"
    using m' e(4) by (metis table_values_def image_mset_add_mset add_mset_add_single)
  ultimately show ?thesis
    using inv' b freed ents by auto
qed

lemma clear_props:
  assumes "table_inv t" "dcc_cache_table_clear t = (t', freed)"
  shows "table_inv t' \<and> table_map t' = Map.empty \<and> mset freed = table_values t \<and> table_size t' = 0"
proof -
  have c: "concat (map (\<lambda>_. []) bs) = []" for bs :: "'v dcc_cache_entry list list"
    by (induction bs) auto
  show ?thesis
    using assms by (auto simp: c dcc_cache_table_clear_def table_inv_def table_map_def table_entries_def table_values_def
        well_hashed_def split: option.splits)
qed

lemma deinit_props:
  assumes "table_inv t" "dcc_cache_table_deinit t = (t', freed)"
  shows "t' = empty_table \<and> mset freed = table_values t"
proof -
  obtain t1 where t1: "dcc_cache_table_clear t = (t1, freed)" "t' = t1\<lparr>buckets := None, bucket_count := 0\<rparr>"
    using assms(2) by (auto simp: dcc_cache_table_deinit_def split: prod.splits)
  with clear_props [OF assms(1) t1(1)] show ?thesis by (simp add: empty_table_def)
qed

lemma resequence_chain_same:
  "resequence_chain s es = (s', es') \<Longrightarrow> map entry_key es' = map entry_key es \<and> map entry_value es' = map entry_value es"
  by (induction es arbitrary: s s' es') (auto simp: Let_def split: prod.splits)

lemma resequence_buckets_same:
  "resequence_buckets s bs = (s', bs') \<Longrightarrow>
     map (map entry_key) bs' = map (map entry_key) bs \<and> map (map entry_value) bs' = map (map entry_value) bs"
proof (induction bs arbitrary: s s' bs')
  case (Cons b bs)
  then show ?case
    by (auto simp: Let_def split: prod.splits dest: resequence_chain_same)
qed simp

section \<open>The table implements the store interface\<close>

text \<open>The contents in the order of the sequence numbers, the newest entry first.\<close>

definition table_contents :: "'v dcc_cache_table \<Rightarrow> ((snowflake \<times> snowflake) \<times> 'v) list" where
  "table_contents t = map (\<lambda>e. (entry_key e, entry_value e)) (rev (sort_key entry_sequence (table_entries t)))"

definition table_fresh :: "'v dcc_cache_table \<Rightarrow> u64 \<Rightarrow> bool" where
  "table_fresh t s \<longleftrightarrow> table_newest t s \<and> inj_on entry_sequence (set (table_entries t))"

definition table_put ::
  "bool \<times> bool \<Rightarrow> 'v dcc_cache_table \<Rightarrow> snowflake \<times> snowflake \<Rightarrow> 'v \<Rightarrow> u64 \<Rightarrow> nat \<Rightarrow> dcc_status \<times> 'v dcc_cache_table" where
  "table_put ok t k v s n =
     (let (st, t', freed) = dcc_cache_table_put (fst ok) (snd ok) t (fst k) (snd k) (Some v) s n in (st, t'))"

definition table_remove :: "'v dcc_cache_table \<Rightarrow> snowflake \<times> snowflake \<Rightarrow> 'v dcc_cache_table" where
  "table_remove t k = (let (b, t', freed) = dcc_cache_table_remove t (fst k) (snd k) in t')"

lemma table_putE:
  assumes "table_put ok t k v s n = (st, t')"
  obtains freed where "dcc_cache_table_put (fst ok) (snd ok) t (fst k) (snd k) (Some v) s n = (st, t', freed)"
  using assms by (auto simp: table_put_def split: prod.splits)

lemma distinct_entries: "table_inv t \<Longrightarrow> distinct (table_entries t)"
  using distinct_table_entries distinct_map by blast

lemma table_contents_map: "table_inv t \<Longrightarrow> map_of (table_contents t) = table_map t"
proof -
  assume inv: "table_inv t"
  let ?kv = "\<lambda>e. (entry_key e, entry_value e)" and ?es = "table_entries t"
  have m: "mset (rev (sort_key entry_sequence ?es)) = mset ?es" by simp
  have "map_of (map ?kv xs) = map_of (map ?kv ?es)" if "mset xs = mset ?es" for xs
    by (rule map_of_inject_set [THEN iffD2])
      (use that distinct_table_entries [OF inv] distinct_map_mset [OF that, of entry_key] mset_eq_setD [OF that]
       in \<open>auto simp: comp_def\<close>)
  with m show ?thesis unfolding table_contents_def table_map_def by blast
qed

lemma table_contents_length: "table_inv t \<Longrightarrow> length (table_contents t) = table_size t"
  by (simp add: table_contents_def table_size_entries)

text \<open>When the elements cut off are no larger than those kept, the sorted list is the concatenation.\<close>

lemma sort_key_split:
  assumes "mset kept + mset gone = mset xs" "inj_on f (set xs)"
    and "\<forall>e \<in> set gone. \<forall>e' \<in> set kept. f e \<le> (f e' :: 'b :: linorder)"
  shows "rev (sort_key f kept) = take (length kept) (rev (sort_key f xs))"
proof -
  have "sort_key f xs = sort_key f gone @ sort_key f kept"
    using assms by (intro sort_key_inj_key_eq) (auto simp: sorted_append ac_simps)
  then show ?thesis by simp
qed

lemma put_contents:
  assumes inv: "table_inv t" and fresh: "table_fresh t s"
    and put: "dcc_cache_table_put rok eok t mj mn (Some v) s n = (DCC_OK, t', freed)"
  shows "table_contents t' = bounded_put n (mj, mn) v (table_contents t)
    \<and> inj_on entry_sequence (set (table_entries t'))"
  using put
proof (rule put_cases [OF inv])
  fix t2 old evicted
  assume A: "linked t mj mn v s t2 old" "dcc_cache_table_trim t2 n = (t', evicted)"
  let ?n = "new_entry mj mn v s" and ?P = "\<lambda>e. entry_key e \<noteq> (mj, mn)"
  let ?kv = "\<lambda>e. (entry_key e, entry_value e)"
  have inv2: "table_inv t2"
    and ents: "set (table_entries t2) = insert ?n {e \<in> set (table_entries t). ?P e}"
    using A(1) by (auto simp: linked_def)
  note tp = trim_props [OF inv2 A(2)]
  have inj: "inj_on entry_sequence (set (table_entries t2))"
    using fresh unfolding ents table_fresh_def table_newest_def inj_on_def by auto
  have "mset (table_entries t2) = mset (filter ?P (table_entries t) @ [?n])"
    using distinct_entries [OF inv2] distinct_entries [OF inv] ents
    by (intro set_eq_iff_mset_eq_distinct [THEN iffD1]) auto
  then have "sort_key entry_sequence (table_entries t2) = filter ?P (sort_key entry_sequence (table_entries t)) @ [?n]"
    using fresh inj
    by (intro sort_key_inj_key_eq)
      (auto simp: filter_sort sorted_append table_fresh_def table_newest_def less_imp_le)
  then have L: "map ?kv (rev (sort_key entry_sequence (table_entries t2))) = ((mj, mn), v) # drop_key (mj, mn) (table_contents t)"
    by (simp add: table_contents_def drop_key_def filter_map comp_def rev_filter)
  have kept: "length (table_entries t') = (if n = 0 then length (table_entries t2) else min n (length (table_entries t2)))"
    using tp(3) by (simp add: table_size_entries inv2 tp(1))
  have len: "length (table_entries t2) = Suc (length (drop_key (mj, mn) (table_contents t)))"
    using arg_cong [OF L, of length] by simp
  have "table_contents t' = take (length (table_entries t')) (((mj, mn), v) # drop_key (mj, mn) (table_contents t))"
    unfolding table_contents_def [of t'] sort_key_split [OF tp(2) inj tp(4)] take_map [symmetric] L ..
  then have "table_contents t' = bounded_put n (mj, mn) v (table_contents t)"
    using kept len by (simp add: bounded_put_def Let_def min_def split: if_splits)
  moreover have "set (table_entries t') \<subseteq> set (table_entries t2)"
    using tp(2) by (metis mset_append mset_eq_setD set_append sup_ge1)
  ultimately show ?thesis using inj inj_on_subset by blast
qed simp

lemma put_failed_contents:
  assumes "table_inv t" "table_fresh t s"
    and "dcc_cache_table_put rok eok t mj mn (Some v) s n = (st, t', freed)" "st \<noteq> DCC_OK"
  shows "table_contents t' = table_contents t \<and> inj_on entry_sequence (set (table_entries t'))"
  using assms(3)
proof (rule put_cases [OF assms(1)])
  assume m: "mset (table_entries t') = mset (table_entries t)"
  then have "sort_key entry_sequence (table_entries t') = sort_key entry_sequence (table_entries t)"
    using assms(2) mset_eq_setD [OF m] by (intro sort_key_inj_key_eq) (auto simp: table_fresh_def)
  then show ?thesis
    using assms(2) mset_eq_setD [OF m] by (simp add: table_contents_def table_fresh_def)
qed (use assms(4) in simp)

lemma remove_contents:
  assumes inv: "table_inv t" and fresh: "table_fresh t s" and rm: "dcc_cache_table_remove t mj mn = (b, t', freed)"
  shows "table_contents t' = drop_key (mj, mn) (table_contents t)"
proof -
  let ?P = "\<lambda>e. entry_key e \<noteq> (mj, mn)"
  have inv': "table_inv t'" and m: "table_map t' = (table_map t)((mj, mn) := None)"
    and sub: "set (table_entries t') \<subseteq> set (table_entries t)"
    using remove_props [OF inv rm] by auto
  have "e \<in> set (table_entries t') \<longleftrightarrow> e \<in> set (table_entries t) \<and> ?P e" for e
  proof
    assume "e \<in> set (table_entries t')"
    then show "e \<in> set (table_entries t) \<and> ?P e"
      using sub m table_map_iff [OF inv', of "entry_key e" "entry_value e"] by fastforce
  next
    assume e: "e \<in> set (table_entries t) \<and> ?P e"
    then have "table_map t (entry_key e) = Some (entry_value e)"
      unfolding table_map_iff [OF inv] by blast
    then have "table_map t' (entry_key e) = Some (entry_value e)"
      unfolding m using e by (subst fun_upd_other) auto
    then obtain e' where e': "e' \<in> set (table_entries t')" "entry_key e' = entry_key e"
      using table_map_iff [OF inv'] by blast
    then show "e \<in> set (table_entries t')"
      using distinct_table_entries [OF inv] sub e by (metis (no_types, lifting) distinct_map inj_on_contraD subsetD)
  qed
  then have "mset (table_entries t') = mset (filter ?P (table_entries t))"
    using distinct_entries [OF inv] distinct_entries [OF inv']
    by (intro set_eq_iff_mset_eq_distinct [THEN iffD1]) auto
  then have "sort_key entry_sequence (table_entries t') = filter ?P (sort_key entry_sequence (table_entries t))"
    using fresh sub by (intro sort_key_inj_key_eq) (auto simp: filter_sort table_fresh_def intro: inj_on_subset)
  then show ?thesis
    by (simp add: table_contents_def drop_key_def filter_map comp_def rev_filter)
qed

interpretation table_store: object_store table_inv table_contents table_fresh table_put table_remove
proof (unfold_locales, goal_cases)
  case (1 t a k v s n st t')
  then show ?case by (blast elim: table_putE intro: put_inv)
next
  case (2 t s a k v n t')
  then show ?case by (cases k) (auto elim!: table_putE dest: put_contents)
next
  case (3 t s a k v n st t')
  then show ?case by (cases k) (auto elim!: table_putE dest: put_failed_contents)
next
  case (4 t s s' a k v n st t')
  from 4(4) obtain freed where p: "dcc_cache_table_put (fst a) (snd a) t (fst k) (snd k) (Some v) s n = (st, t', freed)"
    by (rule table_putE)
  have "table_newest t' s'"
    using put_newest [OF 4(1) _ 4(3) p] 4(2) by (simp add: table_fresh_def)
  then show ?case
    using put_contents [OF 4(1,2)] put_failed_contents [OF 4(1,2)] p by (cases "st = DCC_OK") (auto simp: table_fresh_def)
next
  case (5 t s s')
  then show ?case by (auto simp: table_fresh_def table_newest_def)
next
  case (6 t k)
  then show ?case
    using remove_props [OF 6, of "fst k" "snd k"] by (auto simp: table_remove_def split: prod.splits)
next
  case (7 t s k)
  then show ?case
    using remove_contents [OF 7, of "fst k" "snd k"] by (auto simp: table_remove_def split: prod.splits)
next
  case (8 t s k)
  then show ?case
    using remove_props [OF 8(1), of "fst k" "snd k"]
    by (fastforce simp: table_remove_def table_fresh_def table_newest_def split: prod.splits intro: inj_on_subset)
qed

section \<open>Properties\<close>

lemma resize_status: "fst (dcc_cache_table_resize ok t n) \<in> {DCC_OK, DCC_ERR_NOMEM}"
  by (simp add: dcc_cache_table_resize_def Let_def)

lemma put_status: "dcc_cache_table_put rok eok t mj mn (Some v) s n = (st, t', freed) \<Longrightarrow> st \<in> {DCC_OK, DCC_ERR_NOMEM}"
  using resize_status [of rok t] fst_conv
  by (auto simp: dcc_cache_table_put_def dcc_cache_table_reserve_for_insert_def Let_def
      split: prod.splits option.splits if_splits) (metis fst_conv insertE singletonD)+

lemma put_eviction:
  assumes "table_inv t"
    and "dcc_cache_table_put rok eok t mj mn (Some v) s n = (DCC_OK, t', freed)"
  shows "(n \<noteq> 0 \<longrightarrow> table_size t' \<le> n) \<and>
    (\<forall>e \<in> set (table_entries t). entry_key e \<noteq> (mj, mn) \<longrightarrow> e \<notin> set (table_entries t') \<longrightarrow>
       n \<noteq> 0 \<and> table_size t' = n \<and> (\<forall>e' \<in> set (table_entries t'). entry_sequence e \<le> entry_sequence e'))"
  using assms(2)
proof (rule put_cases [OF assms(1)])
  fix t2 old evicted
  assume A: "linked t mj mn v s t2 old" "dcc_cache_table_trim t2 n = (t', evicted)"
  have inv2: "table_inv t2"
    and ents: "set (table_entries t2) = insert (new_entry mj mn v s) {e \<in> set (table_entries t). entry_key e \<noteq> (mj, mn)}"
    using A(1) by (auto simp: linked_def)
  note tp = trim_props [OF inv2 A(2)]
  have split: "set (table_entries t2) = set (table_entries t') \<union> set evicted"
    using tp(2) by (metis mset_append mset_eq_setD set_append)
  have len: "table_size t2 = table_size t' + length evicted"
    using tp(2) table_size_entries [OF inv2] table_size_entries [OF tp(1)]
    by (metis mset_append mset_eq_length length_append)
  show ?thesis
  proof (intro conjI ballI impI)
    show "n \<noteq> 0 \<Longrightarrow> table_size t' \<le> n" using tp(3) by simp
    fix e assume e: "e \<in> set (table_entries t)" "entry_key e \<noteq> (mj, mn)" "e \<notin> set (table_entries t')"
    then have ev: "e \<in> set evicted" using ents split by blast
    then have "evicted \<noteq> []" by auto
    then have "table_size t' < table_size t2" using len by simp
    then show "n \<noteq> 0" "table_size t' = n" using tp(3) by (auto simp: min_def split: if_splits)
    show "entry_sequence e \<le> entry_sequence e'" if "e' \<in> set (table_entries t')" for e'
      using tp(4) ev that by blast
  qed
qed simp

text \<open>
  C19. inserting keeps the table well formed and never loses or duplicates a value: after a
  successful insertion the values in the table together with the values freed are exactly the old
  values plus the new one; when an allocation fails the status is \<open>DCC_ERR_NOMEM\<close>, nothing is
  freed and every lookup answers as before.
\<close>

theorem table_put_ownership:
  assumes "table_inv t"
  shows "case dcc_cache_table_put rok eok t mj mn (Some v) s n of (st, t', freed) \<Rightarrow>
      table_inv t'
    \<and> (st = DCC_OK \<longrightarrow> table_values t' + mset freed = table_values t + {#v#})
    \<and> (st \<noteq> DCC_OK \<longrightarrow> st = DCC_ERR_NOMEM \<and> freed = [] \<and> table_values t' = table_values t
         \<and> (\<forall>a b. dcc_cache_table_get t' a b = dcc_cache_table_get t a b))"
proof -
  obtain st t' freed where p: "dcc_cache_table_put rok eok t mj mn (Some v) s n = (st, t', freed)"
    by (metis surj_pair)
  have "table_inv t'" using put_inv [OF assms p] .
  then show ?thesis
    using p put_values [OF assms p] put_failed_map [OF assms p] put_status [OF p]
    by (auto simp: table_get_map assms)
qed

lemma table_values_empty: "table_values empty_table = {#}"
  by (simp add: table_values_def empty_table_def table_entries_def)

theorem table_put_ownership_witness:
  "table_inv (empty_table :: string dcc_cache_table) \<and>
   table_values (fst (snd (dcc_cache_table_put True True empty_table 1 2 (Some ''v'') 1 0))) = {#''v''#}"
proof -
  have idx: "bucket_index 256 1 2 < 256" by (simp add: bucket_index_less)
  have ok: "dcc_cache_table_put True True (empty_table :: string dcc_cache_table) 1 2 (Some ''v'') 1 0
      = (DCC_OK, \<lparr>buckets = Some ((replicate 256 []) [bucket_index 256 1 2 := [new_entry 1 2 ''v'' 1]]),
                  bucket_count = 256, table_size = 1\<rparr>, [])"
    using idx
    by (simp add: dcc_cache_table_put_def dcc_cache_table_reserve_for_insert_def dcc_cache_table_resize_def
        dcc_cache_table_trim_def empty_table_def SIZE_MAX_def DCC_CACHE_INITIAL_BUCKETS_def)
  show ?thesis
    using table_put_ownership [OF table_inv_empty, where rok = True and eok = True and mj = 1 and mn = 2 and v = "''v''" and s = 1 and n = 0,
      unfolded ok]
    unfolding ok by (simp add: table_inv_empty table_values_empty)
qed

text \<open>
  After a successful insertion with a sequence number above those in the table, a lookup of the
  key returns the new value and every other key still present keeps its value; the capacity, when
  there is one, is respected; and an entry disappears only when the capacity is reached, and then it
  is no younger than any entry that stays.
\<close>

theorem table_put_lookup:
  assumes "table_inv t" and "table_newest t s"
  shows "case dcc_cache_table_put rok eok t mj mn (Some v) s n of (st, t', freed) \<Rightarrow>
    st = DCC_OK \<longrightarrow>
      dcc_cache_table_get t' mj mn = Some v
    \<and> (\<forall>a b u. (a, b) \<noteq> (mj, mn) \<longrightarrow> dcc_cache_table_get t' a b = Some u \<longrightarrow> dcc_cache_table_get t a b = Some u)
    \<and> (n \<noteq> 0 \<longrightarrow> table_size t' \<le> n)
    \<and> (\<forall>e \<in> set (table_entries t). entry_key e \<noteq> (mj, mn) \<longrightarrow> e \<notin> set (table_entries t') \<longrightarrow>
         n \<noteq> 0 \<and> table_size t' = n \<and> (\<forall>e' \<in> set (table_entries t'). entry_sequence e \<le> entry_sequence e'))"
proof (clarify)
  fix t' freed assume p: "dcc_cache_table_put rok eok t mj mn (Some v) s n = (DCC_OK, t', freed)"
  have inv': "table_inv t'" using put_inv [OF assms(1) p] .
  have "dcc_cache_table_get t a b = Some u"
    if "(a, b) \<noteq> (mj, mn)" "dcc_cache_table_get t' a b = Some u" for a b u
  proof -
    have "table_map t' (a, b) = ((table_map t)((mj, mn) \<mapsto> v)) (a, b)"
      using put_map_le [OF assms(1) p] that(2) unfolding table_get_map [OF inv'] map_le_def by force
    with that show ?thesis by (auto simp: table_get_map inv' assms(1) split: if_splits)
  qed
  then show "dcc_cache_table_get t' mj mn = Some v
    \<and> (\<forall>a b u. (a, b) \<noteq> (mj, mn) \<longrightarrow> dcc_cache_table_get t' a b = Some u \<longrightarrow> dcc_cache_table_get t a b = Some u)
    \<and> (n \<noteq> 0 \<longrightarrow> table_size t' \<le> n)
    \<and> (\<forall>e \<in> set (table_entries t). entry_key e \<noteq> (mj, mn) \<longrightarrow> e \<notin> set (table_entries t') \<longrightarrow>
         n \<noteq> 0 \<and> table_size t' = n \<and> (\<forall>e' \<in> set (table_entries t'). entry_sequence e \<le> entry_sequence e'))"
    using put_get_newest [OF assms p] put_eviction [OF assms(1) p]
    by (simp add: table_get_map inv')
qed

text \<open>A table with two entries and the capacity reached.\<close>

definition sample_table :: "string dcc_cache_table" where
  "sample_table = \<lparr>buckets = Some [[new_entry 1 0 ''a'' 5, new_entry 2 0 ''b'' 3]], bucket_count = 1, table_size = 2\<rparr>"

lemma sample_table_inv: "table_inv sample_table" "table_newest sample_table 6"
  by (simp_all add: sample_table_def table_inv_def well_hashed_def bucket_index_def table_newest_def table_entries_def)

lemma sample_put:
  "dcc_cache_table_put True True sample_table 3 0 (Some ''c'') 6 2 =
     (DCC_OK, \<lparr>buckets = Some [[new_entry 3 0 ''c'' 6, new_entry 1 0 ''a'' 5]], bucket_count = 1, table_size = 2\<rparr>, [''b''])"
  by (simp add: dcc_cache_table_put_def dcc_cache_table_reserve_for_insert_def sample_table_def SIZE_MAX_def
      bucket_index_def dcc_cache_table_trim_def evict_while.simps dcc_cache_table_evict_oldest_def remove_nth_def)

theorem table_put_lookup_witness:
  "table_inv sample_table \<and> table_newest sample_table 6 \<and>
   (\<exists>t'. dcc_cache_table_put True True sample_table 3 0 (Some ''c'') 6 2 = (DCC_OK, t', [''b''])
      \<and> dcc_cache_table_get t' 3 0 = Some ''c'' \<and> table_size t' \<le> 2)"
  using table_put_lookup [OF sample_table_inv, where rok = True and eok = True and mj = 3 and mn = 0 and v = "''c''" and n = 2]
    sample_table_inv
  unfolding sample_put by simp

text \<open>
  C3. After any history of insertions and removals on an empty table, under the counter the tables
  of a cache share, the table holds exactly what a reference list holds that puts each key stored in
  front and is cut at the capacity: the lookups agree, the size is the length of the list and never
  above the capacity, and so the entries that went are those stored longest ago. Whatever the table
  returns for a key is the value last stored for it, and without a capacity the table is the
  unbounded map of its history.
\<close>

theorem table_history_refines_map:
  assumes "length ops + 1 < 2 ^ 64"
  shows "case run_store table_put table_remove cap (empty_table, 0, [], Map.empty) ops of (t, s, xs, m) \<Rightarrow>
      table_inv t
    \<and> (\<forall>a b. dcc_cache_table_get t a b = map_of xs (a, b))
    \<and> table_contents t = xs \<and> table_size t = length xs \<and> (cap \<noteq> 0 \<longrightarrow> table_size t \<le> cap)
    \<and> (\<forall>a b v. dcc_cache_table_get t a b = Some v \<longrightarrow> m (a, b) = Some v)
    \<and> (cap = 0 \<longrightarrow> (\<forall>a b. dcc_cache_table_get t a b = m (a, b)))"
proof -
  obtain t s xs m where r: "run_store table_put table_remove cap (empty_table, 0, [], Map.empty) ops = (t, s, xs, m)"
    by (metis surj_pair)
  have e: "table_fresh empty_table (0 + 1)" "table_contents empty_table = []"
    by (simp_all add: table_fresh_def table_newest_def table_contents_def table_entries_def empty_table_def)
  have "table_inv t \<and> table_contents t = xs \<and> (cap \<noteq> 0 \<longrightarrow> length xs \<le> cap)
      \<and> map_of xs \<subseteq>\<^sub>m m \<and> (cap = 0 \<longrightarrow> map_of xs = m)"
    using table_store.run_sound [OF table_inv_empty e _ r] assms by simp
  moreover from this have "dcc_cache_table_get t a b = map_of xs (a, b)" for a b
    using table_contents_map [of t] by (simp add: table_get_map)
  ultimately show ?thesis
    using r table_contents_length [of t] by (auto simp: map_le_def dom_def)
qed

lemma put_ok:
  assumes "bucket_count t < 2 ^ 32"
  shows "fst (table_put (True, True) t k v s cap) = DCC_OK"
  using assms
  by (auto simp: table_put_def dcc_cache_table_put_def dcc_cache_table_reserve_for_insert_def dcc_cache_table_resize_def
      Let_def SIZE_MAX_def DCC_CACHE_INITIAL_BUCKETS_def split: prod.splits option.splits if_splits)

lemma trim_bucket_count: "bucket_count (fst (dcc_cache_table_trim t n)) = bucket_count t"
proof -
  have "bucket_count (fst (evict_while t n)) = bucket_count t"
  proof (induction t n rule: evict_while.induct)
    case (1 t n)
    have "bucket_count (fst (evict_while t' n)) = bucket_count t"
      if "table_size t > n" "dcc_cache_table_evict_oldest t = Some (t', e)" for t' e
      using 1 [OF that(1) that(2) refl] that(2)
      by (auto simp: dcc_cache_table_evict_oldest_def split: option.splits if_splits)
    then show ?case
      by (subst evict_while.simps) (fastforce split: option.splits prod.splits)
  qed
  then show ?thesis by (simp add: dcc_cache_table_trim_def)
qed

lemma put_first_bucket_count: "bucket_count (snd (table_put ok empty_table k v s cap)) < 2 ^ 32"
proof -
  have trim: "bucket_count t' = bucket_count t" if "dcc_cache_table_trim t n = (t', es)" for t t' :: "'v dcc_cache_table" and n es
    using trim_bucket_count [of t n] that by simp
  show ?thesis
    by (auto simp: table_put_def dcc_cache_table_put_def dcc_cache_table_reserve_for_insert_def dcc_cache_table_resize_def
        empty_table_def Let_def DCC_CACHE_INITIAL_BUCKETS_def split: prod.splits option.splits if_splits dest!: trim)
qed

text \<open>A table of capacity one keeps the later of two keys.\<close>

theorem table_history_refines_map_witness:
  "length [Put (True, True) (1, 2) ''x'', Put (True, True) (3, 4) ''y''] + 1 < (2 :: nat) ^ 64 \<and>
   (case run_store table_put table_remove 1 (empty_table, 0, [], Map.empty)
           [Put (True, True) (1, 2) ''x'', Put (True, True) (3, 4) ''y''] of (t, s, xs, m) \<Rightarrow>
      table_size t = 1 \<and> dcc_cache_table_get t 3 4 = Some ''y'' \<and> dcc_cache_table_get t 1 2 = None)"
proof -
  let ?ops = "[Put (True, True) (1, 2) ''x'', Put (True, True) (3, 4) ''y''] :: (bool \<times> bool, snowflake \<times> snowflake, string) store_op list"
  obtain t1 where p1: "table_put (True, True) empty_table (1, 2) ''x'' 1 1 = (DCC_OK, t1)" "bucket_count t1 < 2 ^ 32"
    using put_ok [of empty_table "(1, 2)" "''x''" 1 1] put_first_bucket_count [of "(True, True)" "(1, 2)" "''x''" 1 1]
    by (cases "table_put (True, True) empty_table (1, 2) ''x'' 1 1") (auto simp: empty_table_def)
  obtain t2 where p2: "table_put (True, True) t1 (3, 4) ''y'' 2 1 = (DCC_OK, t2)"
    using put_ok [OF p1(2), of "(3, 4)" "''y''" 2 1] by (cases "table_put (True, True) t1 (3, 4) ''y'' 2 1") auto
  have "\<exists>m. run_store table_put table_remove 1 (empty_table, 0, [], Map.empty) ?ops = (t2, 2, [((3, 4), ''y'')], m)"
    using p1(1) p2 by (simp add: run_store_def bounded_put_def drop_key_def)
  then show ?thesis
    using table_history_refines_map [of ?ops 1] by auto
qed

text \<open>
  Removing reports whether the key was present, frees exactly its value and leaves every other
  key as it was; tearing the table down frees every value it holds exactly once and leaves the
  empty table.
\<close>

theorem table_remove_deinit:
  assumes "table_inv t"
  shows "case dcc_cache_table_remove t mj mn of (removed, t', freed) \<Rightarrow>
      table_inv t'
    \<and> (removed \<longleftrightarrow> dcc_cache_table_get t mj mn \<noteq> None)
    \<and> (\<forall>a b. dcc_cache_table_get t' a b = (if (a, b) = (mj, mn) then None else dcc_cache_table_get t a b))
    \<and> table_values t' + mset freed = table_values t
    \<and> (case dcc_cache_table_deinit t' of (t'', freed') \<Rightarrow> t'' = empty_table \<and> mset freed' = table_values t')"
proof -
  obtain b t' freed where r: "dcc_cache_table_remove t mj mn = (b, t', freed)" by (metis surj_pair)
  obtain t'' freed' where d: "dcc_cache_table_deinit t' = (t'', freed')" by fastforce
  note rp = remove_props [OF assms r]
  then have inv': "table_inv t'" by blast
  show ?thesis
    using r d rp deinit_props [OF inv' d] by (auto simp: table_get_map [OF inv'] table_get_map [OF assms])
qed

lemma sample_remove:
  "dcc_cache_table_remove sample_table 2 0 =
     (True, \<lparr>buckets = Some [[new_entry 1 0 ''a'' 5]], bucket_count = 1, table_size = 1\<rparr>, [''b''])"
  by (simp add: dcc_cache_table_remove_def sample_table_def bucket_index_def)

theorem table_remove_deinit_witness:
  "table_inv sample_table \<and> dcc_cache_table_get sample_table 2 0 = Some ''b'' \<and>
   dcc_cache_table_get (fst (snd (dcc_cache_table_remove sample_table 2 0))) 2 0 = None"
  using table_remove_deinit [OF sample_table_inv(1), of 2 0] sample_table_inv(1)
  unfolding sample_remove by (simp add: sample_table_def dcc_cache_table_get_def bucket_index_def)

end
