(* ===== verification/DCC_Transition.thy ===== *)
theory DCC_Transition
  imports DCC_Prelude
begin

text \<open>
  The contract between a component that evolves in atomic steps and the theorems about its reachable
  states. A component provides its start states, its step relation and an invariant, and discharges
  the two laws; the client lemmas then hold for every run. The components that interpret the locale
  are the firewall of a client, the resource ledger, the asynchronous scheduler and the identify
  coordinator of a cluster.
\<close>

locale transition_system =
  fixes start :: "'s \<Rightarrow> bool" and step :: "'s \<Rightarrow> 's \<Rightarrow> bool" and inv :: "'s \<Rightarrow> bool"
  assumes start_inv: "start s \<Longrightarrow> inv s"
    and step_inv: "inv s \<Longrightarrow> step s s' \<Longrightarrow> inv s'"
begin

lemma run_inv: "step\<^sup>*\<^sup>* s s' \<Longrightarrow> inv s \<Longrightarrow> inv s'"
  by (induction rule: rtranclp_induct) (auto intro: step_inv)

lemma reachable_inv: "start s \<Longrightarrow> step\<^sup>*\<^sup>* s s' \<Longrightarrow> inv s'"
  by (auto intro: run_inv start_inv)

end

end
