(* ===== verification/DCC_Firewall.thy ===== *)
theory DCC_Firewall
  imports DCC_Transition
begin

text \<open>
  \<^verbatim>\<open>src/rest/firewall/\<close>: the REST firewall, which counts the responses Discord treats as invalid
  (401, 403, 429) in a time window and delays or rejects requests once the soft or hard limit is
  reached. \<^verbatim>\<open>rest_firewall_options.c\<close>, \<^verbatim>\<open>rest_firewall_state.c\<close> and \<^verbatim>\<open>rest_firewall_standalone.c\<close> are
  modelled in full, of \<^verbatim>\<open>rest_firewall_client.c\<close> the attach, detach, before-request and
  after-response hooks. The clock (\<open>dcc_rest_now_ms\<close>) is the argument \<open>now\<close>; the spin lock around
  each hook makes it one atomic step, so a hook is one function on the state.
\<close>

section \<open>Data\<close>

text \<open>The \<open>OTHER\<close> constructors stand for the integers outside each C enumeration.\<close>

datatype dcc_rest_firewall_hard_limit_action =
    HARD_LIMIT_REJECT_NONCRITICAL
  | HARD_LIMIT_REJECT_ALL
  | HARD_LIMIT_DELAY
  | HARD_LIMIT_OTHER

datatype dcc_rest_firewall_decision = FIREWALL_ALLOW | FIREWALL_DELAY | FIREWALL_REJECT | FIREWALL_OTHER

datatype dcc_rest_firewall_reason =
    REASON_NONE
  | REASON_SOFT_INVALID_REQUEST_LIMIT
  | REASON_HARD_INVALID_REQUEST_LIMIT
  | REASON_OTHER

record dcc_rest_firewall_options =
  opt_size :: nat
  invalid_request_soft_limit :: u32
  invalid_request_hard_limit :: u32
  invalid_request_window_ms :: u64
  soft_limit_delay_ms :: u32
  on_hard_limit :: dcc_rest_firewall_hard_limit_action

record dcc_rest_firewall_request =
  req_size :: nat
  req_method :: "string option"
  req_path :: "string option"
  req_now_ms :: u64
  req_critical :: u8

record dcc_rest_firewall_result =
  decision :: dcc_rest_firewall_decision
  reason :: dcc_rest_firewall_reason
  delay_ms :: u64
  res_critical :: bool

record dcc_rest_firewall_state =
  options :: dcc_rest_firewall_options
  window_started_at_ms :: u64
  invalid_request_count :: u64
  total_requests :: u64
  total_invalid_requests :: u64
  total_delayed_requests :: u64
  total_rejected_requests :: u64
  window_active :: bool
  attached :: bool

text \<open>Struct sizes on the LP64 targets: the whole options struct, and a request up to \<open>critical\<close>.\<close>

definition sizeof_firewall_options :: nat where
  "sizeof_firewall_options = 32"

definition firewall_request_min_size :: nat where
  "firewall_request_min_size = 33"

definition sizeof_firewall_request :: nat where
  "sizeof_firewall_request = 40"

text \<open>
  The snapshot's \<open>rest\<close> member (the asynchronous REST status) belongs to another component and is
  zero in a standalone snapshot, so it is left out.
\<close>

record dcc_rest_firewall_snapshot =
  snap_options :: dcc_rest_firewall_options
  snap_window_started_at_ms :: u64
  snap_window_ends_at_ms :: u64
  snap_invalid_request_count :: u64
  snap_total_requests :: u64
  snap_total_invalid_requests :: u64
  snap_total_delayed_requests :: u64
  snap_total_rejected_requests :: u64
  soft_limit_exceeded :: bool
  hard_limit_exceeded :: bool
  snap_attached :: bool

section \<open>Options\<close>

definition dcc_rest_firewall_options_init :: dcc_rest_firewall_options where
  "dcc_rest_firewall_options_init =
     \<lparr>opt_size = sizeof_firewall_options,
      invalid_request_soft_limit = 8000,
      invalid_request_hard_limit = 9500,
      invalid_request_window_ms = 600000,
      soft_limit_delay_ms = 1000,
      on_hard_limit = HARD_LIMIT_REJECT_NONCRITICAL\<rparr>"

definition dcc_rest_firewall_options_validate :: "dcc_rest_firewall_options option \<Rightarrow> dcc_status" where
  "dcc_rest_firewall_options_validate opts =
     (case opts of
        None \<Rightarrow> DCC_ERR_INVALID_ARG
      | Some p \<Rightarrow>
          if opt_size p < sizeof_firewall_options
             \<or> invalid_request_window_ms p = 0
             \<or> invalid_request_hard_limit p = 0
             \<or> (invalid_request_soft_limit p \<noteq> 0 \<and> invalid_request_soft_limit p > invalid_request_hard_limit p)
          then DCC_ERR_INVALID_ARG
          else if on_hard_limit p \<noteq> HARD_LIMIT_REJECT_NONCRITICAL
             \<and> on_hard_limit p \<noteq> HARD_LIMIT_REJECT_ALL
             \<and> on_hard_limit p \<noteq> HARD_LIMIT_DELAY
          then DCC_ERR_INVALID_ARG
          else DCC_OK)"

definition dcc_rest_firewall_status_is_invalid :: "u16 \<Rightarrow> bool" where
  "dcc_rest_firewall_status_is_invalid status \<longleftrightarrow> status = 401 \<or> status = 403 \<or> status = 429"

definition dcc_firewall_path_has_prefix :: "string option \<Rightarrow> string \<Rightarrow> bool" where
  "dcc_firewall_path_has_prefix path prefix =
     (case path of None \<Rightarrow> False | Some p \<Rightarrow> has_prefix p prefix)"

definition dcc_rest_firewall_request_is_critical :: "string option \<Rightarrow> string option \<Rightarrow> bool" where
  "dcc_rest_firewall_request_is_critical method path \<longleftrightarrow>
     dcc_firewall_path_has_prefix path ''/interactions/'' \<or> dcc_firewall_path_has_prefix path ''/webhooks/''"

fun dcc_rest_firewall_decision_string :: "dcc_rest_firewall_decision \<Rightarrow> string" where
  "dcc_rest_firewall_decision_string FIREWALL_ALLOW = ''allow''"
| "dcc_rest_firewall_decision_string FIREWALL_DELAY = ''delay''"
| "dcc_rest_firewall_decision_string FIREWALL_REJECT = ''reject''"
| "dcc_rest_firewall_decision_string FIREWALL_OTHER = ''unknown''"

fun dcc_rest_firewall_reason_string :: "dcc_rest_firewall_reason \<Rightarrow> string" where
  "dcc_rest_firewall_reason_string REASON_NONE = ''none''"
| "dcc_rest_firewall_reason_string REASON_SOFT_INVALID_REQUEST_LIMIT = ''soft_invalid_request_limit''"
| "dcc_rest_firewall_reason_string REASON_HARD_INVALID_REQUEST_LIMIT = ''hard_invalid_request_limit''"
| "dcc_rest_firewall_reason_string REASON_OTHER = ''unknown''"

fun dcc_rest_firewall_hard_limit_action_string :: "dcc_rest_firewall_hard_limit_action \<Rightarrow> string" where
  "dcc_rest_firewall_hard_limit_action_string HARD_LIMIT_REJECT_NONCRITICAL = ''reject_noncritical''"
| "dcc_rest_firewall_hard_limit_action_string HARD_LIMIT_REJECT_ALL = ''reject_all''"
| "dcc_rest_firewall_hard_limit_action_string HARD_LIMIT_DELAY = ''delay''"
| "dcc_rest_firewall_hard_limit_action_string HARD_LIMIT_OTHER = ''unknown''"

section \<open>State\<close>

abbreviation dcc_firewall_add_ms :: "u64 \<Rightarrow> u64 \<Rightarrow> u64" where
  "dcc_firewall_add_ms \<equiv> sat_add"

definition dcc_rest_firewall_state_new ::
  "bool \<Rightarrow> dcc_rest_firewall_options option \<Rightarrow> u8 \<Rightarrow> dcc_rest_firewall_state option" where
  "dcc_rest_firewall_state_new calloc_ok opts att =
     (let effective = (case opts of None \<Rightarrow> dcc_rest_firewall_options_init | Some p \<Rightarrow> p) in
      if dcc_rest_firewall_options_validate (Some effective) \<noteq> DCC_OK then None
      else if \<not> calloc_ok then None
      else Some \<lparr>options = effective\<lparr>opt_size := sizeof_firewall_options\<rparr>,
                 window_started_at_ms = 0, invalid_request_count = 0, total_requests = 0,
                 total_invalid_requests = 0, total_delayed_requests = 0, total_rejected_requests = 0,
                 window_active = False, attached = (att \<noteq> 0)\<rparr>)"

definition dcc_rest_firewall_state_normalize_window ::
  "dcc_rest_firewall_state \<Rightarrow> u64 \<Rightarrow> dcc_rest_firewall_state" where
  "dcc_rest_firewall_state_normalize_window st now =
     (if \<not> window_active st
      then st\<lparr>window_started_at_ms := now, invalid_request_count := 0, window_active := True\<rparr>
      else let window_end =
             dcc_firewall_add_ms (window_started_at_ms st) (invalid_request_window_ms (options st)) in
        if now \<ge> window_end then st\<lparr>window_started_at_ms := now, invalid_request_count := 0\<rparr> else st)"

definition dcc_firewall_result_set ::
  "dcc_rest_firewall_decision \<Rightarrow> dcc_rest_firewall_reason \<Rightarrow> u64 \<Rightarrow> bool \<Rightarrow> dcc_rest_firewall_result" where
  "dcc_firewall_result_set d r delay crit =
     \<lparr>decision = d, reason = r, delay_ms = delay, res_critical = crit\<rparr>"

definition dcc_firewall_soft_exceeded :: "dcc_rest_firewall_state \<Rightarrow> bool" where
  "dcc_firewall_soft_exceeded st \<longleftrightarrow>
     invalid_request_soft_limit (options st) \<noteq> 0
     \<and> invalid_request_count st \<ge> ucast (invalid_request_soft_limit (options st))"

definition dcc_firewall_hard_exceeded :: "dcc_rest_firewall_state \<Rightarrow> bool" where
  "dcc_firewall_hard_exceeded st \<longleftrightarrow>
     invalid_request_count st \<ge> ucast (invalid_request_hard_limit (options st))"

text \<open>
  The result is written unless the caller passed \<open>NULL\<close>; \<open>None\<close> is the case of the early error
  return, which writes nothing.
\<close>

definition dcc_rest_firewall_state_check ::
  "dcc_rest_firewall_state \<Rightarrow> dcc_rest_firewall_request option
    \<Rightarrow> dcc_status \<times> dcc_rest_firewall_state \<times> dcc_rest_firewall_result option" where
  "dcc_rest_firewall_state_check st req =
     (case req of
        None \<Rightarrow> (DCC_ERR_INVALID_ARG, st, None)
      | Some request \<Rightarrow>
          if req_size request < firewall_request_min_size then (DCC_ERR_INVALID_ARG, st, None)
          else
            let st1 = dcc_rest_firewall_state_normalize_window st (req_now_ms request);
                st2 = st1\<lparr>total_requests := sat_inc (total_requests st1)\<rparr>;
                critical = (req_critical request \<noteq> 0
                  \<or> dcc_rest_firewall_request_is_critical (req_method request) (req_path request));
                delay = ucast (soft_limit_delay_ms (options st2));
                soft = (if dcc_firewall_soft_exceeded st2 \<and> soft_limit_delay_ms (options st2) \<noteq> 0
                  then (DCC_OK, st2\<lparr>total_delayed_requests := sat_inc (total_delayed_requests st2)\<rparr>,
                        Some (dcc_firewall_result_set FIREWALL_DELAY REASON_SOFT_INVALID_REQUEST_LIMIT delay critical))
                  else (DCC_OK, st2, Some (dcc_firewall_result_set FIREWALL_ALLOW REASON_NONE 0 critical)))
            in if dcc_firewall_hard_exceeded st2 then
                 if on_hard_limit (options st2) = HARD_LIMIT_DELAY
                 then (DCC_OK, st2\<lparr>total_delayed_requests := sat_inc (total_delayed_requests st2)\<rparr>,
                       Some (dcc_firewall_result_set FIREWALL_DELAY REASON_HARD_INVALID_REQUEST_LIMIT delay critical))
                 else if on_hard_limit (options st2) = HARD_LIMIT_REJECT_ALL \<or> \<not> critical
                 then (DCC_OK, st2\<lparr>total_rejected_requests := sat_inc (total_rejected_requests st2)\<rparr>,
                       Some (dcc_firewall_result_set FIREWALL_REJECT REASON_HARD_INVALID_REQUEST_LIMIT 0 critical))
                 else soft
               else soft)"

definition dcc_rest_firewall_state_record_response ::
  "dcc_rest_firewall_state \<Rightarrow> u16 \<Rightarrow> u64 \<Rightarrow> dcc_rest_firewall_state" where
  "dcc_rest_firewall_state_record_response st status now =
     (let st1 = dcc_rest_firewall_state_normalize_window st now in
      if \<not> dcc_rest_firewall_status_is_invalid status then st1
      else st1\<lparr>invalid_request_count := sat_inc (invalid_request_count st1),
               total_invalid_requests := sat_inc (total_invalid_requests st1)\<rparr>)"

definition dcc_rest_firewall_snapshot_from_state ::
  "dcc_rest_firewall_state option \<Rightarrow> u64 \<Rightarrow> dcc_rest_firewall_snapshot" where
  "dcc_rest_firewall_snapshot_from_state state now =
     (case state of
        None \<Rightarrow>
          \<lparr>snap_options = dcc_rest_firewall_options_init,
           snap_window_started_at_ms = 0, snap_window_ends_at_ms = 0, snap_invalid_request_count = 0,
           snap_total_requests = 0, snap_total_invalid_requests = 0, snap_total_delayed_requests = 0,
           snap_total_rejected_requests = 0, soft_limit_exceeded = False, hard_limit_exceeded = False,
           snap_attached = False\<rparr>
      | Some st \<Rightarrow>
          let started = (if window_active st then window_started_at_ms st else now) in
          \<lparr>snap_options = (options st)\<lparr>opt_size := sizeof_firewall_options\<rparr>,
           snap_window_started_at_ms = started,
           snap_window_ends_at_ms = dcc_firewall_add_ms started (invalid_request_window_ms (options st)),
           snap_invalid_request_count = invalid_request_count st,
           snap_total_requests = total_requests st,
           snap_total_invalid_requests = total_invalid_requests st,
           snap_total_delayed_requests = total_delayed_requests st,
           snap_total_rejected_requests = total_rejected_requests st,
           soft_limit_exceeded = dcc_firewall_soft_exceeded st,
           hard_limit_exceeded = dcc_firewall_hard_exceeded st,
           snap_attached = attached st\<rparr>)"

section \<open>Standalone firewalls\<close>

text \<open>
  A \<open>dcc_rest_firewall_t *\<close> is \<open>None\<close> for \<open>NULL\<close>; the object holds one state, which is never
  \<open>NULL\<close> after a successful create. The first allocation is the handle, the second the state.
\<close>

definition dcc_rest_firewall_create ::
  "bool \<Rightarrow> bool \<Rightarrow> dcc_rest_firewall_options option \<Rightarrow> dcc_status \<times> dcc_rest_firewall_state option" where
  "dcc_rest_firewall_create calloc_handle_ok calloc_state_ok opts =
     (if \<not> calloc_handle_ok then (DCC_ERR_NOMEM, None)
      else case dcc_rest_firewall_state_new calloc_state_ok opts 0 of
        None \<Rightarrow> (DCC_ERR_NOMEM, None)
      | Some st \<Rightarrow> (DCC_OK, Some st))"

definition dcc_rest_firewall_check ::
  "dcc_rest_firewall_state option \<Rightarrow> dcc_rest_firewall_request option
    \<Rightarrow> dcc_status \<times> dcc_rest_firewall_state option \<times> dcc_rest_firewall_result option" where
  "dcc_rest_firewall_check firewall req =
     (case firewall of
        None \<Rightarrow> (DCC_ERR_INVALID_ARG, None, None)
      | Some st \<Rightarrow> (case dcc_rest_firewall_state_check st req of (s, st', r) \<Rightarrow> (s, Some st', r)))"

definition dcc_rest_firewall_record_response ::
  "dcc_rest_firewall_state option \<Rightarrow> u16 \<Rightarrow> u64 \<Rightarrow> dcc_status \<times> dcc_rest_firewall_state option" where
  "dcc_rest_firewall_record_response firewall status now =
     (case firewall of
        None \<Rightarrow> (DCC_ERR_INVALID_ARG, None)
      | Some st \<Rightarrow> (DCC_OK, Some (dcc_rest_firewall_state_record_response st status now)))"

definition dcc_rest_firewall_state_snapshot ::
  "dcc_rest_firewall_state option \<Rightarrow> u64
    \<Rightarrow> dcc_status \<times> dcc_rest_firewall_state option \<times> dcc_rest_firewall_snapshot option" where
  "dcc_rest_firewall_state_snapshot firewall now =
     (case firewall of
        None \<Rightarrow> (DCC_ERR_INVALID_ARG, None, None)
      | Some st \<Rightarrow>
          let st' = dcc_rest_firewall_state_normalize_window st now in
          (DCC_OK, Some st', Some (dcc_rest_firewall_snapshot_from_state (Some st') now)))"

section \<open>The firewall of a client\<close>

text \<open>
  The client's \<open>rest_firewall\<close> pointer is the state. A hook returns the status and the new pointer;
  \<open>before_request\<close> also returns the time it sleeps.
\<close>

definition dcc_rest_firewall_attach ::
  "bool \<Rightarrow> dcc_rest_firewall_state option \<Rightarrow> dcc_rest_firewall_options option
    \<Rightarrow> dcc_status \<times> dcc_rest_firewall_state option" where
  "dcc_rest_firewall_attach calloc_ok rest_firewall opts =
     (if opts \<noteq> None \<and> dcc_rest_firewall_options_validate opts \<noteq> DCC_OK
      then (DCC_ERR_INVALID_ARG, rest_firewall)
      else case dcc_rest_firewall_state_new calloc_ok opts 1 of
        None \<Rightarrow> (DCC_ERR_NOMEM, rest_firewall)
      | Some st \<Rightarrow> (DCC_OK, Some st))"

definition dcc_rest_firewall_detach ::
  "dcc_rest_firewall_state option \<Rightarrow> dcc_rest_firewall_state option" where
  "dcc_rest_firewall_detach rest_firewall = None"

definition dcc_rest_firewall_before_request ::
  "dcc_rest_firewall_state option \<Rightarrow> string option \<Rightarrow> string option \<Rightarrow> u64
    \<Rightarrow> dcc_status \<times> dcc_rest_firewall_state option \<times> u64" where
  "dcc_rest_firewall_before_request rest_firewall method path now =
     (if method = None \<or> path = None then (DCC_ERR_INVALID_ARG, rest_firewall, 0)
      else case rest_firewall of
        None \<Rightarrow> (DCC_OK, None, 0)
      | Some st \<Rightarrow>
          (case dcc_rest_firewall_state_check st
                  (Some \<lparr>req_size = sizeof_firewall_request, req_method = method, req_path = path,
                         req_now_ms = now, req_critical = 0\<rparr>) of
             (status, st', result) \<Rightarrow>
               if status \<noteq> DCC_OK then (status, Some st', 0)
               else case result of
                 None \<Rightarrow> (DCC_OK, Some st', 0)
               | Some r \<Rightarrow>
                   if decision r = FIREWALL_REJECT then (DCC_ERR_STATE, Some st', 0)
                   else if decision r = FIREWALL_DELAY \<and> delay_ms r \<noteq> 0 then (DCC_OK, Some st', delay_ms r)
                   else (DCC_OK, Some st', 0)))"

definition dcc_rest_firewall_after_response ::
  "dcc_rest_firewall_state option \<Rightarrow> u16 \<Rightarrow> u64 \<Rightarrow> dcc_rest_firewall_state option" where
  "dcc_rest_firewall_after_response rest_firewall status now =
     map_option (\<lambda>st. dcc_rest_firewall_state_record_response st status now) rest_firewall"

section \<open>Specification: histories and windows\<close>

text \<open>
  What happens to a firewall, as a sequence of events; each event carries the time its operation
  reads. \<open>fw_windows\<close> cuts a history into windows: a window begins at an event and holds the events
  that follow it until one that comes \<open>W\<close> milliseconds or more after the window's begin.
\<close>

datatype fw_event =
    Fw_check dcc_rest_firewall_request
  | Fw_response u16 u64
  | Fw_snapshot u64

fun fw_time :: "fw_event \<Rightarrow> u64" where
  "fw_time (Fw_check rq) = req_now_ms rq"
| "fw_time (Fw_response status now) = now"
| "fw_time (Fw_snapshot now) = now"

fun fw_accepts :: "fw_event \<Rightarrow> bool" where
  "fw_accepts (Fw_check rq) \<longleftrightarrow> firewall_request_min_size \<le> req_size rq"
| "fw_accepts _ \<longleftrightarrow> True"

fun fw_apply :: "fw_event \<Rightarrow> dcc_rest_firewall_state option \<Rightarrow> dcc_rest_firewall_state option" where
  "fw_apply (Fw_check rq) fw = fst (snd (dcc_rest_firewall_check fw (Some rq)))"
| "fw_apply (Fw_response status now) fw = snd (dcc_rest_firewall_record_response fw status now)"
| "fw_apply (Fw_snapshot now) fw = fst (snd (dcc_rest_firewall_state_snapshot fw now))"

fun fw_invalid :: "fw_event \<Rightarrow> bool" where
  "fw_invalid (Fw_response status now) \<longleftrightarrow> dcc_rest_firewall_status_is_invalid status"
| "fw_invalid _ \<longleftrightarrow> False"

definition invalid_responses :: "fw_event list \<Rightarrow> nat" where
  "invalid_responses es = length (filter fw_invalid es)"

function fw_windows :: "nat \<Rightarrow> fw_event list \<Rightarrow> fw_event list list" where
  "fw_windows W [] = []"
| "fw_windows W (e # es) =
     (let inside = (\<lambda>x. unat (fw_time x) < unat (fw_time e) + W) in
      (e # takeWhile inside es) # fw_windows W (dropWhile inside es))"
  by pat_completeness auto
termination
  by (relation "measure (length \<circ> snd)") (auto simp: le_imp_less_Suc length_dropWhile_le)

definition spec_decision ::
  "dcc_rest_firewall_options \<Rightarrow> nat \<Rightarrow> bool \<Rightarrow> dcc_rest_firewall_decision" where
  "spec_decision opts n critical =
     (let hard = unat (invalid_request_hard_limit opts) \<le> n;
          soft = invalid_request_soft_limit opts \<noteq> 0 \<and> unat (invalid_request_soft_limit opts) \<le> n in
      if hard \<and> on_hard_limit opts = HARD_LIMIT_REJECT_ALL then FIREWALL_REJECT
      else if hard \<and> on_hard_limit opts = HARD_LIMIT_REJECT_NONCRITICAL \<and> \<not> critical then FIREWALL_REJECT
      else if hard \<and> on_hard_limit opts = HARD_LIMIT_DELAY then FIREWALL_DELAY
      else if soft \<and> soft_limit_delay_ms opts \<noteq> 0 then FIREWALL_DELAY
      else FIREWALL_ALLOW)"

text \<open>What every reachable firewall state satisfies.\<close>

definition firewall_inv :: "dcc_rest_firewall_state \<Rightarrow> bool" where
  "firewall_inv st \<longleftrightarrow>
     dcc_rest_firewall_options_validate (Some (options st)) = DCC_OK
     \<and> opt_size (options st) = sizeof_firewall_options
     \<and> invalid_request_count st \<le> total_invalid_requests st
     \<and> total_delayed_requests st \<le> total_requests st
     \<and> total_rejected_requests st \<le> total_requests st
     \<and> (window_active st \<or> invalid_request_count st = 0)"

section \<open>Lemmas\<close>

lemma sat_inc_mono: "x \<le> y \<Longrightarrow> sat_inc x \<le> sat_inc y"
  by (simp add: word_le_nat_alt unat_sat_inc)

lemma le_sat_inc: "x \<le> y \<Longrightarrow> x \<le> sat_inc y"
  using unat_u64_less [of x] by (simp add: word_le_nat_alt unat_sat_inc)

lemma validate_cases:
  assumes "dcc_rest_firewall_options_validate (Some p) = DCC_OK"
  shows "invalid_request_window_ms p \<noteq> 0" "invalid_request_hard_limit p \<noteq> 0"
    "invalid_request_soft_limit p \<le> invalid_request_hard_limit p"
    "on_hard_limit p \<in> {HARD_LIMIT_REJECT_NONCRITICAL, HARD_LIMIT_REJECT_ALL, HARD_LIMIT_DELAY}"
  using assms by (auto simp: dcc_rest_firewall_options_validate_def split: if_splits)

lemma state_new_inv [dcc_inv]:
  "dcc_rest_firewall_state_new ok opts a = Some st \<Longrightarrow> firewall_inv st"
  by (auto simp: dcc_rest_firewall_state_new_def firewall_inv_def Let_def
      dcc_rest_firewall_options_validate_def split: if_splits)

lemma normalize_inv [dcc_inv]:
  "firewall_inv st \<Longrightarrow> firewall_inv (dcc_rest_firewall_state_normalize_window st now)"
  by (auto simp: firewall_inv_def dcc_rest_firewall_state_normalize_window_def Let_def)

lemma normalize_fields [simp]:
  "options (dcc_rest_firewall_state_normalize_window st now) = options st"
  "window_active (dcc_rest_firewall_state_normalize_window st now)"
  by (auto simp: dcc_rest_firewall_state_normalize_window_def Let_def)

text \<open>A check changes, beyond the window, only the three request totals.\<close>

lemma check_cases:
  assumes "dcc_rest_firewall_state_check st (Some rq) = (s, st', r)"
    and "firewall_request_min_size \<le> req_size rq"
  defines "st1 \<equiv> dcc_rest_firewall_state_normalize_window st (req_now_ms rq)"
  shows "\<exists>d j. st' = st1\<lparr>total_requests := sat_inc (total_requests st1),
                       total_delayed_requests := d, total_rejected_requests := j\<rparr>
      \<and> d \<in> {total_delayed_requests st1, sat_inc (total_delayed_requests st1)}
      \<and> j \<in> {total_rejected_requests st1, sat_inc (total_rejected_requests st1)}"
  using assms(1,2) unfolding dcc_rest_firewall_state_check_def st1_def
  by (intro exI [of _ "total_delayed_requests st'"] exI [of _ "total_rejected_requests st'"])
    (auto simp: Let_def split: if_splits)

lemma check_inv [dcc_inv]:
  assumes "firewall_inv st" "dcc_rest_firewall_state_check st req = (s, st', r)"
  shows "firewall_inv st'"
proof (cases "\<exists>rq. req = Some rq \<and> firewall_request_min_size \<le> req_size rq")
  case True
  then obtain rq where rq: "req = Some rq" "firewall_request_min_size \<le> req_size rq"
    by blast
  have "firewall_inv (dcc_rest_firewall_state_normalize_window st (req_now_ms rq))"
    using assms(1) by (rule normalize_inv)
  with check_cases [OF assms(2) [unfolded rq(1)] rq(2)] show ?thesis
    by (auto simp: firewall_inv_def intro: le_sat_inc sat_inc_mono)
next
  case False
  with assms show ?thesis
    by (auto simp: dcc_rest_firewall_state_check_def split: option.splits if_splits)
qed

lemma record_inv [dcc_inv]:
  "firewall_inv st \<Longrightarrow> firewall_inv (dcc_rest_firewall_state_record_response st status now)"
  using normalize_inv [of st now]
  by (auto simp: dcc_rest_firewall_state_record_response_def Let_def firewall_inv_def intro: sat_inc_mono)

lemma fw_windows_Cons_ne [simp]: "es \<noteq> [] \<Longrightarrow> fw_windows W es \<noteq> []"
  by (cases es) (auto simp: Let_def)

lemma fw_windows_parts: "w \<in> set (fw_windows W es) \<Longrightarrow> w \<noteq> []"
  by (induction W es rule: fw_windows.induct) (auto simp: Let_def)

lemma fw_windows_concat: "concat (fw_windows W es) = es"
  by (induction W es rule: fw_windows.induct) (auto simp: Let_def)

lemma fw_windows_snoc:
  "fw_windows W (es @ [e]) =
     (if es = [] then [[e]]
      else let ws = fw_windows W es; w = last ws in
        if unat (fw_time e) < unat (fw_time (hd w)) + W then butlast ws @ [w @ [e]] else ws @ [[e]])"
proof (induction W es rule: fw_windows.induct)
  case (1 W)
  then show ?case by simp
next
  case (2 W a es)
  let ?in = "\<lambda>x. unat (fw_time x) < unat (fw_time a) + W"
  show ?case
  proof (cases "dropWhile ?in es = []")
    case True
    then have all: "\<forall>x \<in> set es. ?in x"
      by simp
    then have "takeWhile ?in (es @ [e]) = es @ takeWhile ?in [e]" "dropWhile ?in (es @ [e]) = dropWhile ?in [e]"
      by (auto simp: takeWhile_append2 dropWhile_append2)
    moreover from all have "takeWhile ?in es = es" "fw_windows W (dropWhile ?in es) = []"
      by (simp_all only: True takeWhile_eq_all_conv fw_windows.simps)
    ultimately show ?thesis
      by (cases "?in e") (simp_all add: Let_def del: takeWhile_eq_all_conv)
  next
    case False
    then have "\<not> (\<forall>x \<in> set es. ?in x)"
      by simp
    then have "takeWhile ?in (es @ [e]) = takeWhile ?in es" "dropWhile ?in (es @ [e]) = dropWhile ?in es @ [e]"
      by (auto simp: takeWhile_append dropWhile_append)
    then show ?thesis
      using False 2 [OF refl] by (auto simp: Let_def)
  qed
qed

text \<open>Before \<open>UINT64_MAX\<close> the saturated window end is the true one.\<close>

lemma normalize_window_alt:
  assumes "now < UINT64_MAX"
  shows "dcc_rest_firewall_state_normalize_window st now =
     (if window_active st
         \<and> unat now < unat (window_started_at_ms st) + unat (invalid_request_window_ms (options st))
      then st
      else st\<lparr>window_started_at_ms := now, invalid_request_count := 0, window_active := True\<rparr>)"
proof -
  have "unat now < 2 ^ 64 - 1"
    using assms by (simp add: word_less_nat_alt)
  then have "sat_add (window_started_at_ms st) (invalid_request_window_ms (options st)) \<le> now
      \<longleftrightarrow> unat (window_started_at_ms st) + unat (invalid_request_window_ms (options st)) \<le> unat now"
    by (auto simp: word_le_nat_alt unat_sat_add)
  then show ?thesis
    by (auto simp: dcc_rest_firewall_state_normalize_window_def Let_def)
qed

text \<open>Every event normalises the window at its time; only an invalid response then counts.\<close>

lemma fw_apply_window:
  assumes "fw_accepts e"
  shows "\<exists>st'. fw_apply e (Some st) = Some st' \<and> options st' = options st \<and> window_active st'
     \<and> window_started_at_ms st'
         = window_started_at_ms (dcc_rest_firewall_state_normalize_window st (fw_time e))
     \<and> invalid_request_count st' =
         (let n = invalid_request_count (dcc_rest_firewall_state_normalize_window st (fw_time e))
          in if fw_invalid e then sat_inc n else n)"
proof (cases e)
  case (Fw_check rq)
  obtain s st' r where eq: "dcc_rest_firewall_state_check st (Some rq) = (s, st', r)"
    by (cases "dcc_rest_firewall_state_check st (Some rq)") auto
  from check_cases [OF eq] Fw_check assms eq show ?thesis
    by (auto simp: dcc_rest_firewall_check_def)
next
  case (Fw_response status now)
  then show ?thesis
    by (auto simp: dcc_rest_firewall_record_response_def dcc_rest_firewall_state_record_response_def Let_def)
next
  case (Fw_snapshot now)
  then show ?thesis
    by (auto simp: dcc_rest_firewall_state_snapshot_def Let_def)
qed

definition window_matches :: "nat \<Rightarrow> fw_event list \<Rightarrow> dcc_rest_firewall_state \<Rightarrow> bool" where
  "window_matches W es st \<longleftrightarrow>
     (if es = [] then \<not> window_active st
      else window_active st
        \<and> window_started_at_ms st = fw_time (hd (last (fw_windows W es)))
        \<and> unat (invalid_request_count st) = invalid_responses (last (fw_windows W es)))"

lemma window_length_le:
  assumes "es \<noteq> []"
  shows "length (last (fw_windows W es)) \<le> length es"
proof -
  have "length (last (fw_windows W es)) \<in> set (map length (fw_windows W es))"
    using assms by simp
  then have "length (last (fw_windows W es)) \<le> sum_list (map length (fw_windows W es))"
    by (intro member_le_sum_list) auto
  also have "\<dots> = length es"
    by (simp add: fw_windows_concat flip: length_concat)
  finally show ?thesis .
qed

lemma invalid_responses_snoc:
  "invalid_responses (w @ [e]) = invalid_responses w + (if fw_invalid e then 1 else 0)"
  by (simp add: invalid_responses_def)

lemma invalid_responses_le: "invalid_responses w \<le> length w"
  by (simp add: invalid_responses_def)

lemma window_matches_normalize:
  assumes "window_matches W es st" and "W = unat (invalid_request_window_ms (options st))"
    and "now < UINT64_MAX" and "now = fw_time e"
  defines "w \<equiv> last (fw_windows W (es @ [e]))"
  shows "window_started_at_ms (dcc_rest_firewall_state_normalize_window st now) = fw_time (hd w)
    \<and> unat (invalid_request_count (dcc_rest_firewall_state_normalize_window st now))
        = invalid_responses (butlast w)"
proof (cases "es = []")
  case True
  with assms show ?thesis
    by (simp add: window_matches_def normalize_window_alt invalid_responses_def fw_windows_snoc)
next
  case False
  have "last (fw_windows W es) \<noteq> []"
    using False by (simp add: fw_windows_parts [OF last_in_set])
  with False assms show ?thesis
    by (auto simp: window_matches_def normalize_window_alt invalid_responses_def fw_windows_snoc Let_def)
qed

lemma last_windows_snoc: "last (last (fw_windows W (es @ [e]))) = e"
  "last (fw_windows W (es @ [e])) \<noteq> []"
  by (auto simp: fw_windows_snoc Let_def)

lemma window_matches_step:
  assumes m: "window_matches W es st" and W: "W = unat (invalid_request_window_ms (options st))"
    and t: "fw_time e < UINT64_MAX" and acc: "fw_accepts e" and len: "length es + 1 < 2 ^ 64"
  shows "\<exists>st'. fw_apply e (Some st) = Some st' \<and> options st' = options st
           \<and> window_matches W (es @ [e]) st'"
proof -
  let ?w = "last (fw_windows W (es @ [e]))"
  have snoc: "?w = butlast ?w @ [e]"
    using last_windows_snoc [of W es e] append_butlast_last_id [of ?w] by simp
  have "invalid_responses (butlast ?w) \<le> length es"
    using invalid_responses_le [of "butlast ?w"] window_length_le [of "es @ [e]" W] by simp
  then have "invalid_responses (butlast ?w) + 1 < 2 ^ 64"
    using len by simp
  moreover have "invalid_responses ?w = invalid_responses (butlast ?w) + (if fw_invalid e then 1 else 0)"
    by (subst snoc) (rule invalid_responses_snoc)
  ultimately show ?thesis
    using fw_apply_window [OF acc, of st] window_matches_normalize [OF m W t refl]
    by (auto simp: window_matches_def Let_def unat_sat_inc)
qed

definition fw_run :: "fw_event list \<Rightarrow> dcc_rest_firewall_state \<Rightarrow> dcc_rest_firewall_state option" where
  "fw_run es st = fold fw_apply es (Some st)"

definition history_ok :: "fw_event list \<Rightarrow> bool" where
  "history_ok es \<longleftrightarrow> length es < 2 ^ 64 \<and> list_all (\<lambda>e. fw_accepts e \<and> fw_time e < UINT64_MAX) es"

lemma fw_run_matches:
  assumes "history_ok es" "\<not> window_active st" "W = unat (invalid_request_window_ms (options st))"
  shows "\<exists>st'. fw_run es st = Some st' \<and> options st' = options st \<and> window_matches W es st'"
  using assms
proof (induction es rule: rev_induct)
  case Nil
  then show ?case by (simp add: fw_run_def window_matches_def)
next
  case (snoc e es)
  then obtain st' where st': "fw_run es st = Some st'" "options st' = options st" "window_matches W es st'"
    by (auto simp: history_ok_def)
  have "\<exists>st''. fw_apply e (Some st') = Some st'' \<and> options st'' = options st' \<and> window_matches W (es @ [e]) st''"
    using snoc.prems st' by (intro window_matches_step) (auto simp: history_ok_def)
  with st' show ?case
    by (auto simp: fw_run_def)
qed

text \<open>The decision of one check, by the number of invalid responses in the window it falls in.\<close>

lemma check_decision:
  assumes "firewall_request_min_size \<le> req_size rq"
    and "dcc_rest_firewall_options_validate (Some (options st)) = DCC_OK"
  defines "n \<equiv> unat (invalid_request_count (dcc_rest_firewall_state_normalize_window st (req_now_ms rq)))"
    and "critical \<equiv> req_critical rq \<noteq> 0 \<or> dcc_rest_firewall_request_is_critical (req_method rq) (req_path rq)"
  shows "\<exists>st' r. dcc_rest_firewall_state_check st (Some rq) = (DCC_OK, st', Some r)
     \<and> decision r = spec_decision (options st) n critical \<and> res_critical r = critical
     \<and> delay_ms r = (if decision r = FIREWALL_DELAY then ucast (soft_limit_delay_ms (options st)) else 0)"
proof -
  show ?thesis
    using assms(1) validate_cases [OF assms(2)]
    unfolding dcc_rest_firewall_state_check_def spec_decision_def n_def critical_def
      dcc_firewall_hard_exceeded_def dcc_firewall_soft_exceeded_def dcc_firewall_result_set_def
    by (auto simp: Let_def word_le_nat_alt unat_ucast_u32)
qed

section \<open>Requests in flight\<close>

text \<open>
  The client around the hooks, \<open>dcc_rest_request_raw_impl\<close> of \<^verbatim>\<open>src/rest/rest_request.c\<close>: a request asks
  \<open>before_request\<close> once and then makes up to \<open>max_rate_limit_retries + 1\<close> attempts; every response is
  recorded, and a 429 with a retry left starts the next attempt without asking again. The callers
  allow \<open>DCC_REST_MAX_RATE_LIMIT_RETRIES\<close> retries (a blocking request) or none (a queued one, whose
  retry is a new request). A request is in flight until its last response is recorded or its transport
  fails; \<open>in_flight\<close> has the retries each still has, and at most \<open>M\<close> are in flight at once. The history
  lists what happened to the client, the responses that arrived among it.
\<close>

definition DCC_REST_MAX_RATE_LIMIT_RETRIES :: nat where
  "DCC_REST_MAX_RATE_LIMIT_RETRIES = 3"

record fw_client =
  rest_firewall :: "dcc_rest_firewall_state option"
  in_flight :: "nat list"
  history :: "fw_event list"

definition retries_after :: "nat \<Rightarrow> u16 \<Rightarrow> nat list" where
  "retries_after retries status = (if status = 429 \<and> retries > 0 then [retries - 1] else [])"

text \<open>The responses the requests in flight can still bring.\<close>

definition open_attempts :: "fw_client \<Rightarrow> nat" where
  "open_attempts c = sum_list (map Suc (in_flight c))"

definition fw_request_events :: "string option \<Rightarrow> string option \<Rightarrow> u64 \<Rightarrow> fw_event list" where
  "fw_request_events mth pth now =
     (if mth = None \<or> pth = None then []
      else [Fw_check \<lparr>req_size = sizeof_firewall_request, req_method = mth, req_path = pth,
                      req_now_ms = now, req_critical = 0\<rparr>])"

inductive fw_client_step :: "nat \<Rightarrow> fw_client \<Rightarrow> fw_client \<Rightarrow> bool" for M where
  pass: "dcc_rest_firewall_before_request fw mth pth now = (DCC_OK, fw', sleep) \<Longrightarrow> length ks < M
    \<Longrightarrow> retries \<in> {0, DCC_REST_MAX_RATE_LIMIT_RETRIES}
    \<Longrightarrow> fw_client_step M \<lparr>rest_firewall = fw, in_flight = ks, history = h\<rparr>
          \<lparr>rest_firewall = fw', in_flight = ks @ [retries], history = h @ fw_request_events mth pth now\<rparr>"
| blocked: "dcc_rest_firewall_before_request fw mth pth now = (s, fw', sleep) \<Longrightarrow> s \<noteq> DCC_OK
    \<Longrightarrow> fw_client_step M \<lparr>rest_firewall = fw, in_flight = ks, history = h\<rparr>
          \<lparr>rest_firewall = fw', in_flight = ks, history = h @ fw_request_events mth pth now\<rparr>"
| response: "fw_client_step M \<lparr>rest_firewall = fw, in_flight = ks @ retries # ks', history = h\<rparr>
    \<lparr>rest_firewall = dcc_rest_firewall_after_response fw status now, in_flight = ks @ retries_after retries status @ ks',
     history = h @ [Fw_response status now]\<rparr>"
| failed: "fw_client_step M \<lparr>rest_firewall = fw, in_flight = ks @ retries # ks', history = h\<rparr>
    \<lparr>rest_firewall = fw, in_flight = ks @ ks', history = h\<rparr>"

definition fw_current_window :: "nat \<Rightarrow> fw_event list \<Rightarrow> fw_event list" where
  "fw_current_window W es = (if es = [] then [] else last (fw_windows W es))"

definition fw_client_inv :: "nat \<Rightarrow> dcc_rest_firewall_options \<Rightarrow> fw_client \<Rightarrow> bool" where
  "fw_client_inv M opts c \<longleftrightarrow>
     (\<exists>st. rest_firewall c = Some st \<and> firewall_inv st \<and> options st = opts
        \<and> (history_ok (history c)
             \<longrightarrow> window_matches (unat (invalid_request_window_ms opts)) (history c) st)
        \<and> length (in_flight c) \<le> M \<and> (\<forall>k \<in> set (in_flight c). k \<le> DCC_REST_MAX_RATE_LIMIT_RETRIES)
        \<and> unat (invalid_request_count st) + open_attempts c
            < unat (invalid_request_hard_limit opts) + (DCC_REST_MAX_RATE_LIMIT_RETRIES + 1) * M)"

lemma open_attempts_le:
  "length ks \<le> M \<Longrightarrow> \<forall>k \<in> set ks. k \<le> R \<Longrightarrow> sum_list (map Suc ks) \<le> (R + 1) * M"
proof -
  assume a: "length ks \<le> M" "\<forall>k \<in> set ks. k \<le> R"
  have "sum_list (map Suc ks) \<le> (R + 1) * length ks"
    using a(2) by (induction ks) auto
  also have "\<dots> \<le> (R + 1) * M" using a(1) by (rule mult_le_mono2)
  finally show ?thesis .
qed

lemma sum_retries_after: "sum_list (map Suc (retries_after k status)) \<le> k"
  and set_retries_after: "k' \<in> set (retries_after k status) \<Longrightarrow> k' \<le> k"
  and length_retries_after: "length (retries_after k status) \<le> 1"
  by (auto simp: retries_after_def split: if_splits)

lemma history_ok_append: "history_ok (h @ es) \<Longrightarrow> history_ok h"
  by (simp add: history_ok_def)

lemma fw_events_match:
  assumes "history_ok h \<longrightarrow> window_matches W h st" "W = unat (invalid_request_window_ms (options st))"
    and "fold fw_apply es (Some st) = Some st'" "length es \<le> 1" "history_ok (h @ es)"
  shows "window_matches W (h @ es) st'"
proof (cases es)
  case Nil
  with assms show ?thesis by simp
next
  case (Cons e es')
  with assms(4) have es: "es = [e]" by simp
  with assms(5) have "fw_time e < UINT64_MAX" "fw_accepts e" "length h + 1 < 2 ^ 64"
    by (auto simp: history_ok_def)
  with window_matches_step [OF _ assms(2)] assms(1,3) history_ok_append [OF assms(5)] es show ?thesis
    by fastforce
qed

lemma normalize_count_le:
  "unat (invalid_request_count (dcc_rest_firewall_state_normalize_window st now)) \<le> unat (invalid_request_count st)"
  by (simp add: dcc_rest_firewall_state_normalize_window_def Let_def)

lemma before_request_state:
  assumes "dcc_rest_firewall_before_request (Some st) mth pth now = (s, fw', sleep)" "firewall_inv st"
    and "on_hard_limit (options st) = HARD_LIMIT_REJECT_ALL"
  shows "\<exists>st'. fw' = Some st' \<and> firewall_inv st' \<and> options st' = options st
     \<and> fold fw_apply (fw_request_events mth pth now) (Some st) = Some st'
     \<and> unat (invalid_request_count st') \<le> unat (invalid_request_count st)
     \<and> (s = DCC_OK \<longrightarrow> unat (invalid_request_count st') < unat (invalid_request_hard_limit (options st)))"
proof (cases "mth = None \<or> pth = None")
  case True
  with assms show ?thesis
    by (auto simp: dcc_rest_firewall_before_request_def fw_request_events_def)
next
  case False
  define rq where "rq = \<lparr>req_size = sizeof_firewall_request, req_method = mth, req_path = pth,
      req_now_ms = now, req_critical = 0\<rparr>"
  have size: "firewall_request_min_size \<le> req_size rq" and now: "req_now_ms rq = now"
    by (simp_all add: rq_def sizeof_firewall_request_def firewall_request_min_size_def)
  have valid: "dcc_rest_firewall_options_validate (Some (options st)) = DCC_OK"
    using assms(2) by (simp add: firewall_inv_def)
  from check_decision [OF size valid] obtain st' r where
    chk: "dcc_rest_firewall_state_check st (Some rq) = (DCC_OK, st', Some r)" and
    dec: "decision r = spec_decision (options st)
        (unat (invalid_request_count (dcc_rest_firewall_state_normalize_window st now)))
        (req_critical rq \<noteq> 0 \<or> dcc_rest_firewall_request_is_critical (req_method rq) (req_path rq))"
    unfolding now by blast
  have st': "invalid_request_count st' = invalid_request_count (dcc_rest_firewall_state_normalize_window st now)"
    "options st' = options st"
    using check_cases [OF chk size] now by auto
  have "fw' = Some st'" and "s = DCC_OK \<longrightarrow> decision r \<noteq> FIREWALL_REJECT"
    using assms(1) False chk
    by (auto simp: dcc_rest_firewall_before_request_def rq_def [symmetric] split: if_splits)
  moreover have "firewall_inv st'"
    using assms(2) chk by (rule check_inv)
  moreover have "fold fw_apply (fw_request_events mth pth now) (Some st) = Some st'"
    using False chk by (auto simp: fw_request_events_def rq_def [symmetric] dcc_rest_firewall_check_def)
  ultimately show ?thesis
    using dec assms(3) st' normalize_count_le [of st now]
    by (auto simp: spec_decision_def Let_def not_le split: if_splits)
qed

lemma record_count_le:
  "unat (invalid_request_count (dcc_rest_firewall_state_record_response st status now))
     \<le> unat (invalid_request_count st) + 1"
  using normalize_count_le [of st now]
  by (auto simp: dcc_rest_firewall_state_record_response_def Let_def unat_sat_inc)

lemma fw_client_invI:
  assumes "fw_client_inv M opts c" "rest_firewall c = Some st" "rest_firewall c' = Some st'"
    and "firewall_inv st'" "options st' = options st"
    and "fold fw_apply es (Some st) = Some st'" "length es \<le> 1" "history c' = history c @ es"
    and "length (in_flight c') \<le> M" "\<forall>k \<in> set (in_flight c'). k \<le> DCC_REST_MAX_RATE_LIMIT_RETRIES"
    and "unat (invalid_request_count st') + open_attempts c'
      < unat (invalid_request_hard_limit opts) + (DCC_REST_MAX_RATE_LIMIT_RETRIES + 1) * M"
  shows "fw_client_inv M opts c'"
proof -
  have opts: "options st = opts" and
    m: "history_ok (history c) \<longrightarrow> window_matches (unat (invalid_request_window_ms opts)) (history c) st"
    using assms(1,2) by (simp_all add: fw_client_inv_def)
  have "unat (invalid_request_window_ms opts) = unat (invalid_request_window_ms (options st))"
    by (simp add: opts)
  from fw_events_match [OF m this assms(6,7)] opts assms(3-5,8-11) show ?thesis
    by (simp add: fw_client_inv_def)
qed

lemma fw_request_events_length: "length (fw_request_events mth pth now) \<le> 1"
  by (simp add: fw_request_events_def)

lemma fw_client_step_inv [dcc_inv]:
  assumes "fw_client_step M c c'" "fw_client_inv M opts c" "on_hard_limit opts = HARD_LIMIT_REJECT_ALL"
  shows "fw_client_inv M opts c'"
  using assms
proof (induction rule: fw_client_step.induct)
  case (pass fw mth pth now fw' sleep ks retries h)
  then obtain st where st: "fw = Some st" "firewall_inv st" "options st = opts"
    and ks: "\<forall>k \<in> set (ks @ [retries]). k \<le> DCC_REST_MAX_RATE_LIMIT_RETRIES"
    by (auto simp: fw_client_inv_def)
  from before_request_state [of st mth pth now DCC_OK fw' sleep] pass st obtain st' where
    "fw' = Some st'" "firewall_inv st'" "options st' = options st"
    "fold fw_apply (fw_request_events mth pth now) (Some st) = Some st'"
    "unat (invalid_request_count st') < unat (invalid_request_hard_limit opts)"
    by auto
  moreover have "sum_list (map Suc (ks @ [retries])) \<le> (DCC_REST_MAX_RATE_LIMIT_RETRIES + 1) * M"
    using pass.hyps(2) ks by (intro open_attempts_le) auto
  ultimately show ?case
    using pass.hyps(2) st ks
    by (intro fw_client_invI [OF pass.prems(1) _ _ _ _ _ fw_request_events_length, of st _ st'])
      (auto simp: open_attempts_def)
next
  case (blocked fw mth pth now s fw' sleep ks h)
  then obtain st where st: "fw = Some st" "firewall_inv st" "options st = opts"
    by (auto simp: fw_client_inv_def)
  from before_request_state [of st mth pth now s fw' sleep] blocked st obtain st' where
    "fw' = Some st'" "firewall_inv st'" "options st' = options st"
    "fold fw_apply (fw_request_events mth pth now) (Some st) = Some st'"
    "unat (invalid_request_count st') \<le> unat (invalid_request_count st)"
    by auto
  with blocked.prems(1) st show ?case
    by (intro fw_client_invI [OF blocked.prems(1) _ _ _ _ _ fw_request_events_length, of st _ st'])
      (auto simp: fw_client_inv_def open_attempts_def)
next
  case (response fw ks retries ks' h status now)
  then obtain st where st: "fw = Some st" "firewall_inv st" "options st = opts"
    by (auto simp: fw_client_inv_def)
  have "options (dcc_rest_firewall_state_record_response st status now) = options st"
    by (simp add: dcc_rest_firewall_state_record_response_def Let_def)
  with st response.prems(1) record_count_le [of st status now] record_inv [of st status now]
    sum_retries_after [of retries status] length_retries_after [of retries status]
  show ?case
    by (intro fw_client_invI [OF response.prems(1), of st _ "dcc_rest_firewall_state_record_response st status now"
          "[Fw_response status now]"])
      (auto simp: dcc_rest_firewall_after_response_def dcc_rest_firewall_record_response_def fw_client_inv_def
        open_attempts_def dest: set_retries_after)
next
  case (failed fw ks retries ks' h)
  then show ?case
    by (auto simp: fw_client_inv_def open_attempts_def)
qed

lemma state_new_fields:
  assumes "dcc_rest_firewall_state_new ok opts a = Some st"
  shows "attached st \<longleftrightarrow> a \<noteq> 0" "\<not> window_active st" "invalid_request_count st = 0"
    "options st = (case opts of None \<Rightarrow> dcc_rest_firewall_options_init | Some p \<Rightarrow> p)
       \<lparr>opt_size := sizeof_firewall_options\<rparr>"
  using assms by (auto simp: dcc_rest_firewall_state_new_def Let_def split: if_splits)

lemma attach_new:
  assumes "dcc_rest_firewall_attach ok fw opts = (DCC_OK, fw')"
  shows "\<exists>st. fw' = Some st \<and> dcc_rest_firewall_state_new ok opts 1 = Some st"
  using assms by (cases "dcc_rest_firewall_state_new ok opts 1") (auto simp: dcc_rest_firewall_attach_def split: if_splits)

lemma create_new:
  assumes "dcc_rest_firewall_create h ok opts = (DCC_OK, fw')"
  shows "\<exists>st. fw' = Some st \<and> dcc_rest_firewall_state_new ok opts 0 = Some st"
  using assms by (cases "dcc_rest_firewall_state_new ok opts 0") (auto simp: dcc_rest_firewall_create_def split: if_splits)

lemma fw_apply_inv [dcc_inv]:
  assumes "firewall_inv st"
  shows "\<exists>st'. fw_apply e (Some st) = Some st' \<and> firewall_inv st'"
proof (cases e)
  case (Fw_check rq)
  obtain s st' r where "dcc_rest_firewall_state_check st (Some rq) = (s, st', r)"
    by (metis prod_cases3)
  with Fw_check check_inv [OF assms this] show ?thesis
    by (simp add: dcc_rest_firewall_check_def)
qed (simp_all add: dcc_rest_firewall_record_response_def dcc_rest_firewall_state_snapshot_def
    Let_def record_inv normalize_inv assms)

lemma fw_run_inv [dcc_inv]:
  assumes "firewall_inv st"
  shows "\<exists>st'. fw_run es st = Some st' \<and> firewall_inv st'"
proof (induction es rule: rev_induct)
  case (snoc e es)
  then obtain st' where "fw_run es st = Some st'" "firewall_inv st'"
    by blast
  then show ?case
    using fw_apply_inv [of st' e] by (simp add: fw_run_def)
qed (simp add: fw_run_def assms)

interpretation fw_client: transition_system
  "fw_client_inv M opts" "fw_client_step M"
  "\<lambda>c. on_hard_limit opts = HARD_LIMIT_REJECT_ALL \<longrightarrow> fw_client_inv M opts c" for M opts
  by unfold_locales (auto intro: fw_client_step_inv)

section \<open>Properties\<close>

text \<open>
  C16. The decision of a firewall check depends on exactly the invalid responses of the current
  window: after any history of checks, responses and snapshots from a fresh firewall, a request is
  rejected, delayed or let through as the options prescribe for the number of 401, 403 and 429
  responses recorded since the window the request falls in began, the window being the history's
  last one when it is cut into windows of the configured length.
\<close>

theorem firewall_decision_by_window:
  assumes "dcc_rest_firewall_create h ok opts = (DCC_OK, Some st)"
    and "history_ok (es @ [Fw_check rq])"
    and "fw_run es st = fw"
  shows "\<exists>st' r. dcc_rest_firewall_check fw (Some rq) = (DCC_OK, Some st', Some r)
     \<and> decision r = spec_decision (options st)
          (invalid_responses (last (fw_windows (unat (invalid_request_window_ms (options st))) (es @ [Fw_check rq]))))
          (req_critical rq \<noteq> 0 \<or> dcc_rest_firewall_request_is_critical (req_method rq) (req_path rq))
     \<and> delay_ms r = (if decision r = FIREWALL_DELAY then ucast (soft_limit_delay_ms (options st)) else 0)"
proof -
  let ?W = "unat (invalid_request_window_ms (options st))"
  let ?w = "last (fw_windows ?W (es @ [Fw_check rq]))"
  have new: "dcc_rest_firewall_state_new ok opts 0 = Some st"
    using create_new [OF assms(1)] by simp
  have "\<not> window_active st" and "firewall_inv st"
    using state_new_fields(2) [OF new] state_new_inv [OF new] by blast+
  from assms(2) have "history_ok es" and acc: "firewall_request_min_size \<le> req_size rq"
    and t: "req_now_ms rq < UINT64_MAX"
    by (auto simp: history_ok_def)
  then obtain st1 where st1: "fw = Some st1" "options st1 = options st" "window_matches ?W es st1"
    using fw_run_matches [of es st ?W] assms(3) \<open>\<not> window_active st\<close> by auto
  have "?W = unat (invalid_request_window_ms (options st1))"
    by (simp only: st1(2))
  note window_matches_normalize [OF st1(3) this t fw_time.simps(1) [symmetric]]
  then have "unat (invalid_request_count (dcc_rest_firewall_state_normalize_window st1 (req_now_ms rq)))
      = invalid_responses (butlast ?w)"
    by (rule conjunct2)
  also have "\<dots> = invalid_responses ?w"
    using invalid_responses_snoc [of "butlast ?w" "Fw_check rq"] last_windows_snoc [of ?W es "Fw_check rq"]
      append_butlast_last_id [of ?w] by simp
  finally have n: "unat (invalid_request_count (dcc_rest_firewall_state_normalize_window st1 (req_now_ms rq)))
      = invalid_responses ?w" .
  have "dcc_rest_firewall_options_validate (Some (options st1)) = DCC_OK"
    using \<open>firewall_inv st\<close> st1(2) by (simp add: firewall_inv_def)
  from check_decision [OF acc this, unfolded n st1(2)] obtain st' r where
    "dcc_rest_firewall_state_check st1 (Some rq) = (DCC_OK, st', Some r)"
    and r: "decision r = spec_decision (options st) (invalid_responses ?w)
        (req_critical rq \<noteq> 0 \<or> dcc_rest_firewall_request_is_critical (req_method rq) (req_path rq))"
      "delay_ms r = (if decision r = FIREWALL_DELAY then ucast (soft_limit_delay_ms (options st)) else 0)"
    by blast
  then have "dcc_rest_firewall_check fw (Some rq) = (DCC_OK, Some st', Some r)"
    by (simp add: dcc_rest_firewall_check_def st1(1))
  with r show ?thesis by blast
qed

definition strict_options :: dcc_rest_firewall_options where
  "strict_options = dcc_rest_firewall_options_init
     \<lparr>invalid_request_soft_limit := 0, invalid_request_hard_limit := 2, invalid_request_window_ms := 100,
      on_hard_limit := HARD_LIMIT_REJECT_ALL\<rparr>"

definition strict_state :: dcc_rest_firewall_state where
  "strict_state =
     \<lparr>options = strict_options, window_started_at_ms = 0, invalid_request_count = 0, total_requests = 0,
      total_invalid_requests = 0, total_delayed_requests = 0, total_rejected_requests = 0,
      window_active = False, attached = False\<rparr>"

definition sample_request :: dcc_rest_firewall_request where
  "sample_request =
     \<lparr>req_size = 40, req_method = Some ''GET'', req_path = Some ''/guilds/1'', req_now_ms = 130, req_critical = 0\<rparr>"

lemma strict_create: "dcc_rest_firewall_create True True (Some strict_options) = (DCC_OK, Some strict_state)"
  by (simp add: dcc_rest_firewall_create_def dcc_rest_firewall_state_new_def strict_options_def
      strict_state_def dcc_rest_firewall_options_init_def dcc_rest_firewall_options_validate_def
      sizeof_firewall_options_def)

lemma sample_windows:
  "fw_windows 100 [Fw_response 429 10, Fw_response 403 60, Fw_response 200 115, Fw_check sample_request]
   = [[Fw_response 429 10, Fw_response 403 60], [Fw_response 200 115, Fw_check sample_request]]"
  by (simp add: sample_request_def)

theorem firewall_decision_by_window_witness:
  "\<exists>st' r. dcc_rest_firewall_check
       (fw_run [Fw_response 429 10, Fw_response 403 60, Fw_response 200 115] strict_state)
       (Some sample_request) = (DCC_OK, Some st', Some r) \<and> decision r = FIREWALL_ALLOW"
proof -
  have ok: "history_ok ([Fw_response 429 10, Fw_response 403 60, Fw_response 200 115] @ [Fw_check sample_request])"
    by (simp add: history_ok_def sample_request_def firewall_request_min_size_def word_less_nat_alt)
  have W: "unat (invalid_request_window_ms (options strict_state)) = 100"
    by (simp add: strict_state_def strict_options_def)
  have "spec_decision (options strict_state) (invalid_responses (last
      [[Fw_response 429 10, Fw_response 403 60], [Fw_response 200 115, Fw_check sample_request]])) c = FIREWALL_ALLOW" for c
    by (simp add: spec_decision_def invalid_responses_def dcc_rest_firewall_status_is_invalid_def
        strict_state_def strict_options_def)
  then show ?thesis
    using firewall_decision_by_window [OF strict_create ok refl, unfolded W append_Cons append_Nil sample_windows]
    by metis
qed

text \<open>
  C8. With the action \<open>REJECT_ALL\<close> the firewall bounds what it is there to bound: if at most \<open>M\<close>
  requests are in flight at once, then, whatever the responses, their times, the retries they cause
  and the transport failures, the number of invalid responses that have arrived in the current window,
  together with the attempts the requests in flight still have, stays below the hard limit plus four
  times \<open>M\<close>. A request asks the firewall only before its first attempt, so that each one in flight can
  bring four invalid responses: a client that sends one request at a time exceeds the hard limit by
  three at most.
\<close>

theorem firewall_invalid_requests_bounded:
  assumes "dcc_rest_firewall_attach ok fw (Some opts) = (DCC_OK, fw')"
    and "on_hard_limit opts = HARD_LIMIT_REJECT_ALL" and "0 < M"
    and "(fw_client_step M)\<^sup>*\<^sup>* \<lparr>rest_firewall = fw', in_flight = [], history = []\<rparr> c"
    and "history_ok (history c)"
  shows "invalid_responses (fw_current_window (unat (invalid_request_window_ms opts)) (history c))
      + open_attempts c < unat (invalid_request_hard_limit opts) + 4 * M"
proof -
  let ?opts = "opts\<lparr>opt_size := sizeof_firewall_options\<rparr>"
  obtain st where fw': "fw' = Some st" and new: "dcc_rest_firewall_state_new ok (Some opts) 1 = Some st"
    using attach_new [OF assms(1)] by blast
  have "options st = ?opts"
    using state_new_fields(4) [OF new] by (simp only: option.case)
  then have "fw_client_inv M ?opts \<lparr>rest_firewall = fw', in_flight = [], history = []\<rparr>"
    using state_new_inv [OF new] state_new_fields(2,3) [OF new] assms(3)
    by (simp add: fw_client_inv_def fw' window_matches_def open_attempts_def)
  with assms(4) have "fw_client_inv M ?opts c"
    using fw_client.reachable_inv [of M ?opts] assms(2) by simp
  with assms(5) show ?thesis
    by (auto simp: fw_client_inv_def window_matches_def fw_current_window_def invalid_responses_def
        DCC_REST_MAX_RATE_LIMIT_RETRIES_def split: if_splits)
qed

text \<open>One blocking request whose first two attempts are answered by 429.\<close>

theorem firewall_invalid_requests_bounded_witness:
  "\<exists>c. (fw_client_step 1)\<^sup>*\<^sup>* \<lparr>rest_firewall = Some (strict_state\<lparr>attached := True\<rparr>), in_flight = [], history = []\<rparr> c
     \<and> in_flight c = [1] \<and> last (history c) = Fw_response 429 9
     \<and> invalid_responses (fw_current_window 100 (history c)) + open_attempts c < 6"
proof -
  let ?st = "strict_state\<lparr>attached := True\<rparr>"
  let ?h = "fw_request_events (Some ''GET'') (Some ''/guilds/1'') 5"
  have new: "dcc_rest_firewall_attach True None (Some strict_options) = (DCC_OK, Some ?st)"
    by (simp add: dcc_rest_firewall_attach_def dcc_rest_firewall_state_new_def strict_options_def
        strict_state_def dcc_rest_firewall_options_init_def dcc_rest_firewall_options_validate_def
        sizeof_firewall_options_def)
  obtain s fw' sl where b: "dcc_rest_firewall_before_request (Some ?st)
      (Some ''GET'') (Some ''/guilds/1'') 5 = (s, fw', sl)"
    by (metis prod_cases3)
  have "s = DCC_OK"
    using b by (simp add: dcc_rest_firewall_before_request_def dcc_rest_firewall_state_check_def
        strict_state_def strict_options_def Let_def dcc_rest_firewall_state_normalize_window_def
        dcc_firewall_hard_exceeded_def dcc_firewall_soft_exceeded_def dcc_firewall_result_set_def
        sizeof_firewall_request_def firewall_request_min_size_def dcc_rest_firewall_options_init_def)
  then have s1: "fw_client_step 1 \<lparr>rest_firewall = Some ?st, in_flight = [], history = []\<rparr>
      \<lparr>rest_firewall = fw', in_flight = [] @ [3], history = [] @ ?h\<rparr>"
    using b by (intro pass) (auto simp: DCC_REST_MAX_RATE_LIMIT_RETRIES_def)
  define fw1 where "fw1 = dcc_rest_firewall_after_response fw' 429 7"
  have s2: "fw_client_step 1 \<lparr>rest_firewall = fw', in_flight = [] @ [3], history = [] @ ?h\<rparr>
      \<lparr>rest_firewall = fw1, in_flight = [] @ [2], history = ?h @ [Fw_response 429 7]\<rparr>"
    using response [of 1 fw' "[]" 3 "[]" "?h" 429 7] by (simp add: fw1_def retries_after_def)
  have s3: "fw_client_step 1 \<lparr>rest_firewall = fw1, in_flight = [] @ [2], history = ?h @ [Fw_response 429 7]\<rparr>
      \<lparr>rest_firewall = dcc_rest_firewall_after_response fw1 429 9, in_flight = [1],
       history = (?h @ [Fw_response 429 7]) @ [Fw_response 429 9]\<rparr>"
    using response [of 1 fw1 "[]" 2 "[]" "?h @ [Fw_response 429 7]" 429 9] by (simp add: retries_after_def)
  have run: "(fw_client_step 1)\<^sup>*\<^sup>* \<lparr>rest_firewall = Some ?st, in_flight = [], history = []\<rparr>
      \<lparr>rest_firewall = dcc_rest_firewall_after_response fw1 429 9, in_flight = [1],
       history = (?h @ [Fw_response 429 7]) @ [Fw_response 429 9]\<rparr>"
    using s1 s2 s3 by (meson converse_rtranclp_into_rtranclp r_into_rtranclp)
  have ok: "history_ok ((?h @ [Fw_response 429 7]) @ [Fw_response 429 9])"
    by (simp add: history_ok_def fw_request_events_def firewall_request_min_size_def
        sizeof_firewall_request_def word_less_nat_alt)
  have "on_hard_limit strict_options = HARD_LIMIT_REJECT_ALL"
    by (simp add: strict_options_def)
  from firewall_invalid_requests_bounded [OF new this _ run] ok
  have "invalid_responses (fw_current_window 100 ((?h @ [Fw_response 429 7]) @ [Fw_response 429 9])) + 2 < 6"
    by (simp add: strict_options_def open_attempts_def)
  with run show ?thesis
    by (intro exI [of _ "\<lparr>rest_firewall = dcc_rest_firewall_after_response fw1 429 9, in_flight = [1],
       history = (?h @ [Fw_response 429 7]) @ [Fw_response 429 9]\<rparr>"] conjI) (simp_all add: open_attempts_def)
qed

text \<open>
  Every state a firewall can be in, standalone or attached, is well formed: its options are
  validated ones, the delayed and the rejected requests are counted among the requests and the
  window's invalid responses among all invalid responses; and a failed attach keeps the firewall
  that was there.
\<close>

theorem firewall_states_well_formed:
  assumes "dcc_rest_firewall_create h ok opts = (DCC_OK, Some st) \<or> dcc_rest_firewall_attach ok fw0 opts = (DCC_OK, Some st)"
  shows "\<exists>st'. fw_run es st = Some st' \<and> firewall_inv st'
     \<and> (fst (dcc_rest_firewall_attach ok2 (Some st') opts2) = DCC_OK
        \<or> snd (dcc_rest_firewall_attach ok2 (Some st') opts2) = Some st')"
proof -
  have "firewall_inv st"
    using assms create_new [of h ok opts "Some st"] attach_new [of ok fw0 opts "Some st"] state_new_inv by blast
  then obtain st' where "fw_run es st = Some st'" "firewall_inv st'"
    using fw_run_inv by blast
  then show ?thesis
    by (auto simp: dcc_rest_firewall_attach_def split: option.splits)
qed

theorem firewall_states_well_formed_witness:
  "\<exists>st'. fw_run [Fw_response 429 10, Fw_check sample_request] strict_state = Some st' \<and> firewall_inv st'"
  using firewall_states_well_formed [OF disjI1, OF strict_create] by blast

text \<open>
  A standalone firewall created with options that do not validate fails with the status of an
  allocation failure, while an attach with the same options reports an invalid argument.
\<close>

theorem firewall_create_invalid_options:
  assumes "dcc_rest_firewall_options_validate (Some p) \<noteq> DCC_OK"
  shows "dcc_rest_firewall_create True True (Some p) = (DCC_ERR_NOMEM, None)
    \<and> dcc_rest_firewall_attach True fw (Some p) = (DCC_ERR_INVALID_ARG, fw)"
  using assms
  by (simp add: dcc_rest_firewall_create_def dcc_rest_firewall_attach_def dcc_rest_firewall_state_new_def)

theorem firewall_create_invalid_options_witness:
  "dcc_rest_firewall_create True True (Some (strict_options\<lparr>invalid_request_hard_limit := 0\<rparr>)) = (DCC_ERR_NOMEM, None)
    \<and> dcc_rest_firewall_attach True None (Some (strict_options\<lparr>invalid_request_hard_limit := 0\<rparr>))
        = (DCC_ERR_INVALID_ARG, None)"
  using firewall_create_invalid_options [of "strict_options\<lparr>invalid_request_hard_limit := 0\<rparr>" None]
  by (simp add: dcc_rest_firewall_options_validate_def)

end
