(* ===== verification/DCC_Rate_Limit.thy ===== *)
theory DCC_Rate_Limit
  imports DCC_Prelude
begin

text \<open>
  The REST rate limiter: \<^verbatim>\<open>src/rest/rest_rate_limit_buckets.c\<close>, \<^verbatim>\<open>rest_rate_limit.c\<close> and
  \<^verbatim>\<open>rest_rate_limit_update.c\<close>, with the header lookup and number parsing of \<^verbatim>\<open>rest_headers.c\<close>
  and \<^verbatim>\<open>rest_header_parse.c\<close>. The client keeps \<open>DCC_REST_BUCKET_CAP\<close> buckets, one per route; buckets
  whose responses carried the same \<open>X-RateLimit-Bucket\<close> hash share their fate.

  The spin lock around each operation makes it one atomic step, so an operation is a function on the
  client's rate-limit fields. The clock is an argument. The floating-point part
  (\<open>dcc_rest_parse_header_double\<close>, the maximum with \<open>retry_after\<close> and \<open>dcc_rest_seconds_to_ms\<close>) is
  not modelled: \<open>dcc_rest_update_rate_limit\<close> takes the milliseconds it yields as an argument.
\<close>

section \<open>Response headers\<close>

fun dcc_rest_ascii_case_eq_span :: "string \<Rightarrow> string \<Rightarrow> bool" where
  "dcc_rest_ascii_case_eq_span [] [] \<longleftrightarrow> True"
| "dcc_rest_ascii_case_eq_span (x # xs) (y # ys) \<longleftrightarrow> to_lower x = to_lower y \<and> dcc_rest_ascii_case_eq_span xs ys"
| "dcc_rest_ascii_case_eq_span _ _ \<longleftrightarrow> False"

definition is_eol :: "char \<Rightarrow> bool" where
  "is_eol c \<longleftrightarrow> code c = 13 \<or> code c = 10"

definition is_blank :: "char \<Rightarrow> bool" where
  "is_blank c \<longleftrightarrow> code c = 32 \<or> code c = 9"

definition trim_blanks :: "string \<Rightarrow> string" where
  "trim_blanks s = rev (dropWhile is_blank (rev (dropWhile is_blank s)))"

text \<open>The loop over the header block; the argument is what is left of it (\<open>p\<close> to \<open>end\<close>).\<close>

function response_header_scan :: "string \<Rightarrow> string \<Rightarrow> string option" where
  "response_header_scan p name =
     (if p = [] then None
      else
        let line = takeWhile (\<lambda>c. \<not> is_eol c) p;
            rest = dropWhile (\<lambda>c. \<not> is_eol c) p in
        case find_byte (CHR '':'') line of
          Some i \<Rightarrow>
            if dcc_rest_ascii_case_eq_span (take i line) name
            then Some (trim_blanks (drop (i + 1) line))
            else response_header_scan (dropWhile is_eol rest) name
        | None \<Rightarrow> response_header_scan (dropWhile is_eol rest) name)"
  by pat_completeness auto

lemma header_scan_progress:
  assumes "p \<noteq> []"
  shows "length (dropWhile is_eol (dropWhile (\<lambda>c. \<not> is_eol c) p)) < length p"
proof (cases p)
  case (Cons c cs)
  show ?thesis
  proof (cases "is_eol c")
    case True
    then show ?thesis
      using Cons by (simp add: le_imp_less_Suc length_dropWhile_le)
  next
    case False
    have "length (dropWhile is_eol (dropWhile (\<lambda>c. \<not> is_eol c) cs)) \<le> length cs"
      by (meson length_dropWhile_le order_trans)
    then show ?thesis
      using Cons False by simp
  qed
qed (use assms in simp)

termination response_header_scan
  by (relation "measure (length \<circ> fst)") (auto simp: header_scan_progress)

declare response_header_scan.simps [simp del]

definition dcc_rest_response_header :: "string option \<Rightarrow> string \<Rightarrow> string option" where
  "dcc_rest_response_header headers name =
     (case headers of None \<Rightarrow> None | Some p \<Rightarrow> response_header_scan p name)"

definition dcc_rest_parse_header_u32 :: "string option \<Rightarrow> u32 option" where
  "dcc_rest_parse_header_u32 value =
     (case value of
        None \<Rightarrow> None
      | Some s \<Rightarrow>
          if length s = 0 then None
          else if length s \<ge> 32 then None
          else
            let tmp = takeWhile (\<lambda>c. code c \<noteq> 0) s;
                (parsed, end) = c_strtoul tmp in
            if length end = length tmp \<or> end \<noteq> [] \<or> parsed > 2 ^ 32 - 1 then None
            else Some (of_nat parsed))"

definition dcc_rest_header_bool_true :: "string \<Rightarrow> bool" where
  "dcc_rest_header_bool_true value \<longleftrightarrow>
     length value = 4 \<and> to_lower (value ! 0) = code (CHR ''t'') \<and> to_lower (value ! 1) = code (CHR ''r'')
     \<and> to_lower (value ! 2) = code (CHR ''u'') \<and> to_lower (value ! 3) = code (CHR ''e'')"

section \<open>Buckets\<close>

definition DCC_REST_ROUTE_KEY_CAP :: nat where
  "DCC_REST_ROUTE_KEY_CAP = 160"

definition DCC_REST_BUCKET_CAP :: nat where
  "DCC_REST_BUCKET_CAP = 128"

record dcc_rest_bucket =
  route :: string
  bucket :: string
  remaining :: u32
  reset_at_ms :: u64
  active :: bool

text \<open>The rate-limit fields of the client.\<close>

record rest_limits =
  rest_global_reset_at_ms :: u64
  rest_buckets :: "dcc_rest_bucket list"

definition strncmp_eq :: "nat \<Rightarrow> string \<Rightarrow> string \<Rightarrow> bool" where
  "strncmp_eq n a b \<longleftrightarrow> take n a = take n b"

text \<open>
  The search loop: the index of the route's bucket if it is reached, the first free slot and the
  index of the bucket with the least \<open>reset_at_ms\<close> seen so far (which starts as index 0).
\<close>

fun find_bucket_scan ::
  "string \<Rightarrow> dcc_rest_bucket list \<Rightarrow> dcc_rest_bucket list \<Rightarrow> nat \<Rightarrow> nat option \<Rightarrow> nat
    \<Rightarrow> nat option \<times> nat option \<times> nat" where
  "find_bucket_scan r all [] i free_slot oldest = (None, free_slot, oldest)"
| "find_bucket_scan r all (b # bs) i free_slot oldest =
     (if active b then
        if strncmp_eq DCC_REST_ROUTE_KEY_CAP (route b) r then (Some i, free_slot, oldest)
        else find_bucket_scan r all bs (i + 1) free_slot
               (if reset_at_ms b < reset_at_ms (all ! oldest) then i else oldest)
      else find_bucket_scan r all bs (i + 1) (if free_slot = None then Some i else free_slot) oldest)"

definition new_bucket :: "string \<Rightarrow> dcc_rest_bucket" where
  "new_bucket r =
     \<lparr>route = take (DCC_REST_ROUTE_KEY_CAP - 1) r, bucket = [], remaining = 1, reset_at_ms = 0, active = True\<rparr>"

definition dcc_rest_find_bucket_locked ::
  "dcc_rest_bucket list \<Rightarrow> string \<Rightarrow> bool \<Rightarrow> nat option \<times> dcc_rest_bucket list" where
  "dcc_rest_find_bucket_locked buckets r create =
     (case find_bucket_scan r buckets buckets 0 None 0 of
        (Some i, _) \<Rightarrow> (Some i, buckets)
      | (None, free_slot, oldest) \<Rightarrow>
          if \<not> create then (None, buckets)
          else let i = (case free_slot of Some j \<Rightarrow> j | None \<Rightarrow> oldest) in
            (Some i, buckets[i := new_bucket r]))"

definition dcc_rest_bucket_set_hash :: "dcc_rest_bucket \<Rightarrow> string option \<Rightarrow> dcc_rest_bucket" where
  "dcc_rest_bucket_set_hash b hash =
     (case hash of
        None \<Rightarrow> b
      | Some h \<Rightarrow>
          if h = [] then b
          else b\<lparr>bucket := takeWhile (\<lambda>c. code c \<noteq> 0) (take (DCC_REST_ROUTE_KEY_CAP - 1) h)\<rparr>)"

definition dcc_rest_bucket_hash_matches :: "dcc_rest_bucket \<Rightarrow> string \<Rightarrow> bool" where
  "dcc_rest_bucket_hash_matches b hash \<longleftrightarrow> hash \<noteq> [] \<and> bucket b = hash"

definition dcc_rest_bucket_collect_wait ::
  "dcc_rest_bucket \<Rightarrow> u64 \<Rightarrow> u64 \<Rightarrow> bool \<Rightarrow> dcc_rest_bucket \<times> u64" where
  "dcc_rest_bucket_collect_wait b now wait_ms reset_expired =
     (if remaining b \<noteq> 0 then (b, wait_ms)
      else if reset_at_ms b > now then
        let bucket_wait = reset_at_ms b - now in
        (b, if bucket_wait > wait_ms then bucket_wait else wait_ms)
      else if reset_expired then (b\<lparr>remaining := 1, reset_at_ms := 0\<rparr>, wait_ms)
      else (b, wait_ms))"

section \<open>Waiting\<close>

fun collect_related ::
  "string \<Rightarrow> u64 \<Rightarrow> bool \<Rightarrow> dcc_rest_bucket list \<Rightarrow> u64 \<Rightarrow> dcc_rest_bucket list \<times> u64" where
  "collect_related hash now reset_expired [] wait_ms = ([], wait_ms)"
| "collect_related hash now reset_expired (b # bs) wait_ms =
     (if active b \<and> dcc_rest_bucket_hash_matches b hash then
        let (b', wait_ms') = dcc_rest_bucket_collect_wait b now wait_ms reset_expired;
            (bs', wait_ms'') = collect_related hash now reset_expired bs wait_ms' in
        (b' # bs', wait_ms'')
      else
        let (bs', wait_ms') = collect_related hash now reset_expired bs wait_ms in
        (b # bs', wait_ms'))"

definition dcc_rest_route_wait_ms_locked ::
  "rest_limits \<Rightarrow> string \<Rightarrow> u64 \<Rightarrow> bool \<Rightarrow> u64 \<times> rest_limits" where
  "dcc_rest_route_wait_ms_locked client r now reset_expired =
     (let wait_ms = (if rest_global_reset_at_ms client > now then rest_global_reset_at_ms client - now else 0) in
      case fst (dcc_rest_find_bucket_locked (rest_buckets client) r False) of
        None \<Rightarrow> (wait_ms, client)
      | Some i \<Rightarrow>
          let (b, wait_ms') = dcc_rest_bucket_collect_wait (rest_buckets client ! i) now wait_ms reset_expired;
              buckets = (rest_buckets client)[i := b] in
          if bucket b \<noteq> [] then
            let (buckets', wait_ms'') = collect_related (bucket b) now reset_expired buckets wait_ms' in
            (wait_ms'', client\<lparr>rest_buckets := buckets'\<rparr>)
          else (wait_ms', client\<lparr>rest_buckets := buckets\<rparr>))"

text \<open>
  The wait loop, one look per iteration. The lock is released between the looks: each comes with the
  clock reading it uses and with what other requests make of the table before the next look. \<open>None\<close> is
  a loop that is still waiting when the list ends.
\<close>

type_synonym rest_look = "u64 \<times> (rest_limits \<Rightarrow> rest_limits)"

fun dcc_rest_wait_for_route :: "rest_look list \<Rightarrow> rest_limits \<Rightarrow> string \<Rightarrow> (u64 \<times> rest_limits) option" where
  "dcc_rest_wait_for_route [] client r = None"
| "dcc_rest_wait_for_route ((now, others) # later) client r =
     (let (wait_ms, client') = dcc_rest_route_wait_ms_locked client r now True in
      if wait_ms = 0 then Some (now, client') else dcc_rest_wait_for_route later (others client') r)"

section \<open>Learning from a response\<close>

definition dcc_rest_add_ms :: "u64 \<Rightarrow> u64 \<Rightarrow> u64" where
  "dcc_rest_add_ms base delta = (if delta > UINT64_MAX - base then UINT64_MAX else base + delta)"

lemma add_ms_sat_add: "dcc_rest_add_ms a b = sat_add a b"
  by (simp add: dcc_rest_add_ms_def sat_add_def)

record dcc_http_response =
  status :: u16
  headers :: "string option"

definition share_related :: "nat \<Rightarrow> dcc_rest_bucket list \<Rightarrow> dcc_rest_bucket list" where
  "share_related i buckets =
     (let b = buckets ! i in
      map (\<lambda>(j, related).
             if j \<noteq> i \<and> active related \<and> dcc_rest_bucket_hash_matches related (bucket b)
             then related\<lparr>remaining := remaining b, reset_at_ms := reset_at_ms b\<rparr>
             else related)
          (enumerate 0 buckets))"

definition dcc_rest_update_rate_limit ::
  "rest_limits \<Rightarrow> string \<Rightarrow> dcc_http_response option \<Rightarrow> u64 \<Rightarrow> bool \<Rightarrow> u64 \<Rightarrow> rest_limits" where
  "dcc_rest_update_rate_limit client r response reset_after_ms is_global now =
     (let header = (\<lambda>name. case response of None \<Rightarrow> None
                     | Some p \<Rightarrow> dcc_rest_response_header (headers p) name);
          has_remaining = dcc_rest_parse_header_u32 (header ''X-RateLimit-Remaining'');
          bucket_hash = header ''X-RateLimit-Bucket'';
          reset_at = (if reset_after_ms \<noteq> 0 then dcc_rest_add_ms now reset_after_ms else 0);
          client1 = (if is_global \<and> reset_at \<noteq> 0 then client\<lparr>rest_global_reset_at_ms := reset_at\<rparr> else client) in
      case response of
        None \<Rightarrow> client1
      | Some p \<Rightarrow>
          if status p = 429 \<or> has_remaining \<noteq> None \<or> reset_at \<noteq> 0 \<or> bucket_hash \<noteq> None then
            (case dcc_rest_find_bucket_locked (rest_buckets client1) r True of
               (None, buckets) \<Rightarrow> client1\<lparr>rest_buckets := buckets\<rparr>
             | (Some i, buckets) \<Rightarrow>
                 let b = dcc_rest_bucket_set_hash (buckets ! i) bucket_hash;
                     b' = (if status p = 429 then b\<lparr>remaining := 0, reset_at_ms := reset_at\<rparr>
                           else case has_remaining of
                             None \<Rightarrow> b
                           | Some n \<Rightarrow>
                               if n = 0 \<and> reset_at \<noteq> 0 then b\<lparr>remaining := n, reset_at_ms := reset_at\<rparr>
                               else if n > 0 then b\<lparr>remaining := n, reset_at_ms := 0\<rparr>
                               else b\<lparr>remaining := n\<rparr>);
                     buckets' = buckets[i := b'] in
                 client1\<lparr>rest_buckets := if bucket b' \<noteq> [] then share_related i buckets' else buckets'\<rparr>)
          else client1)"

section \<open>Invariant and specification\<close>

text \<open>
  The table has its fixed size, every stored route is a proper C string of its array, and no route
  has two buckets.
\<close>

definition limits_inv :: "rest_limits \<Rightarrow> bool" where
  "limits_inv client \<longleftrightarrow>
     length (rest_buckets client) = DCC_REST_BUCKET_CAP
     \<and> (\<forall>b \<in> set (rest_buckets client). active b \<longrightarrow> length (route b) < DCC_REST_ROUTE_KEY_CAP)
     \<and> distinct (map route (filter active (rest_buckets client)))"

text \<open>The buckets whose state a request on route \<open>r\<close> has to respect.\<close>

definition relevant :: "dcc_rest_bucket list \<Rightarrow> string \<Rightarrow> dcc_rest_bucket \<Rightarrow> bool" where
  "relevant buckets r b \<longleftrightarrow>
     active b \<and> (\<exists>b0 \<in> set buckets. active b0 \<and> route b0 = r
       \<and> (b = b0 \<or> bucket b0 \<noteq> [] \<and> bucket b = bucket b0))"

definition exhausted_until :: "dcc_rest_bucket \<Rightarrow> u64 \<Rightarrow> bool" where
  "exhausted_until b t \<longleftrightarrow> remaining b = 0 \<and> t < reset_at_ms b"

definition spec_wait :: "rest_limits \<Rightarrow> string \<Rightarrow> u64 \<Rightarrow> nat" where
  "spec_wait client r now =
     Max (insert (unat (rest_global_reset_at_ms client) - unat now)
       ((\<lambda>b. unat (reset_at_ms b) - unat now)
          ` {b \<in> set (rest_buckets client). relevant (rest_buckets client) r b \<and> exhausted_until b now}))"

section \<open>Lemmas on the table\<close>

lemma distinct_active_nth:
  assumes "distinct (map f (filter P xs))" "i < length xs" "j < length xs" "P (xs ! i)" "P (xs ! j)"
    and "f (xs ! i) = f (xs ! j)"
  shows "i = j"
  using assms
proof (induction xs arbitrary: i j)
  case (Cons x xs)
  show ?case
  proof (cases i; cases j)
    fix k assume "i = 0" "j = Suc k"
    with Cons.prems show ?thesis by (auto simp: notin_image_ball)
  next
    fix k assume "i = Suc k" "j = 0"
    with Cons.prems show ?thesis by (auto simp: notin_image_ball)
  next
    fix k l assume "i = Suc k" "j = Suc l"
    with Cons show ?thesis by (auto split: if_splits)
  qed simp
qed simp

lemma distinct_active_iff:
  "distinct (map f (filter P xs)) \<longleftrightarrow>
     (\<forall>i < length xs. \<forall>j < length xs. P (xs ! i) \<longrightarrow> P (xs ! j) \<longrightarrow> f (xs ! i) = f (xs ! j) \<longrightarrow> i = j)"
proof
  assume "distinct (map f (filter P xs))"
  then show "\<forall>i < length xs. \<forall>j < length xs. P (xs ! i) \<longrightarrow> P (xs ! j) \<longrightarrow> f (xs ! i) = f (xs ! j) \<longrightarrow> i = j"
    by (auto intro: distinct_active_nth)
next
  assume "\<forall>i < length xs. \<forall>j < length xs. P (xs ! i) \<longrightarrow> P (xs ! j) \<longrightarrow> f (xs ! i) = f (xs ! j) \<longrightarrow> i = j"
  then show "distinct (map f (filter P xs))"
  proof (induction xs)
    case (Cons x xs)
    have tail: "distinct (map f (filter P xs))"
      using Cons.prems by (intro Cons.IH) fastforce
    have "f x \<notin> f ` {y \<in> set xs. P y}" if "P x"
    proof
      assume "f x \<in> f ` {y \<in> set xs. P y}"
      then obtain k where "k < length xs" "P (xs ! k)" "f x = f (xs ! k)"
        by (auto simp: in_set_conv_nth)
      with Cons.prems [rule_format, of 0 "Suc k"] that show False by simp
    qed
    with tail show ?case by simp
  qed simp
qed

lemma strncmp_eq_short [simp]:
  "length a < n \<Longrightarrow> length b < n \<Longrightarrow> strncmp_eq n a b \<longleftrightarrow> a = b"
  by (simp add: strncmp_eq_def)

lemma strncmp_eq_left_short:
  "length a < n \<Longrightarrow> strncmp_eq n a b \<longleftrightarrow> a = b"
  by (auto simp: strncmp_eq_def min_def dest: arg_cong [of _ _ length] split: if_splits)

lemma find_bucket_scan_spec:
  assumes "find_bucket_scan r all bs i fs old = (res, fs', old')"
    and "drop i all = bs" "old < length all"
  shows "(\<forall>k. res = Some k \<longrightarrow> i \<le> k \<and> k < length all \<and> active (all ! k)
            \<and> strncmp_eq DCC_REST_ROUTE_KEY_CAP (route (all ! k)) r)
     \<and> (res = None \<longrightarrow> (\<forall>b \<in> set bs. active b \<longrightarrow> \<not> strncmp_eq DCC_REST_ROUTE_KEY_CAP (route b) r))
     \<and> old' < length all
     \<and> reset_at_ms (all ! old') \<le> reset_at_ms (all ! old)
     \<and> (res = None \<longrightarrow> (\<forall>b \<in> set bs. active b \<longrightarrow> reset_at_ms (all ! old') \<le> reset_at_ms b))
     \<and> (\<forall>k. fs' = Some k \<longrightarrow> fs = Some k \<or> i \<le> k \<and> k < length all \<and> \<not> active (all ! k))
     \<and> (res = None \<longrightarrow> fs' = None \<longrightarrow> fs = None \<and> (\<forall>b \<in> set bs. active b))"
  using assms
proof (induction r all bs i fs old rule: find_bucket_scan.induct)
  case (1 r all i fs old)
  then show ?case by auto
next
  case (2 r all b bs i fs old)
  have b: "i < length all" "all ! i = b" "drop (i + 1) all = bs"
  proof -
    show "i < length all"
      using "2.prems"(2) by (metis drop_eq_Nil list.distinct(1) not_le)
    then show "all ! i = b" "drop (i + 1) all = bs"
      using "2.prems"(2) by (simp_all add: Cons_nth_drop_Suc [symmetric])
  qed
  show ?case
  proof (cases "active b")
    case True
    show ?thesis
    proof (cases "strncmp_eq DCC_REST_ROUTE_KEY_CAP (route b) r")
      case True
      with \<open>active b\<close> "2.prems" b show ?thesis by auto
    next
      case False
      let ?old = "if reset_at_ms b < reset_at_ms (all ! old) then i else old"
      have "?old < length all" and "reset_at_ms (all ! ?old) \<le> reset_at_ms (all ! old)"
        "reset_at_ms (all ! ?old) \<le> reset_at_ms b"
        using b "2.prems"(3) by auto
      with "2.IH"(1) [OF True False _ b(3)] "2.prems" True False b show ?thesis
        by (auto intro: order_trans)
    qed
  next
    case False
    with "2.IH"(2) [OF False _ b(3)] "2.prems" b show ?thesis
      by (auto split: if_splits)
  qed
qed

lemma find_bucket_lookup:
  assumes "limits_inv client"
  shows "fst (dcc_rest_find_bucket_locked (rest_buckets client) r False) = Some i \<longleftrightarrow>
     i < length (rest_buckets client) \<and> active (rest_buckets client ! i) \<and> route (rest_buckets client ! i) = r"
    and "fst (dcc_rest_find_bucket_locked (rest_buckets client) r False) = None \<longleftrightarrow>
     (\<forall>b \<in> set (rest_buckets client). active b \<longrightarrow> route b \<noteq> r)"
proof -
  let ?bs = "rest_buckets client"
  obtain res fs old where scan: "find_bucket_scan r ?bs ?bs 0 None 0 = (res, fs, old)"
    by (metis prod_cases3)
  have ne: "0 < length ?bs"
    using assms by (simp add: limits_inv_def DCC_REST_BUCKET_CAP_def)
  have eq: "active b \<Longrightarrow> strncmp_eq DCC_REST_ROUTE_KEY_CAP (route b) r \<longleftrightarrow> route b = r" if "b \<in> set ?bs" for b
    using assms that by (intro strncmp_eq_left_short) (auto simp: limits_inv_def)
  have res: "fst (dcc_rest_find_bucket_locked ?bs r False) = res"
    using scan by (auto simp: dcc_rest_find_bucket_locked_def split: option.splits)
  note spec = find_bucket_scan_spec [OF scan _ ne]
  have found: "k < length ?bs \<and> active (?bs ! k) \<and> route (?bs ! k) = r" if "res = Some k" for k
    using spec that eq by auto
  have none: "\<forall>b \<in> set ?bs. active b \<longrightarrow> route b \<noteq> r" if "res = None"
    using spec that eq by auto
  have uniq: "res = Some k" if "k < length ?bs" "active (?bs ! k)" "route (?bs ! k) = r" for k
  proof (cases res)
    case None
    with none that nth_mem [OF that(1)] show ?thesis by blast
  next
    case (Some l)
    with found [of l] that assms have "l = k"
      by (intro distinct_active_nth [of route active ?bs]) (auto simp: limits_inv_def)
    with Some show ?thesis by simp
  qed
  show "fst (dcc_rest_find_bucket_locked ?bs r False) = Some i \<longleftrightarrow>
     i < length ?bs \<and> active (?bs ! i) \<and> route (?bs ! i) = r"
    unfolding res using found uniq by blast
  show "fst (dcc_rest_find_bucket_locked ?bs r False) = None \<longleftrightarrow> (\<forall>b \<in> set ?bs. active b \<longrightarrow> route b \<noteq> r)"
  proof (cases res)
    case None
    with none res show ?thesis by simp
  next
    case (Some k)
    with found [OF Some] nth_mem [of k ?bs] res show ?thesis by auto
  qed
qed

text \<open>A bucket a query looks at keeps its identity, and its state unless it has expired.\<close>

lemma collect_wait_spec:
  "dcc_rest_bucket_collect_wait b now w e =
     (if e \<and> remaining b = 0 \<and> reset_at_ms b \<le> now then b\<lparr>remaining := 1, reset_at_ms := 0\<rparr> else b,
      if remaining b = 0 \<and> now < reset_at_ms b then max w (reset_at_ms b - now) else w)"
  by (auto simp: dcc_rest_bucket_collect_wait_def Let_def max_def)

definition collected :: "u64 \<Rightarrow> bool \<Rightarrow> dcc_rest_bucket \<Rightarrow> dcc_rest_bucket" where
  "collected now e b =
     (if e \<and> remaining b = 0 \<and> reset_at_ms b \<le> now then b\<lparr>remaining := 1, reset_at_ms := 0\<rparr> else b)"

lemma collected_fields [simp]:
  "route (collected now e b) = route b" "bucket (collected now e b) = bucket b"
  "active (collected now e b) = active b"
  by (simp_all add: collected_def)

lemma collected_idem [simp]: "collected now e (collected now e b) = collected now e b"
  by (simp add: collected_def)

lemma collected_exhausted [simp]: "exhausted_until (collected now e b) now \<longleftrightarrow> exhausted_until b now"
  by (auto simp: collected_def exhausted_until_def)

lemma collected_reset: "exhausted_until b now \<Longrightarrow> collected now e b = b"
  by (auto simp: collected_def exhausted_until_def)

lemma unat_reset_minus: "exhausted_until b now \<Longrightarrow> unat (reset_at_ms b - now) = unat (reset_at_ms b) - unat now"
  by (simp add: exhausted_until_def unat_sub [OF less_imp_le])

lemma collect_wait_alt:
  "dcc_rest_bucket_collect_wait b now w e =
     (collected now e b, if exhausted_until b now then max w (reset_at_ms b - now) else w)"
  by (simp add: collect_wait_spec collected_def exhausted_until_def)

lemma collect_related_spec:
  assumes "hash \<noteq> []"
  shows "collect_related hash now e bs w =
     (map (\<lambda>b. if active b \<and> bucket b = hash then collected now e b else b) bs,
      fold (\<lambda>b w. if active b \<and> bucket b = hash \<and> exhausted_until b now then max w (reset_at_ms b - now) else w) bs w)"
  using assms
  by (induction bs arbitrary: w)
    (auto simp: dcc_rest_bucket_hash_matches_def collect_wait_alt Let_def split: prod.splits)

lemma Max_insert_max:
  fixes a b :: nat
  shows "finite S \<Longrightarrow> Max (insert (max a b) S) = Max (insert a (insert b S))"
  by (cases "S = {}") (auto simp: max.assoc)

lemma fold_max_Max:
  fixes f :: "'a \<Rightarrow> u64"
  shows "unat (fold (\<lambda>b w. if P b then max w (f b) else w) bs w)
     = Max (insert (unat w) ((\<lambda>b. unat (f b)) ` {b \<in> set bs. P b}))"
proof (induction bs arbitrary: w)
  case (Cons b bs)
  have mx: "unat (max w (f b)) = max (unat w) (unat (f b))"
    by (auto simp: max_def word_le_nat_alt)
  show ?case
  proof (cases "P b")
    case True
    then have "{x \<in> set (b # bs). P x} = insert b {x \<in> set bs. P x}"
      by auto
    then show ?thesis
      using True Cons.IH [of "max w (f b)"] by (simp add: mx Max_insert_max del: set_simps)
  next
    case False
    then have "{x \<in> set (b # bs). P x} = {x \<in> set bs. P x}"
      by auto
    with False Cons.IH [of w] show ?thesis by simp
  qed
qed simp

lemma global_wait:
  "unat (if now < g then g - now else 0 :: u64) = unat g - unat now"
  by (cases "now < g") (simp_all add: unat_sub [OF less_imp_le] not_less word_le_nat_alt)

lemma relevant_nth:
  assumes "limits_inv client" "i < length (rest_buckets client)"
    and "active (rest_buckets client ! i)" "route (rest_buckets client ! i) = r"
  shows "relevant (rest_buckets client) r b \<longleftrightarrow>
     active b \<and> (b = rest_buckets client ! i
       \<or> bucket (rest_buckets client ! i) \<noteq> [] \<and> bucket b = bucket (rest_buckets client ! i))"
proof -
  let ?b = "rest_buckets client ! i"
  have uniq: "b0 = ?b" if "b0 \<in> set (rest_buckets client)" "active b0" "route b0 = r" for b0
  proof -
    from that obtain j where "j < length (rest_buckets client)" "rest_buckets client ! j = b0"
      by (auto simp: in_set_conv_nth)
    moreover from this have "j = i"
      using that assms by (intro distinct_active_nth [of route active "rest_buckets client"]) (auto simp: limits_inv_def)
    ultimately show ?thesis by simp
  qed
  show ?thesis
  proof
    assume "relevant (rest_buckets client) r b"
    then obtain b0 where "b0 \<in> set (rest_buckets client)" "active b0" "route b0 = r" "active b"
      "b = b0 \<or> bucket b0 \<noteq> [] \<and> bucket b = bucket b0"
      unfolding relevant_def by blast
    with uniq [of b0] show "active b \<and> (b = ?b \<or> bucket ?b \<noteq> [] \<and> bucket b = bucket ?b)"
      by simp
  next
    assume "active b \<and> (b = ?b \<or> bucket ?b \<noteq> [] \<and> bucket b = bucket ?b)"
    with nth_mem [OF assms(2)] assms(3,4) show "relevant (rest_buckets client) r b"
      unfolding relevant_def by blast
  qed
qed

lemma update_nth_as_map:
  assumes "i < length xs" "\<And>j. j < length xs \<Longrightarrow> xs ! j = xs ! i \<Longrightarrow> j = i"
  shows "xs[i := f (xs ! i)] = map (\<lambda>x. if x = xs ! i then f x else x) xs"
  using assms by (intro nth_equalityI) (auto simp: nth_list_update)

lemma exhausted_after_collect:
  assumes "i < length bs"
  shows "{b \<in> set (bs[i := collected now e (bs ! i)]). Q (active b) (bucket b) \<and> exhausted_until b now}
       = {b \<in> set bs. Q (active b) (bucket b) \<and> exhausted_until b now}" (is "?L = ?R")
proof
  show "?L \<subseteq> ?R"
    using assms set_update_subset_insert [of bs i "collected now e (bs ! i)"] nth_mem [OF assms]
    by (auto simp: collected_reset)
  show "?R \<subseteq> ?L"
  proof
    fix b assume b: "b \<in> ?R"
    then obtain j where j: "j < length bs" "bs ! j = b"
      by (auto simp: in_set_conv_nth)
    then have "bs[i := collected now e (bs ! i)] ! j = b"
      using b by (cases "j = i") (auto simp: collected_reset)
    then have "b \<in> set (bs[i := collected now e (bs ! i)])"
      using j nth_mem [of j "bs[i := collected now e (bs ! i)]"] by simp
    with b show "b \<in> ?L" by simp
  qed
qed

text \<open>What a query does: it collects every relevant bucket and reports the longest wait.\<close>

lemma route_wait_char:
  assumes inv: "limits_inv client"
    and run: "dcc_rest_route_wait_ms_locked client r now e = (w, client')"
  shows "client' = client\<lparr>rest_buckets :=
       map (\<lambda>b. if relevant (rest_buckets client) r b then collected now e b else b) (rest_buckets client)\<rparr>
     \<and> unat w = spec_wait client r now"
proof -
  let ?bs = "rest_buckets client"
  let ?g = "if rest_global_reset_at_ms client > now then rest_global_reset_at_ms client - now else 0"
  show ?thesis
  proof (cases "fst (dcc_rest_find_bucket_locked ?bs r False)")
    case None
    then have none: "\<not> relevant ?bs r b" for b
      using find_bucket_lookup(2) [OF inv, of r] by (auto simp: relevant_def)
    with None run show ?thesis
      by (simp add: dcc_rest_route_wait_ms_locked_def Let_def spec_wait_def)
        (use global_wait in fastforce)
  next
    case (Some i)
    then have i: "i < length ?bs" "active (?bs ! i)" "route (?bs ! i) = r"
      using find_bucket_lookup(1) [OF inv, of r i] by auto
    note rel = relevant_nth [OF inv i]
    have only: "?bs ! j = ?bs ! i \<Longrightarrow> j = i" if "j < length ?bs" for j
      using that i inv by (intro distinct_active_nth [of route active ?bs]) (auto simp: limits_inv_def)
    note upd = update_nth_as_map [OF i(1) only, of "collected now e"]
    let ?w1 = "if exhausted_until (?bs ! i) now then max ?g (reset_at_ms (?bs ! i) - now) else ?g"
    let ?f = "\<lambda>b. unat (reset_at_ms b - now)"
    show ?thesis
    proof (cases "bucket (?bs ! i) = []")
      case True
      then have "{b \<in> set ?bs. relevant ?bs r b \<and> exhausted_until b now}
          = (if exhausted_until (?bs ! i) now then {?bs ! i} else {})"
        using rel i nth_mem [OF i(1)] by auto
      moreover have "w = ?w1" "client' = client\<lparr>rest_buckets := ?bs[i := collected now e (?bs ! i)]\<rparr>"
        using run Some True by (auto simp: dcc_rest_route_wait_ms_locked_def Let_def collect_wait_alt)
      ultimately show ?thesis
        using rel i True upd global_wait [of now "rest_global_reset_at_ms client"]
        by (auto simp: spec_wait_def unat_reset_minus max_def word_le_nat_alt intro!: map_cong)
    next
      case False
      let ?S = "{b \<in> set ?bs. (active b \<and> bucket b = bucket (?bs ! i)) \<and> exhausted_until b now}"
      let ?bs1 = "?bs[i := collected now e (?bs ! i)]"
      have S: "{b \<in> set ?bs1. (active b \<and> bucket b = bucket (?bs ! i)) \<and> exhausted_until b now} = ?S"
        using exhausted_after_collect [OF i(1), of now e "\<lambda>a h. a \<and> h = bucket (?bs ! i)"] .
      have c: "client' = client\<lparr>rest_buckets :=
            map (\<lambda>b. if active b \<and> bucket b = bucket (?bs ! i) then collected now e b else b) ?bs1\<rparr>"
        and w: "unat w = Max (insert (unat ?w1) (?f ` ?S))"
        using run Some False
          fold_max_Max [of "\<lambda>b. (active b \<and> bucket b = bucket (?bs ! i)) \<and> exhausted_until b now"
              "\<lambda>b. reset_at_ms b - now" ?bs1 ?w1] S
        by (auto simp: dcc_rest_route_wait_ms_locked_def Let_def collect_wait_alt collect_related_spec conj_assoc)
      have "map (\<lambda>b. if active b \<and> bucket b = bucket (?bs ! i) then collected now e b else b) ?bs1
          = map (\<lambda>b. if relevant ?bs r b then collected now e b else b) ?bs"
        using rel i False by (intro nth_equalityI) (auto simp: nth_list_update)
      moreover have "unat w = Max (insert (unat ?g) (?f ` ?S))"
      proof (cases "exhausted_until (?bs ! i) now")
        case True
        then have "?f (?bs ! i) \<in> ?f ` ?S"
          using i nth_mem [OF i(1)] by blast
        moreover have "unat (max ?g (reset_at_ms (?bs ! i) - now)) = max (unat ?g) (?f (?bs ! i))"
          by (auto simp: max_def word_le_nat_alt)
        ultimately show ?thesis
          using w True Max_insert_max [of "?f ` ?S" "unat ?g" "?f (?bs ! i)"]
          by (simp add: insert_absorb del: Max_insert)
      qed (use w in simp)
      moreover have "{b \<in> set ?bs. relevant ?bs r b \<and> exhausted_until b now} = ?S"
        using rel i False by auto
      moreover have "?f ` ?S = (\<lambda>b. unat (reset_at_ms b) - unat now) ` ?S"
        by (rule image_cong) (auto simp: unat_reset_minus)
      ultimately show ?thesis
        using c global_wait [of now "rest_global_reset_at_ms client"]
        by (simp add: spec_wait_def del: Max_insert)
    qed
  qed
qed

text \<open>The slot an update works on, and what it replaces there.\<close>

lemma find_bucket_create:
  assumes inv: "limits_inv client"
  obtains i where "dcc_rest_find_bucket_locked (rest_buckets client) r True = (Some i, rest_buckets client)"
      "i < length (rest_buckets client)" "active (rest_buckets client ! i)" "route (rest_buckets client ! i) = r"
    | i where "dcc_rest_find_bucket_locked (rest_buckets client) r True
        = (Some i, (rest_buckets client)[i := new_bucket r])"
      "i < length (rest_buckets client)" "\<forall>b \<in> set (rest_buckets client). active b \<longrightarrow> route b \<noteq> r"
      "\<not> active (rest_buckets client ! i)
       \<or> (\<forall>b \<in> set (rest_buckets client). active b \<and> reset_at_ms (rest_buckets client ! i) \<le> reset_at_ms b)"
proof -
  let ?bs = "rest_buckets client"
  obtain res fs old where scan: "find_bucket_scan r ?bs ?bs 0 None 0 = (res, fs, old)"
    by (metis prod_cases3)
  have ne: "0 < length ?bs"
    using inv by (simp add: limits_inv_def DCC_REST_BUCKET_CAP_def)
  have lookup: "fst (dcc_rest_find_bucket_locked ?bs r False) = res"
    using scan by (auto simp: dcc_rest_find_bucket_locked_def split: option.splits)
  note spec = find_bucket_scan_spec [OF scan _ ne]
  show thesis
  proof (cases res)
    case (Some i)
    then show thesis
      using that(1) [of i] find_bucket_lookup(1) [OF inv, of r i] lookup scan
      by (simp add: dcc_rest_find_bucket_locked_def)
  next
    case None
    then have norte: "\<forall>b \<in> set ?bs. active b \<longrightarrow> route b \<noteq> r"
      using find_bucket_lookup(2) [OF inv, of r] lookup by simp
    show thesis
    proof (cases fs)
      case (Some k)
      have "k < length ?bs" "\<not> active (?bs ! k)"
        using spec Some by auto
      then show thesis
        using that(2) [of k] norte scan None Some by (simp add: dcc_rest_find_bucket_locked_def)
    next
      case none2: None
      have "old < length ?bs" "\<forall>b \<in> set ?bs. active b \<and> reset_at_ms (?bs ! old) \<le> reset_at_ms b"
        using spec None none2 by auto
      then show thesis
        using that(2) [of old] norte scan None none2 by (simp add: dcc_rest_find_bucket_locked_def)
    qed
  qed
qed

lemma limits_inv_same_keys:
  assumes "limits_inv client" "length bs = length (rest_buckets client)"
    and "\<And>i. i < length bs \<Longrightarrow> active (bs ! i) = active (rest_buckets client ! i)
       \<and> route (bs ! i) = route (rest_buckets client ! i)"
  shows "limits_inv (client\<lparr>rest_buckets := bs\<rparr>)"
  using assms unfolding limits_inv_def distinct_active_iff by (auto simp: all_set_conv_all_nth)

lemma limits_inv_put:
  assumes "limits_inv client" "length r < DCC_REST_ROUTE_KEY_CAP" "i < length (rest_buckets client)"
    and "route b = r" "active b"
    and "\<And>j. j < length (rest_buckets client) \<Longrightarrow> active (rest_buckets client ! j)
       \<Longrightarrow> route (rest_buckets client ! j) = r \<Longrightarrow> j = i"
  shows "limits_inv (client\<lparr>rest_buckets := (rest_buckets client)[i := b]\<rparr>)"
  using assms unfolding limits_inv_def distinct_active_iff
  by (auto simp: all_set_conv_all_nth nth_list_update)

lemma share_related_nth:
  assumes "j < length bs"
  shows "share_related i bs ! j =
     (if j \<noteq> i \<and> active (bs ! j) \<and> dcc_rest_bucket_hash_matches (bs ! j) (bucket (bs ! i))
      then (bs ! j)\<lparr>remaining := remaining (bs ! i), reset_at_ms := reset_at_ms (bs ! i)\<rparr> else bs ! j)"
  using assms by (simp add: share_related_def Let_def nth_enumerate_eq)

lemma length_share_related [simp]: "length (share_related i bs) = length bs"
  by (simp add: share_related_def Let_def)

lemma set_hash_fields [simp]:
  "route (dcc_rest_bucket_set_hash b h) = route b" "active (dcc_rest_bucket_set_hash b h) = active b"
  "remaining (dcc_rest_bucket_set_hash b h) = remaining b" "reset_at_ms (dcc_rest_bucket_set_hash b h) = reset_at_ms b"
  by (simp_all add: dcc_rest_bucket_set_hash_def split: option.splits)

text \<open>The state an update leaves in the route's own bucket.\<close>

definition learned :: "dcc_http_response \<Rightarrow> u64 \<Rightarrow> dcc_rest_bucket \<Rightarrow> dcc_rest_bucket" where
  "learned p reset_at b =
     (let b1 = dcc_rest_bucket_set_hash b (dcc_rest_response_header (headers p) ''X-RateLimit-Bucket'') in
      if status p = 429 then b1\<lparr>remaining := 0, reset_at_ms := reset_at\<rparr>
      else case dcc_rest_parse_header_u32 (dcc_rest_response_header (headers p) ''X-RateLimit-Remaining'') of
        None \<Rightarrow> b1
      | Some n \<Rightarrow>
          if n = 0 \<and> reset_at \<noteq> 0 then b1\<lparr>remaining := n, reset_at_ms := reset_at\<rparr>
          else if n > 0 then b1\<lparr>remaining := n, reset_at_ms := 0\<rparr>
          else b1\<lparr>remaining := n\<rparr>)"

lemma learned_fields [simp]:
  "route (learned p t b) = route b" "active (learned p t b) = active b"
  by (simp_all add: learned_def Let_def split: option.splits)

definition learns :: "dcc_http_response \<Rightarrow> u64 \<Rightarrow> bool" where
  "learns p reset_at \<longleftrightarrow> status p = 429 \<or> reset_at \<noteq> 0
     \<or> dcc_rest_parse_header_u32 (dcc_rest_response_header (headers p) ''X-RateLimit-Remaining'') \<noteq> None
     \<or> dcc_rest_response_header (headers p) ''X-RateLimit-Bucket'' \<noteq> None"

definition reset_time :: "u64 \<Rightarrow> u64 \<Rightarrow> u64" where
  "reset_time now d = (if d \<noteq> 0 then dcc_rest_add_ms now d else 0)"

lemma update_body:
  assumes "learns p (reset_time now d)"
    and "dcc_rest_find_bucket_locked (rest_buckets client) r True = (Some i, bs)"
  shows "rest_buckets (dcc_rest_update_rate_limit client r (Some p) d g now) =
       (let bs' = bs[i := learned p (reset_time now d) (bs ! i)] in
        if bucket (learned p (reset_time now d) (bs ! i)) \<noteq> [] then share_related i bs' else bs')"
proof -
  have "rest_buckets (if Q then client\<lparr>rest_global_reset_at_ms := x\<rparr> else client) = rest_buckets client" for Q x
    by simp
  then show ?thesis
    using assms
    by (auto simp: dcc_rest_update_rate_limit_def Let_def learns_def reset_time_def learned_def)
qed

lemma update_char:
  assumes inv: "limits_inv client" and len: "length r < DCC_REST_ROUTE_KEY_CAP" and learn: "learns p (reset_time now d)"
  obtains i b where "i < length (rest_buckets client)" "active b" "route b = r"
    "(active (rest_buckets client ! i) \<and> route (rest_buckets client ! i) = r \<and> b = rest_buckets client ! i)
     \<or> (\<forall>b \<in> set (rest_buckets client). active b \<longrightarrow> route b \<noteq> r) \<and> b = new_bucket r
       \<and> (\<not> active (rest_buckets client ! i)
          \<or> (\<forall>b \<in> set (rest_buckets client). active b \<and> reset_at_ms (rest_buckets client ! i) \<le> reset_at_ms b))"
    "rest_buckets (dcc_rest_update_rate_limit client r (Some p) d g now) =
       (let bs = (rest_buckets client)[i := learned p (reset_time now d) b] in
        if bucket (learned p (reset_time now d) b) \<noteq> [] then share_related i bs else bs)"
    "limits_inv (client\<lparr>rest_buckets := (rest_buckets client)[i := learned p (reset_time now d) b]\<rparr>)"
proof -
  let ?bs = "rest_buckets client"
  have new: "active (new_bucket r)" "route (new_bucket r) = r"
    using len by (simp_all add: new_bucket_def)
  show thesis
  proof (rule find_bucket_create [OF inv, of r])
    fix i assume i: "dcc_rest_find_bucket_locked ?bs r True = (Some i, ?bs)" "i < length ?bs"
      "active (?bs ! i)" "route (?bs ! i) = r"
    have only: "j < length ?bs \<Longrightarrow> active (?bs ! j) \<Longrightarrow> route (?bs ! j) = r \<Longrightarrow> j = i" for j
      using i inv by (intro distinct_active_nth [of route active ?bs]) (auto simp: limits_inv_def)
    show thesis
    proof (rule that [of i "?bs ! i"])
      show "rest_buckets (dcc_rest_update_rate_limit client r (Some p) d g now) =
       (let bs = ?bs[i := learned p (reset_time now d) (?bs ! i)] in
        if bucket (learned p (reset_time now d) (?bs ! i)) \<noteq> [] then share_related i bs else bs)"
        using update_body [OF learn i(1)] by simp
      show "limits_inv (client\<lparr>rest_buckets := ?bs[i := learned p (reset_time now d) (?bs ! i)]\<rparr>)"
        by (rule limits_inv_put [OF inv len i(2)]) (simp_all add: i only)
    qed (simp_all add: i)
  next
    fix i assume i: "dcc_rest_find_bucket_locked ?bs r True = (Some i, ?bs[i := new_bucket r])" "i < length ?bs"
      "\<forall>b \<in> set ?bs. active b \<longrightarrow> route b \<noteq> r"
      "\<not> active (?bs ! i) \<or> (\<forall>b \<in> set ?bs. active b \<and> reset_at_ms (?bs ! i) \<le> reset_at_ms b)"
    show thesis
    proof (rule that [of i "new_bucket r"])
      show "rest_buckets (dcc_rest_update_rate_limit client r (Some p) d g now) =
       (let bs = ?bs[i := learned p (reset_time now d) (new_bucket r)] in
        if bucket (learned p (reset_time now d) (new_bucket r)) \<noteq> [] then share_related i bs else bs)"
        using update_body [OF learn i(1)] i(2) by simp
      show "limits_inv (client\<lparr>rest_buckets := ?bs[i := learned p (reset_time now d) (new_bucket r)]\<rparr>)"
      proof (rule limits_inv_put [OF inv len i(2)])
        fix j assume "j < length ?bs" "active (?bs ! j)" "route (?bs ! j) = r"
        with i(3) nth_mem show "j = i" by blast
      qed (use new in simp_all)
    qed (use i new in simp_all)
  qed
qed

section \<open>Blocked routes\<close>

definition blocked :: "rest_limits \<Rightarrow> string \<Rightarrow> u64 \<Rightarrow> bool" where
  "blocked client r T \<longleftrightarrow>
     (\<exists>b \<in> set (rest_buckets client). active b \<and> route b = r \<and> remaining b = 0 \<and> reset_at_ms b = T)"

definition query :: "string \<times> u64 \<Rightarrow> rest_limits \<Rightarrow> rest_limits" where
  "query q client = snd (dcc_rest_route_wait_ms_locked client (fst q) (snd q) True)"

lemma query_char:
  assumes "limits_inv client"
  shows "query q client = client\<lparr>rest_buckets :=
       map (\<lambda>b. if relevant (rest_buckets client) (fst q) b then collected (snd q) True b else b) (rest_buckets client)\<rparr>"
  using route_wait_char [OF assms surjective_pairing] by (simp add: query_def)

lemma query_inv [dcc_inv]: "limits_inv client \<Longrightarrow> limits_inv (query q client)"
  unfolding query_char by (rule limits_inv_same_keys) auto

lemma query_blocked:
  assumes "limits_inv client" "blocked client r T" "snd q < T"
  shows "blocked (query q client) r T"
proof -
  from assms(2) obtain b where b: "b \<in> set (rest_buckets client)" "active b" "route b = r"
    "remaining b = 0" "reset_at_ms b = T"
    by (auto simp: blocked_def)
  then have "collected (snd q) True b = b"
    using assms(3) by (intro collected_reset) (simp add: exhausted_until_def)
  with b have "b \<in> set (rest_buckets (query q client))"
    unfolding query_char [OF assms(1)] by force
  with b show ?thesis
    by (auto simp: blocked_def)
qed

lemma queries_blocked:
  assumes "limits_inv client" "blocked client r T" "\<forall>q \<in> set qs. snd q < T"
  shows "limits_inv (fold query qs client) \<and> blocked (fold query qs client) r T"
  using assms by (induction qs arbitrary: client) (auto intro: query_inv query_blocked)

lemma blocked_wait:
  assumes "limits_inv client" "blocked client r T" "t < T"
  shows "unat T - unat t \<le> unat (fst (dcc_rest_route_wait_ms_locked client r t e))"
proof -
  from assms(2) obtain b where b: "b \<in> set (rest_buckets client)" "active b" "route b = r"
    "remaining b = 0" "reset_at_ms b = T"
    by (auto simp: blocked_def)
  then have "b \<in> {b \<in> set (rest_buckets client). relevant (rest_buckets client) r b \<and> exhausted_until b t}"
    using assms(3) by (auto simp: relevant_def exhausted_until_def)
  then have "unat T - unat t \<le> spec_wait client r t"
    using b(5) by (auto simp: spec_wait_def intro!: Max_ge simp del: Max_insert)
  then show ?thesis
    using route_wait_char [OF assms(1) surjective_pairing] by simp
qed

definition says_exhausted :: "dcc_http_response \<Rightarrow> bool" where
  "says_exhausted p \<longleftrightarrow> status p = 429
     \<or> dcc_rest_parse_header_u32 (dcc_rest_response_header (headers p) ''X-RateLimit-Remaining'') = Some 0"

lemma learned_exhausted:
  assumes "says_exhausted p" "t \<noteq> 0"
  shows "remaining (learned p t b) = 0" "reset_at_ms (learned p t b) = t"
  using assms by (auto simp: says_exhausted_def learned_def Let_def)

lemma update_inv [dcc_inv]:
  assumes "limits_inv client" "length r < DCC_REST_ROUTE_KEY_CAP"
  shows "limits_inv (dcc_rest_update_rate_limit client r response d g now)"
proof (cases "\<exists>p. response = Some p \<and> learns p (reset_time now d)")
  case True
  then obtain p where p: "response = Some p" "learns p (reset_time now d)"
    by blast
  let ?u = "dcc_rest_update_rate_limit client r (Some p) d g now"
  obtain i b where u: "rest_buckets ?u =
       (let bs = (rest_buckets client)[i := learned p (reset_time now d) b] in
        if bucket (learned p (reset_time now d) b) \<noteq> [] then share_related i bs else bs)"
    and inv: "limits_inv (client\<lparr>rest_buckets := (rest_buckets client)[i := learned p (reset_time now d) b]\<rparr>)"
    by (rule update_char [OF assms p(2)])
  have "limits_inv (client\<lparr>rest_buckets := rest_buckets ?u\<rparr>)"
    using limits_inv_same_keys [OF inv, of "rest_buckets ?u"] inv
    by (auto simp: u Let_def share_related_nth)
  then show ?thesis
    by (simp add: limits_inv_def p(1))
next
  case False
  then show ?thesis
    using assms(1)
    by (cases response) (auto simp: dcc_rest_update_rate_limit_def Let_def limits_inv_def learns_def reset_time_def)
qed

lemma update_blocks:
  assumes inv: "limits_inv client" and len: "length r < DCC_REST_ROUTE_KEY_CAP"
    and p: "says_exhausted p" "d \<noteq> 0"
    and c: "c = dcc_rest_update_rate_limit client r (Some p) d g now"
    and r': "\<exists>b \<in> set (rest_buckets c). relevant (rest_buckets c) r b \<and> route b = r'"
  shows "blocked c r' (dcc_rest_add_ms now d)"
proof -
  let ?T = "dcc_rest_add_ms now d"
  let ?L = "learned p ?T"
  have "unat ?T \<noteq> 0"
    using p(2) by (simp add: add_ms_sat_add unat_sat_add unat_gt_0)
  then have "?T \<noteq> 0"
    by auto
  then have T: "reset_time now d = ?T" and learn: "learns p ?T"
    using p by (auto simp: reset_time_def learns_def says_exhausted_def)
  obtain i b where i: "i < length (rest_buckets client)" "active b" "route b = r"
    and u: "rest_buckets c = (let bs = (rest_buckets client)[i := ?L b] in
        if bucket (?L b) \<noteq> [] then share_related i bs else bs)"
    by (rule update_char [OF inv len learn [folded T], where g = g, folded c, unfolded T]) (rule that)
  have len_c: "length (rest_buckets c) = length (rest_buckets client)"
    by (simp add: u Let_def)
  have ci: "rest_buckets c ! i = ?L b"
    using i(1) by (simp add: u Let_def share_related_nth)
  have inv_c: "limits_inv c"
    unfolding c by (rule update_inv [OF inv len])
  note rel = relevant_nth [OF inv_c, of i r, unfolded ci]
  from r' obtain b' j where b': "b' = rest_buckets c ! j" "j < length (rest_buckets c)"
    "relevant (rest_buckets c) r b'" "route b' = r'"
    by (auto simp: in_set_conv_nth)
  have "remaining b' = 0 \<and> reset_at_ms b' = ?T"
  proof (cases "b' = ?L b")
    case True
    then show ?thesis
      using learned_exhausted [OF p(1) \<open>?T \<noteq> 0\<close>] by simp
  next
    case False
    then have h: "bucket (?L b) \<noteq> []" "bucket b' = bucket (?L b)" "active b'" "j \<noteq> i"
      using rel b' i len_c ci by auto
    have b'_eq: "b' = share_related i ((rest_buckets client)[i := ?L b]) ! j"
      using b'(1) h(1) by (simp add: u)
    moreover have "j < length ((rest_buckets client)[i := ?L b])"
      using b'(2) len_c by simp
    ultimately show ?thesis
      using h i(1) learned_exhausted [OF p(1) \<open>?T \<noteq> 0\<close>]
      by (auto simp: share_related_nth dcc_rest_bucket_hash_matches_def split: if_splits)
  qed
  then show ?thesis
    using b' nth_mem [OF b'(2)] by (auto simp: blocked_def relevant_def)
qed

section \<open>Header blocks\<close>

text \<open>A header block as a list of names and values, and the lines it is sent as.\<close>

definition header_line :: "string \<times> string \<Rightarrow> string" where
  "header_line h = fst h @ CHR '':'' # snd h @ [CHR 0x0D, CHR 0x0A]"

definition header_ok :: "string \<times> string \<Rightarrow> bool" where
  "header_ok h \<longleftrightarrow> list_all (\<lambda>c. \<not> is_eol c \<and> c \<noteq> CHR '':'') (fst h) \<and> list_all (\<lambda>c. \<not> is_eol c) (snd h)"

lemma eol_chars [simp]: "is_eol (CHR 0x0D)" "is_eol (CHR 0x0A)" "\<not> is_eol (CHR '':'')"
  by (simp_all add: is_eol_def)

lemma response_header_line:
  assumes "header_ok h" "rest = [] \<or> \<not> is_eol (hd rest)"
  shows "response_header_scan (header_line h @ rest) name =
     (if dcc_rest_ascii_case_eq_span (fst h) name then Some (trim_blanks (snd h))
      else response_header_scan rest name)"
proof -
  let ?l = "fst h @ CHR '':'' # snd h"
  have l: "\<forall>c \<in> set ?l. \<not> is_eol c"
    using assms(1) by (auto simp: header_ok_def list_all_iff)
  have split: "header_line h @ rest = ?l @ [CHR 0x0D, CHR 0x0A] @ rest"
    by (simp add: header_line_def)
  have "takeWhile (\<lambda>c. \<not> is_eol c) (header_line h @ rest) = ?l"
    "dropWhile (\<lambda>c. \<not> is_eol c) (header_line h @ rest) = [CHR 0x0D, CHR 0x0A] @ rest"
    unfolding split using l by (simp_all add: takeWhile_append2 dropWhile_append2)
  moreover have "dropWhile is_eol ([CHR 0x0D, CHR 0x0A] @ rest) = rest"
    using assms(2) by (cases rest) auto
  moreover have "find_byte (CHR '':'') ?l = Some (length (fst h))"
    using assms(1) by (intro find_byte_append) (auto simp: header_ok_def list_all_iff)
  moreover have "header_line h @ rest \<noteq> []"
    by (simp add: header_line_def)
  ultimately show ?thesis
    by (subst response_header_scan.simps) (simp add: Let_def del: append_is_Nil_conv)
qed

lemma response_header_block:
  assumes "list_all header_ok hs" "list_all (\<lambda>h. fst h \<noteq> []) hs"
  shows "response_header_scan (concat (map header_line hs)) name =
     map_option (trim_blanks \<circ> snd) (find (\<lambda>h. dcc_rest_ascii_case_eq_span (fst h) name) hs)"
  using assms
proof (induction hs)
  case Nil
  then show ?case by (simp add: response_header_scan.simps)
next
  case (Cons h hs)
  have "concat (map header_line hs) = [] \<or> \<not> is_eol (hd (concat (map header_line hs)))"
  proof (cases hs)
    case (Cons h' hs')
    with Cons.prems show ?thesis
      by (cases "fst h'") (auto simp: header_line_def header_ok_def)
  qed simp
  with Cons response_header_line [of h "concat (map header_line hs)" name] show ?case
    by (simp add: comp_def)
qed

lemma parse_u32_digits:
  assumes "s \<noteq> []" "list_all is_digit s" "length s < 32"
  shows "dcc_rest_parse_header_u32 (Some s) = (if dec_value s < 2 ^ 32 then Some (of_nat (dec_value s)) else None)"
proof -
  have "takeWhile (\<lambda>c. code c \<noteq> 0) s = s"
    using assms(2) is_digit_not_space by (auto simp: takeWhile_eq_all_conv list_all_iff)
  with assms strtoul_digits [OF assms(1,2)] show ?thesis
    by (simp add: dcc_rest_parse_header_u32_def Let_def min_def del: takeWhile_eq_all_conv)
qed

lemma dec_string_length_u32: "n < 2 ^ 32 \<Longrightarrow> length (dec_string n) < 32"
  using length_dec_string [of 10 n] by simp

section \<open>Properties\<close>

definition empty_bucket :: dcc_rest_bucket where
  "empty_bucket = \<lparr>route = [], bucket = [], remaining = 0, reset_at_ms = 0, active = False\<rparr>"

definition empty_limits :: rest_limits where
  "empty_limits = \<lparr>rest_global_reset_at_ms = 0, rest_buckets = replicate DCC_REST_BUCKET_CAP empty_bucket\<rparr>"

lemma empty_limits_inv: "limits_inv empty_limits"
  by (simp add: limits_inv_def empty_limits_def empty_bucket_def)

lemma spec_wait_empty:
  "spec_wait (empty_limits\<lparr>rest_global_reset_at_ms := g\<rparr>) r now = unat g - unat now"
proof -
  let ?bs = "rest_buckets (empty_limits\<lparr>rest_global_reset_at_ms := g\<rparr>)"
  have none: "{b \<in> set ?bs. relevant ?bs r b \<and> exhausted_until b now} = {}"
    by (auto simp: relevant_def empty_limits_def empty_bucket_def)
  show ?thesis
    unfolding spec_wait_def none by simp
qed

lemma empty_limits_global_inv: "limits_inv (empty_limits\<lparr>rest_global_reset_at_ms := g\<rparr>)"
  using empty_limits_inv by (simp add: limits_inv_def)

definition sample_429 :: dcc_http_response where
  "sample_429 = \<lparr>status = 429, headers = Some (concat (map header_line [(''x-ratelimit-bucket'', '' abcd '')]))\<rparr>"

text \<open>
  C7. A rate limit is respected: once a response on a route has said that its limit is exhausted (a
  429, or no remaining requests) for \<open>d\<close> milliseconds, every later look at the route, and at any
  other route that shares the response's bucket hash, reports at least the time left until
  \<open>now + d\<close> (saturated at the top of the clock), whatever other looks at whatever routes happen in
  between.
\<close>

theorem rate_limit_respected:
  assumes "limits_inv client" "length r < DCC_REST_ROUTE_KEY_CAP"
    and "says_exhausted p" "d \<noteq> 0"
    and "c = dcc_rest_update_rate_limit client r (Some p) d g now"
    and "\<exists>b \<in> set (rest_buckets c). relevant (rest_buckets c) r b \<and> route b = r'"
    and "\<forall>q \<in> set qs. snd q < dcc_rest_add_ms now d" and "t < dcc_rest_add_ms now d"
  shows "unat (dcc_rest_add_ms now d) - unat t \<le> unat (fst (dcc_rest_route_wait_ms_locked (fold query qs c) r' t e))"
proof -
  have "limits_inv c"
    unfolding assms(5) by (rule update_inv [OF assms(1,2)])
  moreover have "blocked c r' (dcc_rest_add_ms now d)"
    by (rule update_blocks [OF assms(1-6)])
  ultimately show ?thesis
    using queries_blocked [OF _ _ assms(7)] blocked_wait assms(8) by blast
qed

lemma update_has_route:
  assumes "limits_inv client" "length r < DCC_REST_ROUTE_KEY_CAP" "learns p (reset_time now d)"
    and c: "c = dcc_rest_update_rate_limit client r (Some p) d g now"
  shows "\<exists>b \<in> set (rest_buckets c). relevant (rest_buckets c) r b \<and> route b = r"
proof -
  obtain i b where i: "i < length (rest_buckets client)" "active b" "route b = r"
    and u: "rest_buckets c = (let bs = (rest_buckets client)[i := learned p (reset_time now d) b] in
        if bucket (learned p (reset_time now d) b) \<noteq> [] then share_related i bs else bs)"
    by (rule update_char [OF assms(1-3), where g = g, folded c]) (rule that)
  have "rest_buckets c ! i = learned p (reset_time now d) b" "i < length (rest_buckets c)"
    using i(1) by (simp_all add: u Let_def share_related_nth)
  then have "learned p (reset_time now d) b \<in> set (rest_buckets c)"
    using nth_mem by metis
  with i show ?thesis
    by (auto simp: relevant_def intro!: bexI [of _ "learned p (reset_time now d) b"])
qed

theorem rate_limit_respected_witness:
  "500 \<le> unat (fst (dcc_rest_route_wait_ms_locked
     (fold query [(''GET /guilds/1'', 1200)]
        (dcc_rest_update_rate_limit empty_limits ''GET /guilds/1'' (Some sample_429) 2000 False 1000))
     ''GET /guilds/1'' 2500 True))"
proof -
  have "learns sample_429 (reset_time 1000 2000)" and p: "says_exhausted sample_429"
    by (simp_all add: learns_def says_exhausted_def sample_429_def)
  note has = update_has_route [OF empty_limits_inv _ this(1) refl, of "''GET /guilds/1''"]
  have T: "dcc_rest_add_ms 1000 2000 = 3000"
    by (simp add: dcc_rest_add_ms_def UINT64_MAX_def word_less_nat_alt)
  show ?thesis
    using rate_limit_respected [OF empty_limits_inv _ p _ refl has,
        where qs = "[(''GET /guilds/1'', 1200)]" and t = 2500 and e = True and g = False]
    by (simp add: T DCC_REST_ROUTE_KEY_CAP_def word_less_nat_alt)
qed

text \<open>
  C22. The wait a route lookup reports is exactly the longest of the time to the global reset and the
  times to the reset of the exhausted buckets that the route uses or shares its hash with, and the
  lookup keeps the table well formed.
\<close>

theorem rate_limit_wait_exact:
  assumes "limits_inv client" "dcc_rest_route_wait_ms_locked client r now e = (w, client')"
  shows "unat w = spec_wait client r now \<and> limits_inv client'"
proof -
  have "limits_inv client'"
    using conjunct1 [OF route_wait_char [OF assms]] limits_inv_same_keys [OF assms(1)] by simp
  with route_wait_char [OF assms] show ?thesis by blast
qed

theorem rate_limit_wait_exact_witness:
  "unat (fst (dcc_rest_route_wait_ms_locked (empty_limits\<lparr>rest_global_reset_at_ms := 70\<rparr>) ''GET /'' 50 True)) = 20"
  using rate_limit_wait_exact [OF empty_limits_global_inv surjective_pairing, of 70 "''GET /''" 50 True]
  by (simp add: spec_wait_empty)

text \<open>A look makes no bucket exhausted, so it makes no route wait longer.\<close>

lemma query_exhausted:
  assumes "limits_inv client" "b \<in> set (rest_buckets (query q client))"
    and "relevant (rest_buckets (query q client)) r b" "exhausted_until b t"
  shows "b \<in> set (rest_buckets client) \<and> relevant (rest_buckets client) r b"
proof -
  let ?bs = "rest_buckets client"
  define f where "f = (\<lambda>b. if relevant ?bs (fst q) b then collected (snd q) True b else b)"
  have bs1: "rest_buckets (query q client) = map f ?bs" by (simp add: query_char [OF assms(1)] f_def)
  from assms(2) obtain b0 where b0: "b0 \<in> set ?bs" "b = f b0" unfolding bs1 set_map by blast
  have eq: "b = b0"
    using assms(4) b0(2) by (auto simp: exhausted_until_def collected_def f_def split: if_splits)
  have keys: "active (f a) = active a" "route (f a) = route a" "bucket (f a) = bucket a" for a
    by (simp_all add: f_def)
  from assms(3) obtain a0 where a0: "a0 \<in> set ?bs" "active b" "active (f a0)" "route (f a0) = r"
    "b = f a0 \<or> bucket (f a0) \<noteq> [] \<and> bucket b = bucket (f a0)"
    unfolding relevant_def bs1 set_map by blast
  show ?thesis
  proof (cases "b = f a0")
    case True
    then have "active b" "route b = r" using a0 by simp_all
    then show ?thesis using b0(1) eq unfolding relevant_def by blast
  next
    case False
    then have "bucket a0 \<noteq> [] \<and> bucket b = bucket a0" using a0(5) unfolding keys by blast
    moreover have "active a0" "route a0 = r" using a0(3,4) unfolding keys by blast+
    ultimately have "relevant ?bs r b" unfolding relevant_def using a0(1,2) by blast
    then show ?thesis using b0(1) eq by simp
  qed
qed

text \<open>\<open>client'\<close> asks the route to wait no longer than \<open>client\<close>, whenever it looks.\<close>

definition waits_no_longer :: "string \<Rightarrow> rest_limits \<Rightarrow> rest_limits \<Rightarrow> bool" where
  "waits_no_longer r client client' \<longleftrightarrow> limits_inv client' \<and> (\<forall>t. spec_wait client' r t \<le> spec_wait client r t)"

lemma query_no_longer:
  assumes "limits_inv client"
  shows "waits_no_longer r client (query q client)"
proof -
  have "spec_wait (query q client) r t \<le> spec_wait client r t" for t
  proof -
    have "rest_global_reset_at_ms (query q client) = rest_global_reset_at_ms client"
      by (simp add: query_char [OF assms])
    then show ?thesis
      unfolding spec_wait_def using query_exhausted [OF assms, of _ q r t] by (intro Max_mono) auto
  qed
  then show ?thesis using query_inv [OF assms] by (simp add: waits_no_longer_def)
qed

lemma waits_no_longer_trans:
  "waits_no_longer r a b \<Longrightarrow> waits_no_longer r b c \<Longrightarrow> waits_no_longer r a c"
  unfolding waits_no_longer_def using order_trans by blast

lemma queries_no_longer: "limits_inv client \<Longrightarrow> waits_no_longer r client (fold query qs client)"
proof (induction qs arbitrary: client)
  case (Cons q qs)
  from waits_no_longer_trans [OF query_no_longer [OF Cons.prems] Cons.IH [OF query_inv [OF Cons.prems]]]
  show ?case by simp
qed (simp add: waits_no_longer_def)

text \<open>Once the wait has passed, there is none left.\<close>

lemma spec_wait_passes:
  assumes "unat t + spec_wait client r t \<le> unat t'"
  shows "spec_wait client r t' = 0"
proof -
  let ?bs = "rest_buckets client"
  have bound: "unat (rest_global_reset_at_ms client) - unat t \<le> spec_wait client r t"
    "\<And>b. b \<in> set ?bs \<Longrightarrow> relevant ?bs r b \<Longrightarrow> exhausted_until b t \<Longrightarrow> unat (reset_at_ms b) - unat t \<le> spec_wait client r t"
    by (auto simp: spec_wait_def intro!: Max_ge simp del: Max_insert)
  have "\<not> exhausted_until b t'" if b: "b \<in> set ?bs" "relevant ?bs r b" for b
  proof
    assume x: "exhausted_until b t'"
    then have "exhausted_until b t" using assms by (auto simp: exhausted_until_def word_less_nat_alt)
    from bound(2) [OF b this] x assms show False by (auto simp: exhausted_until_def word_less_nat_alt)
  qed
  then have none: "{b \<in> set ?bs. relevant ?bs r b \<and> exhausted_until b t'} = {}" by blast
  have "unat (rest_global_reset_at_ms client) \<le> unat t'" using bound(1) assms by linarith
  then show ?thesis unfolding spec_wait_def none by simp
qed

text \<open>The table that looks and the interference behind each of them leave.\<close>

fun looks_leave :: "rest_look list \<Rightarrow> rest_limits \<Rightarrow> string \<Rightarrow> rest_limits" where
  "looks_leave [] client r = client"
| "looks_leave ((now, others) # later) client r = looks_leave later (others (query (r, now) client)) r"

lemma wait_for_route_last:
  assumes "limits_inv client" "\<forall>(now, others) \<in> set pre. \<forall>c. limits_inv c \<longrightarrow> limits_inv (others c)"
    and "c = looks_leave pre client r" "unat t + unat (fst (dcc_rest_route_wait_ms_locked c r t True)) \<le> unat t'"
    and "waits_no_longer r (query (r, t) c) (others (query (r, t) c))"
  shows "\<exists>now client'. dcc_rest_wait_for_route (pre @ [(t, others), (t', others')]) client r = Some (now, client')"
  using assms(1-3)
proof (induction pre arbitrary: client)
  case Nil
  obtain w c1 where run: "dcc_rest_route_wait_ms_locked client r t True = (w, c1)" by fastforce
  have c1: "c1 = query (r, t) client" and w: "unat w = spec_wait client r t"
    using run route_wait_char [OF Nil.prems(1) run] by (simp_all add: query_def)
  have "spec_wait client r t' = 0"
    using spec_wait_passes [of t client r t'] assms(4) Nil.prems(3) run w by simp
  then have "spec_wait (others c1) r t' = 0" "limits_inv (others c1)"
    using assms(5) Nil.prems(3) query_no_longer [OF Nil.prems(1), of r "(r, t)"] c1
    unfolding waits_no_longer_def by (auto simp: order.trans le_zero_eq) (metis le_zero_eq)
  then have "fst (dcc_rest_route_wait_ms_locked (others c1) r t' True) = 0"
    using route_wait_char [OF _ surjective_pairing, of "others c1" r t' True] by (simp add: unat_eq_0)
  then show ?case using run by (auto split: prod.splits)
next
  case (Cons look pre)
  obtain now o1 where l: "look = (now, o1)" by fastforce
  obtain w c1 where run: "dcc_rest_route_wait_ms_locked client r now True = (w, c1)" by fastforce
  then have c1: "c1 = query (r, now) client" by (simp add: query_def)
  show ?case
  proof (cases "w = 0")
    case False
    have "limits_inv (o1 c1)" using Cons.prems(1,2) l c1 query_inv by auto
    from Cons.IH [OF this] Cons.prems(2,3) show ?thesis using run False l c1 by simp
  qed (use run l in simp)
qed

text \<open>
  C34. The wait loop ends. Whatever other requests do to the table between its earlier looks, if after
  a look the clock advances by at least the wait that look asked for, and what other requests do
  meanwhile does not make the route wait longer (the looks of other requests never do), then the loop
  lets the request go at the next look at the latest.
\<close>

theorem rate_limit_wait_returns:
  assumes "limits_inv client" "\<forall>(now, others) \<in> set pre. \<forall>c. limits_inv c \<longrightarrow> limits_inv (others c)"
    and "c = looks_leave pre client r" "unat t + unat (fst (dcc_rest_route_wait_ms_locked c r t True)) \<le> unat t'"
    and "waits_no_longer r (query (r, t) c) (others (query (r, t) c))"
  shows "\<exists>now client'. dcc_rest_wait_for_route (pre @ [(t, others), (t', others')]) client r = Some (now, client')"
  using assms by (rule wait_for_route_last)

text \<open>A request that waits for the global reset, finds that another response has moved it meanwhile, and waits again
  while another request looks.\<close>

theorem rate_limit_wait_returns_witness:
  "\<exists>now client'. dcc_rest_wait_for_route
      [(50, \<lambda>c. empty_limits\<lparr>rest_global_reset_at_ms := 90\<rparr>), (70, fold query [(''GET /other'', 80)]), (95, \<lambda>c. c)]
      (empty_limits\<lparr>rest_global_reset_at_ms := 70\<rparr>) ''GET /'' = Some (now, client')"
proof -
  let ?pre = "[(50, \<lambda>c. empty_limits\<lparr>rest_global_reset_at_ms := 90\<rparr>)] :: rest_look list"
  have "unat (fst (dcc_rest_route_wait_ms_locked (empty_limits\<lparr>rest_global_reset_at_ms := 90\<rparr>) ''GET /'' 70 True)) = 20"
    using route_wait_char [OF empty_limits_global_inv surjective_pairing, of 90 "''GET /''" 70 True]
    by (simp add: spec_wait_empty)
  moreover have "waits_no_longer ''GET /'' c (fold query [(''GET /other'', 80)] c)"
    if "c = query (''GET /'', 70) (empty_limits\<lparr>rest_global_reset_at_ms := 90\<rparr>)" for c
    using that by (intro queries_no_longer) (simp add: query_inv empty_limits_global_inv)
  ultimately show ?thesis
    using rate_limit_wait_returns [OF empty_limits_global_inv [of 70], of ?pre _ "''GET /''" 70 95
        "fold query [(''GET /other'', 80)]" "\<lambda>c. c"]
    by (simp add: empty_limits_global_inv)
qed

lemma eviction_char:
  assumes "limits_inv client" "length r < DCC_REST_ROUTE_KEY_CAP"
    and "b \<in> set (rest_buckets client)" "active b"
    and "c = dcc_rest_update_rate_limit client r response d g now"
    and "\<forall>b' \<in> set (rest_buckets c). active b' \<longrightarrow> route b' \<noteq> route b"
  shows "limits_inv c
     \<and> (\<forall>b' \<in> set (rest_buckets client). active b' \<and> route b' \<noteq> r \<and> reset_at_ms b \<le> reset_at_ms b')"
proof (cases "\<exists>p. response = Some p \<and> learns p (reset_time now d)")
  case True
  then obtain p where p: "response = Some p" "learns p (reset_time now d)"
    by blast
  let ?L = "learned p (reset_time now d)"
  obtain i x where i: "i < length (rest_buckets client)" "active x" "route x = r"
    and x: "(active (rest_buckets client ! i) \<and> route (rest_buckets client ! i) = r \<and> x = rest_buckets client ! i)
     \<or> (\<forall>b \<in> set (rest_buckets client). active b \<longrightarrow> route b \<noteq> r) \<and> x = new_bucket r
       \<and> (\<not> active (rest_buckets client ! i)
          \<or> (\<forall>b \<in> set (rest_buckets client). active b \<and> reset_at_ms (rest_buckets client ! i) \<le> reset_at_ms b))"
    and u: "rest_buckets c = (let bs = (rest_buckets client)[i := ?L x] in
        if bucket (?L x) \<noteq> [] then share_related i bs else bs)"
    by (rule update_char [OF assms(1,2) p(2), where g = g, folded assms(5) [unfolded p(1)]]) (rule that)
  obtain j where j: "j < length (rest_buckets client)" "rest_buckets client ! j = b"
    using assms(3) by (auto simp: in_set_conv_nth)
  have "j = i"
  proof (rule ccontr)
    assume "j \<noteq> i"
    then have "active (rest_buckets c ! j)" "route (rest_buckets c ! j) = route b" "j < length (rest_buckets c)"
      using j assms(4) by (auto simp: u Let_def share_related_nth)
    with assms(6) nth_mem show False by metis
  qed
  moreover have "route b \<noteq> r"
  proof -
    have "rest_buckets c ! i = ?L x" "i < length (rest_buckets c)"
      using i(1) by (simp_all add: u Let_def share_related_nth)
    then have "?L x \<in> set (rest_buckets c)"
      using nth_mem by metis
    with assms(6) i(2,3) show ?thesis by auto
  qed
  ultimately show ?thesis
    using x j assms(4) update_inv [OF assms(1,2), of response d g now] assms(5) by auto
next
  case False
  then have "rest_buckets c = rest_buckets client"
    unfolding assms(5)
    by (cases response) (auto simp: dcc_rest_update_rate_limit_def Let_def learns_def reset_time_def)
  with assms(3,4,6) show ?thesis by auto
qed

text \<open>
  What an update forgets: the table stays well formed, and a route keeps its bucket unless the
  table is full, the updated route had no bucket yet, and no other bucket resets earlier.
\<close>

theorem rate_limit_eviction:
  assumes "limits_inv client" "length r < DCC_REST_ROUTE_KEY_CAP"
    and "b \<in> set (rest_buckets client)" "active b"
    and c: "c = dcc_rest_update_rate_limit client r response d g now"
  shows "limits_inv c
     \<and> ((\<exists>b' \<in> set (rest_buckets c). active b' \<and> route b' = route b)
        \<or> (\<forall>b' \<in> set (rest_buckets client). active b' \<and> route b' \<noteq> r \<and> reset_at_ms b \<le> reset_at_ms b'))"
proof -
  have "limits_inv c"
    unfolding c by (rule update_inv [OF assms(1,2)])
  then show ?thesis
    using eviction_char [OF assms(1-4) c] by blast
qed

theorem rate_limit_eviction_witness:
  "\<exists>b' \<in> set (rest_buckets (dcc_rest_update_rate_limit
        (empty_limits\<lparr>rest_buckets := (rest_buckets empty_limits)[5 := new_bucket ''GET /a'']\<rparr>)
        ''GET /b'' (Some sample_429) 10 False 0)). active b' \<and> route b' = ''GET /a''"
proof -
  let ?c = "empty_limits\<lparr>rest_buckets := (rest_buckets empty_limits)[5 := new_bucket ''GET /a'']\<rparr>"
  have len: "length (rest_buckets empty_limits) = 128"
    by (simp add: empty_limits_def DCC_REST_BUCKET_CAP_def)
  have none: "\<not> active (rest_buckets empty_limits ! j)" if "j < 128" for j
    using that by (simp add: empty_limits_def empty_bucket_def DCC_REST_BUCKET_CAP_def)
  have nb: "active (new_bucket ''GET /a'')" "route (new_bucket ''GET /a'') = ''GET /a''"
    by (simp_all add: new_bucket_def DCC_REST_ROUTE_KEY_CAP_def)
  have inv: "limits_inv ?c"
    by (rule limits_inv_put [OF empty_limits_inv _ _ nb(2) nb(1)])
      (use none in \<open>auto simp: DCC_REST_ROUTE_KEY_CAP_def len\<close>)
  have "rest_buckets ?c ! 5 \<in> set (rest_buckets ?c)" "rest_buckets ?c ! 6 \<in> set (rest_buckets ?c)"
    by (rule nth_mem, simp add: len)+
  then have b: "new_bucket ''GET /a'' \<in> set (rest_buckets ?c)" and "\<exists>b' \<in> set (rest_buckets ?c). \<not> active b'"
    using none [of 6] len by auto
  then show ?thesis
    using rate_limit_eviction [OF inv _ b nb(1) refl, of "''GET /b''" "Some sample_429" 10 False 0] nb(2)
    by (auto simp: DCC_REST_ROUTE_KEY_CAP_def)
qed

text \<open>
  Looking up a response header finds the first line of that name, whatever the letter case of
  either, and yields its value without the surrounding blanks; a \<open>X-RateLimit-Remaining\<close> value
  printed as a decimal number is read back exactly if it fits in 32 bits.
\<close>

theorem header_lookup_correct:
  assumes "list_all header_ok hs" "list_all (\<lambda>h. fst h \<noteq> []) hs" "n < 2 ^ 32"
  shows "dcc_rest_response_header (Some (concat (map header_line hs))) name =
       map_option (trim_blanks \<circ> snd) (find (\<lambda>h. map to_lower (fst h) = map to_lower name) hs)
     \<and> dcc_rest_parse_header_u32 (Some (dec_string n)) = Some (of_nat n)"
proof -
  have "dcc_rest_ascii_case_eq_span a b \<longleftrightarrow> map to_lower a = map to_lower b" for a b
    by (induction a b rule: dcc_rest_ascii_case_eq_span.induct) auto
  then show ?thesis
    using response_header_block [OF assms(1,2), of name] parse_u32_digits [of "dec_string n"]
      dec_string_length_u32 [OF assms(3)] assms(3)
    by (simp add: dcc_rest_response_header_def)
qed

theorem header_lookup_correct_witness:
  "dcc_rest_response_header (Some (concat (map header_line
     [(''Date'', ''now''), (''x-ratelimit-remaining'', '' 7 '')]))) ''X-RateLimit-Remaining'' = Some ''7''"
  using header_lookup_correct [of "[(''Date'', ''now''), (''x-ratelimit-remaining'', '' 7 '')]" 7 "''X-RateLimit-Remaining''"]
  by (simp add: header_ok_def is_eol_def to_lower_def trim_blanks_def is_blank_def)

end
