(* ===== verification/DCC_Rest_Resource.thy ===== *)
theory DCC_Rest_Resource
  imports DCC_Transition
begin

text \<open>
  \<^verbatim>\<open>src/rest/rest_resource.c\<close>: the accounting of REST requests. Every request carries a charge (the
  bytes it holds); the client limits the number and the bytes of queued requests, the bytes of
  active requests together with the responses being received, and the size of one request and one
  response. Each function runs under \<open>rest_resource_lock\<close>, so it is one atomic step. The byte
  counters are 64-bit words, because the code's limit checks subtract them and may wrap.
\<close>

section \<open>Data\<close>

record dcc_rest_runtime_stats =
  queued_requests :: u64
  queued_requests_high_water :: u64
  active_requests :: u64
  active_requests_high_water :: u64
  completed_requests :: u64
  canceled_requests :: u64
  retried_requests :: u64
  rate_limited_requests :: u64
  admission_rejections :: u64
  queued_request_bytes :: u64
  queued_request_bytes_high_water :: u64
  active_request_bytes :: u64
  active_request_bytes_high_water :: u64
  response_bytes :: u64
  response_bytes_high_water :: u64
  rest_rejected_queued_requests :: u64
  rest_rejected_request_bytes :: u64
  rest_rejected_queued_bytes :: u64
  rest_rejected_active_bytes :: u64
  rest_rejected_response_bytes :: u64

text \<open>The client's limits and counters.\<close>

record rest_resources =
  rest_max_queued_requests :: u64
  rest_max_request_bytes :: u64
  rest_max_queued_bytes :: u64
  rest_max_active_bytes :: u64
  rest_max_response_bytes :: u64
  rest_runtime_stats :: dcc_rest_runtime_stats

text \<open>The fields of a request that the accounting reads and writes; states 0, 1, 2 of the code.\<close>

datatype resource_state = Released | Queued | Active

record resource_request =
  resource_charge :: u64
  resource_state :: resource_state
  resource_count_completion :: bool
  cancel_requested :: bool

section \<open>Operations\<close>

definition high_water :: "u64 \<Rightarrow> u64 \<Rightarrow> u64" where
  "high_water value watermark = (if value > watermark then value else watermark)"

definition dcc_rest_resource_reserve_queued :: "rest_resources \<Rightarrow> u64 \<Rightarrow> dcc_status \<times> rest_resources" where
  "dcc_rest_resource_reserve_queued client charge =
     (if charge = 0 then (DCC_ERR_INVALID_ARG, client)
      else
        let stats = rest_runtime_stats client;
            reject = (\<lambda>s. (DCC_ERR_RESOURCE_LIMIT,
              client\<lparr>rest_runtime_stats := s\<lparr>admission_rejections := sat_inc (admission_rejections s)\<rparr>\<rparr>)) in
        if charge > rest_max_request_bytes client
        then reject (stats\<lparr>rest_rejected_request_bytes := sat_inc (rest_rejected_request_bytes stats)\<rparr>)
        else if queued_requests stats \<ge> rest_max_queued_requests client
        then reject (stats\<lparr>rest_rejected_queued_requests := sat_inc (rest_rejected_queued_requests stats)\<rparr>)
        else if charge > rest_max_queued_bytes client - queued_request_bytes stats
        then reject (stats\<lparr>rest_rejected_queued_bytes := sat_inc (rest_rejected_queued_bytes stats)\<rparr>)
        else
          let n = queued_requests stats + 1; bytes = queued_request_bytes stats + charge in
          (DCC_OK, client\<lparr>rest_runtime_stats := stats
             \<lparr>queued_requests := n, queued_request_bytes := bytes,
              queued_requests_high_water := high_water n (queued_requests_high_water stats),
              queued_request_bytes_high_water := high_water bytes (queued_request_bytes_high_water stats)\<rparr>\<rparr>))"

definition leave_queue :: "u64 \<Rightarrow> dcc_rest_runtime_stats \<Rightarrow> dcc_rest_runtime_stats" where
  "leave_queue charge stats =
     stats\<lparr>queued_requests := (if queued_requests stats \<noteq> 0 then queued_requests stats - 1 else queued_requests stats),
           queued_request_bytes :=
             (if queued_request_bytes stats \<ge> charge then queued_request_bytes stats - charge
              else queued_request_bytes stats)\<rparr>"

definition leave_active :: "u64 \<Rightarrow> dcc_rest_runtime_stats \<Rightarrow> dcc_rest_runtime_stats" where
  "leave_active charge stats =
     stats\<lparr>active_requests := (if active_requests stats \<noteq> 0 then active_requests stats - 1 else active_requests stats),
           active_request_bytes :=
             (if active_request_bytes stats \<ge> charge then active_request_bytes stats - charge
              else active_request_bytes stats)\<rparr>"

definition dcc_rest_resource_release_unpublished :: "rest_resources \<Rightarrow> u64 \<Rightarrow> rest_resources" where
  "dcc_rest_resource_release_unpublished client charge =
     (if charge = 0 then client
      else client\<lparr>rest_runtime_stats := leave_queue charge (rest_runtime_stats client)\<rparr>)"

definition dcc_rest_resource_activate ::
  "rest_resources \<Rightarrow> 'a resource_request_scheme \<Rightarrow> bool \<times> rest_resources \<times> 'a resource_request_scheme" where
  "dcc_rest_resource_activate client request =
     (if resource_state request \<noteq> Queued then (False, client, request)
      else
        let stats = rest_runtime_stats client in
        if resource_charge request > rest_max_active_bytes client - active_request_bytes stats
        then (False, client\<lparr>rest_runtime_stats :=
                stats\<lparr>rest_rejected_active_bytes := sat_inc (rest_rejected_active_bytes stats)\<rparr>\<rparr>, request)
        else
          let s = leave_queue (resource_charge request) stats;
              n = active_requests s + 1; bytes = active_request_bytes s + resource_charge request in
          (True,
           client\<lparr>rest_runtime_stats := s
             \<lparr>active_requests := n, active_request_bytes := bytes,
              active_requests_high_water := high_water n (active_requests_high_water s),
              active_request_bytes_high_water := high_water bytes (active_request_bytes_high_water s)\<rparr>\<rparr>,
           request\<lparr>resource_state := Active\<rparr>))"

definition dcc_rest_resource_requeue ::
  "rest_resources \<Rightarrow> 'a resource_request_scheme \<Rightarrow> rest_resources \<times> 'a resource_request_scheme" where
  "dcc_rest_resource_requeue client request =
     (if resource_state request \<noteq> Active then (client, request)
      else
        let s = leave_active (resource_charge request) (rest_runtime_stats client) in
        (client\<lparr>rest_runtime_stats := s
           \<lparr>queued_requests := queued_requests s + 1,
            queued_request_bytes := queued_request_bytes s + resource_charge request,
            retried_requests := sat_inc (retried_requests s)\<rparr>\<rparr>,
         request\<lparr>resource_state := Queued\<rparr>))"

definition dcc_rest_resource_release_request ::
  "rest_resources \<Rightarrow> 'a resource_request_scheme \<Rightarrow> rest_resources \<times> 'a resource_request_scheme" where
  "dcc_rest_resource_release_request client request =
     (if resource_state request = Released then (client, request)
      else
        let stats = rest_runtime_stats client;
            s = (if resource_state request = Queued then leave_queue (resource_charge request) stats
                 else leave_active (resource_charge request) stats);
            s' = (if resource_count_completion request then
                    let s1 = s\<lparr>completed_requests := sat_inc (completed_requests s)\<rparr> in
                    if cancel_requested request
                    then s1\<lparr>canceled_requests := sat_inc (canceled_requests s1)\<rparr> else s1
                  else s) in
        (client\<lparr>rest_runtime_stats := s'\<rparr>, request\<lparr>resource_state := Released\<rparr>))"

definition dcc_rest_resource_reserve_response :: "rest_resources \<Rightarrow> u64 \<Rightarrow> dcc_status \<times> rest_resources" where
  "dcc_rest_resource_reserve_response client bytes =
     (if bytes = 0 then (DCC_OK, client)
      else
        let stats = rest_runtime_stats client in
        if bytes > rest_max_response_bytes client
           \<or> bytes > rest_max_active_bytes client - active_request_bytes stats
        then (DCC_ERR_RESOURCE_LIMIT, client\<lparr>rest_runtime_stats :=
                stats\<lparr>rest_rejected_response_bytes := sat_inc (rest_rejected_response_bytes stats)\<rparr>\<rparr>)
        else
          let r = response_bytes stats + bytes; a = active_request_bytes stats + bytes in
          (DCC_OK, client\<lparr>rest_runtime_stats := stats
             \<lparr>response_bytes := r, active_request_bytes := a,
              response_bytes_high_water := high_water r (response_bytes_high_water stats),
              active_request_bytes_high_water := high_water a (active_request_bytes_high_water stats)\<rparr>\<rparr>))"

definition dcc_rest_resource_release_response :: "rest_resources \<Rightarrow> u64 \<Rightarrow> rest_resources" where
  "dcc_rest_resource_release_response client bytes =
     (if bytes = 0 then client
      else
        let stats = rest_runtime_stats client in
        client\<lparr>rest_runtime_stats := stats
          \<lparr>response_bytes := (if response_bytes stats \<ge> bytes then response_bytes stats - bytes else response_bytes stats),
           active_request_bytes := (if active_request_bytes stats \<ge> bytes then active_request_bytes stats - bytes
                                    else active_request_bytes stats)\<rparr>\<rparr>)"

definition dcc_rest_resource_record_rate_limit :: "rest_resources \<Rightarrow> rest_resources" where
  "dcc_rest_resource_record_rate_limit client =
     client\<lparr>rest_runtime_stats := (rest_runtime_stats client)
       \<lparr>rate_limited_requests := sat_inc (rate_limited_requests (rest_runtime_stats client))\<rparr>\<rparr>"

section \<open>The ledger\<close>

text \<open>
  What the counters are meant to count: the charges of the queued and of the active requests and
  the reserved response bytes. A run of the accounting is a sequence of calls that respects who
  owns what: only queued requests are activated, only active ones requeued, and so on. The
  reservation rules require that all bytes together fit in the address space. \<open>retry\<close> says whether
  requests may be requeued.
\<close>

record ledger =
  res :: rest_resources
  queued :: "u64 multiset"
  actives :: "u64 multiset"
  responses :: "u64 multiset"

definition bytes :: "u64 multiset \<Rightarrow> nat" where
  "bytes M = sum_mset (image_mset unat M)"

definition fits :: "ledger \<Rightarrow> u64 \<Rightarrow> bool" where
  "fits l c \<longleftrightarrow> bytes (queued l) + bytes (actives l) + unat c < 2 ^ 64 \<and> size (queued l) + size (actives l) + 1 < 2 ^ 64"

definition request_of :: "u64 \<Rightarrow> resource_state \<Rightarrow> bool \<Rightarrow> bool \<Rightarrow> resource_request" where
  "request_of c st completes canceled =
     \<lparr>resource_charge = c, resource_state = st, resource_count_completion = completes, cancel_requested = canceled\<rparr>"

inductive ledger_step :: "bool \<Rightarrow> ledger \<Rightarrow> ledger \<Rightarrow> bool" for retry where
  reserve: "fits l c \<Longrightarrow> dcc_rest_resource_reserve_queued (res l) c = (s, r) \<Longrightarrow>
    ledger_step retry l (l\<lparr>res := r, queued := (if s = DCC_OK then add_mset c (queued l) else queued l)\<rparr>)"
| unpublish: "c \<in># queued l \<Longrightarrow> dcc_rest_resource_release_unpublished (res l) c = r \<Longrightarrow>
    ledger_step retry l (l\<lparr>res := r, queued := queued l - {#c#}\<rparr>)"
| activate: "c \<in># queued l \<Longrightarrow>
    dcc_rest_resource_activate (res l) (request_of c Queued completes canceled) = (ok, r, request_of c st completes canceled) \<Longrightarrow>
    ledger_step retry l (if ok then l\<lparr>res := r, queued := queued l - {#c#}, actives := add_mset c (actives l)\<rparr>
                         else l\<lparr>res := r\<rparr>)"
| requeue: "retry \<Longrightarrow> c \<in># actives l \<Longrightarrow>
    dcc_rest_resource_requeue (res l) (request_of c Active completes canceled) = (r, request_of c Queued completes canceled) \<Longrightarrow>
    ledger_step retry l (l\<lparr>res := r, actives := actives l - {#c#}, queued := add_mset c (queued l)\<rparr>)"
| release_queued: "c \<in># queued l \<Longrightarrow>
    dcc_rest_resource_release_request (res l) (request_of c Queued completes canceled) = (r, request_of c Released completes canceled) \<Longrightarrow>
    ledger_step retry l (l\<lparr>res := r, queued := queued l - {#c#}\<rparr>)"
| release_active: "c \<in># actives l \<Longrightarrow>
    dcc_rest_resource_release_request (res l) (request_of c Active completes canceled) = (r, request_of c Released completes canceled) \<Longrightarrow>
    ledger_step retry l (l\<lparr>res := r, actives := actives l - {#c#}\<rparr>)"
| reserve_response: "dcc_rest_resource_reserve_response (res l) b = (s, r) \<Longrightarrow>
    ledger_step retry l (l\<lparr>res := r, responses := (if s = DCC_OK then add_mset b (responses l) else responses l)\<rparr>)"
| release_response: "b \<in># responses l \<Longrightarrow> dcc_rest_resource_release_response (res l) b = r \<Longrightarrow>
    ledger_step retry l (l\<lparr>res := r, responses := responses l - {#b#}\<rparr>)"
| rate_limit: "ledger_step retry l (l\<lparr>res := dcc_rest_resource_record_rate_limit (res l)\<rparr>)"

definition zero_stats :: dcc_rest_runtime_stats where
  "zero_stats =
     \<lparr>queued_requests = 0, queued_requests_high_water = 0, active_requests = 0, active_requests_high_water = 0,
      completed_requests = 0, canceled_requests = 0, retried_requests = 0, rate_limited_requests = 0,
      admission_rejections = 0, queued_request_bytes = 0, queued_request_bytes_high_water = 0,
      active_request_bytes = 0, active_request_bytes_high_water = 0, response_bytes = 0,
      response_bytes_high_water = 0, rest_rejected_queued_requests = 0, rest_rejected_request_bytes = 0,
      rest_rejected_queued_bytes = 0, rest_rejected_active_bytes = 0, rest_rejected_response_bytes = 0\<rparr>"

definition start_ledger :: "rest_resources \<Rightarrow> ledger" where
  "start_ledger limits =
     \<lparr>res = limits\<lparr>rest_runtime_stats := zero_stats\<rparr>, queued = {#}, actives = {#}, responses = {#}\<rparr>"

text \<open>The counters are exact, and the active bytes respect their limit.\<close>

definition ledger_inv :: "rest_resources \<Rightarrow> ledger \<Rightarrow> bool" where
  "ledger_inv limits l \<longleftrightarrow>
     (let s = rest_runtime_stats (res l) in
      (res l)\<lparr>rest_runtime_stats := zero_stats\<rparr> = limits\<lparr>rest_runtime_stats := zero_stats\<rparr>
      \<and> unat (queued_requests s) = size (queued l)
      \<and> unat (active_requests s) = size (actives l)
      \<and> unat (queued_request_bytes s) = bytes (queued l)
      \<and> unat (response_bytes s) = bytes (responses l)
      \<and> unat (active_request_bytes s) = bytes (actives l) + bytes (responses l)
      \<and> bytes (actives l) + bytes (responses l) \<le> unat (rest_max_active_bytes limits)
      \<and> bytes (queued l) + bytes (actives l) < 2 ^ 64
      \<and> size (queued l) + size (actives l) < 2 ^ 64
      \<and> 0 \<notin># queued l \<and> 0 \<notin># actives l)"

section \<open>Lemmas\<close>

lemma bytes_empty [simp]: "bytes {#} = 0"
  by (simp add: bytes_def)

lemma bytes_add [simp]: "bytes (add_mset c M) = unat c + bytes M"
  by (simp add: bytes_def)

lemma bytes_remove:
  assumes "c \<in># M"
  shows "bytes M = unat c + bytes (M - {#c#})" "size M = Suc (size (M - {#c#}))"
proof -
  have "M = add_mset c (M - {#c#})"
    using assms by simp
  then show "bytes M = unat c + bytes (M - {#c#})" "size M = Suc (size (M - {#c#}))"
    by (metis bytes_add, metis size_add_mset)
qed

lemma unat_plus_u64: "unat (a :: u64) + unat b < 2 ^ 64 \<Longrightarrow> unat (a + b) = unat a + unat b"
  by (subst unat_add_lem [THEN iffD1]) auto

lemma unat_minus_u64: "unat (b :: u64) \<le> unat a \<Longrightarrow> unat (a - b) = unat a - unat b"
  by (simp add: unat_sub word_le_nat_alt)

lemma unat_plus_1_u64: "unat (a :: u64) + 1 < 2 ^ 64 \<Longrightarrow> unat (a + 1) = unat a + 1"
  using unat_plus_u64 [of a 1] by simp

lemma unat_minus_1_u64: "0 < unat (a :: u64) \<Longrightarrow> unat (a - 1) = unat a - 1"
  using unat_minus_u64 [of 1 a] by simp

lemma leave_queue_counts:
  assumes "unat c \<le> unat (queued_request_bytes s)" "0 < unat (queued_requests s)"
  shows "unat (queued_requests (leave_queue c s)) = unat (queued_requests s) - 1"
    "unat (queued_request_bytes (leave_queue c s)) = unat (queued_request_bytes s) - unat c"
    "active_requests (leave_queue c s) = active_requests s"
    "active_request_bytes (leave_queue c s) = active_request_bytes s"
    "response_bytes (leave_queue c s) = response_bytes s"
  using assms by (auto simp: leave_queue_def unat_minus_u64 unat_minus_1_u64 word_le_nat_alt)

lemma leave_active_counts:
  assumes "unat c \<le> unat (active_request_bytes s)" "0 < unat (active_requests s)"
  shows "unat (active_requests (leave_active c s)) = unat (active_requests s) - 1"
    "unat (active_request_bytes (leave_active c s)) = unat (active_request_bytes s) - unat c"
    "queued_requests (leave_active c s) = queued_requests s"
    "queued_request_bytes (leave_active c s) = queued_request_bytes s"
    "response_bytes (leave_active c s) = response_bytes s"
  using assms by (auto simp: leave_active_def unat_minus_u64 unat_minus_1_u64 word_le_nat_alt)

lemma active_room:
  assumes "a \<le> m" "\<not> c > m - (a :: u64)"
  shows "unat a + unat c \<le> unat m"
  using assms by (simp add: not_less word_le_nat_alt unat_minus_u64)

lemma reserve_queued_cases:
  assumes "dcc_rest_resource_reserve_queued client c = (s, r)"
  shows "(s = DCC_OK \<and> c \<noteq> 0 \<and> c \<le> rest_max_request_bytes client
        \<and> queued_requests (rest_runtime_stats client) < rest_max_queued_requests client
        \<and> c \<le> rest_max_queued_bytes client - queued_request_bytes (rest_runtime_stats client)
        \<and> queued_requests (rest_runtime_stats r) = queued_requests (rest_runtime_stats client) + 1
        \<and> queued_request_bytes (rest_runtime_stats r) = queued_request_bytes (rest_runtime_stats client) + c
      \<or> s \<noteq> DCC_OK \<and> queued_requests (rest_runtime_stats r) = queued_requests (rest_runtime_stats client)
        \<and> queued_request_bytes (rest_runtime_stats r) = queued_request_bytes (rest_runtime_stats client))
    \<and> r\<lparr>rest_runtime_stats := zero_stats\<rparr> = client\<lparr>rest_runtime_stats := zero_stats\<rparr>
    \<and> active_requests (rest_runtime_stats r) = active_requests (rest_runtime_stats client)
    \<and> active_request_bytes (rest_runtime_stats r) = active_request_bytes (rest_runtime_stats client)
    \<and> response_bytes (rest_runtime_stats r) = response_bytes (rest_runtime_stats client)"
  using assms by (auto simp: dcc_rest_resource_reserve_queued_def Let_def split: if_splits)

lemma start_ledger_inv [dcc_inv]: "ledger_inv limits (start_ledger limits)"
  by (simp add: ledger_inv_def start_ledger_def zero_stats_def)

lemma ledger_limits: "ledger_inv limits l \<Longrightarrow> rest_max_active_bytes (res l) = rest_max_active_bytes limits
    \<and> rest_max_queued_bytes (res l) = rest_max_queued_bytes limits
    \<and> rest_max_queued_requests (res l) = rest_max_queued_requests limits"
  by (cases "res l"; cases limits) (simp add: ledger_inv_def Let_def)

lemma reserve_inv:
  assumes "fits l c" "dcc_rest_resource_reserve_queued (res l) c = (s, r)" "ledger_inv limits l"
  shows "ledger_inv limits (l\<lparr>res := r, queued := (if s = DCC_OK then add_mset c (queued l) else queued l)\<rparr>)"
proof -
  let ?s = "rest_runtime_stats (res l)"
  have "unat (queued_requests ?s) + 1 < 2 ^ 64" "unat (queued_request_bytes ?s) + unat c < 2 ^ 64"
    using assms(1,3) by (auto simp: fits_def ledger_inv_def Let_def)
  note plus = unat_plus_1_u64 [OF this(1)] unat_plus_u64 [OF this(2)]
  then show ?thesis
    using reserve_queued_cases [OF assms(2)] assms(1,3) by (auto simp: ledger_inv_def Let_def fits_def)
qed

lemma queued_counts:
  assumes "c \<in># queued l" "ledger_inv limits l"
  shows "unat c \<le> unat (queued_request_bytes (rest_runtime_stats (res l)))"
    "0 < unat (queued_requests (rest_runtime_stats (res l)))" "c \<noteq> 0"
  using bytes_remove [OF assms(1)] assms by (auto simp: ledger_inv_def Let_def)

lemma active_counts:
  assumes "c \<in># actives l" "ledger_inv limits l"
  shows "unat c \<le> unat (active_request_bytes (rest_runtime_stats (res l)))"
    "0 < unat (active_requests (rest_runtime_stats (res l)))" "c \<noteq> 0"
  using bytes_remove [OF assms(1)] assms by (auto simp: ledger_inv_def Let_def)

text \<open>Only the six balance counters matter for the invariant.\<close>

lemma ledger_invI:
  assumes "ledger_inv limits l" "r\<lparr>rest_runtime_stats := zero_stats\<rparr> = (res l)\<lparr>rest_runtime_stats := zero_stats\<rparr>"
    and "l' = \<lparr>res = r, queued = Q, actives = A, responses = R\<rparr>"
    and "unat (queued_requests (rest_runtime_stats r)) = size Q"
    and "unat (active_requests (rest_runtime_stats r)) = size A"
    and "unat (queued_request_bytes (rest_runtime_stats r)) = bytes Q"
    and "unat (response_bytes (rest_runtime_stats r)) = bytes R"
    and "unat (active_request_bytes (rest_runtime_stats r)) = bytes A + bytes R"
    and "bytes A + bytes R \<le> unat (rest_max_active_bytes limits)"
    and "bytes Q + bytes A < 2 ^ 64" "size Q + size A < 2 ^ 64" "0 \<notin># Q" "0 \<notin># A"
  shows "ledger_inv limits l'"
  using assms by (simp add: ledger_inv_def Let_def)

definition same_balance :: "dcc_rest_runtime_stats \<Rightarrow> dcc_rest_runtime_stats \<Rightarrow> bool" where
  "same_balance s t \<longleftrightarrow> queued_requests s = queued_requests t \<and> queued_request_bytes s = queued_request_bytes t
     \<and> active_requests s = active_requests t \<and> active_request_bytes s = active_request_bytes t
     \<and> response_bytes s = response_bytes t"

lemma leave_queue_inv:
  assumes "c \<in># queued l" "ledger_inv limits l"
    and "r\<lparr>rest_runtime_stats := zero_stats\<rparr> = (res l)\<lparr>rest_runtime_stats := zero_stats\<rparr>"
    and "same_balance (rest_runtime_stats r) (leave_queue c (rest_runtime_stats (res l)))"
  shows "ledger_inv limits (l\<lparr>res := r, queued := queued l - {#c#}\<rparr>)"
proof (rule ledger_invI [OF assms(2,3)])
  show "l\<lparr>res := r, queued := queued l - {#c#}\<rparr>
      = \<lparr>res = r, queued = queued l - {#c#}, actives = actives l, responses = responses l\<rparr>"
    by (cases l) simp
qed (use assms bytes_remove [OF assms(1)] leave_queue_counts [OF queued_counts(1,2) [OF assms(1,2)]] in
      \<open>auto simp: same_balance_def ledger_inv_def Let_def dest: in_diffD\<close>)

lemma leave_active_inv:
  assumes "c \<in># actives l" "ledger_inv limits l"
    and "r\<lparr>rest_runtime_stats := zero_stats\<rparr> = (res l)\<lparr>rest_runtime_stats := zero_stats\<rparr>"
    and "same_balance (rest_runtime_stats r) (leave_active c (rest_runtime_stats (res l)))"
  shows "ledger_inv limits (l\<lparr>res := r, actives := actives l - {#c#}\<rparr>)"
proof (rule ledger_invI [OF assms(2,3)])
  show "l\<lparr>res := r, actives := actives l - {#c#}\<rparr>
      = \<lparr>res = r, queued = queued l, actives = actives l - {#c#}, responses = responses l\<rparr>"
    by (cases l) simp
qed (use assms bytes_remove [OF assms(1)] leave_active_counts [OF active_counts(1,2) [OF assms(1,2)]] in
      \<open>auto simp: same_balance_def ledger_inv_def Let_def dest: in_diffD\<close>)

lemma activate_inv:
  assumes "c \<in># queued l" "ledger_inv limits l"
    and act: "dcc_rest_resource_activate (res l) (request_of c Queued completes canceled) = (ok, r, req)"
  shows "ledger_inv limits (if ok then l\<lparr>res := r, queued := queued l - {#c#}, actives := add_mset c (actives l)\<rparr>
                            else l\<lparr>res := r\<rparr>)"
proof (cases ok)
  case True
  let ?s = "rest_runtime_stats (res l)"
  have lim: "rest_max_active_bytes (res l) = rest_max_active_bytes limits"
    using ledger_limits [OF assms(2)] by simp
  have room: "\<not> c > rest_max_active_bytes limits - active_request_bytes ?s"
    and r: "r\<lparr>rest_runtime_stats := zero_stats\<rparr> = (res l)\<lparr>rest_runtime_stats := zero_stats\<rparr>"
    and st: "queued_requests (rest_runtime_stats r) = queued_requests (leave_queue c ?s)"
      "queued_request_bytes (rest_runtime_stats r) = queued_request_bytes (leave_queue c ?s)"
      "active_requests (rest_runtime_stats r) = active_requests (leave_queue c ?s) + 1"
      "active_request_bytes (rest_runtime_stats r) = active_request_bytes (leave_queue c ?s) + c"
      "response_bytes (rest_runtime_stats r) = response_bytes (leave_queue c ?s)"
    using act True lim by (auto simp: dcc_rest_resource_activate_def request_of_def Let_def split: if_splits)
  have "active_request_bytes ?s \<le> rest_max_active_bytes limits"
    using assms(2) by (auto simp: ledger_inv_def Let_def word_le_nat_alt)
  note fit = active_room [OF this room]
  have add: "unat (active_request_bytes ?s + c) = unat (active_request_bytes ?s) + unat c"
    using fit unat_u64_less [of "rest_max_active_bytes limits"] by (intro unat_plus_u64) simp
  have inc: "unat (active_requests ?s + 1) = unat (active_requests ?s) + 1"
    using assms(2) bytes_remove(2) [OF assms(1)] by (intro unat_plus_1_u64) (auto simp: ledger_inv_def Let_def)
  have "ledger_inv limits (l\<lparr>res := r, queued := queued l - {#c#}, actives := add_mset c (actives l)\<rparr>)"
  proof (rule ledger_invI [OF assms(2) r])
    show "l\<lparr>res := r, queued := queued l - {#c#}, actives := add_mset c (actives l)\<rparr>
        = \<lparr>res = r, queued = queued l - {#c#}, actives = add_mset c (actives l), responses = responses l\<rparr>"
      by (cases l) simp
  qed (use assms(1,2) st fit add inc bytes_remove [OF assms(1)] queued_counts(3) [OF assms(1,2)]
        leave_queue_counts [OF queued_counts(1,2) [OF assms(1,2)]] in
        \<open>auto simp: ledger_inv_def Let_def dest: in_diffD\<close>)
  with True show ?thesis by simp
next
  case False
  with act assms(2) show ?thesis
    by (auto simp: dcc_rest_resource_activate_def request_of_def Let_def ledger_inv_def split: if_splits)
qed

lemma requeue_inv:
  assumes "c \<in># actives l" "ledger_inv limits l"
    and rq: "dcc_rest_resource_requeue (res l) (request_of c Active completes canceled) = (r, req)"
  shows "ledger_inv limits (l\<lparr>res := r, actives := actives l - {#c#}, queued := add_mset c (queued l)\<rparr>)"
proof -
  let ?s = "rest_runtime_stats (res l)"
  have r: "r\<lparr>rest_runtime_stats := zero_stats\<rparr> = (res l)\<lparr>rest_runtime_stats := zero_stats\<rparr>"
    and st: "queued_requests (rest_runtime_stats r) = queued_requests (leave_active c ?s) + 1"
      "queued_request_bytes (rest_runtime_stats r) = queued_request_bytes (leave_active c ?s) + c"
      "active_requests (rest_runtime_stats r) = active_requests (leave_active c ?s)"
      "active_request_bytes (rest_runtime_stats r) = active_request_bytes (leave_active c ?s)"
      "response_bytes (rest_runtime_stats r) = response_bytes (leave_active c ?s)"
    using rq by (auto simp: dcc_rest_resource_requeue_def request_of_def Let_def)
  have add: "unat (queued_request_bytes ?s + c) = unat (queued_request_bytes ?s) + unat c"
    using assms(2) bytes_remove(1) [OF assms(1)] by (intro unat_plus_u64) (auto simp: ledger_inv_def Let_def)
  have inc: "unat (queued_requests ?s + 1) = unat (queued_requests ?s) + 1"
    using assms(2) bytes_remove(2) [OF assms(1)] by (intro unat_plus_1_u64) (auto simp: ledger_inv_def Let_def)
  show ?thesis
  proof (rule ledger_invI [OF assms(2) r])
    show "l\<lparr>res := r, actives := actives l - {#c#}, queued := add_mset c (queued l)\<rparr>
        = \<lparr>res = r, queued = add_mset c (queued l), actives = actives l - {#c#}, responses = responses l\<rparr>"
      by (cases l) simp
  qed (use assms(1,2) st add inc bytes_remove [OF assms(1)] active_counts(3) [OF assms(1,2)]
        leave_active_counts [OF active_counts(1,2) [OF assms(1,2)]] in
        \<open>auto simp: ledger_inv_def Let_def dest: in_diffD\<close>)
qed

lemma reserve_response_inv:
  assumes rv: "dcc_rest_resource_reserve_response (res l) b = (s, r)" and inv: "ledger_inv limits l"
  shows "ledger_inv limits (l\<lparr>res := r, responses := (if s = DCC_OK then add_mset b (responses l) else responses l)\<rparr>)"
proof (cases "s = DCC_OK \<and> b \<noteq> 0")
  case True
  let ?s = "rest_runtime_stats (res l)"
  have lim: "rest_max_active_bytes (res l) = rest_max_active_bytes limits"
    using ledger_limits [OF inv] by simp
  have room: "\<not> b > rest_max_active_bytes limits - active_request_bytes ?s"
    and r: "r\<lparr>rest_runtime_stats := zero_stats\<rparr> = (res l)\<lparr>rest_runtime_stats := zero_stats\<rparr>"
    and st: "queued_requests (rest_runtime_stats r) = queued_requests ?s"
      "queued_request_bytes (rest_runtime_stats r) = queued_request_bytes ?s"
      "active_requests (rest_runtime_stats r) = active_requests ?s"
      "active_request_bytes (rest_runtime_stats r) = active_request_bytes ?s + b"
      "response_bytes (rest_runtime_stats r) = response_bytes ?s + b"
    using rv True lim by (auto simp: dcc_rest_resource_reserve_response_def Let_def split: if_splits)
  have "active_request_bytes ?s \<le> rest_max_active_bytes limits"
    using inv by (auto simp: ledger_inv_def Let_def word_le_nat_alt)
  note fit = active_room [OF this room]
  have "unat (active_request_bytes ?s) + unat b < 2 ^ 64" "unat (response_bytes ?s) + unat b < 2 ^ 64"
    using fit inv unat_u64_less [of "rest_max_active_bytes limits"] by (auto simp: ledger_inv_def Let_def)
  note add = this [THEN unat_plus_u64]
  have "ledger_inv limits (l\<lparr>res := r, responses := add_mset b (responses l)\<rparr>)"
  proof (rule ledger_invI [OF inv r])
    show "l\<lparr>res := r, responses := add_mset b (responses l)\<rparr>
        = \<lparr>res = r, queued = queued l, actives = actives l, responses = add_mset b (responses l)\<rparr>"
      by (cases l) simp
  qed (use inv st fit add in \<open>auto simp: ledger_inv_def Let_def\<close>)
  with True show ?thesis by simp
next
  case False
  with rv inv show ?thesis
    by (auto simp: dcc_rest_resource_reserve_response_def Let_def ledger_inv_def split: if_splits)
qed

lemma release_response_inv:
  assumes "b \<in># responses l" and inv: "ledger_inv limits l"
  shows "ledger_inv limits (l\<lparr>res := dcc_rest_resource_release_response (res l) b, responses := responses l - {#b#}\<rparr>)"
proof -
  let ?s = "rest_runtime_stats (res l)"
  note rem = bytes_remove(1) [OF assms(1)]
  have "unat b \<le> unat (response_bytes ?s)" "unat b \<le> unat (active_request_bytes ?s)"
    using inv rem by (auto simp: ledger_inv_def Let_def)
  note sub = this [THEN unat_minus_u64] this [folded word_le_nat_alt]
  show ?thesis
    using inv rem sub
    by (auto simp: dcc_rest_resource_release_response_def ledger_inv_def Let_def)
qed

lemma ledger_step_inv [dcc_inv]:
  assumes "ledger_step retry l l'" "ledger_inv limits l"
  shows "ledger_inv limits l'"
  using assms
proof (induction rule: ledger_step.induct)
  case (unpublish c l r)
  have "ledger_inv limits (l\<lparr>res := r, queued := queued l - {#c#}\<rparr>)"
    by (rule leave_queue_inv [OF unpublish(1,3)])
      (use unpublish(2) queued_counts(3) [OF unpublish(1,3)] in
        \<open>auto simp: dcc_rest_resource_release_unpublished_def same_balance_def\<close>)
  then show ?case .
next
  case (release_queued c l completes canceled r)
  show ?case
    by (rule leave_queue_inv [OF release_queued(1,3)])
      (use release_queued(2) in \<open>auto simp: dcc_rest_resource_release_request_def request_of_def Let_def same_balance_def\<close>)
next
  case (release_active c l completes canceled r)
  show ?case
    by (rule leave_active_inv [OF release_active(1,3)])
      (use release_active(2) in \<open>auto simp: dcc_rest_resource_release_request_def request_of_def Let_def same_balance_def\<close>)
next
  case (rate_limit l)
  then show ?case
    by (simp add: ledger_inv_def Let_def dcc_rest_resource_record_rate_limit_def)
qed (auto simp only: intro: reserve_inv activate_inv requeue_inv reserve_response_inv release_response_inv)

interpretation ledger: transition_system
  "\<lambda>l. l = start_ledger limits" "ledger_step retry" "ledger_inv limits" for limits retry
  by unfold_locales (auto intro: start_ledger_inv ledger_step_inv)

definition queue_bounded :: "rest_resources \<Rightarrow> ledger \<Rightarrow> bool" where
  "queue_bounded limits l \<longleftrightarrow>
     bytes (queued l) \<le> unat (rest_max_queued_bytes limits) \<and> size (queued l) \<le> unat (rest_max_queued_requests limits)"

lemma bytes_diff_le: "bytes (M - {#c#}) \<le> bytes M" "size (M - {#c#}) \<le> size M"
proof -
  show "bytes (M - {#c#}) \<le> bytes M"
    using bytes_remove(1) [of c M] by (cases "c \<in># M") (linarith, simp add: diff_single_trivial)
  show "size (M - {#c#}) \<le> size M"
    by (simp add: size_mset_mono)
qed

lemma queue_bounded_step:
  assumes "ledger_step False l l'" "ledger_inv limits l" "queue_bounded limits l"
  shows "queue_bounded limits l'"
  using assms
proof (induction rule: ledger_step.induct)
  case (reserve l c s r)
  show ?case
  proof (cases "s = DCC_OK")
    case True
    let ?s = "rest_runtime_stats (res l)"
    have "queued_request_bytes ?s \<le> rest_max_queued_bytes limits"
      using reserve(3,4) by (simp add: ledger_inv_def Let_def queue_bounded_def word_le_nat_alt)
    moreover have "\<not> rest_max_queued_bytes limits - queued_request_bytes ?s < c"
      "queued_requests ?s < rest_max_queued_requests limits"
      using reserve_queued_cases [OF reserve(2)] True ledger_limits [OF reserve(3)] by (auto simp: not_less)
    ultimately show ?thesis
      using active_room [of "queued_request_bytes ?s" "rest_max_queued_bytes limits" c] reserve(3,4) True
      by (auto simp: ledger_inv_def Let_def queue_bounded_def word_less_nat_alt)
  qed (use reserve in \<open>simp add: queue_bounded_def\<close>)
next
  case (activate c l completes canceled ok r st)
  then show ?case
    using bytes_diff_le [of "queued l" c] by (auto simp: queue_bounded_def)
next
  case (unpublish c l r)
  then show ?case
    using bytes_diff_le [of "queued l" c] by (auto simp: queue_bounded_def)
next
  case (release_queued c l completes canceled r)
  then show ?case
    using bytes_diff_le [of "queued l" c] by (auto simp: queue_bounded_def)
qed (simp_all add: queue_bounded_def)

interpretation queue: transition_system
  "\<lambda>l. l = start_ledger limits" "ledger_step False" "\<lambda>l. ledger_inv limits l \<and> queue_bounded limits l" for limits
proof
  fix l assume "l = start_ledger limits"
  then show "ledger_inv limits l \<and> queue_bounded limits l"
    by (simp add: start_ledger_inv queue_bounded_def) (simp add: start_ledger_def)
qed (use ledger_step_inv queue_bounded_step in blast)

definition sample_limits :: rest_resources where
  "sample_limits = \<lparr>rest_max_queued_requests = 8, rest_max_request_bytes = 10, rest_max_queued_bytes = 10,
     rest_max_active_bytes = 20, rest_max_response_bytes = 10, rest_runtime_stats = zero_stats\<rparr>"

section \<open>Properties\<close>

text \<open>
  C13. The accounting is exact and the active limit holds: after any run of reservations,
  activations, requeues, releases and response reservations, the counters equal the number and the
  total charge of the queued and active requests and the reserved response bytes, and active
  requests and responses together never hold more than \<open>rest_max_active_bytes\<close>.
\<close>

theorem resource_accounting_exact:
  assumes "(ledger_step retry)\<^sup>*\<^sup>* (start_ledger limits) l"
  shows "unat (queued_requests (rest_runtime_stats (res l))) = size (queued l)
     \<and> unat (active_requests (rest_runtime_stats (res l))) = size (actives l)
     \<and> unat (queued_request_bytes (rest_runtime_stats (res l))) = bytes (queued l)
     \<and> unat (response_bytes (rest_runtime_stats (res l))) = bytes (responses l)
     \<and> unat (active_request_bytes (rest_runtime_stats (res l))) = bytes (actives l) + bytes (responses l)
     \<and> bytes (actives l) + bytes (responses l) \<le> unat (rest_max_active_bytes limits)"
  using ledger.reachable_inv [OF refl assms] by (simp add: ledger_inv_def Let_def)

definition sample_ledger :: ledger where
  "sample_ledger = (start_ledger sample_limits)
     \<lparr>res := snd (dcc_rest_resource_reserve_queued (res (start_ledger sample_limits)) 7), queued := {#7#}\<rparr>"

lemma sample_step: "ledger_step retry (start_ledger sample_limits) sample_ledger"
proof -
  have ok: "fst (dcc_rest_resource_reserve_queued (res (start_ledger sample_limits)) 7) = DCC_OK"
    by (simp add: dcc_rest_resource_reserve_queued_def start_ledger_def sample_limits_def zero_stats_def Let_def)
  have "fits (start_ledger sample_limits) 7"
    by (simp add: fits_def start_ledger_def)
  from reserve [OF this surjective_pairing, of retry] ok show ?thesis
    by (simp add: sample_ledger_def start_ledger_def)
qed

theorem resource_accounting_exact_witness:
  "unat (queued_request_bytes (rest_runtime_stats (res sample_ledger))) = 7"
  using resource_accounting_exact [OF r_into_rtranclp, OF sample_step [of True]]
  by (simp add: sample_ledger_def)

text \<open>
  As long as no request is requeued, the queue limits hold too: the queued requests never
  exceed \<open>rest_max_queued_requests\<close> nor their bytes \<open>rest_max_queued_bytes\<close>.
\<close>

theorem resource_queue_bounded_without_retry:
  assumes "(ledger_step False)\<^sup>*\<^sup>* (start_ledger limits) l"
  shows "queue_bounded limits l"
  using queue.reachable_inv [OF refl assms] by simp

theorem resource_queue_bounded_without_retry_witness: "queue_bounded sample_limits sample_ledger"
  by (rule resource_queue_bounded_without_retry [OF r_into_rtranclp, OF sample_step])

lemma wrapped_room:
  assumes "(m :: u64) < q" "unat q + unat c < 2 ^ 64"
  shows "c \<le> m - q"
proof -
  have "unat (m - q) = unat m + 2 ^ 64 - unat q"
    using assms(1) by (simp add: unat_sub_if' word_less_nat_alt)
  then show ?thesis using assms(2) by (simp add: word_le_nat_alt)
qed

lemma reserve_over_limit:
  assumes "ledger_inv limits l" "unat (rest_max_queued_bytes limits) < bytes (queued l)"
    and "c \<noteq> 0" "c \<le> rest_max_request_bytes limits" "size (queued l) < unat (rest_max_queued_requests limits)" "fits l c"
  shows "\<exists>r. dcc_rest_resource_reserve_queued (res l) c = (DCC_OK, r)
    \<and> unat (queued_request_bytes (rest_runtime_stats r)) = bytes (queued l) + unat c"
proof -
  let ?s = "rest_runtime_stats (res l)"
  have q: "unat (queued_request_bytes ?s) = bytes (queued l)" "unat (queued_requests ?s) = size (queued l)"
    using assms(1) by (simp_all add: ledger_inv_def Let_def)
  have sum: "unat (queued_request_bytes ?s) + unat c < 2 ^ 64" using assms(6) q by (simp add: fits_def)
  have "rest_max_queued_bytes limits < queued_request_bytes ?s" using assms(2) q by (simp add: word_less_nat_alt)
  from wrapped_room [OF this sum] have "\<not> rest_max_queued_bytes limits - queued_request_bytes ?s < c"
    by (simp add: not_less)
  moreover have "\<not> rest_max_queued_requests limits \<le> queued_requests ?s"
    using assms(5) q by (simp add: word_le_nat_alt not_le)
  moreover have "unat (queued_request_bytes ?s + c) = bytes (queued l) + unat c"
    using sum q(1) by (subst unat_add_lem [THEN iffD1]) auto
  moreover have "rest_max_request_bytes (res l) = rest_max_request_bytes limits"
    using assms(1) by (cases "res l"; cases limits) (simp add: ledger_inv_def Let_def)
  ultimately show ?thesis
    using assms(3,4) ledger_limits [OF assms(1)]
    by (simp add: dcc_rest_resource_reserve_queued_def Let_def not_less)
qed

text \<open>
  C36. Requeueing breaks the limit on the queued bytes, and once it is broken it no longer holds at all.
  In every state a run of the accounting reaches, an active request is requeued whatever the limits
  are, its charge being added to the queued bytes; and whenever the queued bytes are above
  \<open>rest_max_queued_bytes\<close>, the subtraction of the check wraps around, so that the limit admits every further
  request (within the other limits, and as long as the bytes fit in the address space).
\<close>

theorem resource_queue_limit_overrun:
  assumes "(ledger_step True)\<^sup>*\<^sup>* (start_ledger limits) l"
  shows "(\<forall>c completes canceled. c \<in># actives l \<longrightarrow>
       unat (queued_request_bytes (rest_runtime_stats
         (fst (dcc_rest_resource_requeue (res l) (request_of c Active completes canceled))))) = bytes (queued l) + unat c)
    \<and> (unat (rest_max_queued_bytes limits) < bytes (queued l) \<longrightarrow>
       (\<forall>c. c \<noteq> 0 \<and> c \<le> rest_max_request_bytes limits \<and> size (queued l) < unat (rest_max_queued_requests limits) \<and> fits l c \<longrightarrow>
         (\<exists>r. dcc_rest_resource_reserve_queued (res l) c = (DCC_OK, r)
           \<and> unat (queued_request_bytes (rest_runtime_stats r)) = bytes (queued l) + unat c)))"
proof -
  have inv: "ledger_inv limits l" using ledger.reachable_inv [OF refl assms] .
  have "unat (queued_request_bytes (rest_runtime_stats
      (fst (dcc_rest_resource_requeue (res l) (request_of c Active completes canceled))))) = bytes (queued l) + unat c"
    if "c \<in># actives l" for c completes canceled
  proof -
    obtain r where r: "dcc_rest_resource_requeue (res l) (request_of c Active completes canceled) = (r, request_of c Queued completes canceled)"
      by (auto simp: dcc_rest_resource_requeue_def request_of_def Let_def)
    from ledger_step_inv [OF requeue [OF _ that r, of True] inv] show ?thesis
      by (simp add: r ledger_inv_def Let_def)
  qed
  with reserve_over_limit [OF inv] show ?thesis by blast
qed

text \<open>With a limit of 10 bytes, the run reserve, activate, reserve, requeue (10 bytes each) leaves 20 bytes queued, and
  10 more are accepted.\<close>

definition overrun :: ledger where
  "overrun =
     (let r0 = sample_limits;
          r1 = snd (dcc_rest_resource_reserve_queued r0 10);
          r2 = fst (snd (dcc_rest_resource_activate r1 (request_of 10 Queued True False)));
          r3 = snd (dcc_rest_resource_reserve_queued r2 10);
          r4 = fst (dcc_rest_resource_requeue r3 (request_of 10 Active True False)) in
      \<lparr>res = r4, queued = {#10, 10#}, actives = {#}, responses = {#}\<rparr>)"

lemma overrun_run: "(ledger_step True)\<^sup>*\<^sup>* (start_ledger sample_limits) overrun"
proof -
  let ?l = "\<lambda>r q a. \<lparr>res = r, queued = q, actives = a, responses = {#}\<rparr>"
  define r0 where "r0 = sample_limits"
  define r1 where "r1 = snd (dcc_rest_resource_reserve_queued r0 10)"
  define r2 where "r2 = fst (snd (dcc_rest_resource_activate r1 (request_of 10 Queued True False)))"
  define r3 where "r3 = snd (dcc_rest_resource_reserve_queued r2 10)"
  define r4 where "r4 = fst (dcc_rest_resource_requeue r3 (request_of 10 Active True False))"
  note defs = r0_def sample_limits_def zero_stats_def dcc_rest_resource_reserve_queued_def dcc_rest_resource_activate_def
    dcc_rest_resource_requeue_def request_of_def Let_def leave_queue_def leave_active_def
  have e1: "dcc_rest_resource_reserve_queued r0 10 = (DCC_OK, r1)" by (simp add: r1_def defs)
  have e2: "dcc_rest_resource_activate r1 (request_of 10 Queued True False) = (True, r2, request_of 10 Active True False)"
    by (simp add: r2_def r1_def defs)
  have e3: "dcc_rest_resource_reserve_queued r2 10 = (DCC_OK, r3)" by (simp add: r3_def r2_def r1_def defs)
  have e4: "dcc_rest_resource_requeue r3 (request_of 10 Active True False) = (r4, request_of 10 Queued True False)"
    by (simp add: r4_def r3_def r2_def r1_def defs)
  have s1: "ledger_step True (?l r0 {#} {#}) (?l r1 {#10#} {#})"
    using reserve [of "?l r0 {#} {#}" 10 DCC_OK r1 True] e1 by (simp add: fits_def)
  have s2: "ledger_step True (?l r1 {#10#} {#}) (?l r2 {#} {#10#})"
    using activate [of 10 "?l r1 {#10#} {#}" True False True r2 Active True] e2 by simp
  have s3: "ledger_step True (?l r2 {#} {#10#}) (?l r3 {#10#} {#10#})"
    using reserve [of "?l r2 {#} {#10#}" 10 DCC_OK r3 True] e3 by (simp add: fits_def)
  have s4: "ledger_step True (?l r3 {#10#} {#10#}) (?l r4 {#10, 10#} {#})"
    using requeue [of True 10 "?l r3 {#10#} {#10#}" True False r4] e4 by simp
  have start: "start_ledger sample_limits = ?l r0 {#} {#}"
    by (simp add: start_ledger_def r0_def sample_limits_def)
  have final: "overrun = ?l r4 {#10, 10#} {#}"
    by (simp add: overrun_def r4_def r3_def r2_def r1_def r0_def Let_def)
  show ?thesis
    unfolding start final using s1 s2 s3 s4 by (meson converse_rtranclp_into_rtranclp r_into_rtranclp)
qed

theorem resource_queue_limit_overrun_witness:
  "rest_max_queued_bytes sample_limits = 10 \<and>
   (\<exists>r. dcc_rest_resource_reserve_queued (res overrun) 10 = (DCC_OK, r)
      \<and> unat (queued_request_bytes (rest_runtime_stats r)) = 30)"
proof -
  have q: "queued overrun = {#10, 10#}" "actives overrun = {#}" by (simp_all add: overrun_def Let_def)
  have "rest_max_queued_bytes sample_limits = 10" "rest_max_request_bytes sample_limits = 10"
    "rest_max_queued_requests sample_limits = 8"
    by (simp_all add: sample_limits_def)
  with conjunct2 [OF resource_queue_limit_overrun [OF overrun_run], THEN mp, THEN spec, of 10] show ?thesis
    by (simp add: q fits_def)
qed

end
