(* ===== verification/DCC_Rest_Async.thy ===== *)
theory DCC_Rest_Async
  imports DCC_Rate_Limit DCC_Rest_Resource
begin

text \<open>
  The asynchronous REST scheduler: \<^verbatim>\<open>src/rest/rest_async_queue.c\<close>, \<^verbatim>\<open>rest_async_pending_queue.c\<close>,
  \<^verbatim>\<open>rest_async_active_queue.c\<close>, \<^verbatim>\<open>rest_async_routes.c\<close>, \<^verbatim>\<open>rest_async_drain.c\<close>,
  \<^verbatim>\<open>rest_async_worker_lifecycle.c\<close>, the requeue of \<^verbatim>\<open>rest_async_retry.c\<close>, the cancel functions and the
  queueing part of \<^verbatim>\<open>rest_submit.c\<close>. Requests wait in one queue per priority; a drain moves requests
  to the active list and spawns a worker for each, at most \<open>concurrency\<close> at once and at most one per
  route. Every function here runs under \<open>rest_lock\<close> and is one atomic step.

  A queue is the list of its requests from head to tail, so the tail pointer is its last element; a
  request is named by \<open>req_id\<close>, which stands for its address. The clock and the outcome of spawning a
  worker are functions of the iteration of the drain loop, because each iteration asks anew.
\<close>

section \<open>Data\<close>

record dcc_rest_async_request = resource_request +
  req_id :: nat
  priority :: nat
  request_route :: string
  retry_attempt :: u32
  not_before_ms :: u64
  route_claimed :: bool
  callback_called :: bool

type_synonym request = dcc_rest_async_request

definition DCC_REST_PRIORITY_LOW :: nat where "DCC_REST_PRIORITY_LOW = 0"
definition DCC_REST_PRIORITY_NORMAL :: nat where "DCC_REST_PRIORITY_NORMAL = 1"
definition DCC_REST_PRIORITY_HIGH :: nat where "DCC_REST_PRIORITY_HIGH = 2"
definition DCC_REST_PRIORITY_LEVELS :: nat where "DCC_REST_PRIORITY_LEVELS = 3"

text \<open>The scheduler's fields of the client. \<open>rest_async_heads\<close> is an array over the priorities.\<close>

record rest_async =
  limits :: rest_limits
  resources :: rest_resources
  rest_async_heads :: "nat \<Rightarrow> request list"
  rest_async_active_head :: "request list"
  rest_async_active_routes :: "string list"
  rest_async_active :: nat
  rest_concurrency :: u32
  runtime_initialized :: bool
  stopping :: bool

record queue_position =
  pos_priority :: nat
  pos_index :: nat

section \<open>Queues\<close>

definition dcc_rest_async_push_tail_locked :: "rest_async \<Rightarrow> request \<Rightarrow> rest_async" where
  "dcc_rest_async_push_tail_locked client request =
     client\<lparr>rest_async_heads := (rest_async_heads client)
       (priority request := rest_async_heads client (priority request) @ [request])\<rparr>"

definition dcc_rest_async_push_head_locked :: "rest_async \<Rightarrow> request \<Rightarrow> rest_async" where
  "dcc_rest_async_push_head_locked client request =
     client\<lparr>rest_async_heads := (rest_async_heads client)
       (priority request := request # rest_async_heads client (priority request))\<rparr>"

definition dcc_rest_async_route_active_locked :: "rest_async \<Rightarrow> string \<Rightarrow> bool" where
  "dcc_rest_async_route_active_locked client r =
     (if r = [] then False
      else list_ex (\<lambda>a. strncmp_eq DCC_REST_ROUTE_KEY_CAP a r) (rest_async_active_routes client))"

definition dcc_rest_async_request_wait_ms_locked ::
  "rest_limits \<Rightarrow> request \<Rightarrow> u64 \<Rightarrow> bool \<Rightarrow> u64 \<times> rest_limits" where
  "dcc_rest_async_request_wait_ms_locked lim request now reset_expired =
     (let (wait_ms, lim') = dcc_rest_route_wait_ms_locked lim (request_route request) now reset_expired in
      if not_before_ms request > now then
        let retry_wait = not_before_ms request - now in
        (if retry_wait > wait_ms then retry_wait else wait_ms, lim')
      else (wait_ms, lim'))"

fun take_scan_queue ::
  "rest_async \<Rightarrow> u64 \<Rightarrow> rest_limits \<Rightarrow> nat \<Rightarrow> request list \<Rightarrow> (nat \<times> request) option \<times> rest_limits" where
  "take_scan_queue client now lim i [] = (None, lim)"
| "take_scan_queue client now lim i (request # rs) =
     (if cancel_requested request then (Some (i, request), lim)
      else if dcc_rest_async_route_active_locked client (request_route request)
      then take_scan_queue client now lim (i + 1) rs
      else
        let (wait_ms, lim') = dcc_rest_async_request_wait_ms_locked lim request now True in
        if wait_ms = 0 then (Some (i, request), lim')
        else take_scan_queue client now lim' (i + 1) rs)"

fun take_scan ::
  "rest_async \<Rightarrow> u64 \<Rightarrow> rest_limits \<Rightarrow> nat list \<Rightarrow> (nat \<times> nat \<times> request) option \<times> rest_limits" where
  "take_scan client now lim [] = (None, lim)"
| "take_scan client now lim (p # ps) =
     (case take_scan_queue client now lim 0 (rest_async_heads client p) of
        (Some (i, request), lim') \<Rightarrow> (Some (p, i, request), lim')
      | (None, lim') \<Rightarrow> take_scan client now lim' ps)"

definition dcc_rest_async_take_next_locked ::
  "rest_async \<Rightarrow> u64 \<Rightarrow> (request \<times> queue_position) option \<times> rest_async" where
  "dcc_rest_async_take_next_locked client now =
     (case take_scan client now (limits client)
            [DCC_REST_PRIORITY_HIGH, DCC_REST_PRIORITY_NORMAL, DCC_REST_PRIORITY_LOW] of
        (None, lim) \<Rightarrow> (None, client\<lparr>limits := lim\<rparr>)
      | (Some (p, i, request), lim) \<Rightarrow>
          (Some (request, \<lparr>pos_priority = p, pos_index = i\<rparr>),
           client\<lparr>limits := lim,
                  rest_async_heads := (rest_async_heads client)(p := remove_nth i (rest_async_heads client p))\<rparr>))"

definition dcc_rest_async_restore_locked :: "rest_async \<Rightarrow> request \<Rightarrow> queue_position \<Rightarrow> rest_async" where
  "dcc_rest_async_restore_locked client request position =
     (if pos_priority position \<ge> DCC_REST_PRIORITY_LEVELS then client
      else client\<lparr>rest_async_heads := (rest_async_heads client)
        (pos_priority position :=
           insert_nth (pos_index position) request (rest_async_heads client (pos_priority position)))\<rparr>)"

definition dcc_rest_async_pending_count_locked :: "rest_async \<Rightarrow> nat" where
  "dcc_rest_async_pending_count_locked client =
     sum_list (map (\<lambda>p. length (rest_async_heads client p)) [0..<DCC_REST_PRIORITY_LEVELS])"

definition dcc_rest_async_detach_pending_all_locked :: "rest_async \<Rightarrow> request list \<times> rest_async" where
  "dcc_rest_async_detach_pending_all_locked client =
     (concat (map (rest_async_heads client) [0..<DCC_REST_PRIORITY_LEVELS]),
      client\<lparr>rest_async_heads := fold (\<lambda>p h. h(p := [])) [0..<DCC_REST_PRIORITY_LEVELS] (rest_async_heads client)\<rparr>)"

definition dcc_rest_async_push_active_locked :: "rest_async \<Rightarrow> request \<Rightarrow> rest_async" where
  "dcc_rest_async_push_active_locked client request =
     client\<lparr>rest_async_active_head := request # rest_async_active_head client\<rparr>"

fun remove_first :: "('a \<Rightarrow> bool) \<Rightarrow> 'a list \<Rightarrow> 'a list" where
  "remove_first P [] = []"
| "remove_first P (x # xs) = (if P x then xs else x # remove_first P xs)"

definition dcc_rest_async_remove_active_locked :: "rest_async \<Rightarrow> nat \<Rightarrow> rest_async" where
  "dcc_rest_async_remove_active_locked client rid =
     client\<lparr>rest_async_active_head := remove_first (\<lambda>r. req_id r = rid) (rest_async_active_head client)\<rparr>"

section \<open>Active routes\<close>

definition dcc_rest_async_mark_route_active_locked :: "rest_async \<Rightarrow> string \<Rightarrow> dcc_status \<times> rest_async" where
  "dcc_rest_async_mark_route_active_locked client r =
     (if r = [] then (DCC_OK, client)
      else if dcc_rest_async_route_active_locked client r then (DCC_OK, client)
      else if length (rest_async_active_routes client) \<ge> DCC_REST_BUCKET_CAP then (DCC_ERR_STATE, client)
      else (DCC_OK, client\<lparr>rest_async_active_routes :=
              rest_async_active_routes client @ [take (DCC_REST_ROUTE_KEY_CAP - 1) r]\<rparr>))"

text \<open>The first matching entry is overwritten by the last one, which is then dropped.\<close>

fun unmark_index :: "string \<Rightarrow> nat \<Rightarrow> string list \<Rightarrow> nat option" where
  "unmark_index r i [] = None"
| "unmark_index r i (a # as) =
     (if strncmp_eq DCC_REST_ROUTE_KEY_CAP a r then Some i else unmark_index r (i + 1) as)"

definition dcc_rest_async_unmark_route_active_locked :: "rest_async \<Rightarrow> string \<Rightarrow> rest_async" where
  "dcc_rest_async_unmark_route_active_locked client r =
     (if r = [] then client
      else case unmark_index r 0 (rest_async_active_routes client) of
        None \<Rightarrow> client
      | Some i \<Rightarrow>
          let routes = rest_async_active_routes client; last = length routes - 1 in
          client\<lparr>rest_async_active_routes := butlast (if i \<noteq> last then routes[i := routes ! last] else routes)\<rparr>)"

fun next_wake_queue :: "rest_async \<Rightarrow> u64 \<Rightarrow> request list \<Rightarrow> u64 \<Rightarrow> u64" where
  "next_wake_queue client now [] next_wait_ms = next_wait_ms"
| "next_wake_queue client now (request # rs) next_wait_ms =
     next_wake_queue client now rs
       (if \<not> dcc_rest_async_route_active_locked client (request_route request) then
          let wait_ms = fst (dcc_rest_async_request_wait_ms_locked (limits client) request now False) in
          if wait_ms \<noteq> 0 \<and> (next_wait_ms = 0 \<or> wait_ms < next_wait_ms) then wait_ms else next_wait_ms
        else next_wait_ms)"

definition dcc_rest_async_next_wake_ms_locked :: "rest_async \<Rightarrow> u64 \<Rightarrow> u64" where
  "dcc_rest_async_next_wake_ms_locked client now =
     fold (\<lambda>p w. next_wake_queue client now (rest_async_heads client p) w) [0..<DCC_REST_PRIORITY_LEVELS] 0"

section \<open>Draining\<close>

definition dcc_rest_async_concurrency :: "rest_async \<Rightarrow> nat" where
  "dcc_rest_async_concurrency client =
     (let c = (if rest_concurrency client \<noteq> 0 then unat (rest_concurrency client) else 1);
          c' = (if c > DCC_REST_BUCKET_CAP then DCC_REST_BUCKET_CAP else c) in
      if c' \<noteq> 0 then c' else 1)"

text \<open>
  One pass of the loop body after a request was taken: \<open>Inl\<close> leaves the loop with a status and the
  request handed back to a rejected admission, \<open>Inr\<close> goes on. \<open>drain_give_back\<close> is the code both
  failure paths share, \<open>drain_claim\<close> marks the route unless the request is canceled.
\<close>

definition drain_give_back ::
  "nat option \<Rightarrow> dcc_status \<Rightarrow> rest_async \<Rightarrow> request \<Rightarrow> queue_position
    \<Rightarrow> ((dcc_status \<times> request option) + unit) \<times> rest_async" where
  "drain_give_back admission st client request position =
     (if admission = Some (req_id request) then (Inl (st, Some request), client)
      else
        let (r, request') = dcc_rest_resource_requeue (resources client) request in
        (Inl (if admission \<noteq> None then DCC_OK else st, None),
         dcc_rest_async_restore_locked (client\<lparr>resources := r\<rparr>) request' position))"

definition drain_claim :: "rest_async \<Rightarrow> request \<Rightarrow> dcc_status \<times> rest_async" where
  "drain_claim client request =
     (if cancel_requested request then (DCC_OK, client)
      else dcc_rest_async_mark_route_active_locked client (request_route request))"

definition drain_start ::
  "nat option \<Rightarrow> bool \<Rightarrow> rest_async \<Rightarrow> request \<Rightarrow> queue_position
    \<Rightarrow> ((dcc_status \<times> request option) + unit) \<times> rest_async" where
  "drain_start admission spawn_ok client request position =
     (if spawn_ok then (Inr (), client)
      else
        let client4 = dcc_rest_async_remove_active_locked client (req_id request);
            client5 = (if route_claimed request
              then dcc_rest_async_unmark_route_active_locked client4 (request_route request) else client4) in
        drain_give_back admission DCC_ERR_RUNTIME
          (client5\<lparr>rest_async_active := rest_async_active client5 - 1\<rparr>) (request\<lparr>route_claimed := False\<rparr>) position)"

definition drain_dispatch ::
  "nat option \<Rightarrow> bool \<Rightarrow> rest_async \<Rightarrow> request \<Rightarrow> queue_position
    \<Rightarrow> ((dcc_status \<times> request option) + unit) \<times> rest_async" where
  "drain_dispatch admission spawn_ok client request position =
     (case dcc_rest_resource_activate (resources client) request of
        (False, res', _) \<Rightarrow>
          (Inl (DCC_OK, None), dcc_rest_async_restore_locked (client\<lparr>resources := res'\<rparr>) request position)
      | (True, res', request1) \<Rightarrow>
          let request2 = request1\<lparr>route_claimed := False\<rparr>;
              (st, client2) = drain_claim (client\<lparr>resources := res'\<rparr>) request2 in
          if st \<noteq> DCC_OK then drain_give_back admission st client2 request2 position
          else
            let request3 = request2\<lparr>route_claimed := (\<not> cancel_requested request2 \<and> request_route request2 \<noteq> [])\<rparr>;
                client3 = dcc_rest_async_push_active_locked
                  (client2\<lparr>rest_async_active := rest_async_active client2 + 1\<rparr>) request3 in
            drain_start admission spawn_ok client3 request3 position)"

lemma take_scan_queue_Some:
  "take_scan_queue client now lim i rs = (Some (j, request), lim')
    \<Longrightarrow> i \<le> j \<and> j < i + length rs \<and> rs ! (j - i) = request"
  by (induction client now lim i rs rule: take_scan_queue.induct)
    (fastforce split: if_splits prod.splits simp: nth_Cons')+

lemma take_scan_Some:
  "take_scan client now lim ps = (Some (p, i, request), lim')
    \<Longrightarrow> p \<in> set ps \<and> i < length (rest_async_heads client p) \<and> rest_async_heads client p ! i = request"
  by (induction client now lim ps rule: take_scan.induct)
    (auto split: prod.splits option.splits dest: take_scan_queue_Some)

declare take_scan.simps [simp del]

lemma take_next_Some:
  assumes "dcc_rest_async_take_next_locked client now = (Some (request, position), client')"
  shows "pos_priority position < 3 \<and> pos_index position < length (rest_async_heads client (pos_priority position))
    \<and> rest_async_heads client (pos_priority position) ! pos_index position = request
    \<and> (\<exists>lim. client' = client\<lparr>limits := lim, rest_async_heads := (rest_async_heads client)
         (pos_priority position := remove_nth (pos_index position) (rest_async_heads client (pos_priority position)))\<rparr>)"
  using assms
  by (auto simp: dcc_rest_async_take_next_locked_def DCC_REST_PRIORITY_HIGH_def DCC_REST_PRIORITY_NORMAL_def
      DCC_REST_PRIORITY_LOW_def split: prod.splits option.splits dest!: take_scan_Some)

lemma heads_simps [simp]:
  "rest_async_heads (dcc_rest_async_push_active_locked c r) = rest_async_heads c"
  "rest_async_heads (dcc_rest_async_remove_active_locked c i) = rest_async_heads c"
  "rest_async_heads (snd (dcc_rest_async_mark_route_active_locked c s)) = rest_async_heads c"
  "rest_async_heads (dcc_rest_async_unmark_route_active_locked c s) = rest_async_heads c"
  by (simp_all add: dcc_rest_async_push_active_locked_def dcc_rest_async_remove_active_locked_def
      dcc_rest_async_mark_route_active_locked_def dcc_rest_async_unmark_route_active_locked_def Let_def
      split: option.splits)

lemma give_back_Inl: "drain_give_back adm st c rq pos = (out, c') \<Longrightarrow> \<exists>x. out = Inl x"
  by (auto simp: drain_give_back_def split: prod.splits if_splits)

lemma drain_start_Inr: "drain_start adm ok c rq pos = (Inr u, c') \<Longrightarrow> c' = c"
  by (auto simp: drain_start_def Let_def split: if_splits dest: give_back_Inl)

lemma drain_claim_heads: "drain_claim c rq = (st, c') \<Longrightarrow> rest_async_heads c' = rest_async_heads c"
  by (auto simp: drain_claim_def split: if_splits dest: arg_cong [of _ _ "\<lambda>x. rest_async_heads (snd x)"])

lemma drain_dispatch_Inr_heads:
  assumes "drain_dispatch adm ok c rq pos = (Inr u, c')"
  shows "rest_async_heads c' = rest_async_heads c"
  using assms unfolding drain_dispatch_def
  by (auto simp: Let_def split: prod.splits bool.splits if_splits
      dest!: drain_claim_heads drain_start_Inr give_back_Inl)

lemma pending_count_3:
  "dcc_rest_async_pending_count_locked c =
     length (rest_async_heads c 0) + length (rest_async_heads c 1) + length (rest_async_heads c 2)"
  by (simp add: dcc_rest_async_pending_count_locked_def DCC_REST_PRIORITY_LEVELS_def upt_rec numeral_2_eq_2)

lemma take_next_pending:
  assumes "dcc_rest_async_take_next_locked c now = (Some (rq, pos), c')"
  shows "Suc (dcc_rest_async_pending_count_locked c') = dcc_rest_async_pending_count_locked c"
proof -
  let ?p = "pos_priority pos" and ?q = "rest_async_heads c (pos_priority pos)"
  have p: "?p < 3" and i: "pos_index pos < length ?q"
    and c': "rest_async_heads c' = (rest_async_heads c)(?p := remove_nth (pos_index pos) ?q)"
    using take_next_Some [OF assms] by auto
  from p consider "?p = 0" | "?p = 1" | "?p = 2" by linarith
  then show ?thesis
    using length_remove_nth [OF i] by cases (simp_all add: pending_count_3 c')
qed

function drain_loop ::
  "nat option \<Rightarrow> (nat \<Rightarrow> u64) \<Rightarrow> (nat \<Rightarrow> bool) \<Rightarrow> nat \<Rightarrow> rest_async
    \<Rightarrow> (dcc_status \<times> request option) \<times> rest_async" where
  "drain_loop admission clock spawn_ok n client =
     (if \<not> stopping client \<and> rest_async_active client < dcc_rest_async_concurrency client then
        case dcc_rest_async_take_next_locked client (clock n) of
          (None, client') \<Rightarrow> ((DCC_OK, None), client')
        | (Some (request, position), client') \<Rightarrow>
            (case drain_dispatch admission (spawn_ok n) client' request position of
               (Inl out, client'') \<Rightarrow> (out, client'')
             | (Inr _, client'') \<Rightarrow> drain_loop admission clock spawn_ok (n + 1) client'')
      else ((DCC_OK, None), client))"
  by pat_completeness auto

lemma pending_count_cong: "rest_async_heads c = rest_async_heads c'
    \<Longrightarrow> dcc_rest_async_pending_count_locked c = dcc_rest_async_pending_count_locked c'"
  by (simp add: dcc_rest_async_pending_count_locked_def)

termination drain_loop
  by (relation "measure (\<lambda>(a, c, s, n, client). dcc_rest_async_pending_count_locked client)")
    (auto dest!: take_next_pending [OF sym] drain_dispatch_Inr_heads [THEN pending_count_cong, OF sym])

declare drain_loop.simps [simp del]

definition dcc_rest_async_drain_impl_locked ::
  "nat option \<Rightarrow> (nat \<Rightarrow> u64) \<Rightarrow> (nat \<Rightarrow> bool) \<Rightarrow> rest_async \<Rightarrow> (dcc_status \<times> request option) \<times> rest_async" where
  "dcc_rest_async_drain_impl_locked admission clock spawn_ok client =
     (if \<not> runtime_initialized client then ((DCC_ERR_STATE, None), client)
      else drain_loop admission clock spawn_ok 0 client)"

definition dcc_rest_async_drain_locked ::
  "(nat \<Rightarrow> u64) \<Rightarrow> (nat \<Rightarrow> bool) \<Rightarrow> rest_async \<Rightarrow> dcc_status \<times> rest_async" where
  "dcc_rest_async_drain_locked clock spawn_ok client =
     (case dcc_rest_async_drain_impl_locked None clock spawn_ok client of ((s, _), c) \<Rightarrow> (s, c))"

section \<open>Life of a request\<close>

text \<open>
  Queueing a request whose charge has been reserved (the part of \<open>dcc_rest_submit_core\<close> under the
  lock, and the release of a rejected request after it).
\<close>

definition submit_enqueue ::
  "(nat \<Rightarrow> u64) \<Rightarrow> (nat \<Rightarrow> bool) \<Rightarrow> rest_async \<Rightarrow> request \<Rightarrow> dcc_status \<times> rest_async" where
  "submit_enqueue clock spawn_ok client request =
     (case dcc_rest_async_drain_impl_locked (Some (req_id request)) clock spawn_ok
             (dcc_rest_async_push_tail_locked client request) of
        ((s, None), c) \<Rightarrow> (s, c)
      | ((s, Some rejected), c) \<Rightarrow>
          (s, c\<lparr>resources := fst (dcc_rest_resource_release_request (resources c)
                 (rejected\<lparr>resource_count_completion := False\<rparr>))\<rparr>))"

definition dcc_rest_async_finish_active_locked :: "rest_async \<Rightarrow> request \<Rightarrow> rest_async \<times> request" where
  "dcc_rest_async_finish_active_locked client request =
     (let c1 = client\<lparr>rest_async_active :=
            (if rest_async_active client > 0 then rest_async_active client - 1 else rest_async_active client)\<rparr>;
          c2 = dcc_rest_async_remove_active_locked c1 (req_id request) in
      if route_claimed request
      then (dcc_rest_async_unmark_route_active_locked c2 (request_route request), request\<lparr>route_claimed := False\<rparr>)
      else (c2, request))"

text \<open>
  Completion: the worker's request leaves the active list; a stopping client gives up its pending
  requests (returned for cancellation), a running one drains, and drains once more if the first
  drain failed. The request is then freed, which releases its charge.
\<close>

definition dcc_rest_async_complete ::
  "(nat \<Rightarrow> u64) \<Rightarrow> (nat \<Rightarrow> bool) \<Rightarrow> (nat \<Rightarrow> u64) \<Rightarrow> (nat \<Rightarrow> bool) \<Rightarrow> rest_async \<Rightarrow> request
    \<Rightarrow> request list \<times> rest_async" where
  "dcc_rest_async_complete clock1 spawn1 clock2 spawn2 client request =
     (let (c1, request1) = dcc_rest_async_finish_active_locked client request in
      if stopping c1 then dcc_rest_async_detach_pending_all_locked c1
      else
        let (s, c2) = dcc_rest_async_drain_locked clock1 spawn1 c1 in
        if s \<noteq> DCC_OK then ([], snd (dcc_rest_async_drain_locked clock2 spawn2 c2)) else ([], c2))"

definition dcc_rest_async_request_free :: "rest_async \<Rightarrow> request \<Rightarrow> rest_async" where
  "dcc_rest_async_request_free client request =
     client\<lparr>resources := fst (dcc_rest_resource_release_request (resources client) request)\<rparr>"

definition dcc_rest_async_retry_not_before_ms :: "rest_async \<Rightarrow> request \<Rightarrow> u64 \<Rightarrow> u64" where
  "dcc_rest_async_retry_not_before_ms client request now =
     (let route_wait_ms = fst (dcc_rest_route_wait_ms_locked (limits client) (request_route request) now False) in
      dcc_rest_add_ms now (if route_wait_ms > 1 then route_wait_ms else 1))"

text \<open>Requeue for a retry: \<open>False\<close> means that nothing was done (no memory, or stopping).\<close>

definition dcc_rest_async_requeue_retry ::
  "bool \<Rightarrow> (nat \<Rightarrow> u64) \<Rightarrow> (nat \<Rightarrow> bool) \<Rightarrow> rest_async \<Rightarrow> request \<Rightarrow> u64 \<Rightarrow> bool \<times> rest_async" where
  "dcc_rest_async_requeue_retry malloc_ok clock spawn_ok client request not_before =
     (if \<not> malloc_ok then (False, client)
      else if stopping client then (False, client)
      else
        let (c1, request1) = dcc_rest_async_finish_active_locked client request;
            (r, request2) = dcc_rest_resource_requeue (resources c1) request1;
            request3 = request2\<lparr>not_before_ms := not_before, callback_called := False\<rparr>;
            c2 = dcc_rest_async_push_tail_locked (c1\<lparr>resources := r\<rparr>) request3 in
        (True, snd (dcc_rest_async_drain_locked clock spawn_ok c2)))"

definition dcc_rest_async_request_cancel :: "request \<Rightarrow> bool \<times> request" where
  "dcc_rest_async_request_cancel request =
     (if cancel_requested request then (False, request) else (True, request\<lparr>cancel_requested := True\<rparr>))"

definition dcc_rest_async_cancel_active_locked :: "rest_async \<Rightarrow> nat \<times> rest_async" where
  "dcc_rest_async_cancel_active_locked client =
     (length (filter (\<lambda>r. fst (dcc_rest_async_request_cancel r)) (rest_async_active_head client)),
      client\<lparr>rest_async_active_head :=
        map (\<lambda>r. snd (dcc_rest_async_request_cancel r)) (rest_async_active_head client)\<rparr>)"

text \<open>Cancelling the pending requests: each is freed, which releases its charge; the number is returned.\<close>

definition dcc_rest_async_cancel_pending_list :: "rest_async \<Rightarrow> request list \<Rightarrow> nat \<times> rest_async" where
  "dcc_rest_async_cancel_pending_list client rs =
     (length rs, fold (\<lambda>r c. dcc_rest_async_request_free c r) rs client)"

definition dcc_rest_async_cancel_pending :: "rest_async \<Rightarrow> nat \<times> rest_async" where
  "dcc_rest_async_cancel_pending client =
     (let (rs, c) = dcc_rest_async_detach_pending_all_locked client in
      dcc_rest_async_cancel_pending_list c rs)"

definition dcc_rest_async_cancel_active :: "rest_async \<Rightarrow> nat \<times> rest_async" where
  "dcc_rest_async_cancel_active client = dcc_rest_async_cancel_active_locked client"

definition dcc_rest_async_cancel_all :: "rest_async \<Rightarrow> nat \<times> rest_async" where
  "dcc_rest_async_cancel_all client =
     (let (active_canceled, c1) = dcc_rest_async_cancel_active_locked client;
          (rs, c2) = dcc_rest_async_detach_pending_all_locked c1;
          (pending_canceled, c3) = dcc_rest_async_cancel_pending_list c2 rs in
      (active_canceled + pending_canceled, c3))"

section \<open>Invariant\<close>

definition pending :: "rest_async \<Rightarrow> request multiset" where
  "pending c = mset (rest_async_heads c 0) + mset (rest_async_heads c 1) + mset (rest_async_heads c 2)"

text \<open>What the scheduler never changes of a request.\<close>

definition key :: "request \<Rightarrow> nat \<times> nat \<times> string" where
  "key r = (req_id r, priority r, request_route r)"

definition keys :: "rest_async \<Rightarrow> (nat \<times> nat \<times> string) multiset" where
  "keys c = image_mset key (pending c + mset (rest_async_active_head c))"

definition keys_ok :: "(nat \<times> nat \<times> string) multiset \<Rightarrow> bool" where
  "keys_ok K \<longleftrightarrow> (\<forall>i. count (image_mset fst K) i \<le> 1)
     \<and> (\<forall>(i, p, r) \<in># K. p < DCC_REST_PRIORITY_LEVELS \<and> length r < DCC_REST_ROUTE_KEY_CAP)"

definition claimed_routes :: "request list \<Rightarrow> string list" where
  "claimed_routes rs = map request_route (filter route_claimed rs)"

definition queues_ok :: "rest_async \<Rightarrow> bool" where
  "queues_ok c \<longleftrightarrow> (\<forall>p < 3. \<forall>r \<in> set (rest_async_heads c p). priority r = p)"

definition active_ok :: "rest_async \<Rightarrow> bool" where
  "active_ok c \<longleftrightarrow>
     rest_async_active c = length (rest_async_active_head c)
     \<and> rest_async_active c \<le> dcc_rest_async_concurrency c
     \<and> (\<forall>r \<in> set (rest_async_active_head c).
          length (request_route r) < DCC_REST_ROUTE_KEY_CAP \<and> (route_claimed r \<longrightarrow> request_route r \<noteq> []))
     \<and> mset (rest_async_active_routes c) = mset (claimed_routes (rest_async_active_head c))
     \<and> distinct (rest_async_active_routes c)"

text \<open>
  Every request lies in the queue of its priority or in the active list, and in only one place; the
  active list has the counted length, at most the concurrency limit; the active routes are exactly
  the routes that active requests have claimed, each once.
\<close>

definition sched_inv :: "rest_async \<Rightarrow> bool" where
  "sched_inv c \<longleftrightarrow> queues_ok c \<and> keys_ok (keys c) \<and> active_ok c"

section \<open>Lemmas\<close>

lemma concurrency_bounds: "1 \<le> dcc_rest_async_concurrency c" "dcc_rest_async_concurrency c \<le> DCC_REST_BUCKET_CAP"
  by (auto simp: dcc_rest_async_concurrency_def Let_def DCC_REST_BUCKET_CAP_def unat_gt_0 Suc_le_eq)

lemma concurrency_cong: "rest_concurrency c = rest_concurrency c' \<Longrightarrow> dcc_rest_async_concurrency c = dcc_rest_async_concurrency c'"
  by (simp add: dcc_rest_async_concurrency_def)

lemma active_routes_short:
  assumes "active_ok c" "a \<in> set (rest_async_active_routes c)"
  shows "length a < DCC_REST_ROUTE_KEY_CAP"
proof -
  have "a \<in># mset (claimed_routes (rest_async_active_head c))"
    using assms by (simp add: active_ok_def flip: set_mset_mset)
  then show ?thesis
    using assms(1) by (auto simp: claimed_routes_def active_ok_def)
qed

lemma route_active_iff:
  assumes "active_ok c"
  shows "dcc_rest_async_route_active_locked c r \<longleftrightarrow> r \<noteq> [] \<and> r \<in> set (rest_async_active_routes c)"
  using strncmp_eq_left_short [of _ DCC_REST_ROUTE_KEY_CAP r] active_routes_short [OF assms]
  by (auto simp: dcc_rest_async_route_active_locked_def list_ex_iff)

lemma active_routes_le: "active_ok c \<Longrightarrow> length (rest_async_active_routes c) \<le> rest_async_active c"
  by (metis active_ok_def claimed_routes_def length_filter_le length_map size_mset)

text \<open>The table of active routes never overflows.\<close>

lemma mark_route_spec:
  assumes "active_ok c" "rest_async_active c < dcc_rest_async_concurrency c"
    and "length r < DCC_REST_ROUTE_KEY_CAP" "\<not> dcc_rest_async_route_active_locked c r"
  shows "dcc_rest_async_mark_route_active_locked c r =
    (DCC_OK, if r = [] then c else c\<lparr>rest_async_active_routes := rest_async_active_routes c @ [r]\<rparr>)"
proof -
  have "length (rest_async_active_routes c) < DCC_REST_BUCKET_CAP"
    using active_routes_le [OF assms(1)] assms(2) concurrency_bounds(2) [of c] by linarith
  with assms(3,4) show ?thesis
    by (auto simp: dcc_rest_async_mark_route_active_locked_def)
qed

lemma unmark_index_spec:
  "unmark_index r i as = Some j \<Longrightarrow> i \<le> j \<and> j < i + length as \<and> strncmp_eq DCC_REST_ROUTE_KEY_CAP (as ! (j - i)) r"
  "unmark_index r i as = None \<longleftrightarrow> (\<forall>a \<in> set as. \<not> strncmp_eq DCC_REST_ROUTE_KEY_CAP a r)"
  by (induction as arbitrary: i) (fastforce simp: nth_Cons' split: if_splits)+

lemma mset_overwrite_by_last:
  assumes "i < length xs"
  shows "add_mset (xs ! i) (mset (butlast (if i \<noteq> length xs - 1 then xs[i := xs ! (length xs - 1)] else xs))) = mset xs"
proof -
  obtain ys y where xs: "xs = ys @ [y]"
    using assms by (cases xs rule: rev_cases) auto
  show ?thesis
  proof (cases "i = length ys")
    case False
    then have "i < length ys"
      using assms xs by simp
    then show ?thesis
      using xs False by (simp add: list_update_append nth_append mset_update butlast_append)
  qed (simp add: xs)
qed

lemma unmark_route_spec:
  assumes "r \<noteq> []" "r \<in> set routes" "\<forall>a \<in> set routes. length a < DCC_REST_ROUTE_KEY_CAP"
    and "rest_async_active_routes c = routes"
  shows "\<exists>routes'. dcc_rest_async_unmark_route_active_locked c r = c\<lparr>rest_async_active_routes := routes'\<rparr>
     \<and> add_mset r (mset routes') = mset routes"
proof -
  have "strncmp_eq DCC_REST_ROUTE_KEY_CAP a r \<longleftrightarrow> a = r" if "a \<in> set routes" for a
    using assms(3) that by (intro strncmp_eq_left_short) auto
  then obtain i where i: "unmark_index r 0 routes = Some i" "i < length routes" "routes ! i = r"
    using unmark_index_spec(1) [of r 0 routes] unmark_index_spec(2) [of r 0 routes] assms(2)
    by (cases "unmark_index r 0 routes") auto
  then show ?thesis
    using mset_overwrite_by_last [OF i(2)] assms(1,4)
    by (auto simp: dcc_rest_async_unmark_route_active_locked_def Let_def)
qed

lemma activate_request:
  "dcc_rest_resource_activate r rq = (ok, r', rq') \<Longrightarrow> rq' = (if ok then rq\<lparr>resource_state := Active\<rparr> else rq)"
  by (auto simp: dcc_rest_resource_activate_def Let_def split: if_splits)

lemma requeue_request:
  "dcc_rest_resource_requeue r rq = (r', rq') \<Longrightarrow> rq' = rq \<or> rq' = rq\<lparr>resource_state := Queued\<rparr>"
  by (auto simp: dcc_rest_resource_requeue_def Let_def split: if_splits)

lemma key_simps [simp]:
  "key (rq\<lparr>resource_state := st\<rparr>) = key rq" "key (rq\<lparr>route_claimed := b\<rparr>) = key rq"
  "key (rq\<lparr>not_before_ms := t\<rparr>) = key rq" "key (rq\<lparr>callback_called := b\<rparr>) = key rq"
  "key (rq\<lparr>cancel_requested := b\<rparr>) = key rq"
  by (simp_all add: key_def)

lemma active_ok_cong:
  assumes "active_ok c" "rest_async_active c' = rest_async_active c" "rest_concurrency c' = rest_concurrency c"
    and "rest_async_active_head c' = rest_async_active_head c"
    and "mset (rest_async_active_routes c') = mset (rest_async_active_routes c)"
  shows "active_ok c'"
  using assms mset_eq_imp_distinct_iff [OF assms(5)] concurrency_cong [OF assms(3)] by (simp add: active_ok_def)

lemma active_ok_push:
  assumes "active_ok c" "rest_async_active c < dcc_rest_async_concurrency c"
    and "length (request_route rq) < DCC_REST_ROUTE_KEY_CAP"
    and "route_claimed rq \<longrightarrow> request_route rq \<noteq> [] \<and> request_route rq \<notin> set (rest_async_active_routes c)"
    and "rest_async_active c' = rest_async_active c + 1" "rest_concurrency c' = rest_concurrency c"
    and "rest_async_active_head c' = rq # rest_async_active_head c"
    and "rest_async_active_routes c' = (if route_claimed rq then rest_async_active_routes c @ [request_route rq]
           else rest_async_active_routes c)"
  shows "active_ok c'"
  using assms concurrency_cong [OF assms(6)] by (auto simp: active_ok_def claimed_routes_def)

text \<open>What one pass of the drain loop does with the request it took.\<close>

definition dispatched ::
  "rest_async \<Rightarrow> request \<Rightarrow> queue_position \<Rightarrow> ((dcc_status \<times> request option) + unit) \<Rightarrow> rest_async \<Rightarrow> bool" where
  "dispatched c rq pos out c' \<longleftrightarrow>
     (\<exists>rq'. key rq' = key rq \<and> cancel_requested rq' = cancel_requested rq \<and>
       (case out of
          Inr _ \<Rightarrow> rest_async_heads c' = rest_async_heads c \<and> rest_async_active_head c' = rq' # rest_async_active_head c
        | Inl (s, None) \<Rightarrow> rest_async_active_head c' = rest_async_active_head c
            \<and> rest_async_heads c' = (rest_async_heads c)
                (pos_priority pos := insert_nth (pos_index pos) rq' (rest_async_heads c (pos_priority pos)))
        | Inl (s, Some x) \<Rightarrow> x = rq' \<and> rest_async_heads c' = rest_async_heads c
            \<and> rest_async_active_head c' = rest_async_active_head c))"

lemma dispatched_cong:
  assumes "rest_async_heads c1 = rest_async_heads c2" "rest_async_active_head c1 = rest_async_active_head c2"
    and "key rq1 = key rq2" "cancel_requested rq1 = cancel_requested rq2"
  shows "dispatched c1 rq1 pos out c' \<longleftrightarrow> dispatched c2 rq2 pos out c'"
  unfolding dispatched_def assms ..

lemma give_back_ok:
  assumes "active_ok c" "pos_priority pos < 3" "drain_give_back adm st c rq pos = (out, c')"
  shows "active_ok c' \<and> rest_concurrency c' = rest_concurrency c \<and> stopping c' = stopping c
     \<and> runtime_initialized c' = runtime_initialized c \<and> limits c' = limits c \<and> dispatched c rq pos out c'"
proof (cases "adm = Some (req_id rq)")
  case True
  with assms show ?thesis
    by (auto simp: drain_give_back_def dispatched_def)
next
  case False
  obtain r rq' where rq': "dcc_rest_resource_requeue (resources c) rq = (r, rq')"
    by (cases "dcc_rest_resource_requeue (resources c) rq") auto
  then have "key rq' = key rq" "cancel_requested rq' = cancel_requested rq"
    using requeue_request [OF rq'] by auto
  with assms(2,3) False rq' active_ok_cong [OF assms(1)] show ?thesis
    by (auto simp: drain_give_back_def dispatched_def dcc_rest_async_restore_locked_def DCC_REST_PRIORITY_LEVELS_def)
qed

lemma drain_dispatch_ok:
  assumes ok: "active_ok c" and room: "rest_async_active c < dcc_rest_async_concurrency c"
    and len: "length (request_route rq) < DCC_REST_ROUTE_KEY_CAP"
    and elig: "cancel_requested rq \<or> \<not> dcc_rest_async_route_active_locked c (request_route rq)"
    and pos: "pos_priority pos < 3"
    and run: "drain_dispatch adm spawn c rq pos = (out, c')"
  shows "active_ok c' \<and> rest_concurrency c' = rest_concurrency c \<and> stopping c' = stopping c
     \<and> runtime_initialized c' = runtime_initialized c \<and> limits c' = limits c \<and> dispatched c rq pos out c'"
proof -
  obtain a res' rq1 where act: "dcc_rest_resource_activate (resources c) rq = (a, res', rq1)"
    by (metis prod_cases3)
  show ?thesis
  proof (cases a)
    case False
    with run act ok pos show ?thesis
      by (auto simp: drain_dispatch_def dcc_rest_async_restore_locked_def DCC_REST_PRIORITY_LEVELS_def
          dispatched_def intro: active_ok_cong)
  next
    case True
    define claim where "claim = (\<not> cancel_requested rq \<and> request_route rq \<noteq> [])"
    define rq2 where "rq2 = rq\<lparr>resource_state := Active, route_claimed := False\<rparr>"
    define rq3 where "rq3 = rq2\<lparr>route_claimed := claim\<rparr>"
    define routes where "routes = rest_async_active_routes c"
    define routes' where "routes' = (if claim then routes @ [request_route rq] else routes)"
    let ?c1 = "c\<lparr>resources := res'\<rparr>"
    define c3 where "c3 = ?c1\<lparr>rest_async_active_routes := routes', rest_async_active := rest_async_active c + 1,
        rest_async_active_head := rq3 # rest_async_active_head c\<rparr>"
    have rq1: "rq1\<lparr>route_claimed := False\<rparr> = rq2"
      using activate_request [OF act] True by (simp add: rq2_def)
    have c1_ok: "active_ok ?c1" "dcc_rest_async_concurrency ?c1 = dcc_rest_async_concurrency c"
      by (auto intro!: active_ok_cong [OF ok] concurrency_cong)
    have "dcc_rest_async_route_active_locked ?c1 r = dcc_rest_async_route_active_locked c r" for r
      by (simp add: dcc_rest_async_route_active_locked_def)
    then have claim: "drain_claim ?c1 rq2 = (DCC_OK, ?c1\<lparr>rest_async_active_routes := routes'\<rparr>)"
      using mark_route_spec [OF c1_ok(1), of "request_route rq"] c1_ok(2) room len elig
      by (auto simp: drain_claim_def rq2_def routes'_def routes_def claim_def)
    have nin: "claim \<longrightarrow> request_route rq \<notin> set routes"
      using elig route_active_iff [OF ok] by (auto simp: claim_def routes_def)
    have c3_ok: "active_ok c3"
      by (rule active_ok_push [OF ok room, of rq3])
        (use nin len in \<open>auto simp: c3_def rq3_def rq2_def claim_def routes'_def routes_def\<close>)
    have start: "drain_dispatch adm spawn c rq pos = drain_start adm spawn c3 rq3 pos"
      by (simp add: drain_dispatch_def act True rq1 claim dcc_rest_async_push_active_locked_def c3_def rq3_def Let_def)
        (simp add: rq2_def claim_def)
    show ?thesis
    proof (cases spawn)
      case True
      then have "out = Inr ()" "c' = c3"
        using run unfolding start by (auto simp: drain_start_def)
      with c3_ok show ?thesis
        by (auto simp: dispatched_def c3_def rq3_def rq2_def)
    next
      case False
      obtain routes'' where r'': "(if route_claimed rq3
          then dcc_rest_async_unmark_route_active_locked (dcc_rest_async_remove_active_locked c3 (req_id rq3)) (request_route rq3)
          else dcc_rest_async_remove_active_locked c3 (req_id rq3))
        = ?c1\<lparr>rest_async_active := rest_async_active c + 1, rest_async_active_routes := routes''\<rparr>"
        and m: "mset routes'' = mset routes"
      proof -
        let ?c4 = "?c1\<lparr>rest_async_active := rest_async_active c + 1, rest_async_active_routes := routes'\<rparr>"
        have rm: "dcc_rest_async_remove_active_locked c3 (req_id rq3) = ?c4"
          by (cases c) (simp add: dcc_rest_async_remove_active_locked_def c3_def)
        show thesis
        proof (cases claim)
          case True
          then have "\<forall>a \<in> set routes'. length a < DCC_REST_ROUTE_KEY_CAP"
            using len active_routes_short [OF ok] by (auto simp: routes'_def routes_def)
          then obtain rs where "dcc_rest_async_unmark_route_active_locked ?c4 (request_route rq)
              = ?c4\<lparr>rest_async_active_routes := rs\<rparr>" "add_mset (request_route rq) (mset rs) = mset routes'"
            using unmark_route_spec [of "request_route rq" routes' ?c4] True by (auto simp: routes'_def claim_def)
          then show thesis
            using that [of rs] True rm by (simp add: routes'_def rq3_def rq2_def)
        next
          case False
          then show thesis
            using that [of routes] rm by (simp add: routes'_def rq3_def)
        qed
      qed
      let ?c5 = "?c1\<lparr>rest_async_active_routes := routes''\<rparr>"
      have c5_ok: "active_ok ?c5"
        by (rule active_ok_cong [OF ok]) (simp_all add: m routes_def)
      have "(?c1\<lparr>rest_async_active := rest_async_active c + 1, rest_async_active_routes := routes''\<rparr>)
          \<lparr>rest_async_active := rest_async_active (?c1\<lparr>rest_async_active := rest_async_active c + 1,
             rest_async_active_routes := routes''\<rparr>) - 1\<rparr> = ?c5"
        by (cases c) simp
      then have "drain_give_back adm DCC_ERR_RUNTIME ?c5 (rq3\<lparr>route_claimed := False\<rparr>) pos = (out, c')"
        using run False unfolding start drain_start_def Let_def r'' by simp
      note gb = give_back_ok [OF c5_ok pos this]
      have "dispatched ?c5 (rq3\<lparr>route_claimed := False\<rparr>) pos out c' \<longleftrightarrow> dispatched c rq pos out c'"
        by (rule dispatched_cong) (simp_all add: rq3_def rq2_def)
      with gb show ?thesis
        by simp
    qed
  qed
qed

lemma take_scan_queue_eligible:
  "take_scan_queue client now lim i rs = (Some (j, request), lim')
    \<Longrightarrow> cancel_requested request \<or> \<not> dcc_rest_async_route_active_locked client (request_route request)"
  by (induction client now lim i rs rule: take_scan_queue.induct) (auto split: if_splits prod.splits)

lemma take_scan_eligible:
  "take_scan client now lim ps = (Some (p, i, request), lim')
    \<Longrightarrow> cancel_requested request \<or> \<not> dcc_rest_async_route_active_locked client (request_route request)"
  by (induction client now lim ps rule: take_scan.induct)
    (auto simp: take_scan.simps split: prod.splits option.splits dest: take_scan_queue_eligible)

lemma take_next_eligible:
  "dcc_rest_async_take_next_locked client now = (Some (request, position), client')
    \<Longrightarrow> cancel_requested request \<or> \<not> dcc_rest_async_route_active_locked client (request_route request)"
  by (auto simp: dcc_rest_async_take_next_locked_def split: prod.splits option.splits dest: take_scan_eligible)

lemma pending_upd:
  assumes "p < 3" "rest_async_heads c' = (rest_async_heads c)(p := q)"
  shows "pending c' + mset (rest_async_heads c p) = pending c + mset q"
proof -
  from assms(1) consider "p = 0" | "p = 1" | "p = 2" by linarith
  then show ?thesis
    by cases (simp_all add: pending_def assms(2))
qed

lemma take_next_keys:
  assumes "dcc_rest_async_take_next_locked c now = (Some (rq, pos), c')"
  shows "keys c = add_mset (key rq) (keys c')"
proof -
  let ?q = "rest_async_heads c (pos_priority pos)"
  have p: "pos_priority pos < 3" and i: "pos_index pos < length ?q" "?q ! pos_index pos = rq"
    and c': "rest_async_heads c' = (rest_async_heads c)(pos_priority pos := remove_nth (pos_index pos) ?q)"
      "rest_async_active_head c' = rest_async_active_head c"
    using take_next_Some [OF assms] by auto
  have "pending c' + mset ?q = pending c + mset (remove_nth (pos_index pos) ?q)"
    by (rule pending_upd [OF p c'(1)])
  moreover have "mset ?q = add_mset rq (mset (remove_nth (pos_index pos) ?q))"
    using mset_remove_nth [OF i(1)] i(2) by simp
  ultimately have "add_mset rq (pending c') + mset (remove_nth (pos_index pos) ?q)
      = pending c + mset (remove_nth (pos_index pos) ?q)"
    by simp
  then have "pending c = add_mset rq (pending c')"
    by (metis add_right_cancel)
  then show ?thesis
    by (simp add: keys_def c'(2))
qed

lemma take_next_inv:
  assumes "sched_inv c" "dcc_rest_async_take_next_locked c now = (taken, c')"
  shows "queues_ok c' \<and> active_ok c' \<and> rest_async_active c' = rest_async_active c
     \<and> rest_concurrency c' = rest_concurrency c \<and> stopping c' = stopping c
     \<and> runtime_initialized c' = runtime_initialized c
     \<and> rest_async_active_routes c' = rest_async_active_routes c
     \<and> (taken = None \<longrightarrow> keys c' = keys c)"
proof (cases taken)
  case None
  then obtain lim where "c' = c\<lparr>limits := lim\<rparr>"
    using assms(2) by (auto simp: dcc_rest_async_take_next_locked_def split: prod.splits option.splits)
  with assms(1) show ?thesis
    by (auto simp: sched_inv_def queues_ok_def keys_def pending_def intro: active_ok_cong)
next
  case (Some x)
  obtain rq pos where x: "x = (rq, pos)" by (cases x)
  obtain lim where c': "c' = c\<lparr>limits := lim, rest_async_heads := (rest_async_heads c)
      (pos_priority pos := remove_nth (pos_index pos) (rest_async_heads c (pos_priority pos)))\<rparr>"
    using take_next_Some [of c now rq pos c'] assms(2) Some x by auto
  have "queues_ok c'"
    using assms(1) set_remove_nth_subset [of "pos_index pos" "rest_async_heads c (pos_priority pos)"]
    by (auto simp: c' sched_inv_def queues_ok_def)
  with assms(1) Some show ?thesis
    by (auto simp: sched_inv_def c' intro: active_ok_cong)
qed

lemma keys_okD:
  assumes "keys_ok (add_mset (i, p, r) K)"
  shows "keys_ok K" "length r < DCC_REST_ROUTE_KEY_CAP" "p < 3" "i \<notin># image_mset fst K"
proof -
  have once: "count (add_mset i (image_mset fst K)) j \<le> 1" for j
    using assms by (simp add: keys_ok_def)
  have "count (image_mset fst K) j \<le> 1" for j
    using once [of j] by (simp split: if_splits)
  then show "keys_ok K"
    using assms unfolding keys_ok_def by simp
  show "length r < DCC_REST_ROUTE_KEY_CAP" "p < 3"
    using assms by (auto simp: keys_ok_def DCC_REST_PRIORITY_LEVELS_def)
  have "count (image_mset fst K) i = 0"
    using once [of i] by simp
  then show "i \<notin># image_mset fst K"
    by (simp only: not_in_iff)
qed

lemma dispatched_keys:
  assumes "dispatched c rq pos out c'" "pos_priority pos < 3" "queues_ok c" "priority rq = pos_priority pos"
  shows "queues_ok c' \<and>
    (case out of
       Inl (s, Some x) \<Rightarrow> keys c' = keys c \<and> key x = key rq
     | _ \<Rightarrow> keys c' = add_mset (key rq) (keys c))"
proof -
  from assms(1) obtain rq' where rq': "key rq' = key rq"
    and d: "case out of
          Inr _ \<Rightarrow> rest_async_heads c' = rest_async_heads c \<and> rest_async_active_head c' = rq' # rest_async_active_head c
        | Inl (s, None) \<Rightarrow> rest_async_active_head c' = rest_async_active_head c
            \<and> rest_async_heads c' = (rest_async_heads c)
                (pos_priority pos := insert_nth (pos_index pos) rq' (rest_async_heads c (pos_priority pos)))
        | Inl (s, Some x) \<Rightarrow> x = rq' \<and> rest_async_heads c' = rest_async_heads c
            \<and> rest_async_active_head c' = rest_async_active_head c"
    unfolding dispatched_def by blast
  have prio: "priority rq' = pos_priority pos"
    using rq' assms(4) by (simp add: key_def)
  consider (go) u where "out = Inr u" | (restored) s where "out = Inl (s, None)" | (rejected) s x where "out = Inl (s, Some x)"
    by (cases out) (auto, metis option.exhaust surj_pair)
  then show ?thesis
  proof cases
    case go
    with d rq' assms(3) show ?thesis
      by (auto simp: queues_ok_def keys_def pending_def)
  next
    case restored
    let ?q = "rest_async_heads c (pos_priority pos)"
    have h: "rest_async_heads c' = (rest_async_heads c)(pos_priority pos := insert_nth (pos_index pos) rq' ?q)"
      and a: "rest_async_active_head c' = rest_async_active_head c"
      using d restored by auto
    have "pending c' + mset ?q = add_mset rq' (pending c) + mset ?q"
      using pending_upd [OF assms(2) h] by simp
    then have "pending c' = add_mset rq' (pending c)"
      by (metis add_right_cancel)
    then have "keys c' = add_mset (key rq) (keys c)"
      by (simp add: keys_def a rq')
    moreover have "queues_ok c'"
      using assms(3) prio set_take_subset [of "pos_index pos" ?q] set_drop_subset [of "pos_index pos" ?q]
      by (auto simp: queues_ok_def h insert_nth_def)
    ultimately show ?thesis
      using restored by simp
  next
    case rejected
    with d rq' assms(3) show ?thesis
      by (auto simp: queues_ok_def keys_def pending_def)
  qed
qed

lemma drain_pass:
  assumes inv: "sched_inv c" and room: "rest_async_active c < dcc_rest_async_concurrency c"
    and take: "dcc_rest_async_take_next_locked c now = (Some (rq, pos), c1)"
    and disp: "drain_dispatch adm ok c1 rq pos = (out, c2)"
  shows "sched_inv c2 \<and> rest_concurrency c2 = rest_concurrency c \<and> stopping c2 = stopping c
     \<and> runtime_initialized c2 = runtime_initialized c
     \<and> (case out of Inl (s, Some x) \<Rightarrow> keys c = add_mset (key x) (keys c2) | _ \<Rightarrow> keys c2 = keys c)"
proof -
  note t = take_next_Some [OF take] take_next_inv [OF inv take] take_next_keys [OF take]
  have kok: "keys_ok (add_mset (key rq) (keys c1))"
    using inv t(3) by (simp add: sched_inv_def)
  note k = keys_okD [OF kok [unfolded key_def]]
  have prio: "priority rq = pos_priority pos"
    using inv t(1) nth_mem by (fastforce simp: sched_inv_def queues_ok_def)
  have "dcc_rest_async_route_active_locked c1 r = dcc_rest_async_route_active_locked c r" for r
    using t(2) by (simp add: dcc_rest_async_route_active_locked_def)
  then have elig: "cancel_requested rq \<or> \<not> dcc_rest_async_route_active_locked c1 (request_route rq)"
    using take_next_eligible [OF take] by simp
  have room1: "rest_async_active c1 < dcc_rest_async_concurrency c1"
    using room t(2) concurrency_cong [of c1 c] by simp
  note d = drain_dispatch_ok [OF _ room1 k(2) elig _ disp]
  have d1: "active_ok c2 \<and> rest_concurrency c2 = rest_concurrency c1 \<and> stopping c2 = stopping c1
     \<and> runtime_initialized c2 = runtime_initialized c1 \<and> dispatched c1 rq pos out c2"
    using d t(1,2) by simp
  have "queues_ok c2 \<and> (case out of Inl (s, Some x) \<Rightarrow> keys c2 = keys c1 \<and> key x = key rq
      | _ \<Rightarrow> keys c2 = add_mset (key rq) (keys c1))"
    using dispatched_keys [of c1 rq pos out c2] d1 t(1,2) prio by simp
  with d1 t(2,3) kok k(1) show ?thesis
    by (auto simp: sched_inv_def split: sum.splits option.splits)
qed

lemma drain_loop_inv:
  assumes "sched_inv c" "drain_loop adm clock ok n c = ((s, rej), c')"
  shows "sched_inv c' \<and> rest_concurrency c' = rest_concurrency c \<and> stopping c' = stopping c
     \<and> runtime_initialized c' = runtime_initialized c
     \<and> (case rej of Some x \<Rightarrow> keys c = add_mset (key x) (keys c') | None \<Rightarrow> keys c' = keys c)"
  using assms
proof (induction adm clock ok n c arbitrary: s rej c' rule: drain_loop.induct)
  case (1 adm clock ok n c)
  show ?case
  proof (cases "\<not> stopping c \<and> rest_async_active c < dcc_rest_async_concurrency c")
    case False
    with "1.prems" show ?thesis
      by (auto simp: drain_loop.simps [of adm clock ok n c])
  next
    case True
    obtain taken c1 where take: "dcc_rest_async_take_next_locked c (clock n) = (taken, c1)"
      by (cases "dcc_rest_async_take_next_locked c (clock n)") auto
    show ?thesis
    proof (cases taken)
      case None
      then have "rej = None" "c' = c1"
        using "1.prems"(2) True take by (auto simp: drain_loop.simps [of adm clock ok n c])
      then show ?thesis
        using take_next_inv [OF "1.prems"(1) take] "1.prems"(1) None by (simp add: sched_inv_def)
    next
      case (Some x)
      obtain rq pos where x: "x = (rq, pos)" by (cases x)
      obtain out c2 where disp: "drain_dispatch adm (ok n) c1 rq pos = (out, c2)"
        by (cases "drain_dispatch adm (ok n) c1 rq pos") auto
      note pass = drain_pass [OF "1.prems"(1) _ take [unfolded Some x] disp]
      show ?thesis
      proof (cases out)
        case (Inl y)
        then have "y = (s, rej)" "c' = c2"
          using "1.prems"(2) True take Some x disp by (auto simp: drain_loop.simps [of adm clock ok n c])
        then show ?thesis
          using pass True Inl by (simp split: option.splits)
      next
        case (Inr u)
        then have rest: "drain_loop adm clock ok (n + 1) c2 = ((s, rej), c')"
          using "1.prems"(2) True take Some x disp by (simp add: drain_loop.simps [of adm clock ok n c])
        have p: "sched_inv c2" "rest_concurrency c2 = rest_concurrency c" "stopping c2 = stopping c"
          "runtime_initialized c2 = runtime_initialized c" "keys c2 = keys c"
          using pass True Inr by simp_all
        show ?thesis
          using "1.IH" [OF True take [symmetric] Some x [symmetric] disp [symmetric] Inr p(1) rest] p by (simp split: option.splits)
      qed
    qed
  qed
qed

lemma drain_inv [dcc_inv]:
  assumes "sched_inv c" "dcc_rest_async_drain_impl_locked adm clock ok c = ((s, rej), c')"
  shows "sched_inv c' \<and> stopping c' = stopping c
     \<and> (case rej of Some x \<Rightarrow> keys c = add_mset (key x) (keys c') | None \<Rightarrow> keys c' = keys c)"
  using assms drain_loop_inv [OF assms(1), of adm clock ok 0 s rej c']
  by (auto simp: dcc_rest_async_drain_impl_locked_def split: if_splits)

lemma drain_locked_inv [dcc_inv]:
  assumes "sched_inv c" "dcc_rest_async_drain_locked clock ok c = (s, c')"
  shows "sched_inv c' \<and> stopping c' = stopping c"
proof -
  obtain s' rej where "dcc_rest_async_drain_impl_locked None clock ok c = ((s', rej), c')"
    using assms(2) by (auto simp: dcc_rest_async_drain_locked_def split: prod.splits)
  from drain_inv [OF assms(1) this] show ?thesis
    by (auto split: option.splits)
qed

text \<open>A drain without an admission hands nothing back, so it loses no request.\<close>

lemma drain_dispatch_no_admission:
  "drain_dispatch None ok c rq pos = (Inl (s, rej), c') \<Longrightarrow> rej = None"
  by (auto simp: drain_dispatch_def drain_start_def drain_give_back_def Let_def
      split: prod.splits bool.splits if_splits)

lemma drain_loop_no_admission:
  "drain_loop None clock ok n c = ((s, rej), c') \<Longrightarrow> rej = None"
proof (induction "None :: nat option" clock ok n c arbitrary: s rej c' rule: drain_loop.induct)
  case (1 clock ok n c)
  show ?case
    using "1.prems" "1.hyps"
    by (subst (asm) drain_loop.simps)
      (auto split: if_splits prod.splits option.splits sum.splits dest: drain_dispatch_no_admission)
qed

lemma drain_locked_keys:
  assumes "sched_inv c" "dcc_rest_async_drain_locked clock ok c = (s, c')"
  shows "keys c' = keys c"
proof -
  obtain s' rej where run: "dcc_rest_async_drain_impl_locked None clock ok c = ((s', rej), c')"
    using assms(2) by (auto simp: dcc_rest_async_drain_locked_def split: prod.splits)
  then have "rej = None"
    by (auto simp: dcc_rest_async_drain_impl_locked_def split: if_splits dest: drain_loop_no_admission)
  with drain_inv [OF assms(1) run] show ?thesis by simp
qed

lemma remove_first_id:
  assumes "rq \<in> set rs" "\<forall>i. count (mset (map req_id rs)) i \<le> 1"
  shows "add_mset rq (mset (remove_first (\<lambda>r. req_id r = req_id rq) rs)) = mset rs"
  using assms
proof (induction rs)
  case (Cons x xs)
  have tail: "\<forall>i. count (mset (map req_id xs)) i \<le> 1"
  proof
    fix i
    have "count (mset (map req_id xs)) i \<le> count (mset (map req_id (x # xs))) i"
      by simp
    also have "\<dots> \<le> 1"
      using Cons.prems(2) by blast
    finally show "count (mset (map req_id xs)) i \<le> 1" .
  qed
  have "x = rq" if "req_id x = req_id rq"
  proof (rule ccontr)
    assume "x \<noteq> rq"
    then have "rq \<in> set xs" using Cons.prems(1) by simp
    then have "req_id rq \<in># mset (map req_id xs)" by force
    then have "0 < count (mset (map req_id xs)) (req_id rq)" by (simp only: count_greater_zero_iff)
    with Cons.prems(2) [rule_format, of "req_id rq"] that show False by simp
  qed
  with Cons tail show ?case
    by auto
qed simp

lemma active_ids_once:
  assumes "sched_inv c"
  shows "\<forall>i. count (mset (map req_id (rest_async_active_head c))) i \<le> 1"
proof
  fix i
  have "image_mset fst (keys c) = image_mset req_id (pending c) + mset (map req_id (rest_async_active_head c))"
    by (simp add: keys_def key_def multiset.map_comp comp_def)
  then have "count (mset (map req_id (rest_async_active_head c))) i \<le> count (image_mset fst (keys c)) i"
    by simp
  also have "\<dots> \<le> 1"
    using assms by (simp add: sched_inv_def keys_ok_def)
  finally show "count (mset (map req_id (rest_async_active_head c))) i \<le> 1" .
qed

lemma claimed_routes_mset:
  assumes "add_mset rq (mset rs') = mset rs"
  shows "mset (claimed_routes rs) = (if route_claimed rq then add_mset (request_route rq) (mset (claimed_routes rs'))
      else mset (claimed_routes rs'))"
  by (simp add: claimed_routes_def mset_filter flip: assms)

lemma guarded_dec: "(if 0 < n then n - 1 else n) = n - (1 :: nat)"
  by simp

lemma finish_inv [dcc_inv]:
  assumes inv: "sched_inv c" and rq: "rq \<in> set (rest_async_active_head c)"
    and fin: "dcc_rest_async_finish_active_locked c rq = (c', rq')"
  shows "sched_inv c' \<and> keys c = add_mset (key rq) (keys c') \<and> rq' = rq\<lparr>route_claimed := False\<rparr>
     \<and> stopping c' = stopping c \<and> add_mset rq (mset (rest_async_active_head c')) = mset (rest_async_active_head c)"
proof -
  let ?head = "remove_first (\<lambda>r. req_id r = req_id rq) (rest_async_active_head c)"
  let ?c2 = "c\<lparr>rest_async_active := rest_async_active c - 1, rest_async_active_head := ?head\<rparr>"
  have head: "add_mset rq (mset ?head) = mset (rest_async_active_head c)"
    by (rule remove_first_id [OF rq active_ids_once [OF inv]])
  have ok: "active_ok c" "queues_ok c" "keys_ok (keys c)"
    using inv by (simp_all add: sched_inv_def)
  have cr: "mset (claimed_routes (rest_async_active_head c)) =
      (if route_claimed rq then add_mset (request_route rq) (mset (claimed_routes ?head)) else mset (claimed_routes ?head))"
    by (rule claimed_routes_mset [OF head])
  obtain routes' where c': "c' = ?c2\<lparr>rest_async_active_routes := routes'\<rparr>"
    and r': "mset routes' = mset (claimed_routes ?head)" and d': "distinct routes'"
  proof (cases "route_claimed rq")
    case True
    then have "request_route rq \<in># mset (rest_async_active_routes c)" "request_route rq \<noteq> []"
      using ok(1) cr rq by (simp_all add: active_ok_def)
    then obtain rs where "dcc_rest_async_unmark_route_active_locked ?c2 (request_route rq) = ?c2\<lparr>rest_async_active_routes := rs\<rparr>"
      and m: "add_mset (request_route rq) (mset rs) = mset (rest_async_active_routes c)"
      using unmark_route_spec [of "request_route rq" "rest_async_active_routes c" ?c2] active_routes_short [OF ok(1)] by auto
    moreover have "distinct (request_route rq # rs)"
      using mset_eq_imp_distinct_iff [of "request_route rq # rs" "rest_async_active_routes c"] m ok(1)
      by (simp add: active_ok_def)
    moreover have "mset rs = mset (claimed_routes ?head)"
      using m cr True ok(1) by (simp add: active_ok_def)
    ultimately show thesis
      using that [of rs] fin True
      by (auto simp: dcc_rest_async_finish_active_locked_def Let_def dcc_rest_async_remove_active_locked_def guarded_dec)
  next
    case False
    then have "c' = ?c2"
      using fin by (auto simp: dcc_rest_async_finish_active_locked_def Let_def dcc_rest_async_remove_active_locked_def)
    moreover have "?c2\<lparr>rest_async_active_routes := rest_async_active_routes c\<rparr> = ?c2"
      by (cases c) simp
    ultimately show thesis
      using that [of "rest_async_active_routes c"] cr ok(1) False by (simp add: active_ok_def)
  qed
  have "length ?head + 1 = length (rest_async_active_head c)"
    using arg_cong [OF head, of size] by simp
  moreover have sub: "set ?head \<subseteq> set (rest_async_active_head c)"
    using arg_cong [OF head, of set_mset] by auto
  ultimately have "active_ok c'"
    using ok(1) r' d' concurrency_cong [of c' c] by (auto simp: active_ok_def c')
  moreover have k: "keys c = add_mset (key rq) (keys c')"
    by (simp add: keys_def pending_def c' flip: head)
  then have "keys_ok (keys c')"
    using keys_okD(1) ok(3) by (cases "key rq") auto
  moreover have "queues_ok c'"
    using ok(2) by (simp add: queues_ok_def c')
  moreover have "rq' = rq\<lparr>route_claimed := False\<rparr>"
    using fin by (cases rq) (auto simp: dcc_rest_async_finish_active_locked_def Let_def split: if_splits)
  ultimately show ?thesis
    using k head by (simp add: sched_inv_def c')
qed

section \<open>Which request is next\<close>

text \<open>A look at the rate limits changes no wait at the same time.\<close>

lemma spec_wait_stable:
  assumes inv: "limits_inv lim" and run: "dcc_rest_route_wait_ms_locked lim r' now e = (w, lim')"
  shows "spec_wait lim' r now = spec_wait lim r now"
proof -
  let ?bs = "rest_buckets lim"
  define g where "g = (\<lambda>b. if relevant ?bs r' b then collected now e b else b)"
  have lim': "lim' = lim\<lparr>rest_buckets := map g ?bs\<rparr>"
    using route_wait_char [OF inv run] by (simp add: g_def)
  have g: "active (g b) = active b" "route (g b) = route b" "bucket (g b) = bucket b"
    "exhausted_until (g b) now \<longleftrightarrow> exhausted_until b now" "exhausted_until b now \<Longrightarrow> g b = b" for b
    by (simp_all add: g_def collected_reset)
  have "{b \<in> set (map g ?bs). relevant (map g ?bs) r b \<and> exhausted_until b now}
      = {b \<in> set ?bs. relevant ?bs r b \<and> exhausted_until b now}" (is "?L = ?R")
  proof (rule set_eqI)
    fix x
    show "x \<in> ?L \<longleftrightarrow> x \<in> ?R"
    proof (cases "exhausted_until x now")
      case True
      have eq: "x = g b \<longleftrightarrow> x = b" for b
        using True g(4,5) [of b] g(5) [of x] by metis
      have mem: "x \<in> set (map g ?bs) \<longleftrightarrow> x \<in> set ?bs"
        using eq by (auto simp only: set_map image_iff)
      have "relevant (map g ?bs) r x \<longleftrightarrow> relevant ?bs r x"
        unfolding relevant_def set_map ball_simps bex_simps eq g(1-3) by simp
      with mem show ?thesis by simp
    qed simp
  qed
  then show ?thesis
    by (simp add: spec_wait_def lim' del: set_map)
qed

definition eligible :: "rest_async \<Rightarrow> u64 \<Rightarrow> request \<Rightarrow> bool" where
  "eligible c now rq \<longleftrightarrow> cancel_requested rq
     \<or> \<not> dcc_rest_async_route_active_locked c (request_route rq)
       \<and> spec_wait (limits c) (request_route rq) now = 0 \<and> not_before_ms rq \<le> now"

lemma request_wait_zero:
  assumes "limits_inv lim" "dcc_rest_async_request_wait_ms_locked lim rq now e = (w, lim')"
  shows "w = 0 \<longleftrightarrow> spec_wait lim (request_route rq) now = 0 \<and> not_before_ms rq \<le> now"
    and "limits_inv lim'" and "spec_wait lim' r now = spec_wait lim r now"
proof -
  obtain w1 where run: "dcc_rest_route_wait_ms_locked lim (request_route rq) now e = (w1, lim')"
    using assms(2) by (auto simp: dcc_rest_async_request_wait_ms_locked_def Let_def split: prod.splits if_splits)
  have w1: "unat w1 = spec_wait lim (request_route rq) now"
    using route_wait_char [OF assms(1) run] by blast
  have "w = (if not_before_ms rq > now \<and> not_before_ms rq - now > w1 then not_before_ms rq - now else w1)"
    using assms(2) run by (auto simp: dcc_rest_async_request_wait_ms_locked_def Let_def split: if_splits)
  then show "w = 0 \<longleftrightarrow> spec_wait lim (request_route rq) now = 0 \<and> not_before_ms rq \<le> now"
    unfolding w1 [symmetric] using unat_minus_u64 [of now "not_before_ms rq"]
    by (auto simp: unat_eq_0 word_le_nat_alt word_less_nat_alt not_less)
  show "limits_inv lim'"
    using limits_inv_same_keys [OF assms(1)] route_wait_char [OF assms(1) run] by simp
  show "spec_wait lim' r now = spec_wait lim r now"
    by (rule spec_wait_stable [OF assms(1) run])
qed

lemma take_scan_queue_first:
  assumes "limits_inv lim" "\<forall>r. spec_wait lim r now = spec_wait (limits c) r now"
    and "take_scan_queue c now lim i rs = (out, lim')"
  shows "limits_inv lim' \<and> (\<forall>r. spec_wait lim' r now = spec_wait (limits c) r now)
     \<and> (case out of
          None \<Rightarrow> \<forall>rq \<in> set rs. \<not> eligible c now rq
        | Some (j, rq) \<Rightarrow> eligible c now rq \<and> (\<forall>rq' \<in> set (take (j - i) rs). \<not> eligible c now rq'))"
  using assms
proof (induction c now lim i rs rule: take_scan_queue.induct)
  case (1 c now lim i)
  then show ?case by simp
next
  case (2 c now lim i rq rs)
  show ?case
  proof (cases "cancel_requested rq")
    case True
    with "2.prems" show ?thesis by (auto simp: eligible_def)
  next
    case notc: False
    show ?thesis
    proof (cases "dcc_rest_async_route_active_locked c (request_route rq)")
      case True
      then have ne: "\<not> eligible c now rq"
        using notc by (simp add: eligible_def)
      have run: "take_scan_queue c now lim (i + 1) rs = (out, lim')"
        using "2.prems"(3) True notc by simp
      show ?thesis
        using "2.IH"(1) [OF notc True "2.prems"(1,2) run] ne take_scan_queue_Some [of c now lim "i + 1" rs _ _ lim'] run
        by (auto split: option.splits prod.splits simp: take_Cons' elim!: ballE)
    next
      case False
      obtain w lim1 where wait: "dcc_rest_async_request_wait_ms_locked lim rq now True = (w, lim1)"
        by (cases "dcc_rest_async_request_wait_ms_locked lim rq now True")
      note rw = request_wait_zero [OF "2.prems"(1) wait]
      have el: "eligible c now rq \<longleftrightarrow> w = 0"
        using rw(1) "2.prems"(2) notc False by (simp add: eligible_def)
      have l1: "limits_inv lim1" "\<forall>r. spec_wait lim1 r now = spec_wait (limits c) r now"
        using rw(2,3) "2.prems"(2) by simp_all
      show ?thesis
      proof (cases "w = 0")
        case True
        with "2.prems"(3) wait notc False el l1 show ?thesis by auto
      next
        case w: False
        have run: "take_scan_queue c now lim1 (i + 1) rs = (out, lim')"
          using "2.prems"(3) wait notc False w by simp
        show ?thesis
          using "2.IH"(2) [OF notc False wait [symmetric] refl w l1 run] el w
            take_scan_queue_Some [of c now lim1 "i + 1" rs _ _ lim'] run
          by (auto split: option.splits prod.splits simp: take_Cons' elim!: ballE)
      qed
    qed
  qed
qed

lemma take_scan_first:
  assumes "limits_inv lim" "\<forall>r. spec_wait lim r now = spec_wait (limits c) r now"
    and "take_scan c now lim ps = (out, lim')" "distinct ps"
  shows "limits_inv lim' \<and> (\<forall>r. spec_wait lim' r now = spec_wait (limits c) r now)
     \<and> (case out of
          None \<Rightarrow> \<forall>p \<in> set ps. \<forall>rq \<in> set (rest_async_heads c p). \<not> eligible c now rq
        | Some (p, j, rq) \<Rightarrow> eligible c now rq \<and> p \<in> set ps
            \<and> (\<forall>rq' \<in> set (take j (rest_async_heads c p)). \<not> eligible c now rq')
            \<and> (\<forall>p' \<in> set (takeWhile (\<lambda>q. q \<noteq> p) ps). \<forall>rq' \<in> set (rest_async_heads c p'). \<not> eligible c now rq'))"
  using assms
proof (induction c now lim ps rule: take_scan.induct)
  case (1 c now lim)
  then show ?case by (simp add: take_scan.simps)
next
  case (2 c now lim p ps)
  obtain o1 lim1 where q: "take_scan_queue c now lim 0 (rest_async_heads c p) = (o1, lim1)"
    by (cases "take_scan_queue c now lim 0 (rest_async_heads c p)")
  note f = take_scan_queue_first [OF "2.prems"(1,2) q]
  show ?case
  proof (cases o1)
    case (Some x)
    obtain j rq where "x = (j, rq)" by (cases x)
    with Some "2.prems"(3) q f show ?thesis
      by (auto simp: take_scan.simps)
  next
    case None
    then have run: "take_scan c now lim1 ps = (out, lim')"
      using "2.prems"(3) q by (simp add: take_scan.simps)
    have l1: "limits_inv lim1" "\<forall>r. spec_wait lim1 r now = spec_wait (limits c) r now"
      using f by blast+
    have none: "\<forall>rq \<in> set (rest_async_heads c p). \<not> eligible c now rq"
      using f None by simp
    note ih = "2.IH" [OF q [symmetric] None l1 run]
    show ?thesis
      using ih "2.prems"(4) none by (auto split: option.splits)
  qed
qed

lemma take_next_first:
  assumes "limits_inv (limits c)" "dcc_rest_async_take_next_locked c now = (out, c')"
  shows "limits_inv (limits c') \<and> (\<forall>r. spec_wait (limits c') r now = spec_wait (limits c) r now)
     \<and> (case out of
          None \<Rightarrow> \<forall>p < 3. \<forall>rq \<in> set (rest_async_heads c p). \<not> eligible c now rq
        | Some (rq, pos) \<Rightarrow> eligible c now rq \<and> rest_async_heads c (pos_priority pos) ! pos_index pos = rq
            \<and> (\<forall>rq' \<in> set (take (pos_index pos) (rest_async_heads c (pos_priority pos))). \<not> eligible c now rq')
            \<and> (\<forall>p. pos_priority pos < p \<and> p < 3 \<longrightarrow> (\<forall>rq' \<in> set (rest_async_heads c p). \<not> eligible c now rq')))"
proof -
  obtain o1 lim1 where q: "take_scan c now (limits c) [2, 1, 0] = (o1, lim1)"
    by (cases "take_scan c now (limits c) [2, 1, 0]")
  note f = take_scan_first [OF assms(1) _ q]
  note defs = dcc_rest_async_take_next_locked_def DCC_REST_PRIORITY_HIGH_def DCC_REST_PRIORITY_NORMAL_def
    DCC_REST_PRIORITY_LOW_def
  show ?thesis
  proof (cases o1)
    case None
    have p3: "p = 0 \<or> p = 1 \<or> p = 2" if "p < 3" for p :: nat
      using that by linarith
    show ?thesis
      using f None assms(2) q p3 by (fastforce simp: defs)
  next
    case (Some x)
    obtain p j rq where x: "x = (p, j, rq)" by (cases x)
    have out: "out = Some (rq, \<lparr>pos_priority = p, pos_index = j\<rparr>)" and lim: "limits c' = lim1"
      using assms(2) q Some x by (auto simp: defs)
    have p: "p \<in> {2, 1, 0}" and before: "\<forall>p' \<in> set (takeWhile (\<lambda>q. q \<noteq> p) [2, 1, 0]).
        \<forall>rq' \<in> set (rest_async_heads c p'). \<not> eligible c now rq'"
      using f Some x by auto
    have higher: "\<forall>rq' \<in> set (rest_async_heads c p'). \<not> eligible c now rq'" if "p < p'" "p' < 3" for p'
    proof -
      from that p have "p' \<in> set (takeWhile (\<lambda>q. q \<noteq> p) [2, 1, 0])"
        by (auto simp: numeral_eq_Suc less_Suc_eq)
      with before show ?thesis by blast
    qed
    have "rest_async_heads c p ! j = rq"
      using take_scan_Some [of c now "limits c" "[2, 1, 0]" p j rq lim1] q Some x by simp
    moreover have "limits_inv lim1 \<and> (\<forall>r. spec_wait lim1 r now = spec_wait (limits c) r now) \<and> eligible c now rq
        \<and> (\<forall>rq' \<in> set (take j (rest_async_heads c p)). \<not> eligible c now rq')"
      using f Some x by simp
    ultimately show ?thesis
      unfolding out lim using higher by auto
  qed
qed

section \<open>The scheduler as a transition system\<close>

definition cancel_one :: "nat \<Rightarrow> rest_async \<Rightarrow> rest_async" where
  "cancel_one i c =
     (let f = (\<lambda>r. if req_id r = i then snd (dcc_rest_async_request_cancel r) else r) in
      c\<lparr>rest_async_heads := (\<lambda>p. map f (rest_async_heads c p)),
        rest_async_active_head := map f (rest_async_active_head c)\<rparr>)"

inductive sched_step :: "rest_async \<Rightarrow> rest_async \<Rightarrow> bool" where
  submit: "req_id rq \<notin># image_mset fst (keys c) \<Longrightarrow> priority rq < DCC_REST_PRIORITY_LEVELS
    \<Longrightarrow> length (request_route rq) < DCC_REST_ROUTE_KEY_CAP
    \<Longrightarrow> submit_enqueue clock spawn_ok c rq = (s, c') \<Longrightarrow> sched_step c c'"
| complete: "rq \<in> set (rest_async_active_head c)
    \<Longrightarrow> dcc_rest_async_complete clock1 spawn1 clock2 spawn2 c rq = (dropped, c')
    \<Longrightarrow> sched_step c (dcc_rest_async_request_free (snd (dcc_rest_async_cancel_pending_list c' dropped)) rq)"
| retry: "rq \<in> set (rest_async_active_head c)
    \<Longrightarrow> dcc_rest_async_requeue_retry malloc_ok clock spawn_ok c rq not_before = (done, c') \<Longrightarrow> sched_step c c'"
| drain: "dcc_rest_async_drain_locked clock spawn_ok c = (s, c') \<Longrightarrow> sched_step c c'"
| cancel: "sched_step c (cancel_one i c)"
| cancel_active: "sched_step c (snd (dcc_rest_async_cancel_active c))"
| cancel_pending: "sched_step c (snd (dcc_rest_async_cancel_pending c))"
| cancel_all: "sched_step c (snd (dcc_rest_async_cancel_all c))"
| rate_limits: "sched_step c (c\<lparr>limits := lim\<rparr>)"
| stop: "sched_step c (c\<lparr>stopping := True\<rparr>)"

lemma sched_inv_cong:
  assumes "sched_inv c" "rest_async_heads c' = rest_async_heads c" "rest_async_active_head c' = rest_async_active_head c"
    and "rest_async_active c' = rest_async_active c" "rest_concurrency c' = rest_concurrency c"
    and "rest_async_active_routes c' = rest_async_active_routes c"
  shows "sched_inv c'" "keys c' = keys c"
  using assms active_ok_cong [of c c'] by (auto simp: sched_inv_def queues_ok_def keys_def pending_def)

lemma free_fields [simp]:
  "rest_async_heads (dcc_rest_async_request_free c r) = rest_async_heads c"
  "rest_async_active_head (dcc_rest_async_request_free c r) = rest_async_active_head c"
  "rest_async_active (dcc_rest_async_request_free c r) = rest_async_active c"
  "rest_concurrency (dcc_rest_async_request_free c r) = rest_concurrency c"
  "rest_async_active_routes (dcc_rest_async_request_free c r) = rest_async_active_routes c"
  by (simp_all add: dcc_rest_async_request_free_def)

lemma free_inv [dcc_inv]: "sched_inv c \<Longrightarrow> sched_inv (dcc_rest_async_request_free c r)"
  by (erule sched_inv_cong) simp_all

lemma cancel_pending_list_inv [dcc_inv]:
  "sched_inv c \<Longrightarrow> sched_inv (snd (dcc_rest_async_cancel_pending_list c rs))"
  unfolding dcc_rest_async_cancel_pending_list_def snd_conv
  by (induction rs arbitrary: c) (simp_all add: free_inv)

lemma keys_ok_add:
  assumes "keys_ok K" "i \<notin># image_mset fst K" "p < DCC_REST_PRIORITY_LEVELS" "length r < DCC_REST_ROUTE_KEY_CAP"
  shows "keys_ok (add_mset (i, p, r) K)"
proof -
  have "count (image_mset fst K) i = 0"
    using assms(2) by (simp only: not_in_iff)
  with assms(1,3,4) show ?thesis
    unfolding keys_ok_def by simp
qed

lemma push_tail_inv:
  assumes "sched_inv c" "req_id rq \<notin># image_mset fst (keys c)"
    and "priority rq < DCC_REST_PRIORITY_LEVELS" "length (request_route rq) < DCC_REST_ROUTE_KEY_CAP"
  shows "sched_inv (dcc_rest_async_push_tail_locked c rq)"
    and "keys (dcc_rest_async_push_tail_locked c rq) = add_mset (key rq) (keys c)"
proof -
  let ?c = "dcc_rest_async_push_tail_locked c rq"
  have p: "priority rq < 3"
    using assms(3) by (simp add: DCC_REST_PRIORITY_LEVELS_def)
  have h: "rest_async_heads ?c = (rest_async_heads c)(priority rq := rest_async_heads c (priority rq) @ [rq])"
    by (simp add: dcc_rest_async_push_tail_locked_def)
  have "pending ?c + mset (rest_async_heads c (priority rq)) = add_mset rq (pending c) + mset (rest_async_heads c (priority rq))"
    using pending_upd [OF p h] by simp
  then have "pending ?c = add_mset rq (pending c)"
    by (metis add_right_cancel)
  then show k: "keys ?c = add_mset (key rq) (keys c)"
    by (simp add: keys_def dcc_rest_async_push_tail_locked_def)
  have "active_ok ?c"
    using assms(1) by (auto simp: sched_inv_def dcc_rest_async_push_tail_locked_def intro: active_ok_cong)
  moreover have "queues_ok ?c"
    using assms(1) by (auto simp: sched_inv_def queues_ok_def h)
  moreover have "keys_ok (keys ?c)"
    using assms(1) keys_ok_add [OF _ assms(2-4)] by (simp add: sched_inv_def k key_def)
  ultimately show "sched_inv ?c"
    by (simp add: sched_inv_def)
qed

lemma detach_inv:
  assumes "sched_inv c" "dcc_rest_async_detach_pending_all_locked c = (rs, c')"
  shows "sched_inv c' \<and> mset rs = pending c \<and> pending c' = {#}"
proof -
  have h: "rest_async_heads c' p = []" if "p < 3" for p
  proof -
    from that consider "p = 0" | "p = 1" | "p = 2" by linarith
    then show ?thesis
      using assms(2) by cases (auto simp: dcc_rest_async_detach_pending_all_locked_def DCC_REST_PRIORITY_LEVELS_def upt_rec)
  qed
  have c': "rest_async_active_head c' = rest_async_active_head c" "rest_async_active c' = rest_async_active c"
    "rest_concurrency c' = rest_concurrency c" "rest_async_active_routes c' = rest_async_active_routes c"
    using assms(2) by (auto simp: dcc_rest_async_detach_pending_all_locked_def)
  have p': "pending c' = {#}"
    by (simp add: pending_def h)
  have keys: "keys c = image_mset key (pending c) + keys c'"
    by (simp add: keys_def p' c')
  have "keys_ok (keys c')"
    unfolding keys_ok_def
  proof (intro conjI allI)
    fix i
    have "count (image_mset fst (keys c')) i \<le> count (image_mset fst (keys c)) i"
      by (simp add: keys)
    also have "\<dots> \<le> 1"
      using assms(1) by (simp add: sched_inv_def keys_ok_def)
    finally show "count (image_mset fst (keys c')) i \<le> 1" .
  qed (use assms(1) keys in \<open>auto simp: sched_inv_def keys_ok_def\<close>)
  moreover have "active_ok c'"
    using assms(1) c' by (auto simp: sched_inv_def intro: active_ok_cong)
  moreover have "queues_ok c'"
    by (simp add: queues_ok_def h)
  moreover have "mset rs = pending c"
    using assms(2) by (auto simp: dcc_rest_async_detach_pending_all_locked_def DCC_REST_PRIORITY_LEVELS_def pending_def
        upt_rec numeral_2_eq_2)
  ultimately show ?thesis
    using p' by (simp add: sched_inv_def)
qed

lemma map_requests_inv:
  assumes "sched_inv c"
    and f: "\<And>r. key (f r) = key r \<and> route_claimed (f r) = route_claimed r"
    and "c' = c\<lparr>rest_async_heads := (\<lambda>p. map g (rest_async_heads c p)),
       rest_async_active_head := map f (rest_async_active_head c)\<rparr>"
    and g: "\<And>r. key (g r) = key r"
  shows "sched_inv c' \<and> keys c' = keys c"
proof -
  have fr: "request_route (f r) = request_route r" "route_claimed (f r) = route_claimed r" for r
    using f [of r] by (simp_all add: key_def)
  have gp: "priority (g r) = priority r" for r
    using g [of r] by (simp add: key_def)
  have kf: "image_mset (\<lambda>r. key (f r)) M = image_mset key M" "image_mset (\<lambda>r. key (g r)) M = image_mset key M" for M
    using f g by simp_all
  have k: "keys c' = keys c"
    by (simp add: keys_def pending_def assms(3) multiset.map_comp comp_def kf)
  have "claimed_routes (map f rs) = claimed_routes rs" for rs
    by (induction rs) (simp_all add: claimed_routes_def fr)
  then have "active_ok c'"
    using assms(1) concurrency_cong [of c' c] by (simp add: sched_inv_def active_ok_def assms(3) fr)
  moreover have "queues_ok c'"
    using assms(1) by (auto simp: sched_inv_def queues_ok_def assms(3) gp)
  ultimately show ?thesis
    using assms(1) k by (simp add: sched_inv_def)
qed

lemma submit_inv:
  assumes "sched_inv c" "req_id rq \<notin># image_mset fst (keys c)"
    and "priority rq < DCC_REST_PRIORITY_LEVELS" "length (request_route rq) < DCC_REST_ROUTE_KEY_CAP"
    and "submit_enqueue clock ok c rq = (s, c')"
  shows "sched_inv c' \<and> (keys c' = add_mset (key rq) (keys c) \<or> (\<exists>x. add_mset (key x) (keys c') = add_mset (key rq) (keys c)))"
proof -
  note push = push_tail_inv [OF assms(1-4)]
  let ?d = "dcc_rest_async_drain_impl_locked (Some (req_id rq)) clock ok (dcc_rest_async_push_tail_locked c rq)"
  obtain out c1 where dd: "?d = (out, c1)" by (cases ?d)
  obtain s1 rej where "out = (s1, rej)" by (cases out)
  with dd have run: "?d = ((s1, rej), c1)" by simp
  note d = drain_inv [OF push(1) run]
  have "c' = c1 \<or> (\<exists>r. c' = c1\<lparr>resources := r\<rparr>)"
    using assms(5) run by (auto simp: submit_enqueue_def split: option.splits)
  then have c': "sched_inv c1 \<longrightarrow> sched_inv c' \<and> keys c' = keys c1"
    using sched_inv_cong [of c1 c'] by auto
  show ?thesis
    using d c' push(2) by (auto split: option.splits)
qed

lemma requeue_retry_inv:
  assumes "sched_inv c" "rq \<in> set (rest_async_active_head c)"
    and "dcc_rest_async_requeue_retry malloc_ok clock ok c rq t = (ret, c')"
  shows "sched_inv c' \<and> keys c' = keys c"
proof (cases "malloc_ok \<and> \<not> stopping c")
  case False
  with assms show ?thesis
    by (auto simp: dcc_rest_async_requeue_retry_def split: if_splits)
next
  case True
  obtain c1 rq1 where fin: "dcc_rest_async_finish_active_locked c rq = (c1, rq1)"
    by (cases "dcc_rest_async_finish_active_locked c rq")
  obtain r rq2 where rr: "dcc_rest_resource_requeue (resources c1) rq1 = (r, rq2)"
    by (cases "dcc_rest_resource_requeue (resources c1) rq1")
  define rq3 where "rq3 = rq2\<lparr>not_before_ms := t, callback_called := False\<rparr>"
  note f = finish_inv [OF assms(1,2) fin]
  have k: "key rq3 = key rq"
    using requeue_request [OF rr] f by (auto simp: rq3_def)
  have "keys_ok (add_mset (key rq) (keys c1))"
    using f assms(1) by (simp add: sched_inv_def)
  note kd = keys_okD [OF this [folded k, unfolded key_def]]
  have c1r: "sched_inv (c1\<lparr>resources := r\<rparr>)" "keys (c1\<lparr>resources := r\<rparr>) = keys c1"
    using f by (auto intro: sched_inv_cong)
  have "req_id rq3 \<notin># image_mset fst (keys (c1\<lparr>resources := r\<rparr>))" "priority rq3 < DCC_REST_PRIORITY_LEVELS"
    using kd(3,4) c1r(2) by (simp_all add: DCC_REST_PRIORITY_LEVELS_def)
  note p = push_tail_inv [OF c1r(1) this kd(2)]
  have "c' = snd (dcc_rest_async_drain_locked clock ok (dcc_rest_async_push_tail_locked (c1\<lparr>resources := r\<rparr>) rq3))"
    using assms(3) True fin rr by (simp add: dcc_rest_async_requeue_retry_def rq3_def)
  then have dr: "dcc_rest_async_drain_locked clock ok (dcc_rest_async_push_tail_locked (c1\<lparr>resources := r\<rparr>) rq3)
      = (fst (dcc_rest_async_drain_locked clock ok (dcc_rest_async_push_tail_locked (c1\<lparr>resources := r\<rparr>) rq3)), c')"
    by simp
  show ?thesis
    using drain_locked_inv [OF p(1) dr] drain_locked_keys [OF p(1) dr] p(2) c1r(2) k f by simp
qed

lemma complete_inv:
  assumes "sched_inv c" "rq \<in> set (rest_async_active_head c)"
    and "dcc_rest_async_complete clock1 ok1 clock2 ok2 c rq = (dropped, c')"
  shows "sched_inv c' \<and> keys c = add_mset (key rq) (image_mset key (mset dropped) + keys c')"
proof -
  obtain c1 rq1 where fin: "dcc_rest_async_finish_active_locked c rq = (c1, rq1)"
    by (cases "dcc_rest_async_finish_active_locked c rq")
  note f = finish_inv [OF assms(1,2) fin]
  show ?thesis
  proof (cases "stopping c1")
    case True
    then have det: "dcc_rest_async_detach_pending_all_locked c1 = (dropped, c')"
      using assms(3) fin by (simp add: dcc_rest_async_complete_def)
    have "rest_async_active_head c' = rest_async_active_head c1"
      using det by (auto simp: dcc_rest_async_detach_pending_all_locked_def)
    then show ?thesis
      using detach_inv [OF _ det] f by (simp add: keys_def)
  next
    case False
    obtain s c2 where d1: "dcc_rest_async_drain_locked clock1 ok1 c1 = (s, c2)"
      by (cases "dcc_rest_async_drain_locked clock1 ok1 c1")
    obtain s' c3 where d2: "dcc_rest_async_drain_locked clock2 ok2 c2 = (s', c3)"
      by (cases "dcc_rest_async_drain_locked clock2 ok2 c2")
    have i1: "sched_inv c2" "keys c2 = keys c1"
      using f drain_locked_inv [OF _ d1] drain_locked_keys [OF _ d1] by auto
    have i2: "sched_inv c3" "keys c3 = keys c1"
      using i1 drain_locked_inv [OF _ d2] drain_locked_keys [OF _ d2] by auto
    have "dropped = []" "c' = c2 \<or> c' = c3"
      using assms(3) fin False d1 d2 by (auto simp: dcc_rest_async_complete_def split: if_splits)
    with i1 i2 f show ?thesis by auto
  qed
qed

lemma request_cancel_fields [simp]:
  "key (snd (dcc_rest_async_request_cancel r)) = key r"
  "route_claimed (snd (dcc_rest_async_request_cancel r)) = route_claimed r"
  by (simp_all add: dcc_rest_async_request_cancel_def)

lemma cancel_active_inv:
  assumes "sched_inv c"
  shows "sched_inv (snd (dcc_rest_async_cancel_active_locked c))"
  by (rule map_requests_inv [where f = "\<lambda>r. snd (dcc_rest_async_request_cancel r)" and g = "\<lambda>r. r", OF assms, THEN conjunct1])
    (simp_all add: dcc_rest_async_cancel_active_locked_def)

lemma cancel_one_inv:
  assumes "sched_inv c"
  shows "sched_inv (cancel_one i c)"
  by (rule map_requests_inv [where f = "\<lambda>r. if req_id r = i then snd (dcc_rest_async_request_cancel r) else r"
          and g = "\<lambda>r. if req_id r = i then snd (dcc_rest_async_request_cancel r) else r",
        OF assms, THEN conjunct1])
    (simp_all add: cancel_one_def Let_def)

lemma sched_step_inv [dcc_inv]:
  assumes "sched_step c c'" "sched_inv c"
  shows "sched_inv c'"
  using assms
proof (induction rule: sched_step.induct)
  case (submit rq c clock spawn_ok s c')
  then show ?case using submit_inv by blast
next
  case (complete rq c clock1 spawn1 clock2 spawn2 dropped c')
  then show ?case
    by (intro free_inv cancel_pending_list_inv) (use complete_inv in blast)
next
  case (retry rq c malloc_ok clock spawn_ok not_before ret c')
  then show ?case using requeue_retry_inv by blast
next
  case (drain clock spawn_ok c s c')
  then show ?case using drain_locked_inv by blast
next
  case (cancel c i)
  then show ?case by (rule cancel_one_inv)
next
  case (cancel_active c)
  then show ?case by (simp add: dcc_rest_async_cancel_active_def cancel_active_inv)
next
  case (cancel_pending c)
  then show ?case
    using detach_inv [of c] cancel_pending_list_inv
    by (auto simp: dcc_rest_async_cancel_pending_def split: prod.splits)
next
  case (cancel_all c)
  obtain n c1 where "dcc_rest_async_cancel_active_locked c = (n, c1)"
    by (cases "dcc_rest_async_cancel_active_locked c")
  moreover from this have "sched_inv c1"
    using cancel_active_inv [OF cancel_all] by simp
  moreover obtain rs c2 where "dcc_rest_async_detach_pending_all_locked c1 = (rs, c2)"
    by (cases "dcc_rest_async_detach_pending_all_locked c1")
  ultimately show ?case
    using detach_inv [of c1 rs c2] cancel_pending_list_inv [of c2 rs]
    by (auto simp: dcc_rest_async_cancel_all_def split: prod.splits)
qed (auto intro: sched_inv_cong)

definition sched_start :: "rest_async \<Rightarrow> bool" where
  "sched_start c \<longleftrightarrow> (\<forall>p. rest_async_heads c p = []) \<and> rest_async_active_head c = []
     \<and> rest_async_active_routes c = [] \<and> rest_async_active c = 0"

lemma sched_start_inv: "sched_start c \<Longrightarrow> sched_inv c"
  by (simp add: sched_start_def sched_inv_def queues_ok_def keys_ok_def keys_def pending_def active_ok_def
      claimed_routes_def)

interpretation sched: transition_system sched_start sched_step sched_inv
  by unfold_locales (erule sched_start_inv, erule (1) sched_step_inv [rotated])

section \<open>Properties\<close>

text \<open>
  C1. Mutual exclusion and the concurrency limit of the REST scheduler: whatever requests are
  submitted, completed, retried or canceled, in whatever order and with whatever spawn failures,
  the number of active requests is counted exactly and never exceeds the configured concurrency (at
  most 128), and no two active requests have claimed the same route.
\<close>

theorem scheduler_exclusive:
  assumes "sched_start c0" "sched_step\<^sup>*\<^sup>* c0 c"
  shows "length (rest_async_active_head c) = rest_async_active c
     \<and> rest_async_active c \<le> dcc_rest_async_concurrency c \<and> dcc_rest_async_concurrency c \<le> 128
     \<and> distinct (claimed_routes (rest_async_active_head c))
     \<and> set (claimed_routes (rest_async_active_head c)) = set (rest_async_active_routes c)"
proof -
  have "active_ok c"
    using sched.reachable_inv [OF assms] by (simp add: sched_inv_def)
  moreover from this have "mset (claimed_routes (rest_async_active_head c)) = mset (rest_async_active_routes c)"
    by (simp add: active_ok_def)
  note mset_eq_imp_distinct_iff [OF this] mset_eq_setD [OF this]
  ultimately show ?thesis
    using concurrency_bounds(2) [of c] by (simp add: active_ok_def DCC_REST_BUCKET_CAP_def)
qed

definition idle_client :: rest_async where
  "idle_client =
     \<lparr>limits = empty_limits, resources = sample_limits, rest_async_heads = (\<lambda>p. []),
      rest_async_active_head = [], rest_async_active_routes = [], rest_async_active = 0,
      rest_concurrency = 4, runtime_initialized = True, stopping = False\<rparr>"

definition sample_async :: request where
  "sample_async =
     \<lparr>resource_charge = 3, resource_state = Queued, resource_count_completion = True, cancel_requested = False,
      req_id = 1, priority = 1, request_route = ''GET /guilds/1'', retry_attempt = 0, not_before_ms = 0,
      route_claimed = False, callback_called = False\<rparr>"

lemma idle_client_start: "sched_start idle_client"
  by (simp add: sched_start_def idle_client_def)

lemma idle_client_submit:
  "sched_step idle_client (snd (submit_enqueue (\<lambda>_. 5) (\<lambda>_. True) idle_client sample_async))"
  by (rule submit [where rq = sample_async and s = "fst (submit_enqueue (\<lambda>_. 5) (\<lambda>_. True) idle_client sample_async)"])
    (simp_all add: sample_async_def keys_def pending_def idle_client_def DCC_REST_PRIORITY_LEVELS_def
      DCC_REST_ROUTE_KEY_CAP_def)

theorem scheduler_exclusive_witness:
  "distinct (claimed_routes (rest_async_active_head
     (snd (submit_enqueue (\<lambda>_. 5) (\<lambda>_. True) idle_client sample_async))))"
  using scheduler_exclusive [OF idle_client_start r_into_rtranclp, OF idle_client_submit] by blast

text \<open>
  C11. No request is lost or duplicated: a drain only moves requests between the queues and the
  active list, a retry puts its request back, and a completion takes out exactly the completed
  request and, when the client is stopping, the pending ones it hands over for cancellation.
\<close>

theorem scheduler_conserves_requests:
  assumes "sched_start c0" "sched_step\<^sup>*\<^sup>* c0 c" "rq \<in> set (rest_async_active_head c)"
  shows "keys (snd (dcc_rest_async_drain_locked clock ok c)) = keys c
     \<and> keys (snd (dcc_rest_async_requeue_retry malloc_ok clock ok c rq t)) = keys c
     \<and> keys c = add_mset (key rq)
         (image_mset key (mset (fst (dcc_rest_async_complete clock ok clock2 ok2 c rq)))
          + keys (snd (dcc_rest_async_complete clock ok clock2 ok2 c rq)))"
proof -
  have inv: "sched_inv c"
    by (rule sched.reachable_inv [OF assms(1,2)])
  show ?thesis
    using drain_locked_keys [OF inv surjective_pairing] requeue_retry_inv [OF inv assms(3) surjective_pairing]
      complete_inv [OF inv assms(3) surjective_pairing] by blast
qed

definition busy_client :: rest_async where
  "busy_client = snd (submit_enqueue (\<lambda>_. 5) (\<lambda>_. True) idle_client sample_async)"

lemma empty_wait: "dcc_rest_async_request_wait_ms_locked empty_limits sample_async 5 True = (0, empty_limits)"
proof -
  have none: "fst (dcc_rest_find_bucket_locked (rest_buckets empty_limits) (request_route sample_async) False) = None"
    using find_bucket_lookup(2) [OF empty_limits_inv, of "request_route sample_async"]
    by (simp add: empty_limits_def empty_bucket_def)
  show ?thesis
    by (simp add: dcc_rest_async_request_wait_ms_locked_def dcc_rest_route_wait_ms_locked_def none Let_def)
      (simp add: empty_limits_def sample_async_def)
qed

lemma busy_client_active:
  "rest_async_active_head busy_client = [sample_async\<lparr>resource_state := Active, route_claimed := True\<rparr>]"
proof -
  let ?c = "dcc_rest_async_push_tail_locked idle_client sample_async"
  have room: "\<not> stopping ?c \<and> rest_async_active ?c < dcc_rest_async_concurrency ?c"
    by (simp add: dcc_rest_async_push_tail_locked_def idle_client_def dcc_rest_async_concurrency_def
        DCC_REST_BUCKET_CAP_def Let_def)
  have take: "dcc_rest_async_take_next_locked ?c 5 =
      (Some (sample_async, \<lparr>pos_priority = 1, pos_index = 0\<rparr>), idle_client)"
    using empty_wait
    by (simp add: dcc_rest_async_take_next_locked_def take_scan.simps DCC_REST_PRIORITY_HIGH_def
        DCC_REST_PRIORITY_NORMAL_def DCC_REST_PRIORITY_LOW_def dcc_rest_async_push_tail_locked_def idle_client_def
        dcc_rest_async_route_active_locked_def remove_nth_def fun_upd_idem)
      (simp add: sample_async_def fun_eq_iff)
  have c2: "\<exists>c2. drain_dispatch (Some 1) True idle_client sample_async \<lparr>pos_priority = 1, pos_index = 0\<rparr> = (Inr (), c2)
      \<and> rest_async_active_head c2 = [sample_async\<lparr>resource_state := Active, route_claimed := True\<rparr>]
      \<and> (\<forall>p. rest_async_heads c2 p = [])"
    by (simp add: drain_dispatch_def drain_claim_def drain_start_def dcc_rest_async_push_active_locked_def
        dcc_rest_async_mark_route_active_locked_def dcc_rest_async_route_active_locked_def idle_client_def
        sample_async_def dcc_rest_resource_activate_def sample_limits_def zero_stats_def leave_queue_def Let_def
        DCC_REST_BUCKET_CAP_def)
  then obtain c2 where c2: "drain_dispatch (Some 1) True idle_client sample_async \<lparr>pos_priority = 1, pos_index = 0\<rparr> = (Inr (), c2)"
      "rest_async_active_head c2 = [sample_async\<lparr>resource_state := Active, route_claimed := True\<rparr>]"
      "\<forall>p. rest_async_heads c2 p = []"
    by blast
  have rest: "rest_async_active_head (snd (drain_loop (Some 1) (\<lambda>_. 5) (\<lambda>_. True) (Suc 0) c2)) = rest_async_active_head c2
      \<and> snd (fst (drain_loop (Some 1) (\<lambda>_. 5) (\<lambda>_. True) (Suc 0) c2)) = None"
    by (subst (1 2) drain_loop.simps) (auto simp: dcc_rest_async_take_next_locked_def take_scan.simps c2(3))
  have "drain_loop (Some 1) (\<lambda>_. 5) (\<lambda>_. True) 0 ?c = drain_loop (Some 1) (\<lambda>_. 5) (\<lambda>_. True) (Suc 0) c2"
    by (subst drain_loop.simps) (simp add: room take c2(1) [simplified])
  moreover have "runtime_initialized ?c" "req_id sample_async = 1"
    by (simp_all add: dcc_rest_async_push_tail_locked_def idle_client_def sample_async_def)
  ultimately show ?thesis
    using rest c2(2)
    by (auto simp: busy_client_def submit_enqueue_def dcc_rest_async_drain_impl_locked_def split: prod.splits option.splits)
qed

theorem scheduler_conserves_requests_witness:
  "keys (snd (dcc_rest_async_requeue_retry True (\<lambda>_. 9) (\<lambda>_. False) busy_client
      (sample_async\<lparr>resource_state := Active, route_claimed := True\<rparr>) 20)) = keys busy_client"
  using scheduler_conserves_requests [OF idle_client_start r_into_rtranclp, OF idle_client_submit [folded busy_client_def],
      of "sample_async\<lparr>resource_state := Active, route_claimed := True\<rparr>" "\<lambda>_. 9" "\<lambda>_. False" True 20]
  by (simp add: busy_client_active)

text \<open>
  C23. The order of dispatch: the request a drain takes next is eligible (canceled, or its route is
  not active, its rate limits allow it now and its retry time has come), every request of a higher
  priority and every earlier one of the same priority is not, and if nothing is taken, no pending
  request is eligible.
\<close>

theorem scheduler_takes_first_eligible:
  assumes "limits_inv (limits c)" "dcc_rest_async_take_next_locked c now = (taken, c')"
  shows "(case taken of
          None \<Rightarrow> \<forall>p < 3. \<forall>rq \<in> set (rest_async_heads c p). \<not> eligible c now rq
        | Some (rq, pos) \<Rightarrow> eligible c now rq \<and> rest_async_heads c (pos_priority pos) ! pos_index pos = rq
            \<and> (\<forall>rq' \<in> set (take (pos_index pos) (rest_async_heads c (pos_priority pos))). \<not> eligible c now rq')
            \<and> (\<forall>p. pos_priority pos < p \<and> p < 3 \<longrightarrow> (\<forall>rq' \<in> set (rest_async_heads c p). \<not> eligible c now rq')))
     \<and> limits_inv (limits c')"
  using take_next_first [OF assms] by blast

theorem scheduler_takes_first_eligible_witness:
  "\<not> eligible (idle_client\<lparr>limits := empty_limits\<lparr>rest_global_reset_at_ms := 70\<rparr>,
       rest_async_heads := (\<lambda>p. if p = 2 then [sample_async\<lparr>priority := 2\<rparr>] else [])\<rparr>) 50 (sample_async\<lparr>priority := 2\<rparr>)"
proof -
  let ?c = "idle_client\<lparr>limits := empty_limits\<lparr>rest_global_reset_at_ms := 70\<rparr>,
       rest_async_heads := (\<lambda>p. if p = 2 then [sample_async\<lparr>priority := 2\<rparr>] else [])\<rparr>"
  have inv: "limits_inv (limits ?c)"
    by (simp add: empty_limits_global_inv)
  obtain taken c' where run: "dcc_rest_async_take_next_locked ?c 50 = (taken, c')"
    by (cases "dcc_rest_async_take_next_locked ?c 50")
  have "\<not> eligible ?c 50 (sample_async\<lparr>priority := 2\<rparr>)"
    by (simp add: eligible_def spec_wait_empty) (simp add: sample_async_def)
  then have "taken = None"
    using take_next_Some [of ?c 50 _ _ c'] run take_next_first [OF inv run]
    by (cases taken) (auto split: if_splits)
  with scheduler_takes_first_eligible [OF inv run] show ?thesis
    by (auto dest: spec [of _ 2])
qed

end
