(* ===== verification/DCC_Net.thy ===== *)
theory DCC_Net
  imports DCC_Prelude
begin

text \<open>
  The connection layer, \<^verbatim>\<open>src/net/dcc_conn.c\<close>, \<^verbatim>\<open>dcc_conn_io.c\<close> and \<^verbatim>\<open>dcc_conn_tls.c\<close>.

  The socket calls (\<open>llam_read_when_ready\<close>, \<open>llam_write\<close>) and OpenSSL are outside the repository.
  What they answer is an input of the model: a connection carries the answers of its transport to
  the coming read calls and to the coming write calls, in order. One answer to a read holds bytes
  that have arrived (a call takes at most as many as its buffer holds and the rest stays), or an error
  with what \<open>SSL_get_error\<close> and the poll that may follow it report. A transport with no
  answer left is one that times out: the call fails. The theorems quantify over all answers, so
  over every way the network can cut and delay the bytes.
\<close>

section \<open>Connections\<close>

datatype ssl_error = SSL_ERROR_WANT_READ | SSL_ERROR_WANT_WRITE | SSL_ERROR_ZERO_RETURN | SSL_ERROR_OTHER

datatype 'b read_event = Read_bytes "'b list" | Read_error ssl_error "u16 option"

datatype write_event = Wrote nat | Write_error ssl_error "u16 option"

record 'b dcc_conn =
  conn_fd :: "int option"
  conn_use_tls :: bool
  conn_timeout_ms :: int
  conn_ssl :: bool
  conn_reads :: "'b read_event list"
  conn_writes :: "write_event list"
  conn_sent :: "'b list"

record dcc_conn_options =
  opt_host :: "string option"
  opt_port :: "string option"
  opt_use_tls :: bool
  opt_timeout_ms :: int

definition INT32_MAX :: nat where
  "INT32_MAX = 2 ^ 31 - 1"

text \<open>\<open>dcc_conn_wait_ssl\<close> returns 0 (here \<open>True\<close>) when the transport has become ready; the poll
  result is \<open>None\<close> when the poll itself failed.\<close>

definition POLLIN :: u16 where "POLLIN = 0x0001"
definition POLLOUT :: u16 where "POLLOUT = 0x0004"

definition poll_ready :: "u16 \<Rightarrow> u16 option \<Rightarrow> bool" where
  "poll_ready events poll = (case poll of None \<Rightarrow> False | Some revents \<Rightarrow> revents AND events \<noteq> 0)"

definition dcc_conn_wait_ssl :: "ssl_error \<Rightarrow> u16 option \<Rightarrow> bool" where
  "dcc_conn_wait_ssl e poll =
     (if e = SSL_ERROR_WANT_READ then poll_ready POLLIN poll
      else if e = SSL_ERROR_WANT_WRITE then poll_ready POLLOUT poll
      else False)"

text \<open>Opening: the outcomes of the TCP connect (the descriptor, or \<open>None\<close>), of switching the descriptor to
  non-blocking mode and of the TLS handshake are arguments. The transport answers are those of the
  connection that is opened.\<close>

definition dcc_conn_close :: "'b dcc_conn \<Rightarrow> 'b dcc_conn" where
  "dcc_conn_close c = c\<lparr>conn_fd := None, conn_ssl := False\<rparr>"

definition dcc_conn_open ::
  "int option \<Rightarrow> bool \<Rightarrow> bool \<Rightarrow> 'b read_event list \<Rightarrow> write_event list \<Rightarrow> dcc_conn_options \<Rightarrow> dcc_status \<times> 'b dcc_conn option" where
  "dcc_conn_open tcp nonblocking tls reads writes options =
     (if opt_host options = None \<or> opt_port options = None then (DCC_ERR_INVALID_ARG, None)
      else
        let conn = \<lparr>conn_fd = None, conn_use_tls = opt_use_tls options,
                    conn_timeout_ms = (if opt_timeout_ms options > 0 then opt_timeout_ms options else 30000),
                    conn_ssl = False, conn_reads = reads, conn_writes = writes, conn_sent = []\<rparr> in
        case tcp of
          None \<Rightarrow> (DCC_ERR_NETWORK, Some conn)
        | Some fd \<Rightarrow>
            let conn = conn\<lparr>conn_fd := Some fd\<rparr> in
            if \<not> conn_use_tls conn then (DCC_OK, Some conn)
            else if \<not> nonblocking then (DCC_ERR_NETWORK, Some (dcc_conn_close conn))
            else if tls then (DCC_OK, Some (conn\<lparr>conn_ssl := True\<rparr>))
            else (DCC_ERR_TLS, Some (dcc_conn_close conn)))"

section \<open>Reading\<close>

text \<open>One read call: \<open>None\<close> is the result \<open>-1\<close>, \<open>Some []\<close> the result 0.\<close>

fun read_tls :: "nat \<Rightarrow> 'b read_event list \<Rightarrow> 'b list option \<times> 'b read_event list" where
  "read_tls len [] = (None, [])"
| "read_tls len (Read_bytes bs # es) =
     (let n = min len INT32_MAX in
      (Some (take n bs), if n < length bs then Read_bytes (drop n bs) # es else es))"
| "read_tls len (Read_error e poll # es) =
     (if e = SSL_ERROR_ZERO_RETURN then (Some [], es)
      else if dcc_conn_wait_ssl e poll then read_tls len es
      else (None, es))"

fun read_plain :: "nat \<Rightarrow> 'b read_event list \<Rightarrow> 'b list option \<times> 'b read_event list" where
  "read_plain len [] = (None, [])"
| "read_plain len (Read_bytes bs # es) =
     (Some (take len bs), if len < length bs then Read_bytes (drop len bs) # es else es)"
| "read_plain len (Read_error e poll # es) = (None, es)"

definition dcc_conn_read :: "'b dcc_conn \<Rightarrow> nat \<Rightarrow> 'b list option \<times> 'b dcc_conn" where
  "dcc_conn_read conn len =
     (let (r, es) = (if conn_use_tls conn then read_tls len (conn_reads conn) else read_plain len (conn_reads conn)) in
      (r, conn\<lparr>conn_reads := es\<rparr>))"

section \<open>Writing\<close>

text \<open>The write loop; the answers that are left and what has been written are returned with the outcome.\<close>

fun write_all :: "bool \<Rightarrow> 'b list \<Rightarrow> 'b list \<Rightarrow> write_event list \<Rightarrow> bool \<times> 'b list \<times> write_event list" where
  "write_all tls sent [] es = (True, sent, es)"
| "write_all tls sent (b # bs) [] = (False, sent, [])"
| "write_all tls sent (b # bs) (Wrote n # es) =
     (let remaining = length (b # bs);
          written = min n (if tls \<and> remaining > INT32_MAX then INT32_MAX else remaining) in
      if written = 0 then (False, sent, es)
      else write_all tls (sent @ take written (b # bs)) (drop written (b # bs)) es)"
| "write_all tls sent (b # bs) (Write_error e poll # es) =
     (if tls \<and> dcc_conn_wait_ssl e poll then write_all tls sent (b # bs) es else (False, sent, es))"

definition dcc_conn_write_all :: "'b dcc_conn \<Rightarrow> 'b list \<Rightarrow> bool \<times> 'b dcc_conn" where
  "dcc_conn_write_all conn data =
     (let (ok, sent, es) = write_all (conn_use_tls conn) (conn_sent conn) data (conn_writes conn) in
      (ok, conn\<lparr>conn_writes := es, conn_sent := sent\<rparr>))"

section \<open>The byte stream of a connection\<close>

text \<open>The bytes that reads can still obtain before the end of the stream or an error, however they are cut.\<close>

fun stream_of :: "bool \<Rightarrow> 'b read_event list \<Rightarrow> 'b list" where
  "stream_of tls [] = []"
| "stream_of tls (Read_bytes bs # es) = (if bs = [] then [] else bs @ stream_of tls es)"
| "stream_of tls (Read_error e poll # es) =
     (if tls \<and> e \<noteq> SSL_ERROR_ZERO_RETURN \<and> dcc_conn_wait_ssl e poll then stream_of tls es else [])"

abbreviation incoming :: "'b dcc_conn \<Rightarrow> 'b list" where
  "incoming c \<equiv> stream_of (conn_use_tls c) (conn_reads c)"

lemma INT32_MAX_pos [simp]: "0 < INT32_MAX"
  by (simp add: INT32_MAX_def)

lemma read_tls_stream:
  assumes "0 < len" "read_tls len es = (r, es')"
  shows "case r of
      None \<Rightarrow> stream_of True es = []
    | Some bs \<Rightarrow> length bs \<le> len \<and>
        (if bs = [] then stream_of True es = [] else stream_of True es = bs @ stream_of True es')"
  using assms
proof (induction len es arbitrary: r es' rule: read_tls.induct)
  case (3 len e poll es)
  show ?case
  proof (cases "e \<noteq> SSL_ERROR_ZERO_RETURN \<and> dcc_conn_wait_ssl e poll")
    case True
    then have "stream_of True (Read_error e poll # es) = stream_of True es" "read_tls len es = (r, es')"
      using 3(3) by auto
    moreover have "e \<noteq> SSL_ERROR_ZERO_RETURN" "dcc_conn_wait_ssl e poll" using True by auto
    ultimately show ?thesis
      using 3(1) [of r es'] 3(2) by (cases r) simp_all
  next
    case False
    then show ?thesis using 3(3) by (auto split: if_splits)
  qed
qed (auto simp: Let_def min.coboundedI1 min.coboundedI2 not_less split: if_splits)

lemma read_plain_stream:
  assumes "0 < len" "read_plain len es = (r, es')"
  shows "case r of
      None \<Rightarrow> stream_of False es = []
    | Some bs \<Rightarrow> length bs \<le> len \<and>
        (if bs = [] then stream_of False es = [] else stream_of False es = bs @ stream_of False es')"
  using assms by (cases "(len, es)" rule: read_plain.cases) (auto split: if_splits)

lemma conn_read_stream:
  assumes "0 < len" "dcc_conn_read c len = (r, c')"
  shows "(case r of
      None \<Rightarrow> incoming c = []
    | Some bs \<Rightarrow> length bs \<le> len \<and> (if bs = [] then incoming c = [] else incoming c = bs @ incoming c'))
    \<and> c' = c\<lparr>conn_reads := conn_reads c'\<rparr>"
proof (cases "conn_use_tls c")
  case True
  obtain es where "read_tls len (conn_reads c) = (r, es)" "c' = c\<lparr>conn_reads := es\<rparr>"
    using assms True by (auto simp: dcc_conn_read_def split: prod.splits)
  with read_tls_stream [OF assms(1), of "conn_reads c" r es] True show ?thesis
    by (simp split: option.splits)
next
  case False
  obtain es where "read_plain len (conn_reads c) = (r, es)" "c' = c\<lparr>conn_reads := es\<rparr>"
    using assms False by (auto simp: dcc_conn_read_def split: prod.splits)
  with read_plain_stream [OF assms(1), of "conn_reads c" r es] False show ?thesis
    by (simp split: option.splits)
qed

lemma write_all_prefix:
  "write_all tls sent bs es = (ok, sent', es')
   \<Longrightarrow> \<exists>n. sent' = sent @ take n bs \<and> n \<le> length bs \<and> (ok \<longrightarrow> n = length bs)"
proof (induction tls sent bs es arbitrary: sent' rule: write_all.induct)
  case (3 tls sent b bs n es)
  define w where "w = min n (if tls \<and> length (b # bs) > INT32_MAX then INT32_MAX else length (b # bs))"
  have eq: "write_all tls sent (b # bs) (Wrote n # es) =
      (if w = 0 then (False, sent, es) else write_all tls (sent @ take w (b # bs)) (drop w (b # bs)) es)"
    by (simp only: write_all.simps Let_def w_def)
  show ?case
  proof (cases "w = 0")
    case True
    then have "sent' = sent @ take 0 (b # bs) \<and> \<not> ok"
      using 3(2) unfolding eq by simp
    then show ?thesis by (intro exI [of _ 0]) simp
  next
    case False
    then have step: "write_all tls (sent @ take w (b # bs)) (drop w (b # bs)) es = (ok, sent', es')"
      using 3(2) unfolding eq by simp
    have IH: "\<exists>n. sent' = (sent @ take w (b # bs)) @ take n (drop w (b # bs)) \<and> n \<le> length (drop w (b # bs))
        \<and> (ok \<longrightarrow> n = length (drop w (b # bs)))"
      using 3(1) [OF refl w_def False step] .
    then obtain n where n: "sent' = (sent @ take w (b # bs)) @ take n (drop w (b # bs))"
      "n \<le> length (drop w (b # bs))" "ok \<longrightarrow> n = length (drop w (b # bs))" by blast
    have "w \<le> length (b # bs)" by (auto simp: w_def)
    with n have "sent' = sent @ take (w + n) (b # bs) \<and> w + n \<le> length (b # bs) \<and> (ok \<longrightarrow> w + n = length (b # bs))"
      by (auto simp: take_add)
    then show ?thesis by blast
  qed
qed (auto split: if_splits)

lemma conn_write_all_sent:
  assumes "dcc_conn_write_all c data = (ok, c')"
  shows "(\<exists>n. conn_sent c' = conn_sent c @ take n data) \<and> (ok \<longrightarrow> conn_sent c' = conn_sent c @ data)
    \<and> conn_reads c' = conn_reads c \<and> conn_use_tls c' = conn_use_tls c \<and> conn_fd c' = conn_fd c"
proof -
  obtain sent es where "write_all (conn_use_tls c) (conn_sent c) data (conn_writes c) = (ok, sent, es)"
    "c' = c\<lparr>conn_writes := es, conn_sent := sent\<rparr>"
    using assms by (auto simp: dcc_conn_write_all_def split: prod.splits)
  with write_all_prefix [of "conn_use_tls c" "conn_sent c" data "conn_writes c" ok sent es] show ?thesis
    by auto
qed

lemma write_all_whole: "data \<noteq> [] \<Longrightarrow> length data \<le> n \<Longrightarrow> length data \<le> INT32_MAX \<Longrightarrow>
    write_all tls sent data (Wrote n # es) = (True, sent @ data, es)"
  by (cases data) (auto simp: Let_def)

end
