(* ===== verification/DCC_Ws.thy ===== *)
theory DCC_Ws
  imports DCC_Net
begin

text \<open>
  The WebSocket client, \<^verbatim>\<open>src/ws/dcc_ws.c\<close>, \<^verbatim>\<open>dcc_ws_io.c\<close>, \<^verbatim>\<open>dcc_ws_send.c\<close> and
  \<^verbatim>\<open>dcc_ws_recv.c\<close>: big-endian integers, buffered reads, frames sent and received, fragments
  reassembled, pings answered, the closing handshake and the reference count.

  A byte is a \<open>u8\<close>. An opcode is the low half of a header byte, so a \<open>u8\<close> too: the code casts
  it to its enum without a check. A payload pointer that is \<open>NULL\<close> stands for no bytes, which is how
  the code uses it. The environment of one frame (\<open>ws_env\<close>) holds what the allocator, OpenSSL's random generator and
  the tasks that contend for the send lock do. Freeing is modelled for the socket only.
\<close>

section \<open>State\<close>

definition DCC_WS_CONTINUATION :: u8 where "DCC_WS_CONTINUATION = 0"
definition DCC_WS_TEXT :: u8 where "DCC_WS_TEXT = 1"
definition DCC_WS_BINARY :: u8 where "DCC_WS_BINARY = 2"
definition DCC_WS_CLOSE :: u8 where "DCC_WS_CLOSE = 8"
definition DCC_WS_PING :: u8 where "DCC_WS_PING = 9"
definition DCC_WS_PONG :: u8 where "DCC_WS_PONG = 10"

lemmas ws_opcodes = DCC_WS_CONTINUATION_def DCC_WS_TEXT_def DCC_WS_BINARY_def DCC_WS_CLOSE_def
  DCC_WS_PING_def DCC_WS_PONG_def

definition DCC_WS_MAX_MESSAGE_BYTES :: nat where
  "DCC_WS_MAX_MESSAGE_BYTES = 16 * 1024 * 1024"

record dcc_ws_message =
  msg_opcode :: u8
  msg_data :: "u8 list"

record dcc_ws =
  ws_conn :: "u8 dcc_conn"
  ws_host :: string
  ws_path :: string
  rx_buf :: "u8 list"
  rx_pos :: nat
  close_code :: u16
  close_reason :: "u8 list"
  ref_count :: u32
  ws_open :: bool
  ws_freed :: bool

type_synonym ws_mask = "u8 \<times> u8 \<times> u8 \<times> u8"

record ws_env =
  env_spins :: "bool list"
  env_frame_alloc :: bool
  env_mask :: "ws_mask option"
  env_payload_alloc :: bool
  env_fragment_alloc :: bool

section \<open>Integers on the wire\<close>

definition dcc_ws_write_u16 :: "u16 \<Rightarrow> u8 list" where
  "dcc_ws_write_u16 v = [ucast (drop_bit 8 v AND 0xff), ucast (v AND 0xff)]"

definition dcc_ws_write_u64 :: "u64 \<Rightarrow> u8 list" where
  "dcc_ws_write_u64 v = map (\<lambda>i. ucast (drop_bit (i * 8) v AND 0xff)) [7, 6, 5, 4, 3, 2, 1, 0]"

definition dcc_ws_read_u16 :: "u8 list \<Rightarrow> u16" where
  "dcc_ws_read_u16 data = push_bit 8 (ucast (data ! 0)) OR ucast (data ! 1)"

definition dcc_ws_read_u64 :: "u8 list \<Rightarrow> u64" where
  "dcc_ws_read_u64 data = foldl (\<lambda>v i. push_bit 8 v OR ucast (data ! i)) 0 [0..<8]"

section \<open>Buffered reads\<close>

text \<open>The loop of \<open>dcc_ws_read_exact\<close> over the connection.\<close>

function read_remaining :: "u8 dcc_conn \<Rightarrow> nat \<Rightarrow> u8 list \<Rightarrow> u8 list option \<times> u8 dcc_conn" where
  "read_remaining conn remaining got =
     (if remaining = 0 then (Some got, conn)
      else case dcc_conn_read conn remaining of
        (None, conn') \<Rightarrow> (None, conn')
      | (Some [], conn') \<Rightarrow> (None, conn')
      | (Some (b # bs), conn') \<Rightarrow> read_remaining conn' (remaining - length (b # bs)) (got @ b # bs))"
  by pat_completeness auto
termination
  by (relation "measure (\<lambda>(conn, remaining, got). remaining)") auto

declare read_remaining.simps [simp del]

definition dcc_ws_read_exact :: "dcc_ws \<Rightarrow> nat \<Rightarrow> u8 list option \<times> dcc_ws" where
  "dcc_ws_read_exact ws len =
     (let (got, ws) =
        (if rx_pos ws < length (rx_buf ws) then
           let available = length (rx_buf ws) - rx_pos ws;
               taken = (if available < len then available else len);
               got = take taken (drop (rx_pos ws) (rx_buf ws));
               pos = rx_pos ws + taken in
           (got, if pos = length (rx_buf ws) then ws\<lparr>rx_buf := [], rx_pos := 0\<rparr> else ws\<lparr>rx_pos := pos\<rparr>)
         else ([], ws));
          (r, conn) = read_remaining (ws_conn ws) (len - length got) got in
      (r, ws\<lparr>ws_conn := conn\<rparr>))"

section \<open>Lifecycle\<close>

definition UINT_MAX :: u32 where
  "UINT_MAX = - 1"

definition dcc_ws_retain :: "dcc_ws \<Rightarrow> dcc_status \<times> dcc_ws" where
  "dcc_ws_retain ws =
     (if ref_count ws = 0 \<or> ref_count ws = UINT_MAX then (DCC_ERR_STATE, ws)
      else (DCC_OK, ws\<lparr>ref_count := ref_count ws + 1\<rparr>))"

definition dcc_ws_destroy :: "dcc_ws \<Rightarrow> dcc_ws" where
  "dcc_ws_destroy ws =
     (let refs = ref_count ws; ws = ws\<lparr>ref_count := refs - 1\<rparr> in
      if refs \<noteq> 1 then ws
      else ws\<lparr>ws_open := False, ws_conn := dcc_conn_close (ws_conn ws), rx_buf := [], rx_pos := 0, ws_freed := True\<rparr>)"

definition dcc_ws_abort :: "dcc_ws \<Rightarrow> dcc_ws" where
  "dcc_ws_abort ws =
     (if ws_open ws then ws\<lparr>ws_open := False, ws_conn := dcc_conn_close (ws_conn ws)\<rparr> else ws)"

definition dcc_ws_set_timeout_ms :: "dcc_ws \<Rightarrow> int \<Rightarrow> dcc_ws" where
  "dcc_ws_set_timeout_ms ws timeout =
     (if timeout \<le> 0 then ws else ws\<lparr>ws_conn := (ws_conn ws)\<lparr>conn_timeout_ms := timeout\<rparr>\<rparr>)"

section \<open>Sending\<close>

definition mask_bytes :: "ws_mask \<Rightarrow> u8 list" where
  "mask_bytes m = (case m of (a, b, c, d) \<Rightarrow> [a, b, c, d])"

definition apply_mask :: "ws_mask \<Rightarrow> u8 list \<Rightarrow> u8 list" where
  "apply_mask m data = map (\<lambda>i. data ! i XOR mask_bytes m ! (i mod 4)) [0..<length data]"

definition UINT16_MAX :: nat where
  "UINT16_MAX = 65535"

definition frame_header_len :: "nat \<Rightarrow> nat" where
  "frame_header_len len = 2 + 4 + (if len > UINT16_MAX then 8 else if len \<ge> 126 then 2 else 0)"

definition build_frame :: "ws_mask \<Rightarrow> u8 \<Rightarrow> u8 list \<Rightarrow> u8 list" where
  "build_frame mkey opcode data =
     (let len = length data in
      (0x80 OR (opcode AND 0x0f)) #
      (if len < 126 then [0x80 OR of_nat len]
       else if len \<le> UINT16_MAX then (0x80 OR 126) # dcc_ws_write_u16 (of_nat len)
       else (0x80 OR 127) # dcc_ws_write_u64 (of_nat len)) @
      mask_bytes mkey @ apply_mask mkey data)"

text \<open>The send lock: the argument is the \<open>open\<close> flag as read after each failed attempt.\<close>

fun dcc_ws_send_lock :: "bool list \<Rightarrow> dcc_status" where
  "dcc_ws_send_lock [] = DCC_OK"
| "dcc_ws_send_lock (still_open # spins) =
     (if still_open then dcc_ws_send_lock spins else DCC_ERR_CANCELED)"

definition dcc_ws_send :: "ws_env \<Rightarrow> dcc_ws \<Rightarrow> u8 \<Rightarrow> u8 list \<Rightarrow> dcc_status \<times> dcc_ws" where
  "dcc_ws_send env ws opcode data =
     (let (retain_status, ws) = dcc_ws_retain ws in
      if retain_status \<noteq> DCC_OK then (retain_status, ws)
      else if \<not> ws_open ws then (DCC_ERR_INVALID_ARG, dcc_ws_destroy ws)
      else if length data > SIZE_MAX - frame_header_len (length data) then (DCC_ERR_NOMEM, dcc_ws_destroy ws)
      else if \<not> env_frame_alloc env then (DCC_ERR_NOMEM, dcc_ws_destroy ws)
      else case env_mask env of
        None \<Rightarrow> (DCC_ERR_TLS, dcc_ws_destroy ws)
      | Some mkey \<Rightarrow>
          let lock_status = dcc_ws_send_lock (env_spins env) in
          if lock_status \<noteq> DCC_OK then (lock_status, dcc_ws_destroy ws)
          else
            let (ok, conn) = (if ws_open ws then dcc_conn_write_all (ws_conn ws) (build_frame mkey opcode data)
                              else (False, ws_conn ws)) in
            (if ok then DCC_OK else DCC_ERR_NETWORK, dcc_ws_destroy (ws\<lparr>ws_conn := conn\<rparr>)))"

definition dcc_ws_send_text :: "ws_env \<Rightarrow> dcc_ws \<Rightarrow> u8 list \<Rightarrow> dcc_status \<times> dcc_ws" where
  "dcc_ws_send_text env ws data = dcc_ws_send env ws DCC_WS_TEXT data"

definition dcc_ws_close :: "ws_env \<Rightarrow> dcc_ws \<Rightarrow> u16 \<Rightarrow> u8 list \<Rightarrow> dcc_ws" where
  "dcc_ws_close env ws ccode reason =
     (if \<not> ws_open ws then ws
      else
        let reason_len = (if length reason > 128 - 2 then 128 - 2 else length reason);
            payload = dcc_ws_write_u16 ccode @ take reason_len reason;
            (_, ws) = dcc_ws_send env ws DCC_WS_CLOSE payload in
        ws\<lparr>ws_open := False\<rparr>)"

section \<open>Receiving\<close>

definition dcc_ws_append_fragment :: "bool \<Rightarrow> u8 list \<Rightarrow> u8 list \<Rightarrow> dcc_status \<times> u8 list" where
  "dcc_ws_append_fragment alloc buffer payload =
     (if length payload > DCC_WS_MAX_MESSAGE_BYTES
         \<or> length buffer > DCC_WS_MAX_MESSAGE_BYTES - length payload then (DCC_ERR_NETWORK, buffer)
      else if \<not> alloc then (DCC_ERR_NOMEM, buffer)
      else (DCC_OK, buffer @ payload))"

text \<open>The head of the receive loop: the header, the extended length, the checks, the mask and the payload.\<close>

definition recv_length :: "dcc_ws \<Rightarrow> u8 \<Rightarrow> u64 option \<times> dcc_ws" where
  "recv_length ws h =
     (let payload_len = h AND 0x7f in
      if payload_len = 126 then
        (case dcc_ws_read_exact ws 2 of (None, ws) \<Rightarrow> (None, ws) | (Some ext, ws) \<Rightarrow> (Some (ucast (dcc_ws_read_u16 ext)), ws))
      else if payload_len = 127 then
        (case dcc_ws_read_exact ws 8 of (None, ws) \<Rightarrow> (None, ws) | (Some ext, ws) \<Rightarrow> (Some (dcc_ws_read_u64 ext), ws))
      else (Some (ucast payload_len), ws))"

definition recv_payload :: "ws_env \<Rightarrow> dcc_ws \<Rightarrow> ws_mask option \<Rightarrow> nat \<Rightarrow> (dcc_status + u8 list) \<times> dcc_ws" where
  "recv_payload env ws mkey len =
     (if len = 0 then (Inr [], ws)
      else if \<not> env_payload_alloc env then (Inl DCC_ERR_NOMEM, ws)
      else case dcc_ws_read_exact ws len of
        (None, ws) \<Rightarrow> (Inl DCC_ERR_NETWORK, ws)
      | (Some payload, ws) \<Rightarrow> (Inr (case mkey of None \<Rightarrow> payload | Some m \<Rightarrow> apply_mask m payload), ws))"

definition recv_mask :: "dcc_ws \<Rightarrow> bool \<Rightarrow> ws_mask option option \<times> dcc_ws" where
  "recv_mask ws masked =
     (if \<not> masked then (Some None, ws)
      else case dcc_ws_read_exact ws 4 of
        (None, ws) \<Rightarrow> (None, ws)
      | (Some m, ws) \<Rightarrow> (Some (Some (m ! 0, m ! 1, m ! 2, m ! 3)), ws))"

type_synonym ws_frame = "bool \<times> u8 \<times> u8 list"

definition recv_frame :: "ws_env \<Rightarrow> dcc_ws \<Rightarrow> (dcc_status + ws_frame) \<times> dcc_ws" where
  "recv_frame env ws =
     (case dcc_ws_read_exact ws 2 of
        (None, ws) \<Rightarrow> (Inl DCC_ERR_NETWORK, ws)
      | (Some header, ws) \<Rightarrow>
          let fin = (header ! 0 AND 0x80 \<noteq> 0);
              opcode = header ! 0 AND 0x0f;
              masked = (header ! 1 AND 0x80 \<noteq> 0) in
          if header ! 0 AND 0x70 \<noteq> 0 then (Inl DCC_ERR_NETWORK, ws)
          else case recv_length ws (header ! 1) of
            (None, ws) \<Rightarrow> (Inl DCC_ERR_NETWORK, ws)
          | (Some payload_len, ws) \<Rightarrow>
              if unat payload_len > DCC_WS_MAX_MESSAGE_BYTES then (Inl DCC_ERR_NETWORK, ws)
              else if opcode \<ge> 8 \<and> (\<not> fin \<or> payload_len > 125) then (Inl DCC_ERR_NETWORK, ws)
              else case recv_mask ws masked of
                (None, ws) \<Rightarrow> (Inl DCC_ERR_NETWORK, ws)
              | (Some mkey, ws) \<Rightarrow>
                  (case recv_payload env ws mkey (unat payload_len) of
                     (Inl st, ws) \<Rightarrow> (Inl st, ws)
                   | (Inr payload, ws) \<Rightarrow> (Inr (fin, opcode, payload), ws)))"

text \<open>The rest of the loop body: return from \<open>dcc_ws_recv\<close>, or go on with the fragments so far.\<close>

datatype recv_next =
    Return dcc_status "dcc_ws_message option"
  | Continue "(u8 \<times> u8 list) option"

definition record_close :: "dcc_ws \<Rightarrow> u8 list \<Rightarrow> dcc_ws" where
  "record_close ws payload =
     (if length payload \<ge> 2 then
        let reason_len = (if length payload - 2 \<ge> 124 then 124 - 1 else length payload - 2) in
        ws\<lparr>close_code := dcc_ws_read_u16 payload, close_reason := take reason_len (drop 2 payload)\<rparr>
      else ws\<lparr>close_code := 1005, close_reason := []\<rparr>)"

definition recv_dispatch ::
  "ws_env \<Rightarrow> dcc_ws \<Rightarrow> (u8 \<times> u8 list) option \<Rightarrow> ws_frame \<Rightarrow> recv_next \<times> dcc_ws" where
  "recv_dispatch env ws frag frame =
     (case frame of (fin, opcode, payload) \<Rightarrow>
        if opcode = DCC_WS_PING then
          (case dcc_ws_send env ws DCC_WS_PONG payload of
             (st, ws) \<Rightarrow> if st \<noteq> DCC_OK then (Return st None, ws) else (Continue frag, ws))
        else if opcode = DCC_WS_PONG then (Continue frag, ws)
        else if opcode = DCC_WS_CLOSE then
          (case dcc_ws_send env (record_close ws payload) DCC_WS_CLOSE payload of
             (_, ws) \<Rightarrow> (Return DCC_ERR_CANCELED None, ws\<lparr>ws_open := False\<rparr>))
        else if opcode = DCC_WS_TEXT \<or> opcode = DCC_WS_BINARY then
          (if frag \<noteq> None then (Return DCC_ERR_NETWORK None, ws)
           else if fin then (Return DCC_OK (Some \<lparr>msg_opcode = opcode, msg_data = payload\<rparr>), ws)
           else case dcc_ws_append_fragment (env_fragment_alloc env) [] payload of
             (st, buf) \<Rightarrow> if st \<noteq> DCC_OK then (Return st None, ws) else (Continue (Some (opcode, buf)), ws))
        else if opcode = DCC_WS_CONTINUATION then
          (case frag of
             None \<Rightarrow> (Return DCC_ERR_NETWORK None, ws)
           | Some (fragment_opcode, fragment) \<Rightarrow>
               (case dcc_ws_append_fragment (env_fragment_alloc env) fragment payload of
                  (st, buf) \<Rightarrow>
                    if st \<noteq> DCC_OK then (Return st None, ws)
                    else if \<not> fin then (Continue (Some (fragment_opcode, buf)), ws)
                    else (Return DCC_OK (Some \<lparr>msg_opcode = fragment_opcode, msg_data = buf\<rparr>), ws)))
        else (Return DCC_ERR_NETWORK None, ws))"


section \<open>The bytes still to come\<close>

definition unread :: "dcc_ws \<Rightarrow> u8 list" where
  "unread ws = drop (rx_pos ws) (rx_buf ws) @ incoming (ws_conn ws)"

lemma read_remaining_stream:
  "read_remaining c n got = (r, c') \<Longrightarrow>
    c' = c\<lparr>conn_reads := conn_reads c'\<rparr> \<and>
    (if n \<le> length (incoming c)
     then r = Some (got @ take n (incoming c)) \<and> incoming c' = drop n (incoming c)
     else r = None)"
proof (induction c n got arbitrary: r c' rule: read_remaining.induct)
  case (1 c n got)
  show ?case
  proof (cases "n = 0")
    case True
    then show ?thesis using 1(2) by (simp add: read_remaining.simps)
  next
    case False
    obtain x c1 where rd: "dcc_conn_read c n = (x, c1)" by fastforce
    from False have "0 < n" by simp
    note st = conn_read_stream [OF this rd]
    show ?thesis
    proof (cases "x = None \<or> x = Some []")
      case True
      then have "r = None" "c' = c1"
        using 1(2) False rd by (auto simp: read_remaining.simps [of c n got])
      with True False st show ?thesis by auto
    next
      case False
      then obtain b bs where x: "x = Some (b # bs)" by (cases x; cases "the x") auto
      then have step: "read_remaining c1 (n - length (b # bs)) (got @ b # bs) = (r, c')"
        using 1(2) \<open>n \<noteq> 0\<close> rd by (simp add: read_remaining.simps [of c n got])
      have inc: "incoming c = (b # bs) @ incoming c1" "length (b # bs) \<le> n" "c1 = c\<lparr>conn_reads := conn_reads c1\<rparr>"
        using st x by auto
      have IH: "c' = c1\<lparr>conn_reads := conn_reads c'\<rparr>"
          "if n - length (b # bs) \<le> length (incoming c1)
           then r = Some ((got @ b # bs) @ take (n - length (b # bs)) (incoming c1))
             \<and> incoming c' = drop (n - length (b # bs)) (incoming c1)
           else r = None"
        using 1(1) [OF \<open>n \<noteq> 0\<close> rd [symmetric] x refl step] by blast+
      have le: "n \<le> length (incoming c) \<longleftrightarrow> n - length (b # bs) \<le> length (incoming c1)"
        using inc by auto
      have "take n (incoming c) = (b # bs) @ take (n - length (b # bs)) (incoming c1)"
        "drop n (incoming c) = drop (n - length (b # bs)) (incoming c1)"
        unfolding inc(1) using inc(2) by (simp_all add: take_Cons' drop_Cons' Suc_le_eq)
      moreover have "c' = c\<lparr>conn_reads := conn_reads c'\<rparr>"
        by (subst IH(1), subst inc(3)) simp
      ultimately show ?thesis
        using IH(2) unfolding le by (metis append_assoc)
    qed
  qed
qed

text \<open>\<open>dcc_ws_read_exact\<close> delivers the next bytes of the stream, however the buffer and the network cut them.\<close>

lemma read_exact_stream:
  assumes "dcc_ws_read_exact ws n = (r, ws')"
  shows "(if n \<le> length (unread ws) then r = Some (take n (unread ws)) \<and> unread ws' = drop n (unread ws) else r = None)
    \<and> (\<exists>b p es. ws' = ws\<lparr>rx_buf := b, rx_pos := p, ws_conn := (ws_conn ws)\<lparr>conn_reads := es\<rparr>\<rparr>)"
proof -
  define av where "av = drop (rx_pos ws) (rx_buf ws)"
  define got where "got = take n av"
  define ws1 where "ws1 = (if av = [] then ws else if length av \<le> n then ws\<lparr>rx_buf := [], rx_pos := 0\<rparr>
     else ws\<lparr>rx_pos := rx_pos ws + n\<rparr>)"
  obtain conn where rem: "read_remaining (ws_conn ws) (n - length got) got = (r, conn)"
    and ws': "ws' = ws1\<lparr>ws_conn := conn\<rparr>"
    using assms
    by (auto simp: dcc_ws_read_exact_def ws1_def got_def av_def Let_def min_def not_less split: prod.splits if_splits)
  have buf: "drop (rx_pos ws1) (rx_buf ws1) = drop n av"
    by (auto simp: ws1_def av_def add.commute)
  have conn: "conn = (ws_conn ws)\<lparr>conn_reads := conn_reads conn\<rparr>"
    and out: "if n - length got \<le> length (incoming (ws_conn ws))
       then r = Some (got @ take (n - length got) (incoming (ws_conn ws)))
         \<and> incoming conn = drop (n - length got) (incoming (ws_conn ws))
       else r = None"
    using read_remaining_stream [OF rem] by blast+
  have "\<exists>b p. ws1 = ws\<lparr>rx_buf := b, rx_pos := p\<rparr>"
    unfolding ws1_def by (metis dcc_ws.surjective dcc_ws.update_convs(4,5))
  then have "\<exists>b p es. ws' = ws\<lparr>rx_buf := b, rx_pos := p, ws_conn := (ws_conn ws)\<lparr>conn_reads := es\<rparr>\<rparr>"
    unfolding ws' by (metis conn)
  moreover have "unread ws' = drop n av @ incoming conn"
    unfolding ws' unread_def using buf by simp
  moreover have "unread ws = av @ incoming (ws_conn ws)"
    by (simp add: unread_def av_def)
  ultimately show ?thesis
    using out by (auto simp: got_def min_def split: if_splits)
qed


text \<open>What an operation that only reads leaves alone.\<close>

definition reads_only :: "dcc_ws \<Rightarrow> dcc_ws \<Rightarrow> bool" where
  "reads_only ws ws' \<longleftrightarrow>
     (\<exists>b p es. ws' = ws\<lparr>rx_buf := b, rx_pos := p, ws_conn := (ws_conn ws)\<lparr>conn_reads := es\<rparr>\<rparr>)
     \<and> length (unread ws') \<le> length (unread ws)"

lemma reads_only_refl [simp]: "reads_only ws ws"
proof -
  have "ws = ws\<lparr>rx_buf := rx_buf ws, rx_pos := rx_pos ws, ws_conn := (ws_conn ws)\<lparr>conn_reads := conn_reads (ws_conn ws)\<rparr>\<rparr>"
    by simp
  then show ?thesis unfolding reads_only_def by blast
qed

lemma reads_only_trans [trans]:
  assumes "reads_only a b" "reads_only b c"
  shows "reads_only a c"
proof -
  obtain x p es where 1: "b = a\<lparr>rx_buf := x, rx_pos := p, ws_conn := (ws_conn a)\<lparr>conn_reads := es\<rparr>\<rparr>"
    using assms(1) by (auto simp: reads_only_def)
  obtain y q fs where 2: "c = b\<lparr>rx_buf := y, rx_pos := q, ws_conn := (ws_conn b)\<lparr>conn_reads := fs\<rparr>\<rparr>"
    using assms(2) by (auto simp: reads_only_def)
  have "c = a\<lparr>rx_buf := y, rx_pos := q, ws_conn := (ws_conn a)\<lparr>conn_reads := fs\<rparr>\<rparr>"
    unfolding 2 1 by simp
  then show ?thesis using assms by (auto simp: reads_only_def)
qed

lemma read_exact_prefix:
  assumes "unread ws = a @ rest" "length a = n"
  obtains ws' where "dcc_ws_read_exact ws n = (Some a, ws')" "unread ws' = rest" "reads_only ws ws'"
proof -
  obtain r ws' where r: "dcc_ws_read_exact ws n = (r, ws')" by fastforce
  with read_exact_stream [OF r] assms have "r = Some a" "unread ws' = rest" by auto
  moreover have "reads_only ws ws'"
    unfolding reads_only_def using read_exact_stream [OF r] assms \<open>unread ws' = rest\<close> by auto
  ultimately show thesis using that r by auto
qed

lemma read_exact_failed:
  assumes "dcc_ws_read_exact ws n = (None, ws')"
  shows "length (unread ws) < n"
  using read_exact_stream [OF assms] by (auto split: if_splits)

section \<open>Bits and bytes\<close>

lemma u64_byte: "(ucast (ucast (w AND 0xff :: u64) :: u8) :: u64) = take_bit 8 w"
proof -
  have "w AND 0xff = take_bit 8 w"
    by (simp add: take_bit_eq_mask mask_eq_exp_minus_1)
  then show ?thesis
    by (auto intro!: bit_word_eqI simp: bit_simps)
qed

lemma u16_byte: "(ucast (ucast (w AND 0xff :: u16) :: u8) :: u16) = take_bit 8 w"
proof -
  have "w AND 0xff = take_bit 8 w"
    by (simp add: take_bit_eq_mask mask_eq_exp_minus_1)
  then show ?thesis
    by (auto intro!: bit_word_eqI simp: bit_simps)
qed

lemma join_byte: "push_bit 8 (drop_bit (k + 8) w) OR take_bit 8 (drop_bit k w) = drop_bit k (w :: 'a::len word)"
proof (rule bit_word_eqI)
  fix n assume "n < LENGTH('a)"
  show "bit (push_bit 8 (drop_bit (k + 8) w) OR take_bit 8 (drop_bit k w)) n \<longleftrightarrow> bit (drop_bit k w) n"
  proof (cases "n < 8")
    case False
    then have "k + 8 + (n - 8) = k + n" by simp
    with False \<open>n < LENGTH('a)\<close> show ?thesis by (simp add: bit_simps)
  qed (simp add: bit_simps)
qed

lemma read_write_u16: "dcc_ws_read_u16 (dcc_ws_write_u16 v @ r) = v"
proof -
  have "drop_bit (0 + 8) v = take_bit 8 (drop_bit 8 v)"
    by (rule bit_word_eqI) (auto simp: bit_simps dest: bit_imp_le_length)
  then show ?thesis
    using join_byte [of 0 v]
    by (simp add: dcc_ws_read_u16_def dcc_ws_write_u16_def u16_byte)
qed

lemma read_write_u64: "dcc_ws_read_u64 (dcc_ws_write_u64 v) = v"
proof -
  have "drop_bit 64 v = 0"
    by (rule bit_word_eqI) (auto simp: bit_simps)
  then have "take_bit 8 (drop_bit 56 v) = drop_bit 56 v"
    using join_byte [of 56 v] by simp
  then show ?thesis
    using join_byte [of 48 v] join_byte [of 40 v] join_byte [of 32 v] join_byte [of 24 v]
      join_byte [of 16 v] join_byte [of 8 v] join_byte [of 0 v]
    by (simp add: dcc_ws_read_u64_def dcc_ws_write_u64_def u64_byte upt_rec)
qed

lemma length_write [simp]: "length (dcc_ws_write_u16 v) = 2" "length (dcc_ws_write_u64 w) = 8"
  by (simp_all add: dcc_ws_write_u16_def dcc_ws_write_u64_def)

lemma flag_bit:
  fixes x :: u8
  assumes "x < 128"
  shows "((if b then 0x80 else 0) OR x) AND 0x7f = x" "((if b then 0x80 else 0) OR x) AND 0x80 \<noteq> 0 \<longleftrightarrow> b"
proof -
  have x: "x AND 0x7f = x"
    using less_mask_eq [of x 7] assms by (simp add: mask_eq_exp_minus_1)
  then show "((if b then 0x80 else 0) OR x) AND 0x7f = x"
    by (simp add: bit.conj_disj_distrib2)
  have "x AND 0x80 = (x AND 0x7f) AND 0x80" by (simp add: x)
  also have "\<dots> = 0" by (simp add: and.assoc)
  finally show "((if b then 0x80 else 0) OR x) AND 0x80 \<noteq> 0 \<longleftrightarrow> b"
    by (simp add: bit.conj_disj_distrib2)
qed

lemma opcode_bits:
  fixes x :: u8
  assumes "x < 16"
  shows "((if b then 0x80 else 0) OR x) AND 0x0f = x" "((if b then 0x80 else 0) OR x) AND 0x70 = 0"
    "((if b then 0x80 else 0) OR x) AND 0x80 \<noteq> 0 \<longleftrightarrow> b"
proof -
  have x: "x AND 0x0f = x"
    using less_mask_eq [of x 4] assms by (simp add: mask_eq_exp_minus_1)
  then show "((if b then 0x80 else 0) OR x) AND 0x0f = x"
    by (simp add: bit.conj_disj_distrib2)
  have "x AND 0x70 = (x AND 0x0f) AND 0x70" by (simp add: x)
  also have "\<dots> = 0" by (simp add: and.assoc)
  finally show "((if b then 0x80 else 0) OR x) AND 0x70 = 0"
    by (simp add: bit.conj_disj_distrib2)
  have "x < 128" using assms by (rule less_trans) simp
  then show "((if b then 0x80 else 0) OR x) AND 0x80 \<noteq> 0 \<longleftrightarrow> b" by (rule flag_bit)
qed

lemma length_apply_mask [simp]: "length (apply_mask m d) = length d"
  by (simp add: apply_mask_def)

lemma apply_mask_twice [simp]: "apply_mask m (apply_mask m d) = d"
  by (rule nth_equalityI) (simp_all add: apply_mask_def xor.assoc)

lemma length_mask_bytes [simp]: "length (mask_bytes m) = 4"
  by (cases m) (simp add: mask_bytes_def)

lemma mask_bytes_nth: "(mask_bytes m ! 0, mask_bytes m ! 1, mask_bytes m ! 2, mask_bytes m ! 3) = m"
  by (cases m) (simp add: mask_bytes_def)

section \<open>Frames on the wire\<close>

text \<open>The encoding of a frame as RFC 6455 has it, for either side of a connection.\<close>

definition len_byte :: "nat \<Rightarrow> u8" where
  "len_byte len = (if len < 126 then of_nat len else if len \<le> UINT16_MAX then 126 else 127)"

definition ext_len :: "nat \<Rightarrow> u8 list" where
  "ext_len len = (if len < 126 then [] else if len \<le> UINT16_MAX then dcc_ws_write_u16 (of_nat len)
     else dcc_ws_write_u64 (of_nat len))"

definition encode_frame :: "ws_mask option \<Rightarrow> ws_frame \<Rightarrow> u8 list" where
  "encode_frame mk frame =
     (case frame of (fin, opcode, payload) \<Rightarrow>
        ((if fin then 0x80 else 0) OR opcode) #
        ((if mk \<noteq> None then 0x80 else 0) OR len_byte (length payload)) #
        ext_len (length payload) @
        (case mk of None \<Rightarrow> payload | Some m \<Rightarrow> mask_bytes m @ apply_mask m payload))"

lemma build_frame_encode:
  assumes "opcode < 16"
  shows "build_frame m opcode data = encode_frame (Some m) (True, opcode, data)"
proof -
  have "opcode AND 0x0f = opcode"
    using less_mask_eq [of opcode 4] assms by (simp add: mask_eq_exp_minus_1)
  then show ?thesis
    by (simp add: build_frame_def encode_frame_def len_byte_def ext_len_def Let_def)
qed

lemma len_byte_less: "len_byte n < 128"
proof (cases "n < 126")
  case True
  then show ?thesis
    by (simp add: len_byte_def word_less_nat_alt unat_of_nat)
qed (simp add: len_byte_def)

lemma recv_length_ext:
  assumes "n < 2 ^ 64" "unread ws = ext_len n @ rest"
  obtains ws' where "recv_length ws ((if b then 0x80 else 0) OR len_byte n) = (Some (of_nat n), ws')"
    "unread ws' = rest" "reads_only ws ws'"
proof -
  have lb: "((if b then 0x80 else 0) OR len_byte n) AND 0x7f = len_byte n"
    by (rule flag_bit(1) [OF len_byte_less])
  consider (small) "n < 126" | (medium) "126 \<le> n" "n \<le> UINT16_MAX" | (large) "UINT16_MAX < n"
    by linarith
  then show thesis
  proof cases
    case small
    then have "len_byte n \<noteq> 126" "len_byte n \<noteq> 127" "ucast (len_byte n) = (of_nat n :: u64)"
      by (auto simp: len_byte_def word_unat_eq_iff unat_of_nat unsigned_ucast_eq take_bit_nat_eq_self)
    then have "recv_length ws ((if b then 0x80 else 0) OR len_byte n) = (Some (of_nat n), ws)"
      unfolding recv_length_def lb by (simp add: Let_def)
    moreover have "unread ws = rest" using assms(2) small by (simp add: ext_len_def)
    ultimately show thesis using that by auto
  next
    case medium
    then have "unread ws = dcc_ws_write_u16 (of_nat n) @ rest" using assms(2) by (simp add: ext_len_def)
    then obtain ws' where r: "dcc_ws_read_exact ws 2 = (Some (dcc_ws_write_u16 (of_nat n)), ws')"
        "unread ws' = rest" "reads_only ws ws'"
      by (rule read_exact_prefix) simp
    have "len_byte n = 126" using medium by (simp add: len_byte_def)
    moreover have "ucast (of_nat n :: u16) = (of_nat n :: u64)"
      using medium by (simp add: word_unat_eq_iff unat_of_nat unsigned_ucast_eq UINT16_MAX_def take_bit_nat_eq_self)
    ultimately have "recv_length ws ((if b then 0x80 else 0) OR len_byte n) = (Some (of_nat n), ws')"
      unfolding recv_length_def lb using r(1) read_write_u16 [of "of_nat n" "[]"] by (simp add: Let_def)
    with r that show thesis by auto
  next
    case large
    then have "unread ws = dcc_ws_write_u64 (of_nat n) @ rest"
      using assms(2) by (simp add: ext_len_def UINT16_MAX_def)
    then obtain ws' where r: "dcc_ws_read_exact ws 8 = (Some (dcc_ws_write_u64 (of_nat n)), ws')"
        "unread ws' = rest" "reads_only ws ws'"
      by (rule read_exact_prefix) simp
    have "len_byte n = 127" using large by (simp add: len_byte_def UINT16_MAX_def)
    then have "recv_length ws ((if b then 0x80 else 0) OR len_byte n) = (Some (of_nat n), ws')"
      unfolding recv_length_def lb using r(1) read_write_u64 [of "of_nat n"] by (simp add: Let_def)
    with r that show thesis by auto
  qed
qed


section \<open>Progress of the receive loop\<close>

lemma read_exact_Some:
  assumes "dcc_ws_read_exact ws n = (Some x, ws')"
  shows "reads_only ws ws'" "length x = n" "length (unread ws) = n + length (unread ws')"
  using read_exact_stream [OF assms] by (auto simp: reads_only_def split: if_splits)

lemma recv_length_Some: "recv_length ws h = (Some n, ws') \<Longrightarrow> reads_only ws ws'"
  by (auto simp: recv_length_def Let_def split: if_splits prod.splits option.splits dest: read_exact_Some(1))

lemma recv_mask_Some: "recv_mask ws b = (Some m, ws') \<Longrightarrow> reads_only ws ws'"
  by (auto simp: recv_mask_def split: if_splits prod.splits option.splits dest: read_exact_Some(1))

lemma recv_payload_Inr: "recv_payload env ws m n = (Inr p, ws') \<Longrightarrow> reads_only ws ws' \<and> length p = n"
  by (auto simp: recv_payload_def split: if_splits prod.splits option.splits dest: read_exact_Some(1,2))

lemma recv_frame_Inr:
  assumes "recv_frame env ws = (Inr (fin, opcode, payload), ws')"
  shows "reads_only ws ws'" "length (unread ws') < length (unread ws)"
    "length payload \<le> DCC_WS_MAX_MESSAGE_BYTES" "opcode \<ge> 8 \<Longrightarrow> fin \<and> length payload \<le> 125"
proof -
  obtain header ws1 where 1: "dcc_ws_read_exact ws 2 = (Some header, ws1)"
    using assms by (auto simp: recv_frame_def split: prod.splits option.splits)
  obtain n ws2 where 2: "recv_length ws1 (header ! 1) = (Some n, ws2)"
    using assms 1 by (auto simp: recv_frame_def Let_def split: prod.splits option.splits if_splits)
  obtain m ws3 where 3: "recv_mask ws2 (header ! 1 AND 0x80 \<noteq> 0) = (Some m, ws3)"
    using assms 1 2 by (auto simp: recv_frame_def Let_def split: prod.splits option.splits if_splits)
  have ok: "unat n \<le> DCC_WS_MAX_MESSAGE_BYTES" "\<not> (header ! 0 AND 0x0f \<ge> 8 \<and> (header ! 0 AND 0x80 = 0 \<or> n > 125))"
    and 4: "recv_payload env ws3 m (unat n) = (Inr payload, ws')"
    and f: "fin = (header ! 0 AND 0x80 \<noteq> 0)" "opcode = header ! 0 AND 0x0f"
    using assms 1 2 3
    by (auto simp: recv_frame_def Let_def split: prod.splits option.splits sum.splits if_splits)
  note r = recv_length_Some [OF 2] recv_mask_Some [OF 3] recv_payload_Inr [OF 4]
  then have ro: "reads_only ws1 ws'" by (blast intro: reads_only_trans)
  then show "reads_only ws ws'" using read_exact_Some(1) [OF 1] by (blast intro: reads_only_trans)
  show "length (unread ws') < length (unread ws)"
    using read_exact_Some(3) [OF 1] ro by (auto simp: reads_only_def)
  show "length payload \<le> DCC_WS_MAX_MESSAGE_BYTES" using r ok by simp
  show "fin \<and> length payload \<le> 125" if "opcode \<ge> 8"
    using that ok(2) r f by (auto simp: word_less_nat_alt not_less)
qed

lemma send_char:
  assumes "ref_count ws \<noteq> 0" "ref_count ws \<noteq> UINT_MAX"
  shows "dcc_ws_send env ws opcode data =
     (if \<not> ws_open ws then (DCC_ERR_INVALID_ARG, ws)
      else if length data > SIZE_MAX - frame_header_len (length data) \<or> \<not> env_frame_alloc env then (DCC_ERR_NOMEM, ws)
      else case env_mask env of
        None \<Rightarrow> (DCC_ERR_TLS, ws)
      | Some m \<Rightarrow>
          if dcc_ws_send_lock (env_spins env) \<noteq> DCC_OK then (dcc_ws_send_lock (env_spins env), ws)
          else case dcc_conn_write_all (ws_conn ws) (build_frame m opcode data) of
            (ok, c) \<Rightarrow> (if ok then DCC_OK else DCC_ERR_NETWORK, ws\<lparr>ws_conn := c\<rparr>))"
proof -
  have d: "dcc_ws_destroy (ws\<lparr>ref_count := ref_count ws + 1, ws_conn := c\<rparr>) = ws\<lparr>ws_conn := c\<rparr>" for c
    using assms by (simp add: dcc_ws_destroy_def Let_def)
  have d0: "dcc_ws_destroy (ws\<lparr>ref_count := ref_count ws + 1\<rparr>) = ws"
    using d [of "ws_conn ws"] by simp
  show ?thesis
    using assms by (simp add: dcc_ws_send_def dcc_ws_retain_def Let_def d0 d split: option.split prod.split)
qed

lemma send_shared: "ref_count ws = 0 \<or> ref_count ws = UINT_MAX \<Longrightarrow> dcc_ws_send env ws opcode data = (DCC_ERR_STATE, ws)"
  by (simp add: dcc_ws_send_def dcc_ws_retain_def)

lemma write_all_fields:
  assumes "dcc_conn_write_all c data = (ok, c')"
  shows "\<exists>es tail. c' = c\<lparr>conn_writes := es, conn_sent := conn_sent c @ tail\<rparr>"
proof -
  obtain sent es where "c' = c\<lparr>conn_writes := es, conn_sent := sent\<rparr>"
    using assms by (auto simp: dcc_conn_write_all_def split: prod.splits)
  with conn_write_all_sent [OF assms] show ?thesis by auto
qed

lemma send_fields:
  assumes "dcc_ws_send env ws opcode data = (st, ws')"
  shows "\<exists>es tail. ws' = ws\<lparr>ws_conn := (ws_conn ws)\<lparr>conn_writes := es, conn_sent := conn_sent (ws_conn ws) @ tail\<rparr>\<rparr>"
proof -
  have same: ?thesis if "ws' = ws"
    using that by (intro exI [of _ "conn_writes (ws_conn ws)"] exI [of _ "[]"]) simp
  show ?thesis
  proof (cases "ref_count ws = 0 \<or> ref_count ws = UINT_MAX \<or> ws' = ws")
    case True
    then show ?thesis using assms send_shared [of ws env opcode data] same by auto
  next
    case False
    then obtain m ok c where w: "dcc_conn_write_all (ws_conn ws) (build_frame m opcode data) = (ok, c)" "ws' = ws\<lparr>ws_conn := c\<rparr>"
      using assms send_char [of ws env opcode data] by (simp split: if_splits option.splits prod.splits)
    with write_all_fields [OF w(1)] show ?thesis by auto
  qed
qed

lemma send_sent:
  assumes "dcc_ws_send env ws opcode data = (DCC_OK, ws')"
  shows "\<exists>m. conn_sent (ws_conn ws') = conn_sent (ws_conn ws) @ build_frame m opcode data"
proof (cases "ref_count ws = 0 \<or> ref_count ws = UINT_MAX")
  case False
  then obtain m c where w: "dcc_conn_write_all (ws_conn ws) (build_frame m opcode data) = (True, c)" "ws' = ws\<lparr>ws_conn := c\<rparr>"
    using assms send_char [of ws env opcode data] by (simp split: if_splits option.splits prod.splits)
  then have "conn_sent (ws_conn ws') = conn_sent (ws_conn ws) @ build_frame m opcode data"
    using conn_write_all_sent [OF w(1)] by simp
  then show ?thesis by (rule exI)
qed (use assms send_shared in simp)

lemma send_unread: "dcc_ws_send env ws opcode data = (st, ws') \<Longrightarrow> unread ws' = unread ws"
  using send_fields by (fastforce simp: unread_def)

lemma recv_dispatch_Continue: "recv_dispatch env ws frag f = (Continue frag', ws') \<Longrightarrow> unread ws' = unread ws"
  by (cases f) (auto simp: recv_dispatch_def split: if_splits prod.splits option.splits dest: send_unread)

section \<open>The receive loop\<close>

text \<open>Iteration \<open>k\<close> runs in the environment \<open>E k\<close>. Each iteration takes a header from the stream, so
  the loop ends.\<close>

function recv_loop ::
  "(nat \<Rightarrow> ws_env) \<Rightarrow> nat \<Rightarrow> dcc_ws \<Rightarrow> (u8 \<times> u8 list) option \<Rightarrow> dcc_status \<times> dcc_ws_message option \<times> dcc_ws" where
  "recv_loop E k ws frag =
     (case recv_frame (E k) ws of
        (Inl st, ws') \<Rightarrow> (st, None, ws')
      | (Inr frame, ws') \<Rightarrow>
          (case recv_dispatch (E k) ws' frag frame of
             (Return st m, ws'') \<Rightarrow> (st, m, ws'')
           | (Continue frag', ws'') \<Rightarrow> recv_loop E (k + 1) ws'' frag'))"
  by pat_completeness auto
termination
  by (relation "measure (\<lambda>(E, k, ws, frag). length (unread ws))")
    (auto dest!: sym [THEN recv_frame_Inr(2)] sym [THEN recv_dispatch_Continue])

declare recv_loop.simps [simp del]

definition dcc_ws_recv :: "(nat \<Rightarrow> ws_env) \<Rightarrow> dcc_ws \<Rightarrow> dcc_status \<times> dcc_ws_message option \<times> dcc_ws" where
  "dcc_ws_recv E ws = (if \<not> ws_open ws then (DCC_ERR_INVALID_ARG, None, ws) else recv_loop E 0 ws None)"


section \<open>Receiving an encoded frame\<close>

definition control_ok :: "ws_frame \<Rightarrow> bool" where
  "control_ok frame \<longleftrightarrow> (case frame of (fin, opcode, payload) \<Rightarrow> opcode \<ge> 8 \<longrightarrow> fin \<and> length payload \<le> 125)"

definition frame_wf :: "ws_frame \<Rightarrow> bool" where
  "frame_wf frame \<longleftrightarrow> (case frame of (fin, opcode, payload) \<Rightarrow> opcode < 16 \<and> length payload \<le> DCC_WS_MAX_MESSAGE_BYTES)"

lemma recv_mask_payload:
  assumes "unread ws = (case mk of None \<Rightarrow> p | Some m \<Rightarrow> mask_bytes m @ apply_mask m p) @ rest" "env_payload_alloc env"
  obtains ws1 ws2 where "recv_mask ws (mk \<noteq> None) = (Some mk, ws1)"
    "recv_payload env ws1 mk (length p) = (Inr p, ws2)" "unread ws2 = rest" "reads_only ws ws2"
proof -
  have payload: "\<exists>ws2. recv_payload env ws1 mk (length p) = (Inr p, ws2) \<and> unread ws2 = rest \<and> reads_only ws1 ws2"
    if u: "unread ws1 = (case mk of None \<Rightarrow> p | Some m \<Rightarrow> apply_mask m p) @ rest" for ws1
  proof (cases "p = []")
    case True
    then have "unread ws1 = rest" using u by (cases mk) (auto simp: apply_mask_def)
    with True show ?thesis by (auto simp: recv_payload_def)
  next
    case False
    obtain ws2 where r: "dcc_ws_read_exact ws1 (length p) = (Some (case mk of None \<Rightarrow> p | Some m \<Rightarrow> apply_mask m p), ws2)"
        "unread ws2 = rest" "reads_only ws1 ws2"
      by (rule read_exact_prefix [OF u, where n = "length p"]) (simp_all split: option.split)
    with False assms(2) show ?thesis
      by (cases mk) (auto simp: recv_payload_def)
  qed
  show thesis
  proof (cases mk)
    case None
    with payload [of ws] assms(1) that [of ws] show thesis by (auto simp: recv_mask_def)
  next
    case (Some m)
    then have "unread ws = mask_bytes m @ apply_mask m p @ rest" using assms(1) by simp
    then obtain ws1 where r: "dcc_ws_read_exact ws 4 = (Some (mask_bytes m), ws1)"
        "unread ws1 = apply_mask m p @ rest" "reads_only ws ws1"
      by (rule read_exact_prefix) simp
    have "recv_mask ws (mk \<noteq> None) = (Some mk, ws1)"
      using r(1) Some mask_bytes_nth [of m] by (simp add: recv_mask_def)
    with payload [of ws1] r that [of ws1] Some reads_only_trans show thesis by fastforce
  qed
qed

lemma recv_encoded:
  assumes "unread ws = encode_frame mk frame @ rest" "frame_wf frame" "env_payload_alloc env"
  shows "\<exists>ws'. if control_ok frame then recv_frame env ws = (Inr frame, ws') \<and> unread ws' = rest \<and> reads_only ws ws'
    else recv_frame env ws = (Inl DCC_ERR_NETWORK, ws')"
proof -
  obtain fin op p where f: "frame = (fin, op, p)" by (cases frame)
  define h0 :: u8 where "h0 = (if fin then 0x80 else 0) OR op"
  define h1 :: u8 where "h1 = (if mk \<noteq> None then 0x80 else 0) OR len_byte (length p)"
  define body where "body = (case mk of None \<Rightarrow> p | Some m \<Rightarrow> mask_bytes m @ apply_mask m p)"
  have wf: "op < 16" "length p \<le> DCC_WS_MAX_MESSAGE_BYTES" using assms(2) f by (auto simp: frame_wf_def)
  have "unread ws = [h0, h1] @ (ext_len (length p) @ body @ rest)"
    using assms(1) f by (simp add: encode_frame_def h0_def h1_def body_def)
  then obtain ws1 where 1: "dcc_ws_read_exact ws 2 = (Some [h0, h1], ws1)" "unread ws1 = ext_len (length p) @ body @ rest"
      "reads_only ws ws1"
    by (rule read_exact_prefix [where n = 2]) simp_all
  have lp: "length p < 2 ^ 64" using wf(2) by (simp add: DCC_WS_MAX_MESSAGE_BYTES_def)
  from recv_length_ext [OF this 1(2), of "mk \<noteq> None"]
  obtain ws2 where 2: "recv_length ws1 h1 = (Some (of_nat (length p)), ws2)" "unread ws2 = body @ rest" "reads_only ws1 ws2"
    unfolding h1_def by blast
  have un: "unat (of_nat (length p) :: u64) = length p"
    using lp by (rule unat_of_nat_eq_u64)
  have h0: "h0 AND 0x70 = 0" "h0 AND 0x0f = op" "h0 AND 0x80 \<noteq> 0 \<longleftrightarrow> fin"
    using opcode_bits [OF wf(1), of fin] by (auto simp: h0_def)
  have h1: "h1 AND 0x80 \<noteq> 0 \<longleftrightarrow> mk \<noteq> None"
    unfolding h1_def by (rule flag_bit(2) [OF len_byte_less])
  have ctl: "(op \<ge> 8 \<and> (\<not> fin \<or> (of_nat (length p) :: u64) > 125)) \<longleftrightarrow> \<not> control_ok frame"
    using un by (auto simp: f control_ok_def word_less_nat_alt)
  have eq: "recv_frame env ws =
      (if op \<ge> 8 \<and> (\<not> fin \<or> (of_nat (length p) :: u64) > 125) then (Inl DCC_ERR_NETWORK, ws2)
       else case recv_mask ws2 (mk \<noteq> None) of
          (None, ws) \<Rightarrow> (Inl DCC_ERR_NETWORK, ws)
        | (Some mkey, ws) \<Rightarrow>
            (case recv_payload env ws mkey (length p) of
               (Inl st, ws) \<Rightarrow> (Inl st, ws)
             | (Inr payload, ws) \<Rightarrow> (Inr (fin, op, payload), ws)))"
    using 1(1) 2(1) h0 h1 wf(2)
    by (auto simp: recv_frame_def Let_def un simp del: not_None_eq split: prod.split option.split sum.split)
  show ?thesis
  proof (cases "control_ok frame")
    case False
    then show ?thesis unfolding eq ctl by simp
  next
    case True
    obtain ws3 ws4 where "recv_mask ws2 (mk \<noteq> None) = (Some mk, ws3)"
      "recv_payload env ws3 mk (length p) = (Inr p, ws4)" "unread ws4 = rest" "reads_only ws2 ws4"
      using recv_mask_payload [OF 2(2) [unfolded body_def] assms(3)] by blast
    moreover then have "reads_only ws ws4" using 1(3) 2(3) reads_only_trans by blast
    ultimately show ?thesis using True unfolding eq ctl by (auto simp: f)
  qed
qed


section \<open>The abstract receiver\<close>

text \<open>
  What a receiver promises, on whole frames: data frames are reassembled, control frames may come
  between fragments, a ping is answered with its payload, a close frame is echoed and ends the
  connection, and everything else is a protocol violation. The result is the outcome, the frames
  that stay unread and the frames sent in reply.
\<close>

datatype ws_outcome = Message u8 "u8 list" | Closed u16 "u8 list" | Violation | Starved

type_synonym ws_wire = "(ws_mask option \<times> ws_frame) list"

fun ws_receive :: "(u8 \<times> u8 list) option \<Rightarrow> ws_wire \<Rightarrow> ws_outcome \<times> ws_wire \<times> ws_frame list" where
  "ws_receive frag [] = (Starved, [], [])"
| "ws_receive frag ((mk, fin, op, p) # fs) =
     (if \<not> control_ok (fin, op, p) then (Violation, fs, [])
      else if op = DCC_WS_PING then
        (case ws_receive frag fs of (out, left, replies) \<Rightarrow> (out, left, (True, DCC_WS_PONG, p) # replies))
      else if op = DCC_WS_PONG then ws_receive frag fs
      else if op = DCC_WS_CLOSE then
        (if 2 \<le> length p then Closed (dcc_ws_read_u16 p) (drop 2 p) else Closed 1005 [], fs, [(True, DCC_WS_CLOSE, p)])
      else if op = DCC_WS_TEXT \<or> op = DCC_WS_BINARY then
        (if frag \<noteq> None then (Violation, fs, [])
         else if fin then (Message op p, fs, [])
         else ws_receive (Some (op, p)) fs)
      else if op = DCC_WS_CONTINUATION then
        (case frag of
           None \<Rightarrow> (Violation, fs, [])
         | Some (first_op, got) \<Rightarrow>
             if length got + length p > DCC_WS_MAX_MESSAGE_BYTES then (Violation, fs, [])
             else if fin then (Message first_op (got @ p), fs, [])
             else ws_receive (Some (first_op, got @ p)) fs)
      else (Violation, fs, []))"

definition wire_bytes :: "ws_wire \<Rightarrow> u8 list" where
  "wire_bytes fs = concat (map (\<lambda>(mk, f). encode_frame mk f) fs)"

definition status_of :: "ws_outcome \<Rightarrow> dcc_status" where
  "status_of out = (case out of Message _ _ \<Rightarrow> DCC_OK | Closed _ _ \<Rightarrow> DCC_ERR_CANCELED | _ \<Rightarrow> DCC_ERR_NETWORK)"

definition message_of :: "ws_outcome \<Rightarrow> dcc_ws_message option" where
  "message_of out = (case out of Message op d \<Rightarrow> Some \<lparr>msg_opcode = op, msg_data = d\<rparr> | _ \<Rightarrow> None)"

text \<open>An environment in which nothing fails, and a connection that can send \<open>n\<close> control frames.\<close>

definition env_good :: "ws_env \<Rightarrow> bool" where
  "env_good env \<longleftrightarrow> env_frame_alloc env \<and> env_payload_alloc env \<and> env_fragment_alloc env \<and> env_mask env \<noteq> None
     \<and> list_all (\<lambda>b. b) (env_spins env)"

definition ws_ready :: "nat \<Rightarrow> dcc_ws \<Rightarrow> bool" where
  "ws_ready n ws \<longleftrightarrow> ws_open ws \<and> ref_count ws \<noteq> 0 \<and> ref_count ws \<noteq> UINT_MAX
     \<and> n \<le> length (conn_writes (ws_conn ws))
     \<and> list_all (\<lambda>e. case e of Wrote m \<Rightarrow> 131 \<le> m | _ \<Rightarrow> False) (take n (conn_writes (ws_conn ws)))"

lemma send_lock_ok: "list_all (\<lambda>b. b) spins \<Longrightarrow> dcc_ws_send_lock spins = DCC_OK"
  by (induction spins) auto

lemma ready_reads_only: "reads_only ws ws' \<Longrightarrow> ws_ready n ws' = ws_ready n ws"
  by (auto simp: reads_only_def ws_ready_def)

lemma ready_less: "ws_ready (Suc n) ws \<Longrightarrow> ws_ready n ws"
  by (auto simp: ws_ready_def list_all_length)

lemma length_encode_control:
  "length p \<le> 125 \<Longrightarrow> length (encode_frame (Some m) (fin, op, p)) \<le> 131 \<and> encode_frame (Some m) (fin, op, p) \<noteq> []"
  by (simp add: encode_frame_def ext_len_def)

lemma send_control:
  assumes "ws_ready (Suc n) ws" "env_good env" "op < 16" "length p \<le> 125"
  obtains m ws' where "dcc_ws_send env ws op p = (DCC_OK, ws')" "ws_ready n ws'" "unread ws' = unread ws"
    "conn_sent (ws_conn ws') = conn_sent (ws_conn ws) @ encode_frame (Some m) (True, op, p)"
    "close_code ws' = close_code ws" "close_reason ws' = close_reason ws"
proof -
  obtain m where m: "env_mask env = Some m" using assms(2) by (auto simp: env_good_def)
  obtain w es where w: "conn_writes (ws_conn ws) = Wrote w # es" "131 \<le> w"
    using assms(1) by (cases "conn_writes (ws_conn ws)") (auto simp: ws_ready_def split: write_event.splits)
  define bs where "bs = encode_frame (Some m) (True, op, p)"
  have "bs \<noteq> []" "length bs \<le> w" "length bs \<le> INT32_MAX"
    using length_encode_control [OF assms(4), of m True op] w(2) by (auto simp: bs_def INT32_MAX_def)
  then have wr: "dcc_conn_write_all (ws_conn ws) (build_frame m op p) =
      (True, (ws_conn ws)\<lparr>conn_writes := es, conn_sent := conn_sent (ws_conn ws) @ bs\<rparr>)"
    using build_frame_encode [OF assms(3), of m p] w(1)
    by (simp add: dcc_conn_write_all_def write_all_whole bs_def)
  have "length p \<le> SIZE_MAX - frame_header_len (length p)"
    using assms(4) by (simp add: SIZE_MAX_def frame_header_len_def UINT16_MAX_def)
  then have send: "dcc_ws_send env ws op p =
      (DCC_OK, ws\<lparr>ws_conn := (ws_conn ws)\<lparr>conn_writes := es, conn_sent := conn_sent (ws_conn ws) @ bs\<rparr>\<rparr>)"
    using assms(1,2) m wr by (simp add: ws_ready_def env_good_def send_char send_lock_ok)
  show thesis
    by (rule that [OF send]) (use assms(1) w in \<open>auto simp: ws_ready_def unread_def bs_def\<close>)
qed

text \<open>One iteration on an encoded frame.\<close>

lemma recv_loop_frame:
  assumes "unread ws = encode_frame mk f @ rest" "frame_wf f" "env_good (E k)" "control_ok f"
  obtains ws' where "unread ws' = rest" "reads_only ws ws'"
    "recv_loop E k ws frag =
       (case recv_dispatch (E k) ws' frag f of
          (Return st m, ws'') \<Rightarrow> (st, m, ws'') | (Continue frag', ws'') \<Rightarrow> recv_loop E (k + 1) ws'' frag')"
proof -
  have "env_payload_alloc (E k)" using assms(3) by (simp add: env_good_def)
  from recv_encoded [OF assms(1,2) this] assms(4)
  obtain ws' where "recv_frame (E k) ws = (Inr f, ws')" "unread ws' = rest" "reads_only ws ws'" by auto
  then show thesis
    using that [of ws'] by (simp add: recv_loop.simps [of E k ws frag])
qed

definition delivers ::
  "dcc_ws \<Rightarrow> u8 list \<Rightarrow> ws_outcome \<times> ws_wire \<times> ws_frame list \<Rightarrow> dcc_status \<times> dcc_ws_message option \<times> dcc_ws \<Rightarrow> bool" where
  "delivers ws rest spec result \<longleftrightarrow>
     (case spec of (out, left, replies) \<Rightarrow> case result of (st, m, ws') \<Rightarrow>
        st = status_of out \<and> m = message_of out
        \<and> (\<exists>ms. length ms = length replies \<and>
             conn_sent (ws_conn ws') = conn_sent (ws_conn ws) @ concat (map2 (\<lambda>mk. encode_frame (Some mk)) ms replies))
        \<and> (case out of
             Message _ _ \<Rightarrow> unread ws' = wire_bytes left @ rest \<and> ws_open ws'
           | Closed c r \<Rightarrow> close_code ws' = c \<and> close_reason ws' = r \<and> \<not> ws_open ws'
           | _ \<Rightarrow> True))"

lemma delivers_same_sent:
  "conn_sent (ws_conn ws1) = conn_sent (ws_conn ws) \<Longrightarrow> delivers ws1 rest spec r = delivers ws rest spec r"
  by (simp add: delivers_def)

lemma delivers_reply:
  assumes "conn_sent (ws_conn ws1) = conn_sent (ws_conn ws) @ encode_frame (Some mk) f"
    and "delivers ws1 rest (out, left, replies) r"
  shows "delivers ws rest (out, left, f # replies) r"
proof -
  obtain st m ws' where r: "r = (st, m, ws')" by (cases r)
  obtain ms where "length ms = length replies"
    "conn_sent (ws_conn ws') = conn_sent (ws_conn ws1) @ concat (map2 (\<lambda>mk. encode_frame (Some mk)) ms replies)"
    using assms(2) r by (auto simp: delivers_def)
  then have "length (mk # ms) = length (f # replies) \<and>
    conn_sent (ws_conn ws') = conn_sent (ws_conn ws) @ concat (map2 (\<lambda>mk. encode_frame (Some mk)) (mk # ms) (f # replies))"
    using assms(1) by simp
  then have "\<exists>ms. length ms = length (f # replies) \<and>
    conn_sent (ws_conn ws') = conn_sent (ws_conn ws) @ concat (map2 (\<lambda>mk. encode_frame (Some mk)) ms (f # replies))"
    by (rule exI)
  with assms(2) r show ?thesis
    by (simp add: delivers_def del: length_Cons)
qed

lemma reads_only_sent: "reads_only ws ws' \<Longrightarrow> conn_sent (ws_conn ws') = conn_sent (ws_conn ws) \<and> ws_open ws' = ws_open ws"
  by (auto simp: reads_only_def)

text \<open>Reading sends nothing, on failure either.\<close>

lemma read_exact_sent: "dcc_ws_read_exact ws n = (r, ws') \<Longrightarrow> conn_sent (ws_conn ws') = conn_sent (ws_conn ws)"
  using read_exact_stream by fastforce

lemma recv_length_sent: "recv_length ws h = (r, ws') \<Longrightarrow> conn_sent (ws_conn ws') = conn_sent (ws_conn ws)"
  by (auto simp: recv_length_def Let_def split: if_splits prod.splits option.splits dest: read_exact_sent)

lemma recv_mask_sent: "recv_mask ws b = (r, ws') \<Longrightarrow> conn_sent (ws_conn ws') = conn_sent (ws_conn ws)"
  by (auto simp: recv_mask_def split: if_splits prod.splits option.splits dest: read_exact_sent)

lemma recv_payload_sent: "recv_payload env ws m n = (r, ws') \<Longrightarrow> conn_sent (ws_conn ws') = conn_sent (ws_conn ws)"
  by (auto simp: recv_payload_def split: if_splits prod.splits option.splits dest: read_exact_sent)

lemma recv_frame_sent: "recv_frame env ws = (r, ws') \<Longrightarrow> conn_sent (ws_conn ws') = conn_sent (ws_conn ws)"
  by (auto simp: recv_frame_def Let_def split: if_splits prod.splits option.splits sum.splits
      dest!: read_exact_sent recv_length_sent recv_mask_sent recv_payload_sent)

lemma delivers_failure:
  "conn_sent (ws_conn ws') = conn_sent (ws_conn ws) \<Longrightarrow> out = Violation \<or> out = Starved \<Longrightarrow>
    delivers ws rest (out, left, []) (DCC_ERR_NETWORK, None, ws')"
  by (auto simp: delivers_def status_of_def message_of_def)

lemma recv_loop_starved:
  assumes "unread ws = []"
  shows "delivers ws rest (Starved, left, []) (recv_loop E k ws frag)"
proof -
  obtain r ws' where r: "dcc_ws_read_exact ws 2 = (r, ws')" by fastforce
  then have "r = None" using read_exact_stream [OF r] assms by simp
  with r have "recv_loop E k ws frag = (DCC_ERR_NETWORK, None, ws')"
    by (simp add: recv_loop.simps [of E k ws frag] recv_frame_def)
  with read_exact_sent [OF r] show ?thesis by (simp add: delivers_failure)
qed

lemma control_opcodes: "DCC_WS_PONG < 16" "DCC_WS_CLOSE < 16"
  by (simp_all add: ws_opcodes)

lemma recv_loop_refines:
  assumes "unread ws = wire_bytes fs @ rest" "list_all (\<lambda>(mk, f). frame_wf f) fs" "\<And>k. env_good (E k)"
    and "ws_ready (length fs) ws" "fst (ws_receive frag fs) = Starved \<Longrightarrow> rest = []"
  shows "delivers ws rest (ws_receive frag fs) (recv_loop E k ws frag)"
  using assms(1,2,4,5)
proof (induction frag fs arbitrary: ws k rule: ws_receive.induct)
  case (1 frag)
  then show ?case by (simp add: wire_bytes_def recv_loop_starved)
next
  case (2 frag mk fin op p fs)
  have u: "unread ws = encode_frame mk (fin, op, p) @ wire_bytes fs @ rest"
    using 2 by (simp add: wire_bytes_def)
  have wf: "frame_wf (fin, op, p)" and wfs: "list_all (\<lambda>(mk, f). frame_wf f) fs" using 2 by auto
  have E: "env_good (E k)" "env_payload_alloc (E k)" "env_fragment_alloc (E k)"
    using assms(3) [of k] by (auto simp: env_good_def)
  show ?case
  proof (cases "control_ok (fin, op, p)")
    case False
    with recv_encoded [OF u wf E(2)] obtain ws' where r: "recv_frame (E k) ws = (Inl DCC_ERR_NETWORK, ws')" by auto
    then have "recv_loop E k ws frag = (DCC_ERR_NETWORK, None, ws')"
      by (simp add: recv_loop.simps [of E k ws frag])
    with False recv_frame_sent [OF r] show ?thesis by (simp add: delivers_failure)
  next
    case ok: True
    obtain ws1 where ws1: "unread ws1 = wire_bytes fs @ rest" "reads_only ws ws1"
      and loop: "recv_loop E k ws frag =
       (case recv_dispatch (E k) ws1 frag (fin, op, p) of
          (Return st m, ws'') \<Rightarrow> (st, m, ws'') | (Continue frag', ws'') \<Rightarrow> recv_loop E (k + 1) ws'' frag')"
      using recv_loop_frame [where E = E and k = k, OF u wf E(1) ok] by blast
    have ready: "ws_ready (Suc (length fs)) ws1"
      using 2 ready_reads_only [OF ws1(2)] by simp
    have sent1: "conn_sent (ws_conn ws1) = conn_sent (ws_conn ws)" "ws_open ws1 = ws_open ws"
      using reads_only_sent [OF ws1(2)] by auto
    consider (ping) "op = DCC_WS_PING" | (pong) "op = DCC_WS_PONG" | (close) "op = DCC_WS_CLOSE"
      | (data) "op = DCC_WS_TEXT \<or> op = DCC_WS_BINARY" | (continuation) "op = DCC_WS_CONTINUATION"
      | (other) "op \<notin> {DCC_WS_PING, DCC_WS_PONG, DCC_WS_CLOSE, DCC_WS_TEXT, DCC_WS_BINARY, DCC_WS_CONTINUATION}"
      by auto
    then show ?thesis
    proof cases
      case ping
      then have "length p \<le> 125" using ok by (simp add: control_ok_def ws_opcodes)
      then obtain m ws2 where s: "dcc_ws_send (E k) ws1 DCC_WS_PONG p = (DCC_OK, ws2)" "ws_ready (length fs) ws2"
          "unread ws2 = unread ws1"
          "conn_sent (ws_conn ws2) = conn_sent (ws_conn ws1) @ encode_frame (Some m) (True, DCC_WS_PONG, p)"
        using send_control [OF ready E(1) control_opcodes(1)] by blast
      obtain out left replies where spec: "ws_receive frag fs = (out, left, replies)" by (metis surj_pair)
      have full: "ws_receive frag ((mk, fin, op, p) # fs) = (out, left, (True, DCC_WS_PONG, p) # replies)"
        using ping ok spec by simp
      have "out = Starved \<Longrightarrow> rest = []" using 2(8) full by simp
      then have "delivers ws2 rest (ws_receive frag fs) (recv_loop E (k + 1) ws2 frag)"
        using 2(1) [of ws2 "k + 1"] ok ping s ws1 wfs spec by simp
      then have "delivers ws1 rest (ws_receive frag ((mk, fin, op, p) # fs)) (recv_loop E (k + 1) ws2 frag)"
        unfolding full spec by (rule delivers_reply [OF s(4)])
      then show ?thesis
        using loop ping s(1) delivers_same_sent [OF sent1(1)] by (simp add: recv_dispatch_def)
    next
      case pong
      then have nping: "op \<noteq> DCC_WS_PING" by (simp add: ws_opcodes)
      have full: "ws_receive frag ((mk, fin, op, p) # fs) = ws_receive frag fs"
        using pong nping ok by simp
      have "delivers ws1 rest (ws_receive frag fs) (recv_loop E (k + 1) ws1 frag)"
        using 2(2) [of ws1 "k + 1"] ok pong nping ws1 wfs ready_less [OF ready] 2(8) full by simp
      then show ?thesis
        using loop pong nping full delivers_same_sent [OF sent1(1)] by (simp add: recv_dispatch_def)
    next
      case close
      then have n: "op \<noteq> DCC_WS_PING" "op \<noteq> DCC_WS_PONG" "length p \<le> 125"
        using ok by (auto simp: ws_opcodes control_ok_def)
      define wsr where "wsr = record_close ws1 p"
      have wsr: "ws_ready (Suc (length fs)) wsr" "conn_sent (ws_conn wsr) = conn_sent (ws_conn ws1)"
        using ready by (auto simp: wsr_def record_close_def ws_ready_def Let_def)
      obtain m ws2 where s: "dcc_ws_send (E k) wsr DCC_WS_CLOSE p = (DCC_OK, ws2)"
          "conn_sent (ws_conn ws2) = conn_sent (ws_conn wsr) @ encode_frame (Some m) (True, DCC_WS_CLOSE, p)"
          "close_code ws2 = close_code wsr" "close_reason ws2 = close_reason wsr"
        using send_control [OF wsr(1) E(1) control_opcodes(2) n(3)] by blast
      have "recv_loop E k ws frag = (DCC_ERR_CANCELED, None, ws2\<lparr>ws_open := False\<rparr>)"
        using loop close n s(1) by (simp add: recv_dispatch_def wsr_def)
      moreover have "\<exists>ms. length ms = Suc 0 \<and> conn_sent (ws_conn ws2) =
          conn_sent (ws_conn ws) @ concat (map2 (\<lambda>mk. encode_frame (Some mk)) ms [(True, DCC_WS_CLOSE, p)])"
        using s(2) wsr(2) sent1(1) by (intro exI [of _ "[m]"]) simp
      ultimately show ?thesis
        using close n ok s
        by (auto simp: delivers_def status_of_def message_of_def wsr_def record_close_def Let_def)
    next
      case data
      then have n: "op \<noteq> DCC_WS_PING" "op \<noteq> DCC_WS_PONG" "op \<noteq> DCC_WS_CLOSE" by (auto simp: ws_opcodes)
      have le: "length p \<le> DCC_WS_MAX_MESSAGE_BYTES" using wf by (simp add: frame_wf_def)
      consider (bad) "frag \<noteq> None" | (whole) "frag = None" "fin" | (first) "frag = None" "\<not> fin" by blast
      then show ?thesis
      proof cases
        case first
        have full: "ws_receive frag ((mk, fin, op, p) # fs) = ws_receive (Some (op, p)) fs"
          using data n ok first by simp
        have "delivers ws1 rest (ws_receive (Some (op, p)) fs) (recv_loop E (k + 1) ws1 (Some (op, p)))"
          using 2(3) [of ws1 "k + 1"] ok data n first ws1 wfs ready_less [OF ready] 2(8) full by simp
        then show ?thesis
          using loop data n first full le E delivers_same_sent [OF sent1(1)]
          by (simp add: recv_dispatch_def dcc_ws_append_fragment_def)
      qed (use loop data n ok ws1 sent1 ready in
          \<open>auto simp: recv_dispatch_def delivers_def status_of_def message_of_def ws_ready_def\<close>)
    next
      case continuation
      then have n: "op \<noteq> DCC_WS_PING" "op \<noteq> DCC_WS_PONG" "op \<noteq> DCC_WS_CLOSE" "\<not> (op = DCC_WS_TEXT \<or> op = DCC_WS_BINARY)"
        by (auto simp: ws_opcodes)
      have le: "length p \<le> DCC_WS_MAX_MESSAGE_BYTES" using wf by (simp add: frame_wf_def)
      show ?thesis
      proof (cases frag)
        case None
        then show ?thesis
          using loop continuation n ok sent1 by (auto simp: recv_dispatch_def delivers_failure)
      next
        case (Some fo)
        then obtain fop got where frag: "frag = Some (fop, got)" by (cases fo) auto
        have app: "dcc_ws_append_fragment (env_fragment_alloc (E k)) got p =
            (if length got + length p > DCC_WS_MAX_MESSAGE_BYTES then (DCC_ERR_NETWORK, got) else (DCC_OK, got @ p))"
          using le E by (auto simp: dcc_ws_append_fragment_def)
        consider (big) "length got + length p > DCC_WS_MAX_MESSAGE_BYTES"
          | (last) "length got + length p \<le> DCC_WS_MAX_MESSAGE_BYTES" "fin"
          | (more) "length got + length p \<le> DCC_WS_MAX_MESSAGE_BYTES" "\<not> fin" by linarith
        then show ?thesis
        proof cases
          case more
          have full: "ws_receive frag ((mk, fin, op, p) # fs) = ws_receive (Some (fop, got @ p)) fs"
            using continuation n ok more frag by simp
          have "delivers ws1 rest (ws_receive (Some (fop, got @ p)) fs) (recv_loop E (k + 1) ws1 (Some (fop, got @ p)))"
            using 2(4) [of "(fop, got)" fop got ws1 "k + 1"] ok continuation n more frag ws1 wfs ready_less [OF ready] 2(8) full
            by simp
          then show ?thesis
            using loop continuation n more full app frag delivers_same_sent [OF sent1(1)] by (simp add: recv_dispatch_def)
        qed (use loop continuation n ok ws1 sent1 ready app frag in
          \<open>auto simp: recv_dispatch_def delivers_def status_of_def message_of_def ws_ready_def\<close>)
      qed
    next
      case other
      then show ?thesis
        using loop ok sent1 by (auto simp: recv_dispatch_def delivers_failure)
    qed
  qed
qed


section \<open>Bounds of what is received\<close>

definition close_reason_fits :: "dcc_ws \<Rightarrow> bool" where
  "close_reason_fits ws \<longleftrightarrow> length (close_reason ws) \<le> 123"

definition frag_fits :: "(u8 \<times> u8 list) option \<Rightarrow> bool" where
  "frag_fits frag \<longleftrightarrow> (case frag of None \<Rightarrow> True
     | Some (op, got) \<Rightarrow> op \<in> {DCC_WS_TEXT, DCC_WS_BINARY} \<and> length got \<le> DCC_WS_MAX_MESSAGE_BYTES)"

definition result_fits :: "dcc_status \<times> dcc_ws_message option \<times> dcc_ws \<Rightarrow> bool" where
  "result_fits r \<longleftrightarrow> (case r of (st, m, ws) \<Rightarrow>
     (st = DCC_OK \<longleftrightarrow> m \<noteq> None) \<and> close_reason_fits ws
     \<and> (case m of None \<Rightarrow> True
        | Some msg \<Rightarrow> msg_opcode msg \<in> {DCC_WS_TEXT, DCC_WS_BINARY} \<and> length (msg_data msg) \<le> DCC_WS_MAX_MESSAGE_BYTES))"

lemma read_exact_reason: "dcc_ws_read_exact ws n = (r, ws') \<Longrightarrow> close_reason ws' = close_reason ws"
  using read_exact_stream by fastforce

lemma recv_length_reason: "recv_length ws h = (r, ws') \<Longrightarrow> close_reason ws' = close_reason ws"
  by (auto simp: recv_length_def Let_def split: if_splits prod.splits option.splits dest: read_exact_reason)

lemma recv_mask_reason: "recv_mask ws b = (r, ws') \<Longrightarrow> close_reason ws' = close_reason ws"
  by (auto simp: recv_mask_def split: if_splits prod.splits option.splits dest: read_exact_reason)

lemma recv_payload_reason: "recv_payload env ws m n = (r, ws') \<Longrightarrow> close_reason ws' = close_reason ws \<and> r \<noteq> Inl DCC_OK"
  by (auto simp: recv_payload_def split: if_splits prod.splits option.splits dest: read_exact_reason)

lemma recv_frame_reason: "recv_frame env ws = (r, ws') \<Longrightarrow> close_reason ws' = close_reason ws \<and> r \<noteq> Inl DCC_OK"
  by (auto simp: recv_frame_def Let_def split: if_splits prod.splits option.splits sum.splits
      dest!: read_exact_reason recv_length_reason recv_mask_reason recv_payload_reason)

lemma send_reason: "dcc_ws_send env ws op d = (st, ws') \<Longrightarrow> close_reason ws' = close_reason ws"
  using send_fields by fastforce

lemma append_fragment_fits:
  "dcc_ws_append_fragment alloc buf p = (DCC_OK, buf') \<Longrightarrow> length buf' \<le> DCC_WS_MAX_MESSAGE_BYTES"
  by (auto simp: dcc_ws_append_fragment_def split: if_splits)

lemma recv_dispatch_fits:
  assumes "recv_dispatch env ws frag (fin, op, p) = (nx, ws')" "frag_fits frag" "close_reason_fits ws"
    and "length p \<le> DCC_WS_MAX_MESSAGE_BYTES"
  shows "case nx of Return st m \<Rightarrow> result_fits (st, m, ws') | Continue frag' \<Rightarrow> frag_fits frag' \<and> close_reason_fits ws'"
proof -
  have rc: "close_reason_fits (record_close ws p)"
    by (auto simp: record_close_def close_reason_fits_def Let_def)
  show ?thesis
    using assms rc unfolding recv_dispatch_def
    by (auto simp: result_fits_def frag_fits_def close_reason_fits_def
        split: if_splits prod.splits option.splits dest!: send_reason append_fragment_fits)
qed

lemma recv_loop_fits: "frag_fits frag \<Longrightarrow> close_reason_fits ws \<Longrightarrow> result_fits (recv_loop E k ws frag)"
proof (induction E k ws frag rule: recv_loop.induct)
  case (1 E k ws frag)
  obtain r ws' where r: "recv_frame (E k) ws = (r, ws')" by fastforce
  have keep: "close_reason_fits ws'" "r \<noteq> Inl DCC_OK"
    using recv_frame_reason [OF r] 1(3) by (auto simp: close_reason_fits_def)
  show ?case
  proof (cases r)
    case (Inl st)
    with r keep show ?thesis by (simp add: recv_loop.simps [of E k ws frag] result_fits_def)
  next
    case (Inr f)
    obtain fin op p where f: "f = (fin, op, p)" by (cases f)
    obtain nx ws'' where d: "recv_dispatch (E k) ws' frag f = (nx, ws'')" by fastforce
    have fits: "case nx of Return st m \<Rightarrow> result_fits (st, m, ws'') | Continue frag' \<Rightarrow> frag_fits frag' \<and> close_reason_fits ws''"
      using recv_dispatch_fits [OF d [unfolded f] 1(2) keep(1)] recv_frame_Inr(3) [OF r [unfolded Inr f]] .
    show ?thesis
    proof (cases nx)
      case (Return st m)
      with r Inr d fits show ?thesis by (simp add: recv_loop.simps [of E k ws frag])
    next
      case (Continue frag')
      with 1(1) [OF r [symmetric] Inr d [symmetric] Continue] fits
      have "result_fits (recv_loop E (k + 1) ws'' frag')" by simp
      with r Inr d Continue show ?thesis by (simp add: recv_loop.simps [of E k ws frag])
    qed
  qed
qed

section \<open>Properties\<close>

text \<open>
  C2. Receiving implements the abstract receiver. Whatever frames the peer sends, masked or not, and
  however the handshake buffer and the network cut their bytes, \<open>dcc_ws_recv\<close> returns the message, the
  close or the protocol error that the frames determine, sends exactly the pongs and the close echo
  they call for, and leaves the later frames unread. A stream that ends in between is a network error.
\<close>

theorem ws_recv_refines_frames:
  assumes "unread ws = wire_bytes fs @ rest" "list_all (\<lambda>(mk, f). frame_wf f) fs" "\<And>k. env_good (E k)"
    and "ws_ready (length fs) ws" "fst (ws_receive None fs) = Starved \<Longrightarrow> rest = []"
  shows "delivers ws rest (ws_receive None fs) (dcc_ws_recv E ws)"
  using recv_loop_refines [OF assms(1-3) assms(4) assms(5)] assms(4)
  by (simp add: dcc_ws_recv_def ws_ready_def)

definition good_env :: ws_env where
  "good_env = \<lparr>env_spins = [True], env_frame_alloc = True, env_mask = Some (1, 2, 3, 4), env_payload_alloc = True,
     env_fragment_alloc = True\<rparr>"

definition sample_frames :: ws_wire where
  "sample_frames = [(None, False, 1, [72]), (Some (7, 8, 9, 10), True, 9, [5]), (None, True, 0, [105]), (None, True, 8, [])]"

definition sample_ws :: dcc_ws where
  "sample_ws = \<lparr>ws_conn = \<lparr>conn_fd = Some 3, conn_use_tls = True, conn_timeout_ms = 100, conn_ssl = True,
       conn_reads = [Read_bytes [72, 0x89, 0x81], Read_error SSL_ERROR_WANT_READ (Some 1), Read_bytes [7, 8, 9, 10, 2, 0x80],
         Read_bytes [1, 105, 0x88, 0]],
       conn_writes = replicate 5 (Wrote 200), conn_sent = []\<rparr>,
     ws_host = ''h'', ws_path = ''/'', rx_buf = [1, 1], rx_pos = 0, close_code = 0, close_reason = [], ref_count = 1,
     ws_open = True, ws_freed = False\<rparr>"

theorem ws_recv_refines_frames_witness:
  "delivers sample_ws [] (Message 1 [72, 105], [(None, True, 8, [])], [(True, 10, [5])]) (dcc_ws_recv (\<lambda>_. good_env) sample_ws)"
proof -
  have spec: "ws_receive None sample_frames = (Message 1 [72, 105], [(None, True, 8, [])], [(True, 10, [5])])"
    by (simp add: sample_frames_def control_ok_def ws_opcodes DCC_WS_MAX_MESSAGE_BYTES_def word_le_nat_alt)
  have "unread sample_ws = wire_bytes sample_frames @ []"
    by (simp add: unread_def sample_ws_def sample_frames_def wire_bytes_def encode_frame_def len_byte_def ext_len_def
        mask_bytes_def apply_mask_def dcc_conn_wait_ssl_def poll_ready_def POLLIN_def)
  moreover have "list_all (\<lambda>(mk, f). frame_wf f) sample_frames"
    by (simp add: sample_frames_def frame_wf_def DCC_WS_MAX_MESSAGE_BYTES_def)
  moreover have "env_good good_env" by (simp add: env_good_def good_env_def)
  moreover have "ws_ready (length sample_frames) sample_ws"
    by (simp add: ws_ready_def sample_ws_def sample_frames_def UINT_MAX_def numeral_eq_Suc)
  ultimately show ?thesis
    using ws_recv_refines_frames [of sample_ws sample_frames "[]" "\<lambda>_. good_env"] spec by simp
qed


text \<open>
  C20. Round trip: a text or binary message of at most 16 MiB that \<open>dcc_ws_send\<close> has sent comes out of
  the peer's \<open>dcc_ws_recv\<close> unchanged, with its opcode, under any mask and any cutting of the bytes,
  and the bytes that follow it stay unread.
\<close>

theorem ws_send_recv_roundtrip:
  assumes "dcc_ws_send env a op data = (DCC_OK, a')" "op = DCC_WS_TEXT \<or> op = DCC_WS_BINARY"
    and "length data \<le> DCC_WS_MAX_MESSAGE_BYTES"
    and "conn_sent (ws_conn a') = conn_sent (ws_conn a) @ bs" "unread b = bs @ rest" "ws_open b" "env_good (E 0)"
  shows "\<exists>b'. dcc_ws_recv E b = (DCC_OK, Some \<lparr>msg_opcode = op, msg_data = data\<rparr>, b') \<and> unread b' = rest"
proof -
  have op: "op < 16" "op \<noteq> DCC_WS_PING" "op \<noteq> DCC_WS_PONG" "op \<noteq> DCC_WS_CLOSE" "control_ok (True, op, data)"
    using assms(2) by (auto simp: ws_opcodes control_ok_def word_le_nat_alt)
  obtain m where "bs = encode_frame (Some m) (True, op, data)"
    using send_sent [OF assms(1)] assms(4) build_frame_encode [OF op(1)] by auto
  then have u: "unread b = encode_frame (Some m) (True, op, data) @ rest" using assms(5) by simp
  have wf: "frame_wf (True, op, data)" using op(1) assms(3) by (simp add: frame_wf_def)
  obtain b' where "unread b' = rest" "recv_loop E 0 b None =
       (case recv_dispatch (E 0) b' None (True, op, data) of
          (Return st m, ws'') \<Rightarrow> (st, m, ws'') | (Continue frag', ws'') \<Rightarrow> recv_loop E (0 + 1) ws'' frag')"
    using recv_loop_frame [where E = E and k = 0, OF u wf assms(7) op(5)] by blast
  then show ?thesis
    using op assms(2,6) by (auto simp: dcc_ws_recv_def recv_dispatch_def)
qed

theorem ws_send_recv_roundtrip_witness:
  "\<exists>b'. dcc_ws_recv (\<lambda>_. good_env)
      (sample_ws\<lparr>rx_buf := conn_sent (ws_conn (snd (dcc_ws_send good_env sample_ws DCC_WS_BINARY [1, 2, 3, 4, 5])))\<rparr>)
    = (DCC_OK, Some \<lparr>msg_opcode = DCC_WS_BINARY, msg_data = [1, 2, 3, 4, 5]\<rparr>, b') \<and> unread b' = incoming (ws_conn sample_ws)"
proof -
  obtain st a' where s: "dcc_ws_send good_env sample_ws DCC_WS_BINARY [1, 2, 3, 4, 5] = (st, a')" by fastforce
  have ok: "ws_ready (Suc 0) sample_ws" "env_good good_env" "DCC_WS_BINARY < 16" "length [1, 2, 3, 4, 5 :: u8] \<le> 125"
    by (simp_all add: ws_ready_def sample_ws_def UINT_MAX_def env_good_def good_env_def ws_opcodes)
  obtain a'' where "dcc_ws_send good_env sample_ws DCC_WS_BINARY [1, 2, 3, 4, 5] = (DCC_OK, a'')"
    using send_control [OF ok] by blast
  then have a': "st = DCC_OK" using s by simp
  have "ws_open sample_ws" "conn_sent (ws_conn sample_ws) = []" "rx_pos sample_ws = 0" by (simp_all add: sample_ws_def)
  with a' s show ?thesis
    using ws_send_recv_roundtrip [of good_env sample_ws DCC_WS_BINARY "[1, 2, 3, 4, 5]" a' "conn_sent (ws_conn a')"
        "sample_ws\<lparr>rx_buf := conn_sent (ws_conn a')\<rparr>" "incoming (ws_conn sample_ws)" "\<lambda>_. good_env"]
    by (simp add: unread_def DCC_WS_MAX_MESSAGE_BYTES_def \<open>env_good good_env\<close>)
qed

text \<open>
  C37. Closing: the peer of \<open>dcc_ws_close\<close> learns the code and the reason when the reason has at most
  123 bytes. With a longer one \<open>dcc_ws_close\<close> sends a close frame of up to 128 bytes, which is more
  than a control frame may hold: the peer's \<open>dcc_ws_recv\<close> reports a network error and records neither.
\<close>

theorem ws_close_reaches_peer:
  assumes "ws_open a" "ref_count a \<noteq> 0" "ref_count a \<noteq> UINT_MAX" "env_good env"
    and "conn_writes (ws_conn a) = Wrote n # es" "136 \<le> n"
    and "conn_sent (ws_conn (dcc_ws_close env a ccode reason)) = conn_sent (ws_conn a) @ bs" "unread b = bs" "\<And>k. env_good (E k)"
    and "ws_ready 1 b"
  shows "case dcc_ws_recv E b of (st, m, b') \<Rightarrow> m = None \<and>
     (if length reason \<le> 123 then st = DCC_ERR_CANCELED \<and> close_code b' = ccode \<and> close_reason b' = reason
      else st = DCC_ERR_NETWORK)"
proof -
  define p where "p = dcc_ws_write_u16 ccode @ take (if length reason > 126 then 126 else length reason) reason"
  obtain mk where mk: "env_mask env = Some mk" using assms(4) by (auto simp: env_good_def)
  have len: "length p = 2 + min 126 (length reason)" by (simp add: p_def)
  define f where "f = encode_frame (Some mk) (True, DCC_WS_CLOSE, p)"
  have f: "f \<noteq> []" "length f \<le> 136" using len by (auto simp: f_def encode_frame_def ext_len_def UINT16_MAX_def)
  then have "write_all (conn_use_tls (ws_conn a)) (conn_sent (ws_conn a)) f (Wrote n # es) = (True, conn_sent (ws_conn a) @ f, es)"
    using assms(6) by (intro write_all_whole) (auto simp: INT32_MAX_def)
  then have "dcc_ws_send env a DCC_WS_CLOSE p =
      (DCC_OK, a\<lparr>ws_conn := (ws_conn a)\<lparr>conn_writes := es, conn_sent := conn_sent (ws_conn a) @ f\<rparr>\<rparr>)"
    using assms(1-5) len mk
    by (simp add: send_char env_good_def send_lock_ok build_frame_encode control_opcodes f_def dcc_conn_write_all_def
        SIZE_MAX_def frame_header_len_def)
  then have "bs = f"
    using assms(1,7) by (simp add: dcc_ws_close_def p_def Let_def cong: if_cong)
  then have "unread b = wire_bytes [(Some mk, True, DCC_WS_CLOSE, p)] @ []"
    using assms(8) by (simp add: wire_bytes_def f_def)
  moreover have "frame_wf (True, DCC_WS_CLOSE, p)"
    using len by (simp add: frame_wf_def DCC_WS_MAX_MESSAGE_BYTES_def control_opcodes)
  ultimately have del: "delivers b [] (ws_receive None [(Some mk, True, DCC_WS_CLOSE, p)]) (recv_loop E 0 b None)"
    using recv_loop_refines [of b "[(Some mk, True, DCC_WS_CLOSE, p)]" "[]" E None 0] assms(9,10) by simp
  have "ws_receive None [(Some mk, True, DCC_WS_CLOSE, p)] =
      (if length reason \<le> 123 then (Closed ccode reason, [], [(True, DCC_WS_CLOSE, p)]) else (Violation, [], []))"
    using len read_write_u16 [of ccode] by (auto simp: control_ok_def ws_opcodes p_def)
  moreover have "dcc_ws_recv E b = recv_loop E 0 b None"
    using assms(10) by (simp add: dcc_ws_recv_def ws_ready_def)
  moreover obtain st m b' where "recv_loop E 0 b None = (st, m, b')" by (metis surj_pair)
  ultimately show ?thesis
    using del by (simp add: delivers_def status_of_def message_of_def split: if_splits)
qed

theorem ws_close_reaches_peer_witness:
  "case dcc_ws_recv (\<lambda>_. good_env)
      (sample_ws\<lparr>rx_buf := conn_sent (ws_conn (dcc_ws_close good_env sample_ws 1000 (replicate 124 65))),
         ws_conn := (ws_conn sample_ws)\<lparr>conn_reads := []\<rparr>\<rparr>) of
     (st, m, b') \<Rightarrow> m = None \<and> st = DCC_ERR_NETWORK"
proof -
  define bs where "bs = conn_sent (ws_conn (dcc_ws_close good_env sample_ws 1000 (replicate 124 65)))"
  have "ws_ready 1 (sample_ws\<lparr>rx_buf := bs, ws_conn := (ws_conn sample_ws)\<lparr>conn_reads := []\<rparr>\<rparr>)"
    "ws_open sample_ws" "ref_count sample_ws \<noteq> 0" "ref_count sample_ws \<noteq> UINT_MAX" "env_good good_env"
    "conn_writes (ws_conn sample_ws) = Wrote 200 # replicate 4 (Wrote 200)" "conn_sent (ws_conn sample_ws) = []"
    "unread (sample_ws\<lparr>rx_buf := bs, ws_conn := (ws_conn sample_ws)\<lparr>conn_reads := []\<rparr>\<rparr>) = bs"
    by (simp_all add: ws_ready_def sample_ws_def UINT_MAX_def env_good_def good_env_def numeral_eq_Suc unread_def)
  with ws_close_reaches_peer [of sample_ws good_env 200 "replicate 4 (Wrote 200)" 1000 "replicate 124 65" bs
      "sample_ws\<lparr>rx_buf := bs, ws_conn := (ws_conn sample_ws)\<lparr>conn_reads := []\<rparr>\<rparr>" "\<lambda>_. good_env"]
  show ?thesis by (simp add: bs_def)
qed

text \<open>
  C38. Whatever bytes arrive and whatever fails, \<open>dcc_ws_recv\<close> returns, with a message exactly when it
  reports success; a message is text or binary and has at most 16 MiB, and the recorded close reason
  always fits its buffer of 124 bytes with the terminator.
\<close>

theorem ws_recv_bounds:
  assumes "length (close_reason ws) \<le> 123" "dcc_ws_recv E ws = (st, m, ws')"
  shows "(st = DCC_OK \<longleftrightarrow> m \<noteq> None) \<and> length (close_reason ws') \<le> 123
    \<and> (\<forall>msg. m = Some msg \<longrightarrow> msg_opcode msg \<in> {DCC_WS_TEXT, DCC_WS_BINARY}
         \<and> length (msg_data msg) \<le> DCC_WS_MAX_MESSAGE_BYTES)"
proof -
  have "result_fits (dcc_ws_recv E ws)"
    using recv_loop_fits [of None ws E 0] assms(1)
    by (auto simp: dcc_ws_recv_def result_fits_def frag_fits_def close_reason_fits_def)
  with assms(2) show ?thesis by (auto simp: result_fits_def close_reason_fits_def split: option.splits)
qed

theorem ws_recv_bounds_witness:
  "case dcc_ws_recv (\<lambda>_. good_env) sample_ws of (st, m, ws') \<Rightarrow> length (close_reason ws') \<le> 123 \<and> (st = DCC_OK \<longleftrightarrow> m \<noteq> None)"
proof -
  obtain st m ws' where r: "dcc_ws_recv (\<lambda>_. good_env) sample_ws = (st, m, ws')" by (metis surj_pair)
  have "length (close_reason sample_ws) \<le> 123" by (simp add: sample_ws_def)
  from ws_recv_bounds [OF this r] r show ?thesis by simp
qed

end
