(* ===== verification/DCC_Wire_Text.thy ===== *)
theory DCC_Wire_Text
  imports DCC_Net
begin

text \<open>
  What the HTTP client (\<^verbatim>\<open>src/http\<close>) and the WebSocket handshake (\<^verbatim>\<open>src/ws\<close>) have in common: growing
  buffers, the search for the blank line that ends a header block, the \<open>sscanf\<close> of a status line, and
  the split of a URL's authority into host and port. The two directories repeat this code; the
  definitions here are the shared shape of the copies and each client theory names its own copy.
\<close>

section \<open>Growing buffers\<close>

record 'b dcc_buffer =
  buf_data :: "'b list"
  buf_cap :: nat

definition empty_buffer :: "'b dcc_buffer" where
  "empty_buffer = \<lparr>buf_data = [], buf_cap = 0\<rparr>"

text \<open>The doubling loop: \<open>None\<close> when the next doubling would overflow a \<open>size_t\<close>.\<close>

function grow_cap :: "nat \<Rightarrow> nat \<Rightarrow> nat option" where
  "grow_cap cap needed =
     (if cap \<ge> needed then Some cap
      else if cap > SIZE_MAX div 2 \<or> cap = 0 then None
      else grow_cap (2 * cap) needed)"
  by pat_completeness auto
termination
  by (relation "measure (\<lambda>(cap, needed). needed - cap)") auto

declare grow_cap.simps [simp del]

lemma grow_cap_ge: "grow_cap cap needed = Some c \<Longrightarrow> needed \<le> c \<and> cap \<le> c"
  by (induction cap needed rule: grow_cap.induct) (auto simp: grow_cap.simps split: if_splits)

lemma grow_cap_returns:
  assumes "0 < cap" "needed \<le> SIZE_MAX div 2"
  shows "\<exists>c. grow_cap cap needed = Some c"
  using assms
proof (induction cap needed rule: grow_cap.induct)
  case (1 cap needed)
  show ?case
  proof (cases "cap \<ge> needed")
    case False
    then have "\<not> (cap > SIZE_MAX div 2 \<or> cap = 0)" using 1 by auto
    with False 1 show ?thesis by (simp add: grow_cap.simps [of cap])
  qed (simp add: grow_cap.simps)
qed

text \<open>Making room for \<open>needed\<close> bytes; \<open>ok\<close> is the outcome of \<open>realloc\<close>, \<open>None\<close> stands for \<open>-1\<close>.\<close>

definition reserve_cap :: "bool \<Rightarrow> nat \<Rightarrow> nat \<Rightarrow> nat option" where
  "reserve_cap ok cap needed =
     (if needed \<le> cap then Some cap
      else case grow_cap (if cap = 0 then 1024 else cap) needed of
        None \<Rightarrow> None
      | Some next_cap \<Rightarrow> if ok then Some next_cap else None)"

lemma reserve_cap_ge: "reserve_cap ok cap needed = Some c \<Longrightarrow> needed \<le> c"
  by (auto simp: reserve_cap_def split: if_splits option.splits dest: grow_cap_ge)

lemma reserve_cap_returns: "needed \<le> SIZE_MAX div 2 \<Longrightarrow> \<exists>c. reserve_cap True cap needed = Some c"
  using grow_cap_returns [of "if cap = 0 then 1024 else cap" needed] by (auto simp: reserve_cap_def)

section \<open>The end of a header block\<close>

definition crlf :: string where
  "crlf = [CHR 0x0D, CHR 0x0A]"

fun find_blank_line :: "string \<Rightarrow> nat option" where
  "find_blank_line (a # b # c # d # rest) =
     (if a = CHR 0x0D \<and> b = CHR 0x0A \<and> c = CHR 0x0D \<and> d = CHR 0x0A then Some 0
      else map_option Suc (find_blank_line (b # c # d # rest)))"
| "find_blank_line _ = None"

lemma find_blank_line_SomeD:
  "find_blank_line s = Some i \<Longrightarrow> i + 4 \<le> length s \<and> s = take i s @ crlf @ crlf @ drop (i + 4) s"
proof (induction s arbitrary: i rule: find_blank_line.induct)
  case (1 a b c d rest)
  show ?case
  proof (cases "a = CHR 0x0D \<and> b = CHR 0x0A \<and> c = CHR 0x0D \<and> d = CHR 0x0A")
    case True
    then show ?thesis using 1(2) by (auto simp: crlf_def)
  next
    case False
    then obtain j where j: "i = Suc j" "find_blank_line (b # c # d # rest) = Some j"
      using 1(2) by (auto split: if_splits)
    moreover have "drop (i + 4) (a # b # c # d # rest) = drop (j + 4) (b # c # d # rest)"
      by (simp only: j(1) add_Suc drop_Suc_Cons)
    ultimately show ?thesis using 1(1) [OF False, of j] by simp
  qed
qed auto

lemma find_blank_line_append: "find_blank_line s = Some i \<Longrightarrow> find_blank_line (s @ t) = Some i"
  by (induction s arbitrary: i rule: find_blank_line.induct) (auto split: if_splits)

lemma find_blank_line_late:
  "find_blank_line s = None \<Longrightarrow> find_blank_line (s @ t) = Some i \<Longrightarrow> length s < i + 4"
proof (induction s arbitrary: i rule: find_blank_line.induct)
  case (1 a b c d rest)
  then obtain j where "i = Suc j" "find_blank_line (b # c # d # rest @ t) = Some j"
    by (auto split: if_splits)
  with 1 show ?case by (auto split: if_splits)
qed (auto simp: less_Suc_eq_le numeral_eq_Suc)

lemma blank_line_skip: "CHR 0x0D \<noteq> x \<Longrightarrow> find_blank_line (x # ys) = map_option Suc (find_blank_line ys)"
  by (cases ys rule: find_blank_line.cases) auto

lemma blank_line_end: "CHR 0x0D \<notin> set l \<Longrightarrow> find_blank_line (l @ crlf @ crlf @ rest) = Some (length l)"
  by (induction l) (simp_all add: blank_line_skip, simp add: crlf_def)

lemma blank_line_next:
  assumes "CHR 0x0D \<notin> set l" "rest \<noteq> []" "hd rest \<noteq> CHR 0x0D"
  shows "find_blank_line (l @ crlf @ rest) = map_option (\<lambda>j. j + length l + 2) (find_blank_line rest)"
  using assms(1)
proof (induction l)
  case Nil
  obtain r rs where r: "rest = r # rs" "r \<noteq> CHR 0x0D" using assms(2,3) by (cases rest) auto
  then have "find_blank_line (crlf @ rest) = map_option Suc (find_blank_line (CHR 0x0A # rest))"
    by (cases rs) (auto simp: crlf_def)
  also have "find_blank_line (CHR 0x0A # rest) = map_option Suc (find_blank_line rest)"
    by (rule blank_line_skip) simp
  finally show ?case by (simp add: option.map_comp comp_def)
next
  case (Cons x l)
  then show ?case by (simp add: blank_line_skip option.map_comp comp_def)
qed

text \<open>Lines joined by line breaks, and the blank line that ends them.\<close>

definition join_lines :: "string \<Rightarrow> string list \<Rightarrow> string" where
  "join_lines l ls = l @ concat (map (\<lambda>x. crlf @ x) ls)"

definition line_ok :: "string \<Rightarrow> bool" where
  "line_ok l \<longleftrightarrow> l \<noteq> [] \<and> CHR 0x0D \<notin> set l"

lemma join_lines_Cons: "join_lines l (x # ls) = l @ crlf @ join_lines x ls"
  by (simp add: join_lines_def)

lemma join_lines_crlf: "l @ crlf @ concat (map (\<lambda>x. x @ crlf) ls) @ r = join_lines l ls @ crlf @ r"
proof (induction ls arbitrary: l)
  case (Cons x ls)
  then show ?case by (simp add: join_lines_Cons)
qed (simp add: join_lines_def)

lemma blank_line_join:
  "CHR 0x0D \<notin> set l \<Longrightarrow> list_all line_ok ls \<Longrightarrow>
    find_blank_line (join_lines l ls @ crlf @ crlf @ rest) = Some (length (join_lines l ls))"
proof (induction ls arbitrary: l)
  case Nil
  then show ?case by (simp add: join_lines_def blank_line_end)
next
  case (Cons x ls)
  then have x: "CHR 0x0D \<notin> set x" "x \<noteq> []" by (auto simp: line_ok_def)
  have hd: "join_lines x ls @ crlf @ crlf @ rest \<noteq> []" "hd (join_lines x ls @ crlf @ crlf @ rest) \<noteq> CHR 0x0D"
    using x by (cases x; auto simp: join_lines_def)+
  have "find_blank_line (l @ crlf @ (join_lines x ls @ crlf @ crlf @ rest))
      = map_option (\<lambda>j. j + length l + 2) (find_blank_line (join_lines x ls @ crlf @ crlf @ rest))"
    by (rule blank_line_next [OF Cons.prems(1) hd])
  with Cons.IH [OF x(1)] Cons.prems(2) show ?case
    by (simp add: join_lines_Cons) (simp add: crlf_def)
qed

section \<open>Status lines\<close>

text \<open>\<open>sscanf(text, "HTTP/%*u.%*u %u", &status)\<close>: \<open>%u\<close> converts like \<open>strtoul\<close> and keeps the low 32 bits.\<close>

definition scan_uint :: "string \<Rightarrow> (nat \<times> string) option" where
  "scan_uint s = (let (v, rest) = c_strtoul s in if length rest = length s then None else Some (v, rest))"

definition scan_http_status :: "string \<Rightarrow> u32 option" where
  "scan_http_status s =
     (if \<not> has_prefix s ''HTTP/'' then None
      else case scan_uint (drop 5 s) of
        None \<Rightarrow> None
      | Some (_, s1) \<Rightarrow>
          if s1 = [] \<or> hd s1 \<noteq> CHR ''.'' then None
          else case scan_uint (tl s1) of
            None \<Rightarrow> None
          | Some (_, s2) \<Rightarrow>
              (case scan_uint (dropWhile is_space s2) of None \<Rightarrow> None | Some (v, _) \<Rightarrow> Some (of_nat v)))"

lemma strtoul_digits_then:
  assumes "s \<noteq> []" "list_all is_digit s" "t = [] \<or> \<not> is_digit (hd t)"
  shows "c_strtoul (s @ t) = (min (dec_value s) (2 ^ 64 - 1), t)"
proof -
  obtain c cs where s: "s = c # cs"
    using assms(1) by (cases s) auto
  then have c: "is_digit c" using assms(2) by simp
  then have d: "dropWhile is_space (s @ t) = s @ t" "hd (s @ t) \<noteq> CHR ''-''" "hd (s @ t) \<noteq> CHR ''+''"
    using is_digit_not_space s by auto
  have "\<forall>x \<in> set s. is_digit x" using assms(2) by (simp add: list_all_iff)
  moreover have "takeWhile is_digit t = []" using assms(3) by (cases t) auto
  ultimately have "takeWhile is_digit (s @ t) = s" by (simp add: takeWhile_append2)
  with d show ?thesis
    using assms(1) by (simp add: c_strtoul_def Let_def)
qed

lemma scan_uint_digits:
  "s \<noteq> [] \<Longrightarrow> list_all is_digit s \<Longrightarrow> t = [] \<or> \<not> is_digit (hd t) \<Longrightarrow>
    scan_uint (s @ t) = Some (min (dec_value s) (2 ^ 64 - 1), t)"
  by (simp add: scan_uint_def strtoul_digits_then)

text \<open>A well-formed status line is read back.\<close>

lemma scan_http_status_line:
  assumes "n < 2 ^ 32" "t = [] \<or> \<not> is_digit (hd t)"
  shows "scan_http_status (''HTTP/1.1 '' @ dec_string n @ t) = Some (of_nat n)"
proof -
  have 1: "scan_uint (''1.1 '' @ dec_string n @ t) = Some (1, ''.1 '' @ dec_string n @ t)"
    using scan_uint_digits [of "''1''" "''.1 '' @ dec_string n @ t"] by (simp add: is_digit_def dec_value_def)
  have 2: "scan_uint (''1 '' @ dec_string n @ t) = Some (1, '' '' @ dec_string n @ t)"
    using scan_uint_digits [of "''1''" "'' '' @ dec_string n @ t"] by (simp add: is_digit_def dec_value_def)
  have "is_digit (hd (dec_string n))"
    using dec_string_digits [of n] dec_string_nonempty [of n] by (cases "dec_string n") auto
  then have "\<not> is_space (hd (dec_string n))" using is_digit_not_space by blast
  then have 3: "dropWhile is_space ('' '' @ dec_string n @ t) = dec_string n @ t"
    using dec_string_nonempty [of n] by (cases "dec_string n") (auto simp: is_space_def)
  have 4: "scan_uint (dec_string n @ t) = Some (n, t)"
    using scan_uint_digits [OF dec_string_nonempty dec_string_digits assms(2), of n] assms(1) by simp
  show ?thesis
    using 1 2 3 4 by (simp add: scan_http_status_def has_prefix_def)
qed

section \<open>Host and port\<close>

text \<open>The authority of a URL (from \<open>cursor\<close> to \<open>authority_end\<close>) split into host and optional port;
  \<open>None\<close> when a bracketed host is not closed.\<close>

definition split_authority :: "string \<Rightarrow> (string \<times> string option) option" where
  "split_authority a =
     (if a \<noteq> [] \<and> hd a = CHR ''['' then
        (case find_byte (CHR '']'') a of
           None \<Rightarrow> None
         | Some close \<Rightarrow>
             Some (take (close - 1) (tl a),
                   if close + 1 < length a \<and> a ! (close + 1) = CHR '':'' then Some (drop (close + 2) a) else None))
      else
        (case find_byte (CHR '':'') a of
           None \<Rightarrow> Some (a, None)
         | Some sep \<Rightarrow> Some (take sep a, Some (drop (sep + 1) a))))"

lemma split_authority_host_port:
  assumes "host \<noteq> []" "CHR '':'' \<notin> set host" "hd host \<noteq> CHR ''[''"
  shows "split_authority (host @ CHR '':'' # port) = Some (host, Some port)" "split_authority host = Some (host, None)"
proof -
  have "find_byte (CHR '':'') (host @ CHR '':'' # port) = Some (length host)"
    using assms(2) by (rule find_byte_append)
  with assms show "split_authority (host @ CHR '':'' # port) = Some (host, Some port)"
    by (simp add: split_authority_def hd_append)
  have "find_byte (CHR '':'') host = None" using assms(2) by simp
  with assms(3) show "split_authority host = Some (host, None)"
    by (simp only: split_authority_def) simp
qed

lemma split_authority_bracketed:
  assumes "CHR '']'' \<notin> set host"
  shows "split_authority (CHR ''['' # host @ CHR '']'' # CHR '':'' # port) = Some (host, Some port)"
    "split_authority (CHR ''['' # host @ [CHR '']'']) = Some (host, None)"
proof -
  have f: "find_byte (CHR '']'') (CHR ''['' # host @ CHR '']'' # t) = Some (Suc (length host))" for t
    using find_byte_append [of "CHR '']''" "CHR ''['' # host" t] assms by simp
  show "split_authority (CHR ''['' # host @ CHR '']'' # CHR '':'' # port) = Some (host, Some port)"
    using f [of "CHR '':'' # port"] by (simp add: split_authority_def nth_append)
  show "split_authority (CHR ''['' # host @ [CHR '']'']) = Some (host, None)"
    using f [of "[]"] by (simp add: split_authority_def)
qed

end
