(* ===== verification/DCC_Ws_Handshake.thy ===== *)
theory DCC_Ws_Handshake
  imports DCC_Ws DCC_Wire_Text
begin

text \<open>
  Opening a WebSocket: \<^verbatim>\<open>src/ws/dcc_ws_url.c\<close>, \<^verbatim>\<open>dcc_ws_handshake_buffer.c\<close>,
  \<^verbatim>\<open>dcc_ws_handshake_headers.c\<close>, \<^verbatim>\<open>dcc_ws_handshake_crypto.c\<close>, \<^verbatim>\<open>dcc_ws_handshake.c\<close> and
  \<^verbatim>\<open>dcc_ws_connect.c\<close>.

  SHA-1 and base64 are OpenSSL's: \<open>sha1\<close> and \<open>b64\<close> are arguments of the definitions that use them, and
  so are the random bytes of the key (\<open>None\<close> when the generator fails). Text of the handshake is a
  \<open>string\<close>; \<open>text_of\<close> reads the bytes of the connection as characters, \<open>bytes_of\<close> is its inverse.
\<close>

section \<open>Bytes and characters\<close>

definition text_of :: "u8 list \<Rightarrow> string" where
  "text_of bs = map (\<lambda>b. char_of (unat b)) bs"

definition bytes_of :: "string \<Rightarrow> u8 list" where
  "bytes_of s = map (\<lambda>c. of_nat (code c)) s"

text \<open>The C string in a buffer.\<close>

definition c_string :: "string \<Rightarrow> string" where
  "c_string s = takeWhile (\<lambda>c. code c \<noteq> 0) s"

lemma text_of_append [simp]: "text_of (a @ b) = text_of a @ text_of b"
  by (simp add: text_of_def)

lemma length_text_of [simp]: "length (text_of bs) = length bs"
  by (simp add: text_of_def)

lemma text_of_bytes_of [simp]: "text_of (bytes_of s) = s"
proof -
  have "char_of (unat (of_nat (code c) :: u8)) = c" for c :: char
    by (simp add: unat_of_nat)
  then show ?thesis by (simp add: text_of_def bytes_of_def comp_def)
qed

section \<open>URLs\<close>

record dcc_ws_url =
  ws_url_tls :: bool
  ws_url_host :: string
  ws_url_port :: string
  ws_url_path :: string

text \<open>The allocations of host, port and path are the three boolean arguments.\<close>

definition dcc_ws_parse_url :: "bool \<Rightarrow> bool \<Rightarrow> bool \<Rightarrow> string \<Rightarrow> dcc_status \<times> dcc_ws_url option" where
  "dcc_ws_parse_url host_ok port_ok path_ok raw =
     (case (if has_prefix raw ''wss://'' then Some (True, drop 6 raw)
            else if has_prefix raw ''ws://'' then Some (False, drop 5 raw) else None) of
        None \<Rightarrow> (DCC_ERR_INVALID_ARG, None)
      | Some (tls, cursor) \<Rightarrow>
          let slash = find_byte (CHR ''/'') cursor;
              query = find_byte (CHR ''?'') cursor;
              path = (if slash \<noteq> None \<and> (query = None \<or> the slash < the query) then slash else query);
              authority = (case path of None \<Rightarrow> cursor | Some i \<Rightarrow> take i cursor) in
          case split_authority authority of
            None \<Rightarrow> (DCC_ERR_INVALID_ARG, None)
          | Some (host, port) \<Rightarrow>
              if \<not> host_ok \<or> host = [] then (DCC_ERR_NOMEM, None)
              else
                let port_text = (case port of Some p \<Rightarrow> p | None \<Rightarrow> if tls then ''443'' else ''80'');
                    path_text = (case path of
                        None \<Rightarrow> ''/''
                      | Some i \<Rightarrow> if cursor ! i = CHR ''?'' then CHR ''/'' # drop i cursor else drop i cursor) in
                if \<not> port_ok \<or> \<not> path_ok \<or> port_text = [] then (DCC_ERR_NOMEM, None)
                else (DCC_OK, Some \<lparr>ws_url_tls = tls, ws_url_host = host, ws_url_port = port_text,
                                    ws_url_path = path_text\<rparr>))"

section \<open>The response headers\<close>

definition DCC_WS_MAX_HEADER_BYTES :: nat where
  "DCC_WS_MAX_HEADER_BYTES = 16384"

definition dcc_ws_buffer_append :: "bool \<Rightarrow> u8 dcc_buffer \<Rightarrow> u8 list \<Rightarrow> u8 dcc_buffer option" where
  "dcc_ws_buffer_append ok buf data =
     (if length data > SIZE_MAX - length (buf_data buf) then None
      else case reserve_cap ok (buf_cap buf) (length (buf_data buf) + length data) of
        None \<Rightarrow> None
      | Some cap \<Rightarrow> Some \<lparr>buf_data = buf_data buf @ data, buf_cap = cap\<rparr>)"

fun dcc_ws_ascii_ieq :: "string \<Rightarrow> string \<Rightarrow> bool" where
  "dcc_ws_ascii_ieq (a # as) (b # bs) \<longleftrightarrow> to_lower a = to_lower b \<and> dcc_ws_ascii_ieq as bs"
| "dcc_ws_ascii_ieq _ _ \<longleftrightarrow> True"

text \<open>\<open>strstr(s, "\r\n")\<close>.\<close>

fun find_crlf :: "string \<Rightarrow> nat option" where
  "find_crlf (a # b # s) =
     (if a = CHR 0x0D \<and> b = CHR 0x0A then Some 0 else map_option Suc (find_crlf (b # s)))"
| "find_crlf _ = None"

text \<open>The value runs on to the end of the text: the caller cuts it at the next line break.\<close>

function dcc_ws_header_value :: "string \<Rightarrow> string \<Rightarrow> string option" where
  "dcc_ws_header_value line name =
     (if line = [] then None
      else
        let nxt = find_crlf line;
            this = (case nxt of None \<Rightarrow> line | Some i \<Rightarrow> take i line);
            after = (case nxt of None \<Rightarrow> [] | Some i \<Rightarrow> drop i line) in
        case find_byte (CHR '':'') this of
          Some colon \<Rightarrow>
            if colon = length name \<and> dcc_ws_ascii_ieq (take colon this) name
            then Some (dropWhile (\<lambda>c. c = CHR '' '' \<or> c = CHR 0x09) (drop (colon + 1) this) @ after)
            else if nxt = None then None else dcc_ws_header_value (drop 2 after) name
        | None \<Rightarrow> if nxt = None then None else dcc_ws_header_value (drop 2 after) name)"
  by pat_completeness auto
termination
  by (relation "measure (length \<circ> fst)") (auto simp: Let_def split: option.splits)

declare dcc_ws_header_value.simps [simp del]

section \<open>The key\<close>

definition DCC_WS_GUID :: string where
  "DCC_WS_GUID = ''258EAFA5-E914-47DA-95CA-C5AB0DC85B11''"


definition dcc_ws_accept_for_key :: "(string \<Rightarrow> u8 list) \<Rightarrow> (u8 list \<Rightarrow> string) \<Rightarrow> string \<Rightarrow> string option" where
  "dcc_ws_accept_for_key sha1 b64 key =
     (let material = key @ DCC_WS_GUID in
      if length material \<ge> 128 then None
      else if length (b64 (sha1 material)) = 0 \<or> length (b64 (sha1 material)) \<ge> 64 then None
      else Some (b64 (sha1 material)))"

section \<open>Reading the response\<close>

text \<open>The read loop; \<open>allocs k\<close> is the outcome of the allocation of round \<open>k\<close>. The result is an error, or the
  buffer and the index of the blank line.\<close>

function read_response ::
  "(nat \<Rightarrow> bool) \<Rightarrow> nat \<Rightarrow> u8 dcc_conn \<Rightarrow> u8 dcc_buffer \<Rightarrow> (dcc_status + u8 dcc_buffer \<times> nat) \<times> u8 dcc_conn" where
  "read_response allocs k conn buf =
     (if \<not> length (buf_data buf) < DCC_WS_MAX_HEADER_BYTES then (Inl DCC_ERR_NETWORK, conn)
      else case dcc_conn_read conn 512 of
        (None, conn) \<Rightarrow> (Inl DCC_ERR_NETWORK, conn)
      | (Some [], conn) \<Rightarrow> (Inl DCC_ERR_NETWORK, conn)
      | (Some (b # bs), conn) \<Rightarrow>
          (case dcc_ws_buffer_append (allocs k) buf (b # bs) of
             None \<Rightarrow> (Inl DCC_ERR_NOMEM, conn)
           | Some buf \<Rightarrow>
               (case find_blank_line (text_of (buf_data buf)) of
                  Some header_end \<Rightarrow> (Inr (buf, header_end), conn)
                | None \<Rightarrow> read_response allocs (k + 1) conn buf)))"
  by pat_completeness auto

lemma ws_buffer_append_Some:
  "dcc_ws_buffer_append ok buf data = Some buf' \<Longrightarrow> buf_data buf' = buf_data buf @ data"
  by (auto simp: dcc_ws_buffer_append_def split: if_splits option.splits)

termination read_response
  by (relation "measure (\<lambda>(allocs, k, conn, buf). DCC_WS_MAX_HEADER_BYTES - length (buf_data buf))")
    (auto dest!: sym [THEN ws_buffer_append_Some] ws_buffer_append_Some)

declare read_response.simps [simp del]

definition dcc_ws_read_handshake ::
  "(string \<Rightarrow> u8 list) \<Rightarrow> (u8 list \<Rightarrow> string) \<Rightarrow> (nat \<Rightarrow> bool) \<Rightarrow> bool \<Rightarrow> bool \<Rightarrow> dcc_ws \<Rightarrow> string \<Rightarrow> dcc_status \<times> dcc_ws" where
  "dcc_ws_read_handshake sha1 b64 allocs nul_ok rx_ok ws key =
     (case read_response allocs 0 (ws_conn ws) empty_buffer of
        (Inl st, conn) \<Rightarrow> (st, ws\<lparr>ws_conn := conn\<rparr>)
      | (Inr (response, header_end), conn) \<Rightarrow>
          let ws = ws\<lparr>ws_conn := conn\<rparr>;
              wire_len = length (buf_data response) in
          case dcc_ws_buffer_append nul_ok response [0] of
            None \<Rightarrow> (DCC_ERR_NOMEM, ws)
          | Some terminated \<Rightarrow>
              let txt = c_string (text_of (buf_data terminated)) in
              if scan_http_status txt \<noteq> Some 101 then (DCC_ERR_NETWORK, ws)
              else case dcc_ws_accept_for_key sha1 b64 key of
                None \<Rightarrow> (DCC_ERR_TLS, ws)
              | Some expected \<Rightarrow>
                  (case dcc_ws_header_value txt ''Sec-WebSocket-Accept'' of
                     None \<Rightarrow> (DCC_ERR_NETWORK, ws)
                   | Some acc \<Rightarrow>
                       let accept = (case find_crlf acc of None \<Rightarrow> acc | Some i \<Rightarrow> take i acc) in
                       if accept \<noteq> expected then (DCC_ERR_NETWORK, ws)
                       else
                         let header_bytes = header_end + 4 in
                         if wire_len > header_bytes then
                           if \<not> rx_ok then (DCC_ERR_NOMEM, ws)
                           else (DCC_OK, ws\<lparr>rx_buf := drop header_bytes (buf_data response), rx_pos := 0\<rparr>)
                         else (DCC_OK, ws)))"


section \<open>Connecting\<close>




section \<open>The response is read without losing a byte\<close>

lemma read_response_Inr:
  "read_response allocs k conn buf = (Inr (buf', i), conn') \<Longrightarrow>
    buf_data buf' @ incoming conn' = buf_data buf @ incoming conn
    \<and> find_blank_line (text_of (buf_data buf')) = Some i \<and> conn' = conn\<lparr>conn_reads := conn_reads conn'\<rparr>
    \<and> length (buf_data buf') < DCC_WS_MAX_HEADER_BYTES + 512"
proof (induction allocs k conn buf arbitrary: buf' i conn' rule: read_response.induct)
  case (1 allocs k conn buf)
  have lt: "length (buf_data buf) < DCC_WS_MAX_HEADER_BYTES"
    using 1(2) by (auto simp: read_response.simps [of allocs k] split: if_splits)
  obtain r c1 where rd: "dcc_conn_read conn 512 = (r, c1)" by fastforce
  obtain b bs where r: "r = Some (b # bs)"
    using 1(2) lt rd by (auto simp: read_response.simps [of allocs k] split: option.splits list.splits)
  obtain buf1 where ap: "dcc_ws_buffer_append (allocs k) buf (b # bs) = Some buf1"
    using 1(2) lt rd r by (auto simp: read_response.simps [of allocs k] split: option.splits)
  have st: "incoming conn = (b # bs) @ incoming c1" "c1 = conn\<lparr>conn_reads := conn_reads c1\<rparr>" "length (b # bs) \<le> 512"
    using conn_read_stream [OF _ rd] r by auto
  have d1: "buf_data buf1 = buf_data buf @ b # bs" using ws_buffer_append_Some [OF ap] .
  show ?case
  proof (cases "find_blank_line (text_of (buf_data buf1))")
    case None
    then have "read_response allocs (k + 1) c1 buf1 = (Inr (buf', i), conn')"
      using 1(2) lt rd r ap by (simp add: read_response.simps [of allocs k])
    from 1(1) [OF _ rd [symmetric] r refl ap None this] lt
    have IH: "buf_data buf' @ incoming conn' = buf_data buf1 @ incoming c1"
      "find_blank_line (text_of (buf_data buf')) = Some i" "conn' = c1\<lparr>conn_reads := conn_reads conn'\<rparr>"
      "length (buf_data buf') < DCC_WS_MAX_HEADER_BYTES + 512" by auto
    moreover have "conn' = conn\<lparr>conn_reads := conn_reads conn'\<rparr>"
      by (subst IH(3), subst st(2)) simp
    ultimately show ?thesis using st(1) d1 by simp
  next
    case (Some j)
    then have "buf' = buf1" "i = j" "conn' = c1"
      using 1(2) lt rd r ap by (auto simp: read_response.simps [of allocs k])
    with Some st d1 lt show ?thesis by auto
  qed
qed

lemma read_response_Inl: "read_response allocs k conn buf = (Inl st, conn') \<Longrightarrow> st \<noteq> DCC_OK"
proof (induction allocs k conn buf arbitrary: conn' rule: read_response.induct)
  case (1 allocs k conn buf)
  have rec: "st \<noteq> DCC_OK" if "length (buf_data buf) < DCC_WS_MAX_HEADER_BYTES" "dcc_conn_read conn 512 = (Some (b # bs), c1)"
      "dcc_ws_buffer_append (allocs k) buf (b # bs) = Some buf1" "find_blank_line (text_of (buf_data buf1)) = None"
      "read_response allocs (k + 1) c1 buf1 = (Inl st, conn')" for b bs c1 buf1
    using 1(1) [OF _ that(2) [symmetric] refl refl that(3-5)] that(1) by simp
  show ?case
    using 1(2) rec unfolding read_response.simps [of allocs k conn buf]
    by (simp split: if_splits prod.splits option.splits list.splits)
qed

lemma c_string_nul: "c_string (s @ [char_of (0 :: nat)]) = c_string s"
  by (induction s) (simp_all add: c_string_def)

lemma text_nul: "text_of [0] = [char_of (0 :: nat)]"
  by (simp add: text_of_def)

definition cut_line :: "string \<Rightarrow> string" where
  "cut_line s = (case find_crlf s of None \<Rightarrow> s | Some i \<Rightarrow> take i s)"

lemma handshake_OK:
  assumes "dcc_ws_read_handshake sha1 b64 allocs nul_ok rx_ok ws key = (DCC_OK, ws')" "rx_buf ws = []"
  obtains i n expected acc where "find_blank_line (text_of (incoming (ws_conn ws))) = Some i"
    "unread ws' = drop (i + 4) (incoming (ws_conn ws))" "i + 4 \<le> n"
    "scan_http_status (c_string (text_of (take n (incoming (ws_conn ws))))) = Some 101"
    "dcc_ws_accept_for_key sha1 b64 key = Some expected"
    "dcc_ws_header_value (c_string (text_of (take n (incoming (ws_conn ws))))) ''Sec-WebSocket-Accept'' = Some acc"
    "cut_line acc = expected"
    "\<exists>es b p. ws' = ws\<lparr>ws_conn := (ws_conn ws)\<lparr>conn_reads := es\<rparr>, rx_buf := b, rx_pos := p\<rparr>"
proof -
  obtain buf i conn where rr: "read_response allocs 0 (ws_conn ws) empty_buffer = (Inr (buf, i), conn)"
    using assms(1)
    by (cases "read_response allocs 0 (ws_conn ws) empty_buffer"; cases "fst (read_response allocs 0 (ws_conn ws) empty_buffer)")
      (auto simp: dcc_ws_read_handshake_def dest: read_response_Inl)
  have all: "buf_data buf @ incoming conn = incoming (ws_conn ws)" and i: "find_blank_line (text_of (buf_data buf)) = Some i"
    and conn: "conn = (ws_conn ws)\<lparr>conn_reads := conn_reads conn\<rparr>"
    using read_response_Inr [OF rr] by (auto simp: empty_buffer_def)
  define n where "n = length (buf_data buf)"
  define rtext where "rtext = c_string (text_of (take n (incoming (ws_conn ws))))"
  have taken: "take n (incoming (ws_conn ws)) = buf_data buf" and dropped: "drop n (incoming (ws_conn ws)) = incoming conn"
    by (simp_all add: n_def all [symmetric])
  obtain nulbuf where nb: "dcc_ws_buffer_append nul_ok buf [0] = Some nulbuf"
    using assms(1) rr by (auto simp: dcc_ws_read_handshake_def Let_def split: option.splits)
  have rtext: "c_string (text_of (buf_data nulbuf)) = rtext"
    using ws_buffer_append_Some [OF nb] by (simp add: rtext_def taken text_nul c_string_nul)
  have le: "i + 4 \<le> n" using find_blank_line_SomeD [OF i] by (simp add: n_def)
  obtain expected acc where c: "scan_http_status rtext = Some 101" "dcc_ws_accept_for_key sha1 b64 key = Some expected"
      "dcc_ws_header_value rtext ''Sec-WebSocket-Accept'' = Some acc" "cut_line acc = expected"
    and ws': "ws' = (if n > i + 4 then ws\<lparr>ws_conn := conn, rx_buf := drop (i + 4) (buf_data buf), rx_pos := 0\<rparr> else ws\<lparr>ws_conn := conn\<rparr>)"
    using assms(1) rr nb rtext
    by (simp add: dcc_ws_read_handshake_def Let_def cut_line_def n_def split: if_splits option.splits)
  have "find_blank_line (text_of (incoming (ws_conn ws))) = Some i"
    using find_blank_line_append [OF i, of "text_of (incoming conn)"] all by (metis text_of_append)
  moreover have "unread ws' = drop (i + 4) (incoming (ws_conn ws))"
    using le assms(2) by (auto simp: ws' unread_def all [symmetric] n_def)
  moreover have "\<exists>es b p. ws' = ws\<lparr>ws_conn := (ws_conn ws)\<lparr>conn_reads := es\<rparr>, rx_buf := b, rx_pos := p\<rparr>"
  proof -
    have "ws' = ws\<lparr>ws_conn := (ws_conn ws)\<lparr>conn_reads := conn_reads conn\<rparr>, rx_buf := rx_buf ws', rx_pos := rx_pos ws'\<rparr>"
      using conn by (simp add: ws')
    then show ?thesis by blast
  qed
  ultimately show thesis
    using that le c unfolding rtext_def by blast
qed


section \<open>A conforming response is accepted\<close>

lemma find_crlf_append: "CHR 0x0D \<notin> set l \<Longrightarrow> find_crlf (l @ crlf @ rest) = Some (length l)"
proof (induction l)
  case (Cons a l)
  then show ?case by (cases l) (auto simp: crlf_def)
qed (simp add: crlf_def)

lemma header_value_line:
  assumes "CHR 0x0D \<notin> set l"
  shows "dcc_ws_header_value (l @ crlf @ rest) name =
     (case find_byte (CHR '':'') l of
        Some colon \<Rightarrow>
          if colon = length name \<and> dcc_ws_ascii_ieq (take colon l) name
          then Some (dropWhile (\<lambda>c. c = CHR '' '' \<or> c = CHR 0x09) (drop (colon + 1) l) @ crlf @ rest)
          else dcc_ws_header_value rest name
      | None \<Rightarrow> dcc_ws_header_value rest name)"
proof -
  have ne: "(l @ crlf @ rest = []) = False" and c: "length crlf = 2" "drop 2 crlf = []"
    by (auto simp: crlf_def)
  show ?thesis
    unfolding dcc_ws_header_value.simps [of "l @ crlf @ rest"] ne find_crlf_append [OF assms]
    by (cases "find_byte (CHR '':'') l") (auto simp: Let_def c simp del: find_byte_None)
qed

definition ws_header_line :: "string \<times> string \<Rightarrow> string" where
  "ws_header_line h = fst h @ '': '' @ snd h"

definition ws_header_ok :: "string \<times> string \<Rightarrow> bool" where
  "ws_header_ok h \<longleftrightarrow> CHR '':'' \<notin> set (fst h) \<and> list_all (\<lambda>c. c \<noteq> CHR 0x0D \<and> code c \<noteq> 0) (fst h @ snd h)
     \<and> (snd h = [] \<or> hd (snd h) \<noteq> CHR '' '' \<and> hd (snd h) \<noteq> CHR 0x09)"

definition same_name :: "string \<Rightarrow> string \<times> string \<Rightarrow> bool" where
  "same_name name h \<longleftrightarrow> length (fst h) = length name \<and> dcc_ws_ascii_ieq (fst h) name"

lemma header_value_header:
  assumes "ws_header_ok h"
  shows "dcc_ws_header_value (ws_header_line h @ crlf @ rest) name =
     (if same_name name h then Some (snd h @ crlf @ rest) else dcc_ws_header_value rest name)"
proof -
  have "CHR 0x0D \<notin> set (ws_header_line h)"
    using assms by (auto simp: ws_header_ok_def ws_header_line_def list_all_iff)
  moreover have "find_byte (CHR '':'') (ws_header_line h) = Some (length (fst h))"
    using find_byte_append [of "CHR '':''" "fst h" "'' '' @ snd h"] assms
    by (simp add: ws_header_line_def ws_header_ok_def)
  moreover have "dropWhile (\<lambda>c. c = CHR '' '' \<or> c = CHR 0x09) (snd h) = snd h"
    using assms by (cases "snd h") (auto simp: ws_header_ok_def)
  moreover have "take (length (fst h)) (ws_header_line h) = fst h" "drop (length (fst h) + 1) (ws_header_line h) = CHR '' '' # snd h"
    by (simp_all add: ws_header_line_def)
  ultimately show ?thesis
    using header_value_line [of "ws_header_line h" rest name] by (auto simp: same_name_def)
qed

text \<open>The response head of a server: the status line and the header lines, closed by a blank line.\<close>

definition ws_response_head :: "(string \<times> string) list \<Rightarrow> string" where
  "ws_response_head hs =
     ''HTTP/1.1 101 Switching Protocols'' @ crlf @ concat (map (\<lambda>h. ws_header_line h @ crlf) hs) @ crlf"

lemma header_value_headers:
  "list_all ws_header_ok hs \<Longrightarrow> find (same_name name) hs = Some h \<Longrightarrow>
    \<exists>more. dcc_ws_header_value (concat (map (\<lambda>h. ws_header_line h @ crlf) hs) @ rest) name = Some (snd h @ crlf @ more)"
proof (induction hs)
  case (Cons g hs)
  then show ?case
    using header_value_header [of g "concat (map (\<lambda>h. ws_header_line h @ crlf) hs) @ rest" name]
    by (auto split: if_splits)
qed simp

lemma header_value_head:
  assumes "list_all ws_header_ok hs" "find (same_name name) hs = Some h"
  shows "\<exists>more. dcc_ws_header_value (ws_response_head hs @ rest) name = Some (snd h @ crlf @ more)"
proof -
  have l: "CHR 0x0D \<notin> set ''HTTP/1.1 101 Switching Protocols''" "CHR '':'' \<notin> set ''HTTP/1.1 101 Switching Protocols''"
    by simp_all
  have "dcc_ws_header_value (ws_response_head hs @ rest) name =
      dcc_ws_header_value (concat (map (\<lambda>h. ws_header_line h @ crlf) hs) @ crlf @ rest) name"
    using header_value_line [OF l(1), of "concat (map (\<lambda>h. ws_header_line h @ crlf) hs) @ crlf @ rest" name]
    by (simp add: ws_response_head_def)
  with header_value_headers [OF assms] show ?thesis by metis
qed

lemma response_head_status: "scan_http_status (ws_response_head hs @ rest) = Some 101"
proof -
  have "dec_string 101 = ''101''" by code_simp
  then show ?thesis
    using scan_http_status_line [of 101 "'' Switching Protocols'' @ crlf @ concat (map (\<lambda>h. ws_header_line h @ crlf) hs) @ crlf @ rest"]
    by (simp add: ws_response_head_def is_digit_def)
qed

lemma response_head_text: "list_all ws_header_ok hs \<Longrightarrow> c_string (ws_response_head hs @ rest) = ws_response_head hs @ c_string rest"
proof -
  assume "list_all ws_header_ok hs"
  then have "\<forall>c \<in> set (ws_response_head hs). code c \<noteq> 0"
    by (auto simp: ws_response_head_def crlf_def ws_header_line_def ws_header_ok_def list_all_iff)
  then show ?thesis by (simp add: c_string_def takeWhile_append2)
qed

lemma header_line_text: "ws_header_ok h \<Longrightarrow> CHR 0x0D \<notin> set (ws_header_line h) \<and> ws_header_line h \<noteq> [] \<and> hd (ws_header_line h) \<noteq> CHR 0x0D"
  by (cases "fst h") (auto simp: ws_header_ok_def ws_header_line_def list_all_iff)

lemma response_head_join: "ws_response_head hs = join_lines ''HTTP/1.1 101 Switching Protocols'' (map ws_header_line hs) @ crlf @ crlf"
  using join_lines_crlf [of "''HTTP/1.1 101 Switching Protocols''" "map ws_header_line hs"]
  by (simp add: ws_response_head_def comp_def)

lemma response_head_end:
  assumes "list_all ws_header_ok hs"
  shows "find_blank_line (ws_response_head hs @ rest) = Some (length (ws_response_head hs) - 4)"
proof -
  have "list_all line_ok (map ws_header_line hs)"
    using assms header_line_text by (auto simp: list_all_iff line_ok_def)
  with blank_line_join [of "''HTTP/1.1 101 Switching Protocols''" "map ws_header_line hs" rest] show ?thesis
    by (simp add: response_head_join crlf_def)
qed

lemma response_head_length: "4 \<le> length (ws_response_head hs)"
  by (simp add: ws_response_head_def)

text \<open>The loop finds the blank line of a head that fits the limit.\<close>

lemma ws_buffer_append_ok:
  "length (buf_data buf) + length data \<le> SIZE_MAX div 2 \<Longrightarrow> \<exists>buf'. dcc_ws_buffer_append True buf data = Some buf'"
  using reserve_cap_returns [of "length (buf_data buf) + length data" "buf_cap buf"]
  by (auto simp: dcc_ws_buffer_append_def)

lemma read_response_finds:
  assumes "find_blank_line (text_of (buf_data buf @ incoming conn)) = Some i" "i + 4 \<le> DCC_WS_MAX_HEADER_BYTES"
    and "find_blank_line (text_of (buf_data buf)) = None" "\<And>k. allocs k"
  shows "\<exists>buf' conn'. read_response allocs k conn buf = (Inr (buf', i), conn')"
  using assms(1,3,4)
proof (induction allocs k conn buf rule: read_response.induct)
  case (1 allocs k conn buf)
  have late: "length (buf_data buf) < i + 4"
    using find_blank_line_late [of "text_of (buf_data buf)" "text_of (incoming conn)" i] 1(2,3) by simp
  then have lt: "length (buf_data buf) < DCC_WS_MAX_HEADER_BYTES" using assms(2) by simp
  have ne: "incoming conn \<noteq> []" using 1(2,3) by (auto simp: text_of_def)
  obtain r c1 where rd: "dcc_conn_read conn 512 = (r, c1)" by fastforce
  obtain b bs where r: "r = Some (b # bs)" "incoming conn = (b # bs) @ incoming c1" "length (b # bs) \<le> 512"
  proof (cases r)
    case None
    then show thesis using conn_read_stream [OF _ rd] ne by simp
  next
    case (Some x)
    then show thesis using conn_read_stream [OF _ rd] ne that by (cases x) auto
  qed
  have "length (buf_data buf) + length (b # bs) \<le> SIZE_MAX div 2"
    using lt r(3) by (simp add: SIZE_MAX_def DCC_WS_MAX_HEADER_BYTES_def)
  then obtain buf1 where ap: "dcc_ws_buffer_append (allocs k) buf (b # bs) = Some buf1"
    using ws_buffer_append_ok 1(4) by metis
  then have d1: "buf_data buf1 @ incoming c1 = buf_data buf @ incoming conn"
    using ws_buffer_append_Some [OF ap] r(2) by simp
  show ?case
  proof (cases "find_blank_line (text_of (buf_data buf1))")
    case None
    have "find_blank_line (text_of (buf_data buf1 @ incoming c1)) = Some i" using 1(2) unfolding d1 .
    moreover have "\<not> \<not> length (buf_data buf) < DCC_WS_MAX_HEADER_BYTES" using lt by simp
    ultimately have "\<exists>buf' conn'. read_response allocs (k + 1) c1 buf1 = (Inr (buf', i), conn')"
      using 1(1) [OF _ rd [symmetric] r(1) refl ap None] None 1(4) by blast
    with lt rd r ap None show ?thesis
      by (simp add: read_response.simps [of allocs k])
  next
    case (Some j)
    then have "j = i"
      using find_blank_line_append [OF Some, of "text_of (incoming c1)"] d1 1(2) by (metis option.inject text_of_append)
    with Some lt rd r ap show ?thesis by (simp add: read_response.simps [of allocs k])
  qed
qed


definition ws_expect :: "(string \<Rightarrow> u8 list) \<Rightarrow> (u8 list \<Rightarrow> string) \<Rightarrow> string \<Rightarrow> (string \<times> string) list \<Rightarrow> bool" where
  "ws_expect sha1 b64 key hs \<longleftrightarrow> list_all ws_header_ok hs
     \<and> length (ws_response_head hs) \<le> DCC_WS_MAX_HEADER_BYTES
     \<and> (case find (same_name ''Sec-WebSocket-Accept'') hs of
          None \<Rightarrow> False | Some h \<Rightarrow> dcc_ws_accept_for_key sha1 b64 key = Some (snd h))"

lemma handshake_accepts:
  assumes "ws_expect sha1 b64 key hs" "text_of (incoming (ws_conn ws)) = ws_response_head hs @ rest" "\<And>k. allocs k"
  shows "\<exists>ws'. dcc_ws_read_handshake sha1 b64 allocs True True ws key = (DCC_OK, ws')"
proof -
  obtain h where h: "find (same_name ''Sec-WebSocket-Accept'') hs = Some h" "dcc_ws_accept_for_key sha1 b64 key = Some (snd h)"
    and ok: "list_all ws_header_ok hs" and lim: "length (ws_response_head hs) \<le> DCC_WS_MAX_HEADER_BYTES"
    using assms(1) by (auto simp: ws_expect_def split: option.splits)
  define i where "i = length (ws_response_head hs) - 4"
  have i4: "i + 4 = length (ws_response_head hs)" using response_head_length [of hs] by (simp add: i_def)
  have "find_blank_line (text_of (buf_data empty_buffer @ incoming (ws_conn ws))) = Some i"
    using response_head_end [OF ok, of rest] assms(2) by (simp add: empty_buffer_def i_def)
  moreover have "find_blank_line (text_of (buf_data (empty_buffer :: u8 dcc_buffer))) = None"
    by (simp add: empty_buffer_def text_of_def)
  ultimately obtain buf conn where rr: "read_response allocs 0 (ws_conn ws) empty_buffer = (Inr (buf, i), conn)"
    using read_response_finds [of empty_buffer "ws_conn ws" i allocs 0] assms(3) i4 lim by auto
  have all: "text_of (buf_data buf) @ text_of (incoming conn) = ws_response_head hs @ rest"
    and "find_blank_line (text_of (buf_data buf)) = Some i"
    using read_response_Inr [OF rr] assms(2) by (auto simp: empty_buffer_def text_of_append [symmetric] simp del: text_of_append)
  then have len: "length (ws_response_head hs) \<le> length (buf_data buf)"
    using find_blank_line_SomeD [of "text_of (buf_data buf)" i] i4 by simp
  then have "take (length (ws_response_head hs)) (text_of (buf_data buf)) = ws_response_head hs"
    using arg_cong [OF all, of "take (length (ws_response_head hs))"] by simp
  then obtain junk where buf: "text_of (buf_data buf) = ws_response_head hs @ junk"
    by (metis append_take_drop_id)
  have "length (buf_data buf) + length [0 :: u8] \<le> SIZE_MAX div 2"
    using read_response_Inr [OF rr] by (simp add: SIZE_MAX_def DCC_WS_MAX_HEADER_BYTES_def)
  then obtain nulbuf where nb: "dcc_ws_buffer_append True buf [0] = Some nulbuf"
    using ws_buffer_append_ok by blast
  have t: "c_string (text_of (buf_data nulbuf)) = ws_response_head hs @ c_string junk"
    using ws_buffer_append_Some [OF nb] buf response_head_text [OF ok] c_string_nul [of "ws_response_head hs @ junk"]
    by (simp add: text_nul)
  obtain more where hv: "dcc_ws_header_value (ws_response_head hs @ c_string junk) ''Sec-WebSocket-Accept'' = Some (snd h @ crlf @ more)"
    using header_value_head [OF ok h(1)] by blast
  have "h \<in> set hs" using h(1) by (auto simp: find_Some_iff)
  then have "ws_header_ok h" using ok by (simp add: list_all_iff)
  then have "CHR 0x0D \<notin> set (snd h)" by (auto simp: ws_header_ok_def list_all_iff)
  then have "find_crlf (snd h @ crlf @ more) = Some (length (snd h))" by (rule find_crlf_append)
  with rr nb t h(2) hv response_head_status [of hs "c_string junk"] show ?thesis
    by (simp add: dcc_ws_read_handshake_def Let_def)
qed

section \<open>Where the path of a URL starts\<close>

lemma find_byte_skip: "c \<notin> set a \<Longrightarrow> find_byte c (a @ b) = map_option (\<lambda>i. i + length a) (find_byte c b)"
  by (induction a) (auto simp: option.map_comp comp_def option.map_ident)

definition path_index :: "string \<Rightarrow> nat option" where
  "path_index cursor =
     (let slash = find_byte (CHR ''/'') cursor; query = find_byte (CHR ''?'') cursor in
      if slash \<noteq> None \<and> (query = None \<or> the slash < the query) then slash else query)"

lemma path_index_authority:
  assumes "CHR ''/'' \<notin> set a" "CHR ''?'' \<notin> set a" "path = [] \<or> hd path = CHR ''/'' \<or> hd path = CHR ''?''"
  shows "path_index (a @ path) = (if path = [] then None else Some (length a))"
proof (cases path)
  case Nil
  then have "find_byte (CHR ''/'') (a @ path) = None" "find_byte (CHR ''?'') (a @ path) = None" using assms by auto
  with Nil show ?thesis by (simp only: path_index_def) simp
next
  case (Cons c p)
  then show ?thesis
    using assms by (auto simp: path_index_def find_byte_skip Let_def simp del: find_byte_None)
qed

lemma parse_url_alt:
  assumes "CHR ''/'' \<notin> set a" "CHR ''?'' \<notin> set a" "path = [] \<or> hd path = CHR ''/'' \<or> hd path = CHR ''?''"
  shows "dcc_ws_parse_url True True True ((if tls then ''wss://'' else ''ws://'') @ a @ path) =
     (case split_authority a of
        None \<Rightarrow> (DCC_ERR_INVALID_ARG, None)
      | Some (host, port) \<Rightarrow>
          let port_text = (case port of Some p \<Rightarrow> p | None \<Rightarrow> if tls then ''443'' else ''80'');
              path_text = (if path = [] then ''/'' else if hd path = CHR ''?'' then CHR ''/'' # path else path) in
          if host = [] \<or> port_text = [] then (DCC_ERR_NOMEM, None)
          else (DCC_OK, Some \<lparr>ws_url_tls = tls, ws_url_host = host, ws_url_port = port_text, ws_url_path = path_text\<rparr>))"
proof -
  let ?url = "(if tls then ''wss://'' else ''ws://'') @ a @ path"
  have scheme: "(if has_prefix ?url ''wss://'' then Some (True, drop 6 ?url)
      else if has_prefix ?url ''ws://'' then Some (False, drop 5 ?url) else None) = Some (tls, a @ path)"
    by (simp add: has_prefix_def)
  have pi: "(if find_byte (CHR ''/'') (a @ path) \<noteq> None \<and> (find_byte (CHR ''?'') (a @ path) = None
        \<or> the (find_byte (CHR ''/'') (a @ path)) < the (find_byte (CHR ''?'') (a @ path)))
      then find_byte (CHR ''/'') (a @ path) else find_byte (CHR ''?'') (a @ path))
      = (if path = [] then None else Some (length a))"
    using path_index_authority [OF assms] by (simp only: path_index_def Let_def)
  show ?thesis
    unfolding dcc_ws_parse_url_def scheme option.case prod.case Let_def pi
    by (cases path) (auto simp: nth_append split: option.split)
qed

section \<open>Properties\<close>

text \<open>
  Parsing a \<open>ws\<close> or \<open>wss\<close> URL recovers its parts: host and port, a host in brackets (IPv6), the
  default ports, and a path that is made to start with a slash when the URL goes straight to its query.
  An empty host or an empty port is refused.
\<close>

theorem ws_url_parse:
  assumes "CHR ''/'' \<notin> set (host @ port)" "CHR ''?'' \<notin> set (host @ port)" "CHR '']'' \<notin> set host"
    and "bracketed \<or> CHR '':'' \<notin> set host \<and> (host = [] \<or> hd host \<noteq> CHR ''['')"
    and "path = [] \<or> hd path = CHR ''/'' \<or> hd path = CHR ''?''"
  shows "dcc_ws_parse_url True True True
     ((if tls then ''wss://'' else ''ws://'') @ (if bracketed then CHR ''['' # host @ '']'' else host)
       @ (if with_port then CHR '':'' # port else []) @ path) =
   (if host = [] \<or> with_port \<and> port = [] then (DCC_ERR_NOMEM, None)
    else (DCC_OK, Some \<lparr>ws_url_tls = tls, ws_url_host = host,
       ws_url_port = (if with_port then port else if tls then ''443'' else ''80''),
       ws_url_path = (if path = [] then ''/'' else if hd path = CHR ''?'' then CHR ''/'' # path else path)\<rparr>))"
proof -
  define a where "a = (if bracketed then CHR ''['' # host @ '']'' else host) @ (if with_port then CHR '':'' # port else [])"
  have "CHR ''/'' \<notin> set a" "CHR ''?'' \<notin> set a"
    using assms(1,2) by (auto simp: a_def)
  note alt = parse_url_alt [OF this assms(5), of tls]
  have split: "split_authority a = Some (host, if with_port then Some port else None)"
  proof (cases bracketed)
    case True
    with split_authority_bracketed [OF assms(3)] show ?thesis by (simp add: a_def)
  next
    case False
    show ?thesis
    proof (cases "host = []")
      case True
      then show ?thesis using False by (simp add: a_def split_authority_def)
    next
      case ne: False
      with False split_authority_host_port [of host] assms(4) show ?thesis by (simp add: a_def)
    qed
  qed
  show ?thesis
    using alt unfolding split by (simp add: a_def)
qed

theorem ws_url_parse_witness:
  "dcc_ws_parse_url True True True ''wss://gateway.discord.gg?v=10'' =
     (DCC_OK, Some \<lparr>ws_url_tls = True, ws_url_host = ''gateway.discord.gg'', ws_url_port = ''443'', ws_url_path = ''/?v=10''\<rparr>)"
  using ws_url_parse [of "''gateway.discord.gg''" "[]" False "''?v=10''" True False] by simp

definition toy_sha1 :: "string \<Rightarrow> u8 list" where "toy_sha1 s = replicate 20 (of_nat (length s))"
definition toy_b64 :: "u8 list \<Rightarrow> string" where "toy_b64 bs = map (\<lambda>_. CHR ''A'') bs"

definition sample_headers :: "(string \<times> string) list" where
  "sample_headers = [(''Upgrade'', ''websocket''), (''sec-websocket-ACCEPT'', replicate 20 CHR ''A'')]"

definition sample_client :: dcc_ws where
  "sample_client = sample_ws\<lparr>rx_buf := [], rx_pos := 0,
     ws_conn := (ws_conn sample_ws)\<lparr>conn_reads :=
       [Read_bytes (take 60 (bytes_of (ws_response_head sample_headers))), Read_error SSL_ERROR_WANT_READ (Some 1),
        Read_bytes (drop 60 (bytes_of (ws_response_head sample_headers)) @ [0x88]), Read_bytes [0]]\<rparr>\<rparr>"

lemma sample_client_stream: "incoming (ws_conn sample_client) = bytes_of (ws_response_head sample_headers) @ [0x88, 0]"
proof -
  have "take 60 (bytes_of (ws_response_head sample_headers)) \<noteq> []" by (simp add: ws_response_head_def bytes_of_def)
  moreover have "take 60 (bytes_of (ws_response_head sample_headers)) @ drop 60 (bytes_of (ws_response_head sample_headers)) @ xs
      = bytes_of (ws_response_head sample_headers) @ xs" for xs
    by (metis append.assoc append_take_drop_id)
  ultimately show ?thesis
    by (simp add: sample_client_def sample_ws_def dcc_conn_wait_ssl_def poll_ready_def POLLIN_def del: take_eq_Nil)
qed

lemma sample_expect: "ws_expect toy_sha1 toy_b64 ''key'' sample_headers"
proof -
  have "list_all ws_header_ok sample_headers" "find (same_name ''Sec-WebSocket-Accept'') sample_headers = Some (sample_headers ! 1)"
    "dcc_ws_accept_for_key toy_sha1 toy_b64 ''key'' = Some (snd (sample_headers ! 1))"
    "length (ws_response_head sample_headers) \<le> DCC_WS_MAX_HEADER_BYTES"
    by code_simp+
  then show ?thesis by (simp add: ws_expect_def)
qed

text \<open>
  A handshake that succeeds has checked the server and loses nothing: the response carries
  status 101 and the accept value of the key, and what the connection delivers from then on is exactly what follows
  the first blank line of the stream, however much of it was read with the header.
\<close>

theorem ws_handshake_safe:
  assumes "dcc_ws_read_handshake sha1 b64 allocs nul_ok rx_ok ws key = (DCC_OK, ws')" "rx_buf ws = []"
  shows "\<exists>i n acc. find_blank_line (text_of (incoming (ws_conn ws))) = Some i
    \<and> unread ws' = drop (i + 4) (incoming (ws_conn ws)) \<and> i + 4 \<le> n
    \<and> scan_http_status (c_string (text_of (take n (incoming (ws_conn ws))))) = Some 101
    \<and> dcc_ws_header_value (c_string (text_of (take n (incoming (ws_conn ws))))) ''Sec-WebSocket-Accept'' = Some acc
    \<and> dcc_ws_accept_for_key sha1 b64 key = Some (cut_line acc)"
  by (rule handshake_OK [OF assms]) blast

theorem ws_handshake_safe_witness:
  "\<exists>ws' i. dcc_ws_read_handshake toy_sha1 toy_b64 (\<lambda>_. True) True True sample_client ''key'' = (DCC_OK, ws')
     \<and> unread ws' = drop (i + 4) (bytes_of (ws_response_head sample_headers) @ [0x88, 0])"
proof -
  have "text_of (incoming (ws_conn sample_client)) = ws_response_head sample_headers @ text_of [0x88, 0]"
    by (simp add: sample_client_stream)
  then obtain ws' where "dcc_ws_read_handshake toy_sha1 toy_b64 (\<lambda>_. True) True True sample_client ''key'' = (DCC_OK, ws')"
    using handshake_accepts [OF sample_expect, of sample_client _ "\<lambda>_. True"] by auto
  moreover have "rx_buf sample_client = []" by (simp add: sample_client_def)
  ultimately show ?thesis
    using ws_handshake_safe [of toy_sha1 toy_b64 "\<lambda>_. True" True True sample_client "''key''" ws']
    by (auto simp: sample_client_stream)
qed










end
