(* ===== verification/DCC_Http.thy ===== *)
theory DCC_Http
  imports DCC_Wire_Text
begin

text \<open>
  The HTTP client of \<^verbatim>\<open>src/http\<close>: buffers, URLs, the request text, the exchange over a connection, and
  the response with its header block and its plain or chunked body.

  The text of a message is a \<open>string\<close>, the connection carries characters. The cancellation callback of
  a request is an input: the list of its answers, in the order of the calls. The descriptor the
  request publishes while it runs (\<open>swap_fd\<close>) is not modelled.
\<close>

section \<open>Buffers\<close>

type_synonym http_buffer = "char dcc_buffer"

text \<open>\<open>dcc_http_buffer_append\<close>, which keeps room for a terminator; \<open>None\<close> stands for \<open>-1\<close>.\<close>

definition dcc_http_buffer_reserve :: "bool \<Rightarrow> http_buffer \<Rightarrow> nat \<Rightarrow> nat option" where
  "dcc_http_buffer_reserve ok buf extra =
     (if extra > SIZE_MAX - length (buf_data buf) then None
      else reserve_cap ok (buf_cap buf) (length (buf_data buf) + extra))"

definition dcc_http_buffer_append :: "bool \<Rightarrow> http_buffer \<Rightarrow> string \<Rightarrow> http_buffer option" where
  "dcc_http_buffer_append ok buf data =
     (if length data \<ge> SIZE_MAX - length (buf_data buf) then None
      else case dcc_http_buffer_reserve ok buf (length data + 1) of
        None \<Rightarrow> None
      | Some cap \<Rightarrow> Some \<lparr>buf_data = buf_data buf @ data, buf_cap = cap\<rparr>)"

text \<open>A chain of appends, each with the outcome of its allocation, as the code writes with \<open>||\<close>.\<close>

fun append_all :: "(nat \<Rightarrow> bool) \<Rightarrow> nat \<Rightarrow> http_buffer \<Rightarrow> string list \<Rightarrow> http_buffer option" where
  "append_all oks k buf [] = Some buf"
| "append_all oks k buf (s # ss) =
     (case dcc_http_buffer_append (oks k) buf s of None \<Rightarrow> None | Some buf \<Rightarrow> append_all oks (k + 1) buf ss)"

section \<open>URLs\<close>

record dcc_http_url_parts =
  url_tls :: bool
  url_host :: string
  url_port :: string
  url_path :: string

definition dcc_http_parse_url :: "bool \<Rightarrow> bool \<Rightarrow> bool \<Rightarrow> string \<Rightarrow> dcc_status \<times> dcc_http_url_parts option" where
  "dcc_http_parse_url host_ok port_ok path_ok url =
     (case (if has_prefix url ''https://'' then Some (True, drop 8 url)
            else if has_prefix url ''http://'' then Some (False, drop 7 url) else None) of
        None \<Rightarrow> (DCC_ERR_INVALID_ARG, None)
      | Some (tls, cursor) \<Rightarrow>
          let path = find_byte (CHR ''/'') cursor;
              authority = (case path of None \<Rightarrow> cursor | Some i \<Rightarrow> take i cursor) in
          case split_authority authority of
            None \<Rightarrow> (DCC_ERR_INVALID_ARG, None)
          | Some (host, port) \<Rightarrow>
              if \<not> host_ok \<or> host = [] then (DCC_ERR_NOMEM, None)
              else
                let port_text = (case port of Some p \<Rightarrow> p | None \<Rightarrow> if tls then ''443'' else ''80'');
                    path_text = (case path of None \<Rightarrow> ''/'' | Some i \<Rightarrow> drop i cursor) in
                if \<not> port_ok \<or> \<not> path_ok \<or> port_text = [] then (DCC_ERR_NOMEM, None)
                else (DCC_OK, Some \<lparr>url_tls = tls, url_host = host, url_port = port_text, url_path = path_text\<rparr>))"

section \<open>Requests\<close>

record dcc_http_request =
  rq_method :: "string option"
  rq_url :: "string option"
  rq_headers :: "(string option \<times> string option) list"
  rq_body :: "string option"
  rq_body_len :: nat
  rq_timeout_ms :: int

fun dcc_http_header_name_equal :: "string \<Rightarrow> string \<Rightarrow> bool" where
  "dcc_http_header_name_equal (x # xs) (y # ys) \<longleftrightarrow> to_lower x = to_lower y \<and> dcc_http_header_name_equal xs ys"
| "dcc_http_header_name_equal [] [] \<longleftrightarrow> True"
| "dcc_http_header_name_equal _ _ \<longleftrightarrow> False"

definition dcc_http_request_has_header :: "dcc_http_request \<Rightarrow> string \<Rightarrow> bool" where
  "dcc_http_request_has_header request name \<longleftrightarrow>
     list_ex (\<lambda>h. case fst h of None \<Rightarrow> False | Some n \<Rightarrow> dcc_http_header_name_equal n name) (rq_headers request)"

definition header_pieces :: "(string option \<times> string option) list \<Rightarrow> string list" where
  "header_pieces hs = concat (map (\<lambda>h. case h of (Some n, Some v) \<Rightarrow> [n, '': '', v, crlf] | _ \<Rightarrow> []) hs)"

definition request_pieces :: "dcc_http_request \<Rightarrow> dcc_http_url_parts \<Rightarrow> string list" where
  "request_pieces request url =
     [case rq_method request of Some mth \<Rightarrow> mth | None \<Rightarrow> ''GET'', '' '', url_path url, '' HTTP/1.1'' @ crlf,
      ''Host: '', url_host url, crlf @ ''User-Agent: DCC/0.1'' @ crlf @ ''Connection: close'' @ crlf]
     @ (if dcc_http_request_has_header request ''Content-Length'' then []
        else [''Content-Length: '' @ dec_string (rq_body_len request) @ crlf])
     @ header_pieces (rq_headers request)
     @ [crlf]
     @ (case rq_body request of None \<Rightarrow> [] | Some body \<Rightarrow> if rq_body_len request > 0 then [take (rq_body_len request) body] else [])"

definition dcc_http_build_request ::
  "(nat \<Rightarrow> bool) \<Rightarrow> dcc_http_request \<Rightarrow> dcc_http_url_parts \<Rightarrow> dcc_status \<times> http_buffer" where
  "dcc_http_build_request oks request url =
     (case append_all oks 0 empty_buffer (request_pieces request url) of
        None \<Rightarrow> (DCC_ERR_NOMEM, empty_buffer)
      | Some buf \<Rightarrow> (DCC_OK, buf))"

section \<open>Responses\<close>

record dcc_http_response =
  rs_status :: u16
  rs_headers :: string
  rs_body :: string

definition dcc_http_hex_digit :: "char \<Rightarrow> nat option" where
  "dcc_http_hex_digit c =
     (let n = code c in
      if 48 \<le> n \<and> n \<le> 57 then Some (n - 48)
      else if 97 \<le> n \<and> n \<le> 102 then Some (n - 97 + 10)
      else if 65 \<le> n \<and> n \<le> 70 then Some (n - 65 + 10)
      else None)"

definition not_eol :: "char \<Rightarrow> bool" where
  "not_eol c \<longleftrightarrow> c \<noteq> CHR 0x0D \<and> c \<noteq> CHR 0x0A"

text \<open>The chunk size line: the length, whether a digit was seen, and the rest of the body; \<open>None\<close> is an error.\<close>

fun chunk_size :: "u64 \<Rightarrow> bool \<Rightarrow> string \<Rightarrow> (u64 \<times> bool \<times> string) option" where
  "chunk_size len saw [] = Some (len, saw, [])"
| "chunk_size len saw (c # body) =
     (if c = CHR '';'' then Some (len, saw, dropWhile not_eol body)
      else if \<not> not_eol c then Some (len, saw, c # body)
      else case dcc_http_hex_digit c of
        None \<Rightarrow> None
      | Some h \<Rightarrow>
          if len > drop_bit 4 UINT64_MAX then None
          else chunk_size (push_bit 4 len OR of_nat h) True body)"

definition starts_crlf :: "string \<Rightarrow> bool" where
  "starts_crlf body \<longleftrightarrow> has_prefix body crlf"

lemma chunk_size_le: "chunk_size len saw body = Some (n, saw', rest) \<Longrightarrow> length rest \<le> length body"
proof (induction len saw body rule: chunk_size.induct)
  case (2 len saw c body)
  then show ?case
    by (auto split: if_splits option.splits intro: le_SucI simp: length_dropWhile_le)
qed simp

lemma less_length_body: "body \<noteq> [] \<Longrightarrow> n \<le> length body \<Longrightarrow> n - Suc m < length body"
  by (cases body) auto

text \<open>The decoding loop; the outcome is the status, with what was decoded on success. After the
  last chunk the code scans the trailer and succeeds whether or not it finds its end.\<close>

function dcc_http_decode_chunked_body :: "(nat \<Rightarrow> bool) \<Rightarrow> nat \<Rightarrow> string \<Rightarrow> http_buffer \<Rightarrow> dcc_status \<times> http_buffer" where
  "dcc_http_decode_chunked_body oks k body out =
     (if body = [] then (DCC_ERR_NETWORK, out)
      else case chunk_size 0 False body of
        None \<Rightarrow> (DCC_ERR_NETWORK, out)
      | Some (chunk_len, saw_digit, body1) \<Rightarrow>
          if \<not> saw_digit \<or> \<not> starts_crlf body1 then (DCC_ERR_NETWORK, out)
          else
            let body2 = drop 2 body1 in
            if chunk_len = 0 then (DCC_OK, out)
            else if unat chunk_len > length body2 then (DCC_ERR_NETWORK, out)
            else case dcc_http_buffer_append (oks k) out (take (unat chunk_len) body2) of
              None \<Rightarrow> (DCC_ERR_NOMEM, out)
            | Some out \<Rightarrow>
                let body3 = drop (unat chunk_len) body2 in
                if \<not> starts_crlf body3 then (DCC_ERR_NETWORK, out)
                else dcc_http_decode_chunked_body oks (k + 1) (drop 2 body3) out)"
  by pat_completeness auto
termination
  by (relation "measure (\<lambda>(oks, k, body, out). length body)")
    (auto simp: Let_def not_less less_length_body dest!: sym [THEN chunk_size_le] chunk_size_le)

declare dcc_http_decode_chunked_body.simps [simp del]

text \<open>The search for a header field whose value contains a token, ignoring case.\<close>

fun dcc_http_ascii_ieq_n :: "string \<Rightarrow> string \<Rightarrow> nat \<Rightarrow> bool" where
  "dcc_http_ascii_ieq_n lhs rhs 0 \<longleftrightarrow> True"
| "dcc_http_ascii_ieq_n (x # lhs) (y # rhs) (Suc n) \<longleftrightarrow> to_lower x = to_lower y \<and> dcc_http_ascii_ieq_n lhs rhs n"
| "dcc_http_ascii_ieq_n _ _ (Suc n) \<longleftrightarrow> False"

fun value_contains :: "string \<Rightarrow> string \<Rightarrow> bool" where
  "value_contains value token =
     (if length token > length value then False
      else if dcc_http_ascii_ieq_n value token (length token) then True
      else case value of [] \<Rightarrow> False | _ # rest \<Rightarrow> value_contains rest token)"

declare value_contains.simps [simp del]

definition line_contains :: "string \<Rightarrow> string \<Rightarrow> string \<Rightarrow> bool" where
  "line_contains line name token \<longleftrightarrow>
     (case find_byte (CHR '':'') line of
        None \<Rightarrow> False
      | Some colon \<Rightarrow> colon = length name \<and> dcc_http_ascii_ieq_n line name (length name)
          \<and> value_contains (dropWhile (\<lambda>c. c = CHR '' '' \<or> c = CHR 0x09) (drop (colon + 1) line)) token)"

function dcc_http_headers_token_contains :: "string \<Rightarrow> string \<Rightarrow> string \<Rightarrow> bool" where
  "dcc_http_headers_token_contains headers name token =
     (if headers = [] then False
      else
        let line = takeWhile (\<lambda>c. c \<noteq> CHR 0x0A) headers;
            rest = drop (length line + 1) headers;
            rest = (if rest \<noteq> [] \<and> hd rest = CHR 0x0D then tl rest else rest) in
        if line_contains line name token then True
        else dcc_http_headers_token_contains rest name token)"
  by pat_completeness auto
termination
  by (relation "measure (\<lambda>(headers, name, token). length headers)") (auto simp: Let_def less_length_body)

declare dcc_http_headers_token_contains.simps [simp del]

text \<open>\<open>dcc_http_parse_response\<close>; the allocations of the headers, of the chunks and of the body are arguments.\<close>

definition dcc_http_parse_response ::
  "bool \<Rightarrow> (nat \<Rightarrow> bool) \<Rightarrow> bool \<Rightarrow> string \<Rightarrow> dcc_status \<times> dcc_http_response option" where
  "dcc_http_parse_response headers_ok oks body_ok raw =
     (case find_blank_line raw of
        None \<Rightarrow> (DCC_ERR_NETWORK, None)
      | Some headers_len \<Rightarrow>
          if CHR 0x0A \<notin> set (take headers_len raw) then (DCC_ERR_NETWORK, None)
          else case scan_http_status (takeWhile (\<lambda>c. code c \<noteq> 0) raw) of
            None \<Rightarrow> (DCC_ERR_NETWORK, None)
          | Some status \<Rightarrow>
              if unat status > 65535 then (DCC_ERR_NETWORK, None)
              else if \<not> headers_ok then (DCC_ERR_NOMEM, None)
              else
                let headers = take headers_len raw;
                    raw_body = drop (headers_len + 4) raw;
                    (st, body) =
                      (if dcc_http_headers_token_contains headers ''Transfer-Encoding'' ''chunked'' then
                         (case dcc_http_decode_chunked_body oks 0 raw_body empty_buffer of (st, out) \<Rightarrow> (st, buf_data out))
                       else (DCC_OK, raw_body)) in
                if st \<noteq> DCC_OK then (st, None)
                else if \<not> body_ok then (DCC_ERR_NOMEM, None)
                else (DCC_OK, Some \<lparr>rs_status = ucast status, rs_headers = headers, rs_body = body\<rparr>))"

section \<open>The exchange\<close>

text \<open>\<open>dcc_http_request_canceled\<close>: the next answer of the callback; with no answer left it says no.\<close>

fun dcc_http_request_canceled :: "bool list \<Rightarrow> bool \<times> bool list" where
  "dcc_http_request_canceled [] = (False, [])"
| "dcc_http_request_canceled (b # bs) = (b, bs)"

fun read_total :: "char read_event list \<Rightarrow> nat" where
  "read_total [] = 0"
| "read_total (Read_bytes bs # es) = Suc (length bs) + read_total es"
| "read_total (Read_error e p # es) = Suc (read_total es)"

lemma take_Cons_less: "take n xs = b # bs \<Longrightarrow> n < length xs \<Longrightarrow> length xs + t - n < length xs + t"
  by (cases n) auto

lemma read_tls_total: "read_tls n es = (Some (b # bs), es') \<Longrightarrow> read_total es' < read_total es"
  by (induction n es rule: read_tls.induct) (auto simp: Let_def split: if_splits intro: take_Cons_less)

lemma read_plain_total: "read_plain n es = (Some (b # bs), es') \<Longrightarrow> read_total es' < read_total es"
  by (cases "(n, es)" rule: read_plain.cases) (auto split: if_splits intro: take_Cons_less)

lemma conn_read_total:
  "dcc_conn_read c n = (Some (b # bs), c') \<Longrightarrow> read_total (conn_reads c') < read_total (conn_reads c)"
  by (auto simp: dcc_conn_read_def split: prod.splits if_splits dest: read_tls_total read_plain_total)

text \<open>The read loop to the end of the stream.\<close>

function exchange_read ::
  "(nat \<Rightarrow> bool) \<Rightarrow> nat \<Rightarrow> bool list \<Rightarrow> char dcc_conn \<Rightarrow> http_buffer \<Rightarrow> dcc_status \<times> http_buffer \<times> bool list" where
  "exchange_read oks k cancels conn buf =
     (case dcc_http_request_canceled cancels of
        (True, cancels) \<Rightarrow> (DCC_ERR_CANCELED, buf, cancels)
      | (False, cancels) \<Rightarrow>
          (case dcc_conn_read conn 8192 of
             (Some [], _) \<Rightarrow> (DCC_OK, buf, cancels)
           | (None, _) \<Rightarrow>
               (case dcc_http_request_canceled cancels of
                  (c, cancels) \<Rightarrow> (if c then DCC_ERR_CANCELED else DCC_ERR_NETWORK, buf, cancels))
           | (Some (b # bs), conn) \<Rightarrow>
               (case dcc_http_buffer_append (oks k) buf (b # bs) of
                  None \<Rightarrow> (DCC_ERR_NOMEM, buf, cancels)
                | Some buf \<Rightarrow> exchange_read oks (k + 1) cancels conn buf)))"
  by pat_completeness auto
termination
  by (relation "measure (\<lambda>(oks, k, cancels, conn, buf). read_total (conn_reads conn))")
    (auto dest!: sym [THEN conn_read_total])

declare exchange_read.simps [simp del]

text \<open>\<open>dcc_http_exchange_wire\<close>, with the connection as opened (or the status of the failure), the request
  text and the answers of the cancellation callback.\<close>

definition dcc_http_exchange_wire ::
  "(nat \<Rightarrow> bool) \<Rightarrow> bool list \<Rightarrow> dcc_status \<times> char dcc_conn option \<Rightarrow> string \<Rightarrow> dcc_status \<times> http_buffer \<times> bool list" where
  "dcc_http_exchange_wire oks cancels opened wire_request =
     (case opened of
        (st, None) \<Rightarrow> (st, empty_buffer, cancels)
      | (st, Some conn) \<Rightarrow>
          if st \<noteq> DCC_OK then (st, empty_buffer, cancels)
          else case dcc_http_request_canceled cancels of
            (True, cancels) \<Rightarrow> (DCC_ERR_CANCELED, empty_buffer, cancels)
          | (False, cancels) \<Rightarrow>
              (case dcc_conn_write_all conn wire_request of
                 (False, _) \<Rightarrow>
                   (case dcc_http_request_canceled cancels of
                      (c, cancels) \<Rightarrow> (if c then DCC_ERR_CANCELED else DCC_ERR_NETWORK, empty_buffer, cancels))
               | (True, conn) \<Rightarrow> exchange_read oks 0 cancels conn empty_buffer))"

text \<open>What the environment does during one request.\<close>

record http_env =
  he_url_allocs :: "bool \<times> bool \<times> bool"
  he_request_allocs :: "nat \<Rightarrow> bool"
  he_wire_allocs :: "nat \<Rightarrow> bool"
  he_headers_alloc :: bool
  he_chunk_allocs :: "nat \<Rightarrow> bool"
  he_body_alloc :: bool
  he_cancels :: "bool list"
  he_tcp :: "int option"
  he_nonblocking :: bool
  he_tls :: bool
  he_reads :: "char read_event list"
  he_writes :: "write_event list"

definition dcc_http_perform :: "http_env \<Rightarrow> dcc_http_request \<Rightarrow> dcc_status \<times> dcc_http_response option" where
  "dcc_http_perform he request =
     (case rq_url request of
        None \<Rightarrow> (DCC_ERR_INVALID_ARG, None)
      | Some raw_url \<Rightarrow>
          case dcc_http_request_canceled (he_cancels he) of
            (True, _) \<Rightarrow> (DCC_ERR_CANCELED, None)
          | (False, cancels) \<Rightarrow>
              case he_url_allocs he of (host_ok, port_ok, path_ok) \<Rightarrow>
              case dcc_http_parse_url host_ok port_ok path_ok raw_url of
                (st, None) \<Rightarrow> (st, None)
              | (_, Some url) \<Rightarrow>
                  case dcc_http_build_request (he_request_allocs he) request url of
                    (st, wire_request) \<Rightarrow>
                      if st \<noteq> DCC_OK then (st, None)
                      else case dcc_http_request_canceled cancels of
                        (True, _) \<Rightarrow> (DCC_ERR_CANCELED, None)
                      | (False, cancels) \<Rightarrow>
                          case dcc_http_exchange_wire (he_wire_allocs he) cancels
                                 (dcc_conn_open (he_tcp he) (he_nonblocking he) (he_tls he) (he_reads he) (he_writes he)
                                    \<lparr>opt_host = Some (url_host url), opt_port = Some (url_port url), opt_use_tls = url_tls url,
                                     opt_timeout_ms = rq_timeout_ms request\<rparr>)
                                 (buf_data wire_request) of
                            (st, wire_response, cancels) \<Rightarrow>
                              if st \<noteq> DCC_OK then (st, None)
                              else
                                let parsed = dcc_http_parse_response (he_headers_alloc he) (he_chunk_allocs he) (he_body_alloc he)
                                               (buf_data wire_response) in
                                case dcc_http_request_canceled cancels of
                                  (True, _) \<Rightarrow> (DCC_ERR_CANCELED, None)
                                | (False, _) \<Rightarrow> parsed)"

section \<open>Reading to the end of the stream\<close>

text \<open>Whether the transport ends in an orderly close, after the bytes of \<open>stream_of\<close>.\<close>

fun closes :: "bool \<Rightarrow> 'b read_event list \<Rightarrow> bool" where
  "closes tls [] \<longleftrightarrow> False"
| "closes tls (Read_bytes bs # es) \<longleftrightarrow> bs = [] \<or> closes tls es"
| "closes tls (Read_error e poll # es) \<longleftrightarrow>
     tls \<and> (e = SSL_ERROR_ZERO_RETURN \<or> dcc_conn_wait_ssl e poll \<and> closes tls es)"

lemma read_tls_closes:
  "0 < n \<Longrightarrow> read_tls n es = (r, es') \<Longrightarrow>
    closes True es = (case r of None \<Rightarrow> False | Some [] \<Rightarrow> True | Some (b # bs) \<Rightarrow> closes True es')"
proof (induction n es rule: read_tls.induct)
  case (2 n bs es)
  then show ?case by (cases bs) (auto simp: Let_def take_Cons' min_def INT32_MAX_def split: if_splits)
next
  case (3 n e poll es)
  then show ?case
    by (cases "e = SSL_ERROR_ZERO_RETURN"; cases "dcc_conn_wait_ssl e poll") (auto simp: dcc_conn_wait_ssl_def)
qed auto

lemma read_plain_closes:
  "0 < n \<Longrightarrow> read_plain n es = (r, es') \<Longrightarrow>
    closes False es = (case r of None \<Rightarrow> False | Some [] \<Rightarrow> True | Some (b # bs) \<Rightarrow> closes False es')"
proof (cases "(n, es)" rule: read_plain.cases)
  case (2 m bs fs)
  assume "0 < n" "read_plain n es = (r, es')"
  with 2 show ?thesis by (cases bs) (auto simp: take_Cons' split: if_splits)
qed auto

lemma conn_read_closes:
  assumes "0 < n" "dcc_conn_read c n = (r, c')"
  shows "closes (conn_use_tls c) (conn_reads c) =
    (case r of None \<Rightarrow> False | Some [] \<Rightarrow> True | Some (b # bs) \<Rightarrow> closes (conn_use_tls c') (conn_reads c'))"
proof (cases "conn_use_tls c")
  case True
  then obtain es where "read_tls n (conn_reads c) = (r, es)" "c' = c\<lparr>conn_reads := es\<rparr>"
    using assms(2) by (auto simp: dcc_conn_read_def split: prod.splits)
  with read_tls_closes [OF assms(1), of "conn_reads c" r es] True show ?thesis by (simp split: option.splits list.splits)
next
  case False
  then obtain es where "read_plain n (conn_reads c) = (r, es)" "c' = c\<lparr>conn_reads := es\<rparr>"
    using assms(2) by (auto simp: dcc_conn_read_def split: prod.splits)
  with read_plain_closes [OF assms(1), of "conn_reads c" r es] False show ?thesis by (simp split: option.splits list.splits)
qed

lemma http_append_Some: "dcc_http_buffer_append ok buf data = Some buf' \<Longrightarrow> buf_data buf' = buf_data buf @ data"
  by (auto simp: dcc_http_buffer_append_def split: if_splits option.splits)

lemma http_append_ok:
  "length (buf_data buf) + length data + 1 \<le> SIZE_MAX div 2 \<Longrightarrow> \<exists>buf'. dcc_http_buffer_append True buf data = Some buf'"
  using reserve_cap_returns [of "length (buf_data buf) + length data + 1" "buf_cap buf"]
  by (auto simp: dcc_http_buffer_append_def dcc_http_buffer_reserve_def SIZE_MAX_def)

lemma exchange_read_stream:
  assumes "\<And>k. oks k" "length (buf_data buf) + length (incoming conn) + 1 \<le> SIZE_MAX div 2"
  shows "\<exists>buf'. exchange_read oks k [] conn buf =
      (if closes (conn_use_tls conn) (conn_reads conn) then DCC_OK else DCC_ERR_NETWORK, buf', [])
    \<and> buf_data buf' = buf_data buf @ incoming conn"
  using assms(2)
proof (induction "read_total (conn_reads conn)" arbitrary: k conn buf rule: less_induct)
  case less
  obtain r c1 where rd: "dcc_conn_read conn 8192 = (r, c1)" by fastforce
  have st: "case r of None \<Rightarrow> incoming conn = []
      | Some bs \<Rightarrow> (if bs = [] then incoming conn = [] else incoming conn = bs @ incoming c1)"
    using conn_read_stream [OF _ rd] by (cases r) auto
  have cl: "closes (conn_use_tls conn) (conn_reads conn) =
      (case r of None \<Rightarrow> False | Some [] \<Rightarrow> True | Some (b # bs) \<Rightarrow> closes (conn_use_tls c1) (conn_reads c1))"
    using conn_read_closes [OF _ rd] by simp
  consider (fail) "r = None" | (eof) "r = Some []" | (more) b bs where "r = Some (b # bs)"
    by (cases r; cases "the r") auto
  then show ?case
  proof cases
    case more
    then have inc: "incoming conn = (b # bs) @ incoming c1" using st by simp
    have "length (buf_data buf) + length (b # bs) + 1 \<le> SIZE_MAX div 2" using less.prems inc by simp
    then obtain buf1 where ap: "dcc_http_buffer_append (oks k) buf (b # bs) = Some buf1"
      using http_append_ok assms(1) by metis
    have d1: "buf_data buf1 = buf_data buf @ b # bs" by (rule http_append_Some [OF ap])
    have lim: "length (buf_data buf1) + length (incoming c1) + 1 \<le> SIZE_MAX div 2" using less.prems d1 inc by simp
    have eq: "exchange_read oks k [] conn buf = exchange_read oks (k + 1) [] c1 buf1"
      using rd more ap by (simp add: exchange_read.simps [of oks k])
    have "\<exists>buf'. exchange_read oks (k + 1) [] c1 buf1 =
          (if closes (conn_use_tls c1) (conn_reads c1) then DCC_OK else DCC_ERR_NETWORK, buf', [])
        \<and> buf_data buf' = buf_data buf1 @ incoming c1"
      using less.hyps [OF conn_read_total [OF rd [unfolded more]] lim] .
    then show ?thesis unfolding eq using cl more d1 inc by simp
  qed (use rd st cl in \<open>simp_all add: exchange_read.simps [of oks k]\<close>)
qed

lemma append_all_ok:
  assumes "\<And>k. oks k" "length (buf_data buf) + length (concat ss) + 1 \<le> SIZE_MAX div 2"
  shows "\<exists>buf'. append_all oks k buf ss = Some buf' \<and> buf_data buf' = buf_data buf @ concat ss"
  using assms(2)
proof (induction ss arbitrary: k buf)
  case (Cons s ss)
  then obtain buf1 where ap: "dcc_http_buffer_append (oks k) buf s = Some buf1"
    using http_append_ok [of buf s] assms(1) by auto
  with http_append_Some [OF ap] Cons.IH [of buf1 "k + 1"] Cons.prems show ?case by auto
qed simp

section \<open>Chunked bodies\<close>

text \<open>The reference encoder: each chunk with its length in hexadecimal and an optional extension.\<close>

definition hex_char :: "nat \<Rightarrow> char" where
  "hex_char d = (if d < 10 then char_of (48 + d) else char_of (87 + d))"

fun hex_string :: "nat \<Rightarrow> string" where
  "hex_string n = (if n < 16 then [hex_char n] else hex_string (n div 16) @ [hex_char (n mod 16)])"

declare hex_string.simps [simp del]

definition ext_ok :: "string \<Rightarrow> bool" where
  "ext_ok ext \<longleftrightarrow> ext = [] \<or> hd ext = CHR '';'' \<and> list_all not_eol ext"

definition encode_chunk :: "string \<times> string \<Rightarrow> string" where
  "encode_chunk c = (case c of (ext, d) \<Rightarrow> hex_string (length d) @ ext @ crlf @ d @ crlf)"

lemma hex_char_digit:
  assumes "d < 16"
  shows "dcc_http_hex_digit (hex_char d) = Some d" "hex_char d \<noteq> CHR '';''" "not_eol (hex_char d)"
proof -
  have c: "code (hex_char d) = (if d < 10 then 48 + d else 87 + d)"
    using assms by (simp add: hex_char_def)
  then show "dcc_http_hex_digit (hex_char d) = Some d"
    using assms by (simp add: dcc_http_hex_digit_def Let_def)
  have "code (hex_char d) \<noteq> code (CHR '';'')" "code (hex_char d) \<noteq> code (CHR 0x0D)" "code (hex_char d) \<noteq> code (CHR 0x0A)"
    using assms unfolding c by auto
  then show "hex_char d \<noteq> CHR '';''" "not_eol (hex_char d)"
    by (auto simp: not_eol_def)
qed

lemma hex_append_digit:
  assumes "m < 16"
  shows "push_bit 4 (of_nat k :: u64) OR of_nat m = of_nat (16 * k + m)"
proof -
  have m: "(of_nat m :: u64) = take_bit 4 (of_nat m)"
    using assms by (simp add: take_bit_of_nat take_bit_nat_eq_self)
  have "push_bit 4 (of_nat k :: u64) AND take_bit 4 (of_nat m) = 0"
    by (rule bit_word_eqI) (auto simp: bit_simps)
  then have "push_bit 4 (of_nat k :: u64) OR of_nat m = push_bit 4 (of_nat k) + of_nat m"
    using m disjunctive_add_eq_or [of "push_bit 4 (of_nat k :: u64)" "of_nat m"] by simp
  then show ?thesis by (simp add: push_bit_eq_mult mult.commute)
qed

lemma chunk_size_digit:
  assumes "d < 16" "k < 2 ^ 60"
  shows "chunk_size (of_nat k) saw (hex_char d # rest) = chunk_size (of_nat (16 * k + d)) True rest"
proof -
  have "unat (of_nat k :: u64) = k" using assms(2) by (simp add: unat_of_nat)
  moreover have "unat (drop_bit 4 UINT64_MAX) = 2 ^ 60 - 1"
    by (simp add: UINT64_MAX_def unat_drop_bit_eq unsigned_minus_1_eq_mask drop_bit_mask_eq mask_eq_exp_minus_1)
  ultimately have "\<not> drop_bit 4 UINT64_MAX < (of_nat k :: u64)"
    using assms(2) by (simp add: word_less_nat_alt)
  with hex_char_digit [OF assms(1)] hex_append_digit [OF assms(1), of k] show ?thesis by simp
qed

lemma chunk_size_hex: "n < 2 ^ 64 \<Longrightarrow> chunk_size 0 saw (hex_string n @ rest) = chunk_size (of_nat n) True rest"
proof (induction n arbitrary: rest rule: hex_string.induct)
  case (1 n)
  show ?case
  proof (cases "n < 16")
    case True
    then show ?thesis using chunk_size_digit [of n 0 saw rest] by (simp add: hex_string.simps [of n])
  next
    case False
    then have "chunk_size 0 saw (hex_string n @ rest) = chunk_size (of_nat (n div 16)) True (hex_char (n mod 16) # rest)"
      using 1 by (simp add: hex_string.simps [of n])
    also have "\<dots> = chunk_size (of_nat (16 * (n div 16) + n mod 16)) True rest"
      using 1(2) by (intro chunk_size_digit) auto
    finally show ?thesis by simp
  qed
qed

lemma chunk_size_line:
  assumes "n < 2 ^ 64" "ext_ok ext"
  shows "chunk_size 0 False (hex_string n @ ext @ crlf @ rest) = Some (of_nat n, True, crlf @ rest)"
proof (cases ext)
  case Nil
  then show ?thesis using chunk_size_hex [OF assms(1)] by (simp add: crlf_def not_eol_def)
next
  case (Cons c cs)
  then have "c = CHR '';''" "\<forall>x \<in> set cs. not_eol x" using assms(2) by (auto simp: ext_ok_def list_all_iff)
  moreover then have "dropWhile not_eol (cs @ crlf @ rest) = crlf @ rest"
    by (simp add: dropWhile_append2 crlf_def not_eol_def)
  ultimately show ?thesis using chunk_size_hex [OF assms(1)] Cons by simp
qed

lemma hex_string_nonempty: "hex_string n \<noteq> []"
  by (simp add: hex_string.simps [of n])

lemma decode_chunks:
  assumes "\<And>k. oks k" "list_all (\<lambda>(ext, d). ext_ok ext \<and> d \<noteq> []) cs" "ext_ok ext"
    and "length (buf_data out) + length (concat (map snd cs)) + 1 \<le> SIZE_MAX div 2"
  shows "\<exists>out'. dcc_http_decode_chunked_body oks k (concat (map encode_chunk cs) @ hex_string 0 @ ext @ crlf @ trailer) out
      = (DCC_OK, out') \<and> buf_data out' = buf_data out @ concat (map snd cs)"
  using assms(2,4)
proof (induction cs arbitrary: k out)
  case Nil
  have "chunk_size 0 False (hex_string 0 @ ext @ crlf @ trailer) = Some (0, True, crlf @ trailer)"
    using chunk_size_line [OF _ assms(3), of 0] by simp
  then show ?case
    by (simp add: dcc_http_decode_chunked_body.simps [of oks k] hex_string_nonempty starts_crlf_def Let_def)
next
  case (Cons c cs)
  obtain e d where c: "c = (e, d)" by (cases c)
  let ?more = "concat (map encode_chunk cs) @ hex_string 0 @ ext @ crlf @ trailer"
  have d: "ext_ok e" "d \<noteq> []" "length d < 2 ^ 64" "length (buf_data out) + length d + 1 \<le> SIZE_MAX div 2"
    using Cons.prems c by (auto simp: SIZE_MAX_def)
  have un: "unat (of_nat (length d) :: u64) = length d" by (rule unat_of_nat_eq_u64 [OF d(3)])
  then have nz: "(of_nat (length d) :: u64) \<noteq> 0" using d(2) by (metis length_0_conv unat_0)
  obtain out1 where ap: "dcc_http_buffer_append (oks k) out d = Some out1"
    using http_append_ok [OF d(4)] assms(1) by auto
  have d1: "buf_data out1 = buf_data out @ d" by (rule http_append_Some [OF ap])
  have c2: "length crlf = 2" "drop 2 crlf = []" by (simp_all add: crlf_def)
  have "chunk_size 0 False (hex_string (length d) @ e @ crlf @ d @ crlf @ ?more) = Some (of_nat (length d), True, crlf @ d @ crlf @ ?more)"
    by (rule chunk_size_line [OF d(3,1)])
  then have "dcc_http_decode_chunked_body oks k (concat (map encode_chunk (c # cs)) @ hex_string 0 @ ext @ crlf @ trailer) out
      = dcc_http_decode_chunked_body oks (k + 1) ?more out1"
    using un nz ap c
    by (simp add: dcc_http_decode_chunked_body.simps [of oks k] encode_chunk_def hex_string_nonempty starts_crlf_def Let_def c2)
  moreover have "\<exists>out'. dcc_http_decode_chunked_body oks (k + 1) ?more out1 = (DCC_OK, out') \<and> buf_data out' = buf_data out1 @ concat (map snd cs)"
    using Cons.prems d1 c by (intro Cons.IH) auto
  ultimately show ?case using d1 c by simp
qed

section \<open>Request text\<close>

definition header_texts :: "(string option \<times> string option) list \<Rightarrow> string list" where
  "header_texts hs = concat (map (\<lambda>h. case h of (Some n, Some v) \<Rightarrow> [n @ '': '' @ v] | _ \<Rightarrow> []) hs)"

definition request_lines :: "dcc_http_request \<Rightarrow> dcc_http_url_parts \<Rightarrow> string list" where
  "request_lines request url =
     [''Host: '' @ url_host url, ''User-Agent: DCC/0.1'', ''Connection: close'']
     @ (if dcc_http_request_has_header request ''Content-Length'' then []
        else [''Content-Length: '' @ dec_string (rq_body_len request)])
     @ header_texts (rq_headers request)"

definition request_line :: "dcc_http_request \<Rightarrow> dcc_http_url_parts \<Rightarrow> string" where
  "request_line request url =
     (case rq_method request of Some mth \<Rightarrow> mth | None \<Rightarrow> ''GET'') @ '' '' @ url_path url @ '' HTTP/1.1''"

definition sent_body :: "dcc_http_request \<Rightarrow> string" where
  "sent_body request = (case rq_body request of None \<Rightarrow> [] | Some body \<Rightarrow> take (rq_body_len request) body)"

lemma header_pieces_text: "concat (header_pieces hs) = concat (map (\<lambda>x. x @ crlf) (header_texts hs))"
proof (induction hs)
  case (Cons h hs)
  then show ?case by (cases h; cases "fst h"; cases "snd h") (auto simp: header_pieces_def header_texts_def)
qed (simp add: header_pieces_def header_texts_def)

lemma request_pieces_text:
  "concat (request_pieces request url) =
     join_lines (request_line request url) (request_lines request url) @ crlf @ crlf @ sent_body request"
proof -
  have body: "concat (case rq_body request of None \<Rightarrow> [] | Some body \<Rightarrow>
      if rq_body_len request > 0 then [take (rq_body_len request) body] else []) = sent_body request"
    by (simp add: sent_body_def split: option.split)
  have "concat (request_pieces request url) =
      request_line request url @ crlf @ concat (map (\<lambda>x. x @ crlf) (request_lines request url)) @ crlf @ sent_body request"
    by (simp add: request_pieces_def request_line_def request_lines_def header_pieces_text body)
  then show ?thesis by (simp add: join_lines_crlf)
qed

section \<open>Properties\<close>

text \<open>
  C39. A request is framed correctly: the text sent is the request line, the header lines (with a computed
  \<open>Content-Length\<close> unless the caller gives one), a blank line and the body; and when no part contains a
  carriage return, the first blank line is where the headers end, so no caller-supplied value can add a
  header or start the body early.
\<close>

theorem http_request_framing:
  assumes "\<And>k. oks k" "length (concat (request_pieces request url)) + 1 \<le> SIZE_MAX div 2"
    and "CHR 0x0D \<notin> set (request_line request url)" "list_all line_ok (request_lines request url)"
  shows "\<exists>buf. dcc_http_build_request oks request url = (DCC_OK, buf)
    \<and> buf_data buf = join_lines (request_line request url) (request_lines request url) @ crlf @ crlf @ sent_body request
    \<and> find_blank_line (buf_data buf) = Some (length (join_lines (request_line request url) (request_lines request url)))"
proof -
  obtain buf where "append_all oks 0 empty_buffer (request_pieces request url) = Some buf"
    "buf_data buf = concat (request_pieces request url)"
    using append_all_ok [where oks = oks and buf = empty_buffer and ss = "request_pieces request url" and k = 0] assms(1,2)
    by (auto simp: empty_buffer_def)
  with blank_line_join [OF assms(3,4), of "sent_body request"] show ?thesis
    by (simp add: dcc_http_build_request_def request_pieces_text)
qed

definition sample_request :: dcc_http_request where
  "sample_request = \<lparr>rq_method = Some ''POST'', rq_url = Some ''https://discord.com/api'',
     rq_headers = [(Some ''Authorization'', Some ''Bot x''), (None, Some ''skipped'')],
     rq_body = Some ''{}'', rq_body_len = 2, rq_timeout_ms = 1000\<rparr>"

definition sample_url :: dcc_http_url_parts where
  "sample_url = \<lparr>url_tls = True, url_host = ''discord.com'', url_port = ''443'', url_path = ''/api''\<rparr>"

theorem http_request_framing_witness:
  "\<exists>buf. dcc_http_build_request (\<lambda>_. True) sample_request sample_url = (DCC_OK, buf)
    \<and> buf_data buf = join_lines (request_line sample_request sample_url) (request_lines sample_request sample_url) @ crlf @ crlf @ ''{}''"
proof -
  have len: "length (concat (request_pieces sample_request sample_url)) < 1000"
    by code_simp
  have "CHR 0x0D \<notin> set (request_line sample_request sample_url)" "list_all line_ok (request_lines sample_request sample_url)"
    "sent_body sample_request = ''{}''"
    by code_simp+
  with len http_request_framing [of "\<lambda>_. True" sample_request sample_url] show ?thesis
    by (auto simp: SIZE_MAX_def)
qed

definition status_line :: "nat \<Rightarrow> string \<Rightarrow> string" where
  "status_line n reason = ''HTTP/1.1 '' @ dec_string n @ reason"

definition chunked_text :: "(string \<times> string) list \<Rightarrow> string \<Rightarrow> string \<Rightarrow> string" where
  "chunked_text cs ext trailer = concat (map encode_chunk cs) @ hex_string 0 @ ext @ crlf @ trailer"

definition body_on_wire :: "bool \<Rightarrow> (string \<times> string) list \<Rightarrow> string \<Rightarrow> string \<Rightarrow> string" where
  "body_on_wire chunked cs ext trailer =
     (if chunked then chunked_text cs ext trailer else concat (map snd cs))"

text \<open>
  C18. A response is parsed back: the status, the header block and the body, which is the rest of the stream or,
  with a chunked transfer coding, the chunks put together, whatever their sizes, extensions and trailer. A
  response with no header field at all is refused as a network error, though it is a valid response.
\<close>

theorem http_response_parse:
  assumes "n \<le> 65535" "reason = [] \<or> \<not> is_digit (hd reason)"
    and "list_all (\<lambda>c. code c \<noteq> 0 \<and> code c \<noteq> 10 \<and> code c \<noteq> 13) reason"
    and "list_all line_ok ls" "list_all (\<lambda>(ext, d). ext_ok ext \<and> d \<noteq> []) cs" "ext_ok ext"
    and "length (concat (map snd cs)) + 1 \<le> SIZE_MAX div 2" "\<And>k. oks k"
    and "chunked = dcc_http_headers_token_contains (join_lines (status_line n reason) ls) ''Transfer-Encoding'' ''chunked''"
  shows "dcc_http_parse_response True oks True
      (join_lines (status_line n reason) ls @ crlf @ crlf @ body_on_wire chunked cs ext trailer) =
    (if ls = [] then (DCC_ERR_NETWORK, None)
     else (DCC_OK, Some \<lparr>rs_status = of_nat n, rs_headers = join_lines (status_line n reason) ls, rs_body = concat (map snd cs)\<rparr>))"
proof -
  let ?l = "status_line n reason" and ?w = "body_on_wire chunked cs ext trailer"
  define raw where "raw = join_lines ?l ls @ crlf @ crlf @ ?w"
  have plain: "list_all (\<lambda>c. code c \<noteq> 0 \<and> code c \<noteq> 10 \<and> code c \<noteq> 13) ?l"
    using assms(3) dec_string_digits [of n] by (auto simp: status_line_def list_all_iff is_digit_def)
  then have cr: "CHR 0x0D \<notin> set ?l" "CHR 0x0A \<notin> set ?l" "\<forall>c \<in> set ?l. code c \<noteq> 0"
    by (auto simp: list_all_iff)
  have blank: "find_blank_line raw = Some (length (join_lines ?l ls))"
    unfolding raw_def by (rule blank_line_join [OF cr(1) assms(4)])
  have lf: "CHR 0x0A \<notin> set (take (length (join_lines ?l ls)) raw) \<longleftrightarrow> ls = []"
    using cr(2) by (cases ls) (auto simp: raw_def join_lines_def crlf_def)
  obtain t where t: "raw = ?l @ crlf @ t"
    by (cases ls) (auto simp: raw_def join_lines_def)
  have "scan_http_status (takeWhile (\<lambda>c. code c \<noteq> 0) raw) = Some (of_nat n)"
  proof -
    have "takeWhile (\<lambda>c. code c \<noteq> 0) raw = ?l @ crlf @ takeWhile (\<lambda>c. code c \<noteq> 0) t"
      using cr(3) by (simp add: t takeWhile_append2 crlf_def)
    moreover have "reason @ crlf @ x = [] \<or> \<not> is_digit (hd (reason @ crlf @ x))" for x
      using assms(2) by (cases reason) (auto simp: crlf_def is_digit_def)
    ultimately show ?thesis
      using scan_http_status_line [of n] assms(1) by (simp add: status_line_def)
  qed
  moreover have "unat (of_nat n :: u32) = n" "ucast (of_nat n :: u32) = (of_nat n :: u16)"
    using assms(1) by (simp_all add: unat_of_nat word_unat_eq_iff unsigned_ucast_eq take_bit_nat_eq_self)
  moreover have "\<exists>out. dcc_http_decode_chunked_body oks 0 ?w empty_buffer = (DCC_OK, out) \<and> buf_data out = concat (map snd cs)" if chunked
    using decode_chunks [where oks = oks and k = 0 and out = empty_buffer, OF assms(8,5,6)] assms(7) that
    by (simp add: body_on_wire_def chunked_text_def empty_buffer_def)
  moreover have "take (length (join_lines ?l ls)) raw = join_lines ?l ls" "drop (length (join_lines ?l ls) + 4) raw = ?w"
    by (simp_all add: raw_def crlf_def)
  ultimately show ?thesis
    using blank lf assms(1,9) unfolding raw_def [symmetric]
    by (auto simp: dcc_http_parse_response_def Let_def body_on_wire_def)
qed

definition sample_lines :: "string list" where
  "sample_lines = [''transfer-ENCODING:  Chunked'', ''Date: x'']"

theorem http_response_parse_witness:
  "dcc_http_parse_response True (\<lambda>_. True) True
     (join_lines (status_line 200 '' OK'') sample_lines @ crlf @ crlf @ chunked_text [([], ''Hello''), ('';x=1'', '' world'')] [] crlf) =
   (DCC_OK, Some \<lparr>rs_status = 200, rs_headers = join_lines (status_line 200 '' OK'') sample_lines, rs_body = ''Hello world''\<rparr>)"
proof -
  have "dcc_http_headers_token_contains (join_lines (status_line 200 '' OK'') sample_lines) ''Transfer-Encoding'' ''chunked''"
    "list_all line_ok sample_lines" "list_all (\<lambda>(ext, d). ext_ok ext \<and> d \<noteq> []) [([], ''Hello''), ('';x=1'', '' world'')]"
    "list_all (\<lambda>c. code c \<noteq> 0 \<and> code c \<noteq> 10 \<and> code c \<noteq> 13) '' OK''" "ext_ok []" "\<not> is_digit (hd '' OK'')" "sample_lines \<noteq> []"
    by code_simp+
  then show ?thesis
    using http_response_parse [of 200 "'' OK''" sample_lines "[([], ''Hello''), ('';x=1'', '' world'')]" "[]" "\<lambda>_. True" True crlf]
    by (simp add: body_on_wire_def SIZE_MAX_def)
qed

definition env_works :: "http_env \<Rightarrow> bool" where
  "env_works he \<longleftrightarrow> he_url_allocs he = (True, True, True) \<and> he_request_allocs he = (\<lambda>_. True) \<and> he_wire_allocs he = (\<lambda>_. True)
     \<and> he_headers_alloc he \<and> he_chunk_allocs he = (\<lambda>_. True) \<and> he_body_alloc he \<and> he_cancels he = []
     \<and> he_tcp he \<noteq> None \<and> he_nonblocking he \<and> he_tls he"

text \<open>
  C17. Performing a request: with nothing failing and nothing cancelled, the result is the parse of
  exactly the bytes the server sent before it closed the connection, however they were cut and however long the
  transport made the client wait; when the stream ends in an error instead of a close, a network error is reported.
  No length is checked against the headers, so a body that the server cut short by closing is accepted.
\<close>

theorem http_perform_returns_stream:
  assumes "env_works he" "rq_url request = Some raw_url" "dcc_http_parse_url True True True raw_url = (DCC_OK, Some url)"
    and "he_writes he = Wrote n # es" "length (concat (request_pieces request url)) \<le> n"
    and "length (concat (request_pieces request url)) < INT32_MAX"
    and "length (stream_of (url_tls url) (he_reads he)) + 1 \<le> SIZE_MAX div 2"
  shows "dcc_http_perform he request =
    (if closes (url_tls url) (he_reads he)
     then dcc_http_parse_response True (\<lambda>_. True) True (stream_of (url_tls url) (he_reads he))
     else (DCC_ERR_NETWORK, None))"
proof -
  let ?text = "concat (request_pieces request url)"
  obtain fd where fd: "he_tcp he = Some fd" using assms(1) by (auto simp: env_works_def)
  have env: "he_url_allocs he = (True, True, True)" "he_request_allocs he = (\<lambda>_. True)" "he_wire_allocs he = (\<lambda>_. True)"
    "he_headers_alloc he = True" "he_chunk_allocs he = (\<lambda>_. True)" "he_body_alloc he = True" "he_cancels he = []"
    using assms(1) by (simp_all add: env_works_def)
  define conn0 :: "char dcc_conn" where "conn0 = \<lparr>conn_fd = Some fd, conn_use_tls = url_tls url,
      conn_timeout_ms = (if rq_timeout_ms request > 0 then rq_timeout_ms request else 30000), conn_ssl = url_tls url,
      conn_reads = he_reads he, conn_writes = he_writes he, conn_sent = []\<rparr>"
  define conn where "conn = conn0\<lparr>conn_writes := es, conn_sent := ?text\<rparr>"
  have o: "dcc_conn_open (he_tcp he) (he_nonblocking he) (he_tls he) (he_reads he) (he_writes he)
      \<lparr>opt_host = Some (url_host url), opt_port = Some (url_port url), opt_use_tls = url_tls url,
       opt_timeout_ms = rq_timeout_ms request\<rparr> = (DCC_OK, Some conn0)"
    using assms(1) fd by (simp add: dcc_conn_open_def conn0_def Let_def env_works_def)
  have ne: "?text \<noteq> []" by (simp add: request_pieces_def)
  have w: "dcc_conn_write_all conn0 ?text = (True, conn)"
    using assms(4,5,6) ne by (simp add: dcc_conn_write_all_def conn0_def conn_def write_all_whole del: concat_eq_Nil_conv)
  have "length ?text + 1 \<le> SIZE_MAX div 2" using assms(6) by (simp add: INT32_MAX_def SIZE_MAX_def)
  then obtain buf where b: "append_all (\<lambda>_. True) 0 empty_buffer (request_pieces request url) = Some buf" "buf_data buf = ?text"
    using append_all_ok [where oks = "\<lambda>_. True" and buf = empty_buffer and ss = "request_pieces request url" and k = 0]
    by (auto simp: empty_buffer_def)
  obtain buf' where rd: "exchange_read (\<lambda>_. True) 0 [] conn empty_buffer =
      (if closes (url_tls url) (he_reads he) then DCC_OK else DCC_ERR_NETWORK, buf', [])"
      "buf_data buf' = stream_of (url_tls url) (he_reads he)"
    using exchange_read_stream [where oks = "\<lambda>_. True" and buf = empty_buffer and conn = conn and k = 0] assms(7)
    by (auto simp: empty_buffer_def conn_def conn0_def)
  have ex: "dcc_http_exchange_wire (\<lambda>_. True) [] (DCC_OK, Some conn0) ?text =
      (if closes (url_tls url) (he_reads he) then DCC_OK else DCC_ERR_NETWORK, buf', [])"
    using w rd(1) by (simp add: dcc_http_exchange_wire_def)
  show ?thesis
    by (simp add: dcc_http_perform_def assms(2,3) env o b dcc_http_build_request_def Let_def ex rd(2))
qed

definition sample_http :: http_env where
  "sample_http = \<lparr>he_url_allocs = (True, True, True), he_request_allocs = (\<lambda>_. True), he_wire_allocs = (\<lambda>_. True),
     he_headers_alloc = True, he_chunk_allocs = (\<lambda>_. True), he_body_alloc = True, he_cancels = [], he_tcp = Some 4,
     he_nonblocking = True, he_tls = True, he_reads = [Read_bytes ''HTTP/1.1 20'', Read_error SSL_ERROR_WANT_READ (Some 1),
       Read_bytes (''0 OK'' @ crlf @ ''A: b'' @ crlf @ crlf @ ''hi''), Read_error SSL_ERROR_ZERO_RETURN None],
     he_writes = [Wrote 1000]\<rparr>"

theorem http_perform_returns_stream_witness:
  "dcc_http_perform sample_http sample_request =
     dcc_http_parse_response True (\<lambda>_. True) True (''HTTP/1.1 200 OK'' @ crlf @ ''A: b'' @ crlf @ crlf @ ''hi'')"
proof -
  have len: "length (concat (request_pieces sample_request sample_url)) \<le> 1000" by code_simp
  have parse: "dcc_http_parse_url True True True ''https://discord.com/api'' = (DCC_OK, Some sample_url)" by code_simp
  have "env_works sample_http" by (simp add: env_works_def sample_http_def)
  moreover have "stream_of True (he_reads sample_http) = ''HTTP/1.1 200 OK'' @ crlf @ ''A: b'' @ crlf @ crlf @ ''hi''"
    "closes True (he_reads sample_http)" "he_writes sample_http = Wrote 1000 # []" "url_tls sample_url"
    "rq_url sample_request = Some ''https://discord.com/api''"
    by (simp_all add: sample_http_def sample_url_def sample_request_def dcc_conn_wait_ssl_def poll_ready_def POLLIN_def)
  ultimately show ?thesis
    using http_perform_returns_stream [of sample_http sample_request "''https://discord.com/api''" sample_url 1000 "[]"] parse len
    by (simp add: INT32_MAX_def SIZE_MAX_def crlf_def)
qed

end
