(* ===== verification/DCC_Gateway_Text.thy ===== *)
theory DCC_Gateway_Text
  imports DCC_Ws_Handshake
begin

text \<open>
  The texts the gateway sends on its own: the payload buffer of
  \<^verbatim>\<open>src/gateway/gateway_payload_buffer.c\<close>, its JSON strings (\<^verbatim>\<open>gateway_payload_buffer_json.c\<close>),
  IDENTIFY and RESUME (\<^verbatim>\<open>gateway_payload.c\<close>) and heartbeats (\<^verbatim>\<open>gateway_payload_heartbeat.c\<close>,
  \<^verbatim>\<open>gateway_heartbeat.c\<close>). Given memory, what goes to the socket is the text of the payload; the root theory
  reads it back with the JSON parser.

  \<open>alloc n\<close> says whether a \<open>realloc\<close> to \<open>n\<close> bytes succeeds: the capacities a buffer asks for grow
  strictly, so an outcome per capacity is an outcome per call.
\<close>

section \<open>The payload buffer\<close>

definition dcc_gateway_payload_buffer_reserve :: "(nat \<Rightarrow> bool) \<Rightarrow> char dcc_buffer \<Rightarrow> nat \<Rightarrow> char dcc_buffer option" where
  "dcc_gateway_payload_buffer_reserve alloc buf extra =
     (if extra > SIZE_MAX - length (buf_data buf) then None
      else
        let needed = (length (buf_data buf) + extra + 1) mod 2 ^ 64 in
        if needed \<le> buf_cap buf then Some buf
        else case grow_cap (if buf_cap buf = 0 then 256 else buf_cap buf) needed of
          None \<Rightarrow> None
        | Some next_cap \<Rightarrow> if alloc next_cap then Some (buf\<lparr>buf_cap := next_cap\<rparr>) else None)"

definition dcc_gateway_payload_buffer_append_mem :: "(nat \<Rightarrow> bool) \<Rightarrow> char dcc_buffer \<Rightarrow> string \<Rightarrow> char dcc_buffer option" where
  "dcc_gateway_payload_buffer_append_mem alloc buf data =
     (case dcc_gateway_payload_buffer_reserve alloc buf (length data) of
        None \<Rightarrow> None
      | Some buf \<Rightarrow> Some (buf\<lparr>buf_data := buf_data buf @ data\<rparr>))"

text \<open>A chain of appends that stops at the first failure, as the \<open>||\<close> chains of the source do.\<close>

fun append_pieces :: "(nat \<Rightarrow> bool) \<Rightarrow> char dcc_buffer \<Rightarrow> string list \<Rightarrow> char dcc_buffer option" where
  "append_pieces alloc buf [] = Some buf"
| "append_pieces alloc buf (p # ps) =
     (case dcc_gateway_payload_buffer_append_mem alloc buf p of
        None \<Rightarrow> None
      | Some buf \<Rightarrow> append_pieces alloc buf ps)"

text \<open>\<open>dcc_gateway_payload_buffer_append_u64\<close>: at most 20 digits, which its buffer of 32 bytes holds.\<close>

definition u64_piece :: "u64 \<Rightarrow> string" where
  "u64_piece v = dec_string (unat v)"

section \<open>JSON strings\<close>

definition hex_char :: "nat \<Rightarrow> char" where
  "hex_char d = ''0123456789abcdef'' ! d"

definition json_escape :: "char \<Rightarrow> string" where
  "json_escape c =
     (if code c = 0x22 \<or> code c = 0x5c then [CHR 0x5C, c]
      else if code c = 8 then [CHR 0x5C, CHR ''b'']
      else if code c = 12 then [CHR 0x5C, CHR ''f'']
      else if code c = 10 then [CHR 0x5C, CHR ''n'']
      else if code c = 13 then [CHR 0x5C, CHR ''r'']
      else if code c = 9 then [CHR 0x5C, CHR ''t'']
      else if code c < 0x20 then
        [CHR 0x5C, CHR ''u'', CHR ''0'', CHR ''0'', hex_char (code c div 16), hex_char (code c mod 16)]
      else [c])"

text \<open>The appends of \<open>dcc_gateway_payload_buffer_append_json_string\<close>, in order.\<close>

definition json_string_pieces :: "string option \<Rightarrow> string list" where
  "json_string_pieces v =
     [[CHR 0x22]] @ map json_escape (case v of None \<Rightarrow> [] | Some s \<Rightarrow> s) @ [[CHR 0x22]]"

section \<open>IDENTIFY, RESUME and heartbeats\<close>

text \<open>String literals of the sources, with a quote for each escaped quote.\<close>

definition quoted :: "string \<Rightarrow> string" where
  "quoted s = map (\<lambda>c. if c = CHR ''~'' then CHR 0x22 else c) s"

definition identify_pieces :: "string option \<Rightarrow> u64 \<Rightarrow> u32 \<Rightarrow> u32 \<Rightarrow> string list" where
  "identify_pieces token intents shard_id shard_count =
     [quoted ''{~op~:2,~d~:{~token~:'']
     @ json_string_pieces token
     @ [quoted '',~intents~:'', u64_piece intents,
        quoted '',~properties~:{~os~:~unknown~,~browser~:~dcc~,~device~:~dcc~},~shard~:['',
        u64_piece (ucast shard_id), '','',
        u64_piece (ucast shard_count), '']}}'']"

definition resume_pieces :: "string option \<Rightarrow> string option \<Rightarrow> u64 \<Rightarrow> string list" where
  "resume_pieces token session_id seq =
     [quoted ''{~op~:6,~d~:{~token~:'']
     @ json_string_pieces token
     @ [quoted '',~session_id~:'']
     @ json_string_pieces session_id
     @ [quoted '',~seq~:'', u64_piece seq, ''}}'']"

text \<open>Building a payload and sending it, the common tail of the two senders.\<close>

definition send_pieces :: "(nat \<Rightarrow> bool) \<Rightarrow> ws_env \<Rightarrow> dcc_ws \<Rightarrow> string list \<Rightarrow> dcc_status \<times> dcc_ws" where
  "send_pieces alloc env ws pieces =
     (case append_pieces alloc empty_buffer pieces of
        None \<Rightarrow> (DCC_ERR_NOMEM, ws)
      | Some payload \<Rightarrow> dcc_ws_send_text env ws (bytes_of (buf_data payload)))"

text \<open>The text of a heartbeat; its buffer of 128 bytes holds the longest one.\<close>

definition heartbeat_text :: "bool \<Rightarrow> u64 \<Rightarrow> string" where
  "heartbeat_text has seq = (if has then quoted ''{~op~:1,~d~:'' @ dec_string (unat seq) @ ''}'' else quoted ''{~op~:1,~d~:null}'')"

definition send_heartbeat_text :: "ws_env \<Rightarrow> dcc_ws \<Rightarrow> bool \<Rightarrow> u64 \<Rightarrow> dcc_status \<times> dcc_ws" where
  "send_heartbeat_text env ws has seq =
     (if length (heartbeat_text has seq) \<ge> 128 then (DCC_ERR_NOMEM, ws)
      else dcc_ws_send_text env ws (bytes_of (heartbeat_text has seq)))"

section \<open>What the buffer holds\<close>

lemma append_mem_data:
  "dcc_gateway_payload_buffer_append_mem alloc buf data = Some buf' \<Longrightarrow> buf_data buf' = buf_data buf @ data"
  by (auto simp: dcc_gateway_payload_buffer_append_mem_def dcc_gateway_payload_buffer_reserve_def Let_def
      split: if_splits option.splits)

lemma append_pieces_data: "append_pieces alloc buf ps = Some buf' \<Longrightarrow> buf_data buf' = buf_data buf @ concat ps"
  by (induction ps arbitrary: buf) (auto split: option.splits dest!: append_mem_data)

lemma append_mem_fits:
  assumes "\<forall>n. alloc n" "length (buf_data buf) + length data < SIZE_MAX div 2"
  shows "\<exists>buf'. dcc_gateway_payload_buffer_append_mem alloc buf data = Some buf'"
proof -
  have "(length (buf_data buf) + length data + 1) mod 2 ^ 64 = length (buf_data buf) + length data + 1"
    using assms(2) by (simp add: SIZE_MAX_def)
  moreover have "\<exists>c. grow_cap (if buf_cap buf = 0 then 256 else buf_cap buf) (length (buf_data buf) + length data + 1) = Some c"
    using assms(2) by (intro grow_cap_returns) auto
  ultimately show ?thesis
    using assms by (auto simp: dcc_gateway_payload_buffer_append_mem_def dcc_gateway_payload_buffer_reserve_def Let_def)
qed

lemma append_pieces_fits:
  assumes "\<forall>n. alloc n" "length (buf_data buf) + length (concat ps) < SIZE_MAX div 2"
  shows "\<exists>buf'. append_pieces alloc buf ps = Some buf'"
  using assms(2)
proof (induction ps arbitrary: buf)
  case (Cons p ps)
  then obtain b where b: "dcc_gateway_payload_buffer_append_mem alloc buf p = Some b"
    using append_mem_fits [OF assms(1), of buf p] by auto
  with Cons append_mem_data [OF b] show ?case by (auto simp: add.assoc)
qed simp

lemma send_pieces_text:
  assumes "\<forall>n. alloc n" "length (concat ps) < SIZE_MAX div 2"
  shows "send_pieces alloc env ws ps = dcc_ws_send_text env ws (bytes_of (concat ps))"
proof -
  obtain b where b: "append_pieces alloc empty_buffer ps = Some b"
    using append_pieces_fits [OF assms(1), of empty_buffer ps] assms(2) by (auto simp: empty_buffer_def)
  from append_pieces_data [OF b] have "buf_data b = concat ps" by (simp add: empty_buffer_def)
  with b show ?thesis by (simp add: send_pieces_def)
qed

section \<open>Hexadecimal digits\<close>

definition hex_value :: "char \<Rightarrow> nat option" where
  "hex_value c =
     (if 48 \<le> code c \<and> code c \<le> 57 then Some (code c - 48)
      else if 97 \<le> code c \<and> code c \<le> 102 then Some (code c - 87)
      else if 65 \<le> code c \<and> code c \<le> 70 then Some (code c - 55) else None)"

lemma hex_value_hex_char: "d < 16 \<Longrightarrow> hex_value (hex_char d) = Some d"
proof -
  assume "d < 16"
  then have "d \<in> set [0..<16]" by simp
  then show ?thesis by (auto simp: hex_char_def hex_value_def upt_rec nth_Cons')
qed

section \<open>Heartbeats\<close>

lemma length_heartbeat_text: "length (heartbeat_text has seq) < 128"
proof -
  have "length (dec_string (unat seq)) \<le> 20"
    using unat_u64_less [of seq] by (intro length_dec_string) auto
  then show ?thesis by (simp add: heartbeat_text_def quoted_def)
qed

lemma send_heartbeat_text_eq: "send_heartbeat_text env ws has seq = dcc_ws_send_text env ws (bytes_of (heartbeat_text has seq))"
  using length_heartbeat_text [of has seq] by (simp add: send_heartbeat_text_def)

end
