(* ===== verification/DCC_Gateway_Events.thy ===== *)
theory DCC_Gateway_Events
  imports DCC_Prelude
begin

text \<open>
  Names of gateway events, \<^verbatim>\<open>src/gateway/gateway_events.c\<close> and \<^verbatim>\<open>src/gateway/gateway_event_names.c\<close>: the table
  and its lookup, which compares names in machine words. An event type is the value of its enumerator
  in \<^verbatim>\<open>include/dcc/events/types.h\<close>; the entries of the table stand in the order of the source.
\<close>

type_synonym dcc_event_type = nat

definition DCC_EVENT_READY :: dcc_event_type where "DCC_EVENT_READY = 0"
definition DCC_EVENT_RESUMED :: dcc_event_type where "DCC_EVENT_RESUMED = 1"
definition DCC_EVENT_RAW :: dcc_event_type where "DCC_EVENT_RAW = 17"

definition dcc_gateway_event_names :: "(string \<times> dcc_event_type) list" where
  "dcc_gateway_event_names =
     [(''READY'', 0), (''RESUMED'', 1), (''MESSAGE_CREATE'', 2), (''MESSAGE_UPDATE'', 3), (''MESSAGE_DELETE'', 4),
      (''INTERACTION_CREATE'', 5), (''GUILD_CREATE'', 13), (''GUILD_DELETE'', 14), (''VOICE_STATE_UPDATE'', 15),
      (''RATE_LIMITED'', 19), (''APPLICATION_COMMAND_PERMISSIONS_UPDATE'', 20), (''AUTO_MODERATION_RULE_CREATE'', 21),
      (''AUTO_MODERATION_RULE_UPDATE'', 22), (''AUTO_MODERATION_RULE_DELETE'', 23),
      (''AUTO_MODERATION_ACTION_EXECUTION'', 24), (''CHANNEL_CREATE'', 25), (''CHANNEL_UPDATE'', 26),
      (''CHANNEL_DELETE'', 27), (''CHANNEL_INFO'', 28), (''CHANNEL_PINS_UPDATE'', 29), (''THREAD_CREATE'', 30),
      (''THREAD_UPDATE'', 31), (''THREAD_DELETE'', 32), (''THREAD_LIST_SYNC'', 33), (''THREAD_MEMBER_UPDATE'', 34),
      (''THREAD_MEMBERS_UPDATE'', 35), (''ENTITLEMENT_CREATE'', 36), (''ENTITLEMENT_UPDATE'', 37),
      (''ENTITLEMENT_DELETE'', 38), (''GUILD_UPDATE'', 39), (''GUILD_AUDIT_LOG_ENTRY_CREATE'', 40),
      (''GUILD_BAN_ADD'', 41), (''GUILD_BAN_REMOVE'', 42), (''GUILD_EMOJIS_UPDATE'', 43),
      (''GUILD_STICKERS_UPDATE'', 44), (''GUILD_INTEGRATIONS_UPDATE'', 45), (''GUILD_MEMBER_ADD'', 46),
      (''GUILD_MEMBER_REMOVE'', 47), (''GUILD_MEMBER_UPDATE'', 48), (''GUILD_MEMBERS_CHUNK'', 49),
      (''GUILD_ROLE_CREATE'', 50), (''GUILD_ROLE_UPDATE'', 51), (''GUILD_ROLE_DELETE'', 52),
      (''GUILD_SCHEDULED_EVENT_CREATE'', 53), (''GUILD_SCHEDULED_EVENT_UPDATE'', 54),
      (''GUILD_SCHEDULED_EVENT_DELETE'', 55), (''GUILD_SCHEDULED_EVENT_USER_ADD'', 56),
      (''GUILD_SCHEDULED_EVENT_USER_REMOVE'', 57), (''GUILD_SOUNDBOARD_SOUND_CREATE'', 58),
      (''GUILD_SOUNDBOARD_SOUND_UPDATE'', 59), (''GUILD_SOUNDBOARD_SOUND_DELETE'', 60),
      (''GUILD_SOUNDBOARD_SOUNDS_UPDATE'', 61), (''SOUNDBOARD_SOUNDS'', 62), (''INTEGRATION_CREATE'', 63),
      (''INTEGRATION_UPDATE'', 64), (''INTEGRATION_DELETE'', 65), (''INVITE_CREATE'', 66), (''INVITE_DELETE'', 67),
      (''MESSAGE_DELETE_BULK'', 68), (''MESSAGE_REACTION_ADD'', 69), (''MESSAGE_REACTION_REMOVE'', 70),
      (''MESSAGE_REACTION_REMOVE_ALL'', 71), (''MESSAGE_REACTION_REMOVE_EMOJI'', 72), (''MESSAGE_POLL_VOTE_ADD'', 73),
      (''MESSAGE_POLL_VOTE_REMOVE'', 74), (''PRESENCE_UPDATE'', 75), (''STAGE_INSTANCE_CREATE'', 76),
      (''STAGE_INSTANCE_UPDATE'', 77), (''STAGE_INSTANCE_DELETE'', 78), (''SUBSCRIPTION_CREATE'', 79),
      (''SUBSCRIPTION_UPDATE'', 80), (''SUBSCRIPTION_DELETE'', 81), (''TYPING_START'', 82), (''USER_UPDATE'', 83),
      (''VOICE_CHANNEL_EFFECT_SEND'', 84), (''VOICE_CHANNEL_START_TIME_UPDATE'', 85),
      (''VOICE_CHANNEL_STATUS_UPDATE'', 86), (''VOICE_SERVER_UPDATE'', 87), (''WEBHOOKS_UPDATE'', 96),
      (''GUILD_JOIN_REQUEST_DELETE'', 97), (''GUILD_JOIN_REQUEST_UPDATE'', 98),
      (''GUILD_APPLICATION_COMMAND_COUNTS_UPDATE'', 99), (''GUILD_APPLICATION_COMMAND_INDEX_UPDATE'', 100),
      (''EMBEDDED_ACTIVITY_UPDATE'', 101), (''CHANNEL_TOPIC_UPDATE'', 102)]"

section \<open>Comparing names\<close>

text \<open>The little-endian value of some bytes, and the loads of eight and of four of them.\<close>

primrec le_value :: "string \<Rightarrow> nat" where
  "le_value [] = 0"
| "le_value (c # s) = code c + 256 * le_value s"

definition dcc_gateway_load_u64_unaligned :: "string \<Rightarrow> nat \<Rightarrow> u64" where
  "dcc_gateway_load_u64_unaligned s offset = of_nat (le_value (take 8 (drop offset s)))"

definition dcc_gateway_load_u32_unaligned :: "string \<Rightarrow> nat \<Rightarrow> u32" where
  "dcc_gateway_load_u32_unaligned s offset = of_nat (le_value (take 4 (drop offset s)))"

text \<open>The loop over whole words of eight bytes: \<open>None\<close> when one differs, else where it stopped.\<close>

function equal_words :: "string \<Rightarrow> string \<Rightarrow> nat \<Rightarrow> nat \<Rightarrow> nat option" where
  "equal_words name known len offset =
     (if len - offset \<ge> 8 then
        if dcc_gateway_load_u64_unaligned name offset \<noteq> dcc_gateway_load_u64_unaligned known offset then None
        else equal_words name known len (offset + 8)
      else Some offset)"
  by pat_completeness auto
termination
  by (relation "measure (\<lambda>(_, _, len, offset). len - offset)") auto

declare equal_words.simps [simp del]

definition dcc_gateway_event_name_eq_fixed :: "string \<Rightarrow> string \<Rightarrow> nat \<Rightarrow> bool" where
  "dcc_gateway_event_name_eq_fixed name known len =
     (case equal_words name known len 0 of
        None \<Rightarrow> False
      | Some offset \<Rightarrow>
          if len - offset \<ge> 4 then
            dcc_gateway_load_u32_unaligned name offset = dcc_gateway_load_u32_unaligned known offset
            \<and> take (len - (offset + 4)) (drop (offset + 4) name) = take (len - (offset + 4)) (drop (offset + 4) known)
          else take (len - offset) (drop offset name) = take (len - offset) (drop offset known))"

section \<open>The lookup\<close>

fun find_event :: "string \<Rightarrow> (string \<times> dcc_event_type) list \<Rightarrow> dcc_event_type" where
  "find_event name [] = DCC_EVENT_RAW"
| "find_event name ((entry, type) # entries) =
     (if length entry = length name \<and> name ! 0 = entry ! 0 \<and> name ! (length name - 1) = entry ! (length entry - 1)
         \<and> dcc_gateway_event_name_eq_fixed name entry (length entry)
      then type else find_event name entries)"

definition dcc_gateway_event_type_from_name :: "string option \<Rightarrow> dcc_event_type" where
  "dcc_gateway_event_type_from_name name =
     (case name of
        None \<Rightarrow> DCC_EVENT_RAW
      | Some n \<Rightarrow> if n = [] then DCC_EVENT_RAW else find_event n dcc_gateway_event_names)"

section \<open>The comparison is equality\<close>

lemma le_value_less: "le_value s < 256 ^ length s"
proof (induction s)
  case (Cons c s)
  have "x < p \<Longrightarrow> code c + 256 * x < 256 * p" for x p :: nat
    using nat_of_char_less_256 [of c] by linarith
  from this [OF Cons] show ?case by simp
qed simp

lemma le_value_inject: "length s = length t \<Longrightarrow> le_value s = le_value t \<longleftrightarrow> s = t"
proof (induction s t rule: list_induct2)
  case (Cons c s d t)
  have "code c + 256 * le_value s = code d + 256 * le_value t \<longleftrightarrow> code c = code d \<and> le_value s = le_value t"
  proof
    assume e: "code c + 256 * le_value s = code d + 256 * le_value t"
    from arg_cong [OF e, of "\<lambda>n. n mod 256"] have "code c = code d" by (simp add: of_char_mod_256)
    with e show "code c = code d \<and> le_value s = le_value t" by simp
  qed simp
  with Cons show ?case by simp
qed simp

lemma load_u64_eq_iff:
  assumes "offset + 8 \<le> length s" "length s = length t"
  shows "dcc_gateway_load_u64_unaligned s offset = dcc_gateway_load_u64_unaligned t offset
    \<longleftrightarrow> take 8 (drop offset s) = take 8 (drop offset t)"
proof -
  have len: "length (take 8 (drop offset s)) = 8" "length (take 8 (drop offset t)) = 8" using assms by simp_all
  have "of_nat x = (of_nat y :: u64) \<longleftrightarrow> x = y" if "x < 256 ^ 8" "y < 256 ^ 8" for x y :: nat
    using that by (simp add: word_of_nat_eq_iff take_bit_nat_eq_self)
  with le_value_less [of "take 8 (drop offset s)"] le_value_less [of "take 8 (drop offset t)"] len show ?thesis
    by (simp add: dcc_gateway_load_u64_unaligned_def le_value_inject)
qed

lemma load_u32_eq_iff:
  assumes "offset + 4 \<le> length s" "length s = length t"
  shows "dcc_gateway_load_u32_unaligned s offset = dcc_gateway_load_u32_unaligned t offset
    \<longleftrightarrow> take 4 (drop offset s) = take 4 (drop offset t)"
proof -
  have len: "length (take 4 (drop offset s)) = 4" "length (take 4 (drop offset t)) = 4" using assms by simp_all
  have "of_nat x = (of_nat y :: u32) \<longleftrightarrow> x = y" if "x < 256 ^ 4" "y < 256 ^ 4" for x y :: nat
    using that by (simp add: word_of_nat_eq_iff take_bit_nat_eq_self)
  with le_value_less [of "take 4 (drop offset s)"] le_value_less [of "take 4 (drop offset t)"] len show ?thesis
    by (simp add: dcc_gateway_load_u32_unaligned_def le_value_inject)
qed

lemma drop_split_eq:
  "length s = length t \<Longrightarrow> drop i s = drop i t \<longleftrightarrow> take k (drop i s) = take k (drop i t) \<and> drop (i + k) s = drop (i + k) t"
  by (metis add.commute append_take_drop_id drop_drop)

lemma equal_words_sound:
  assumes "length name = len" "length known = len" "offset \<le> len"
  shows "case equal_words name known len offset of
      None \<Rightarrow> drop offset name \<noteq> drop offset known
    | Some j \<Rightarrow> j \<le> len \<and> (drop offset name = drop offset known \<longleftrightarrow> drop j name = drop j known)"
  using assms
proof (induction name known len offset rule: equal_words.induct)
  case (1 name known len offset)
  show ?case
  proof (cases "len - offset \<ge> 8")
    case True
    have split: "drop offset name = drop offset known \<longleftrightarrow>
        dcc_gateway_load_u64_unaligned name offset = dcc_gateway_load_u64_unaligned known offset
        \<and> drop (offset + 8) name = drop (offset + 8) known"
      using drop_split_eq [of name known offset 8] load_u64_eq_iff [of offset name known] True 1(2,3) by simp
    show ?thesis
    proof (cases "dcc_gateway_load_u64_unaligned name offset = dcc_gateway_load_u64_unaligned known offset")
      case eq: True
      then have "equal_words name known len offset = equal_words name known len (offset + 8)"
        using True by (simp add: equal_words.simps [of _ _ _ offset])
      moreover have "offset + 8 \<le> len" using True by simp
      ultimately show ?thesis using 1(1) [OF True] eq 1(2,3) split by (auto split: option.splits)
    next
      case False
      then show ?thesis using True split by (simp add: equal_words.simps [of _ _ _ offset])
    qed
  next
    case False
    then show ?thesis using 1(4) by (simp add: equal_words.simps [of _ _ _ offset])
  qed
qed

lemma event_name_eq_fixed_iff:
  assumes "length name = len" "length known = len"
  shows "dcc_gateway_event_name_eq_fixed name known len \<longleftrightarrow> name = known"
proof (cases "equal_words name known len 0")
  case None
  then show ?thesis using equal_words_sound [OF assms, of 0] by (simp add: dcc_gateway_event_name_eq_fixed_def)
next
  case (Some j)
  then have j: "j \<le> len" "name = known \<longleftrightarrow> drop j name = drop j known"
    using equal_words_sound [OF assms, of 0] by simp_all
  have all: "take (len - i) (drop i name) = drop i name" "take (len - i) (drop i known) = drop i known" for i
    using assms by simp_all
  show ?thesis
  proof (cases "len - j \<ge> 4")
    case True
    then have "dcc_gateway_load_u32_unaligned name j = dcc_gateway_load_u32_unaligned known j
        \<longleftrightarrow> take 4 (drop j name) = take 4 (drop j known)"
      using assms by (intro load_u32_eq_iff) auto
    moreover have "drop j name = drop j known
        \<longleftrightarrow> take 4 (drop j name) = take 4 (drop j known) \<and> drop (j + 4) name = drop (j + 4) known"
      using assms by (intro drop_split_eq) simp
    ultimately show ?thesis
      unfolding dcc_gateway_event_name_eq_fixed_def Some option.case all if_P [OF True] j(2) by blast
  next
    case False
    show ?thesis
      unfolding dcc_gateway_event_name_eq_fixed_def Some option.case all if_not_P [OF False] j(2) by (rule refl)
  qed
qed

lemma find_event_map_of:
  "find_event name entries = (case map_of entries name of None \<Rightarrow> DCC_EVENT_RAW | Some t \<Rightarrow> t)"
  by (induction name entries rule: find_event.induct) (auto simp: event_name_eq_fixed_iff)

text \<open>
  The lookup of event names, which compares length, first and last character and then words of eight and four bytes,
  is the plain lookup in the table: a listed name has its type, and every other name, a missing one and the empty one
  are raw events.
\<close>

theorem gateway_event_lookup:
  "dcc_gateway_event_type_from_name name =
     (case Option.bind name (map_of dcc_gateway_event_names) of None \<Rightarrow> DCC_EVENT_RAW | Some type \<Rightarrow> type)"
proof -
  have "[] \<notin> fst ` set dcc_gateway_event_names"
    by (simp add: dcc_gateway_event_names_def)
  then have "map_of dcc_gateway_event_names [] = None"
    by (rule map_of_eq_None_iff [THEN iffD2])
  then show ?thesis
    by (cases name) (simp_all add: dcc_gateway_event_type_from_name_def find_event_map_of)
qed

end
