(* ===== verification/DCC_Identify.thy ===== *)
theory DCC_Identify
  imports DCC_Transition
begin

text \<open>
  Admission of gateway IDENTIFYs, \<^verbatim>\<open>src/gateway/gateway_identify.c\<close> with the timing helpers of
  \<^verbatim>\<open>src/gateway/gateway_timing.c\<close>: the coordinator that the shards of a cluster share, which keeps one
  bucket of five seconds per unit of concurrency and the session start budget, and the budget a
  single client keeps for itself.

  The part of an attempt under the coordinator's lock is one atomic step; the shards interleave
  freely between steps, and so does the other writer of the coordinator, the copy of the gateway
  information of \<^verbatim>\<open>src/client/cluster_gateway_info_copy.c\<close>. A shard reads the clock before it takes the
  lock: an attempt works with a reading that may be older than the moment at which the lock is held,
  and older than the readings of attempts before it. The clock is an argument: the nanoseconds of
  \<open>llam_now_ns\<close>, which do not run backwards. The statistics counters (\<open>waits\<close>, \<open>reservations\<close>) are left out.
\<close>

section \<open>State\<close>

definition DCC_CLUSTER_IDENTIFY_BUCKET_CAP :: nat where
  "DCC_CLUSTER_IDENTIFY_BUCKET_CAP = 64"

record dcc_cluster_identify_coordinator =
  max_concurrency :: u32
  remaining :: u32
  total :: u32
  reset_at_ms :: u64
  bucket_next_ms :: "nat \<Rightarrow> u64"

definition dcc_gateway_now_ms :: "u64 \<Rightarrow> u64" where
  "dcc_gateway_now_ms ns = ns div 1000000"

definition dcc_gateway_now_jitter :: "u64 \<Rightarrow> u32 \<Rightarrow> u64 \<Rightarrow> u32" where
  "dcc_gateway_now_jitter ns max_ms salt =
     (if max_ms = 0 then 0
      else
        let v = ns XOR (salt * 11400714819323198485);
            v = v XOR drop_bit 33 v;
            v = v * 0xff51afd7ed558ccd;
            v = v XOR drop_bit 33 v in
        ucast (v mod ucast max_ms))"

section \<open>The coordinator\<close>

definition identify_concurrency :: "dcc_cluster_identify_coordinator \<Rightarrow> nat" where
  "identify_concurrency co =
     (let c = (if max_concurrency co \<noteq> 0 then unat (max_concurrency co) else 1) in
      if c > DCC_CLUSTER_IDENTIFY_BUCKET_CAP then DCC_CLUSTER_IDENTIFY_BUCKET_CAP else c)"

definition refill :: "dcc_cluster_identify_coordinator \<Rightarrow> u64 \<Rightarrow> dcc_cluster_identify_coordinator" where
  "refill co now =
     (if remaining co = 0 \<and> reset_at_ms co \<noteq> 0 \<and> now \<ge> reset_at_ms co
      then co\<lparr>remaining := (if total co \<noteq> 0 then total co else 1), reset_at_ms := 0\<rparr>
      else co)"

text \<open>One pass under the lock: the delay to wait, which is 0 when the slot has been taken.\<close>

definition identify_attempt ::
  "dcc_cluster_identify_coordinator \<Rightarrow> u32 \<Rightarrow> u64 \<Rightarrow> u64 \<times> dcc_cluster_identify_coordinator" where
  "identify_attempt co shard_id now =
     (let co = refill co now;
          delay = (if remaining co = 0 \<and> reset_at_ms co > now then reset_at_ms co - now else 0);
          bucket = unat shard_id mod identify_concurrency co;
          delay = (if bucket_next_ms co bucket > now \<and> bucket_next_ms co bucket - now > delay
                   then bucket_next_ms co bucket - now else delay) in
      if delay = 0 then
        (0, co\<lparr>bucket_next_ms := (bucket_next_ms co)(bucket := now + 5000),
               remaining := (if remaining co > 0 then remaining co - 1 else remaining co)\<rparr>)
      else (delay, co))"

section \<open>Waiting\<close>

text \<open>\<open>dcc_gateway_wait_ms\<close> sleeps in slices and gives up when the client stops or a reconnect is requested.
  \<open>interrupted i\<close> is what the \<open>i\<close>th look at the two flags finds; the result has the milliseconds slept.\<close>

function wait_slices :: "(nat \<Rightarrow> bool) \<Rightarrow> nat \<Rightarrow> u64 \<Rightarrow> nat \<Rightarrow> dcc_status \<times> nat" where
  "wait_slices interrupted i left slept =
     (if left > 0 \<and> \<not> interrupted i then
        let slice = (if left > 100 then 100 else left) in
        wait_slices interrupted (Suc i) (left - slice) (slept + unat slice)
      else (if interrupted (if left > 0 then Suc i else i) then DCC_ERR_CANCELED else DCC_OK, slept))"
  by pat_completeness auto
termination
  by (relation "measure (\<lambda>(_, _, left, _). unat left)") (auto simp: word_less_nat_alt unat_sub word_le_nat_alt)

declare wait_slices.simps [simp del]

definition dcc_gateway_wait_ms :: "(nat \<Rightarrow> bool) \<Rightarrow> u64 \<Rightarrow> dcc_status \<times> nat" where
  "dcc_gateway_wait_ms interrupted delay_ms = wait_slices interrupted 0 delay_ms 0"

lemma wait_slices_quiet:
  "\<forall>i. \<not> interrupted i \<Longrightarrow> wait_slices interrupted i left slept = (DCC_OK, slept + unat left)"
proof (induction interrupted i left slept rule: wait_slices.induct)
  case (1 interrupted i left slept)
  show ?case
  proof (cases "left > 0")
    case True
    define slice where "slice = (if left > 100 then 100 else left)"
    have "slice \<le> left" by (auto simp: slice_def)
    then have "unat slice + unat (left - slice) = unat left" by (simp add: unat_sub word_le_nat_alt)
    moreover have "wait_slices interrupted i left slept = wait_slices interrupted (Suc i) (left - slice) (slept + unat slice)"
      using True 1(2) by (simp add: wait_slices.simps [of interrupted i] slice_def Let_def)
    moreover have "wait_slices interrupted (Suc i) (left - slice) (slept + unat slice) = (DCC_OK, slept + unat slice + unat (left - slice))"
      by (rule 1(1) [OF _ slice_def 1(2)]) (use True 1(2) in simp)
    ultimately show ?thesis by simp
  qed (use 1(2) in \<open>auto simp: wait_slices.simps [of _ i] word_gt_0\<close>)
qed

lemma wait_ms_quiet: "\<forall>i. \<not> interrupted i \<Longrightarrow> dcc_gateway_wait_ms interrupted d = (DCC_OK, unat d)"
  by (simp add: dcc_gateway_wait_ms_def wait_slices_quiet)

section \<open>The budget of a single client\<close>

record identify_budget =
  gateway_remaining_identifies :: u32
  gateway_session_total_identifies :: u32
  gateway_session_reset_at_ms :: u64
  gateway_identify_delay_ms :: u32

definition dcc_gateway_refresh_identify_limit :: "identify_budget \<Rightarrow> u64 \<Rightarrow> identify_budget" where
  "dcc_gateway_refresh_identify_limit b now =
     (if gateway_remaining_identifies b \<noteq> 0 \<or> gateway_session_reset_at_ms b = 0 \<or> now < gateway_session_reset_at_ms b then b
      else b\<lparr>gateway_remaining_identifies :=
               (if gateway_session_total_identifies b \<noteq> 0 then gateway_session_total_identifies b else 1),
             gateway_session_reset_at_ms := 0\<rparr>)"

text \<open>The loop of a shard over the clock readings of its passes; \<open>None\<close> when it is still waiting after the
  last of them. Each pass comes with what its wait would find and with what other shards make of the
  coordinator meanwhile. A client without a coordinator has its slot at once.\<close>

type_synonym identify_pass =
  "u64 \<times> (nat \<Rightarrow> bool) \<times> (dcc_cluster_identify_coordinator \<Rightarrow> dcc_cluster_identify_coordinator)"

fun cluster_passes ::
  "dcc_cluster_identify_coordinator \<Rightarrow> identify_budget \<Rightarrow> u32 \<Rightarrow> identify_pass list
    \<Rightarrow> (dcc_status \<times> dcc_cluster_identify_coordinator \<times> identify_budget) option" where
  "cluster_passes co b shard_id [] = None"
| "cluster_passes co b shard_id ((ns, interrupted, others) # later) =
     (case identify_attempt co shard_id (dcc_gateway_now_ms ns) of
        (delay, co) \<Rightarrow>
          if delay = 0 then Some (DCC_OK, co, b\<lparr>gateway_remaining_identifies := remaining co\<rparr>)
          else (case dcc_gateway_wait_ms interrupted delay of
            (DCC_OK, _) \<Rightarrow> cluster_passes (others co) b shard_id later
          | (status, _) \<Rightarrow> Some (status, co, b)))"

definition dcc_gateway_wait_cluster_identify_slot ::
  "dcc_cluster_identify_coordinator option \<Rightarrow> identify_budget \<Rightarrow> u32 \<Rightarrow> identify_pass list
    \<Rightarrow> (dcc_status \<times> dcc_cluster_identify_coordinator option \<times> identify_budget) option" where
  "dcc_gateway_wait_cluster_identify_slot coordinator b shard_id passes =
     (case coordinator of
        None \<Rightarrow> Some (DCC_OK, None, b)
      | Some co \<Rightarrow> map_option (\<lambda>(st, co, b). (st, Some co, b)) (cluster_passes co b shard_id passes))"

text \<open>The delay \<open>dcc_gateway_wait_identify_slot\<close> computes before it goes to the coordinator.\<close>

definition identify_slot_delay :: "identify_budget \<Rightarrow> u64 \<Rightarrow> u64 \<times> identify_budget" where
  "identify_slot_delay b now =
     (let delay = ucast (gateway_identify_delay_ms b) :: u64;
          b = dcc_gateway_refresh_identify_limit (b\<lparr>gateway_identify_delay_ms := 0\<rparr>) now in
      if gateway_remaining_identifies b = 0 \<and> gateway_session_reset_at_ms b \<noteq> 0 \<and> now < gateway_session_reset_at_ms b
         \<and> gateway_session_reset_at_ms b - now > delay
      then (gateway_session_reset_at_ms b - now, b) else (delay, b))"

definition dcc_gateway_wait_identify_slot ::
  "dcc_cluster_identify_coordinator option \<Rightarrow> identify_budget \<Rightarrow> u32 \<Rightarrow> u64 \<Rightarrow> (nat \<Rightarrow> bool) \<Rightarrow> u64 \<Rightarrow> identify_pass list
    \<Rightarrow> (dcc_status \<times> dcc_cluster_identify_coordinator option \<times> identify_budget) option" where
  "dcc_gateway_wait_identify_slot coordinator b shard_id ns interrupted ns_after passes =
     (case identify_slot_delay b (dcc_gateway_now_ms ns) of
        (delay, b) \<Rightarrow>
          if delay = 0 then dcc_gateway_wait_cluster_identify_slot coordinator b shard_id passes
          else (case dcc_gateway_wait_ms interrupted delay of
            (DCC_OK, _) \<Rightarrow>
              dcc_gateway_wait_cluster_identify_slot coordinator
                (dcc_gateway_refresh_identify_limit b (dcc_gateway_now_ms ns_after)) shard_id passes
          | (status, _) \<Rightarrow> Some (status, coordinator, b)))"

definition dcc_gateway_consume_identify :: "bool \<Rightarrow> identify_budget \<Rightarrow> identify_budget" where
  "dcc_gateway_consume_identify has_coordinator b =
     (if has_coordinator then b
      else if gateway_remaining_identifies b > 0
      then b\<lparr>gateway_remaining_identifies := gateway_remaining_identifies b - 1\<rparr> else b)"

section \<open>The gateway information\<close>

text \<open>The part of \<open>dcc_cluster_copy_gateway_info_from_first\<close> that the coordinator sees: the concurrency of the
  cluster and of the first shard, and the first shard's budget; the buckets are opened. The result has
  the cluster's new concurrency too.\<close>

definition coordinator_copy_gateway_info ::
  "u32 \<Rightarrow> u32 \<Rightarrow> identify_budget \<Rightarrow> dcc_cluster_identify_coordinator \<Rightarrow> u32 \<times> dcc_cluster_identify_coordinator" where
  "coordinator_copy_gateway_info cluster_concurrency source_concurrency source co =
     (let concurrency = (if source_concurrency \<noteq> 0 then source_concurrency else cluster_concurrency) in
      (concurrency,
       co\<lparr>max_concurrency := concurrency,
          remaining := gateway_remaining_identifies source,
          total := gateway_session_total_identifies source,
          reset_at_ms := gateway_session_reset_at_ms source,
          bucket_next_ms := (\<lambda>_. 0)\<rparr>))"

section \<open>Runs of a cluster\<close>

text \<open>A run: the coordinator, the time at which its lock was last held, the coordinator as the last gateway
  information left it, and the reservations made since, newest first, each with its bucket, the clock
  reading it was made with and the time at which it was made, in milliseconds.\<close>

type_synonym reservation = "nat \<times> nat \<times> nat"

type_synonym identify_run =
  "dcc_cluster_identify_coordinator \<times> u64 \<times> dcc_cluster_identify_coordinator \<times> reservation list"

inductive identify_step :: "identify_run \<Rightarrow> identify_run \<Rightarrow> bool" where
  taken: "clock \<le> held \<Longrightarrow> ns \<le> held \<Longrightarrow> identify_attempt co shard (dcc_gateway_now_ms ns) = (0, co')
    \<Longrightarrow> identify_step (co, clock, base, log)
      (co', held, base, (unat shard mod identify_concurrency co, unat (dcc_gateway_now_ms ns),
         unat (dcc_gateway_now_ms held)) # log)"
| waiting: "clock \<le> held \<Longrightarrow> ns \<le> held \<Longrightarrow> identify_attempt co shard (dcc_gateway_now_ms ns) = (d, co') \<Longrightarrow> d \<noteq> 0
    \<Longrightarrow> identify_step (co, clock, base, log) (co', held, base, log)"
| information: "clock \<le> held \<Longrightarrow> coordinator_copy_gateway_info mc source_mc source co = (mc', co')
    \<Longrightarrow> identify_step (co, clock, base, log) (co', held, co', [])"

lemma now_ms_bound: "unat (dcc_gateway_now_ms ns) + 5000 < 2 ^ 64"
proof -
  have "unat (dcc_gateway_now_ms ns) = unat ns div 1000000"
    by (simp add: dcc_gateway_now_ms_def unat_div)
  then show ?thesis using unat_u64_less [of ns] by simp
qed

lemma unat_bucket_next: "unat (dcc_gateway_now_ms ns + 5000) = unat (dcc_gateway_now_ms ns) + 5000"
  using now_ms_bound [of ns] by (subst unat_add_lem [THEN iffD1]) auto

lemma now_ms_mono: "clock \<le> ns \<Longrightarrow> unat (dcc_gateway_now_ms clock) \<le> unat (dcc_gateway_now_ms ns)"
  by (simp add: dcc_gateway_now_ms_def unat_div word_le_nat_alt div_le_mono)

lemma refill_simps [simp]:
  "max_concurrency (refill co now) = max_concurrency co" "bucket_next_ms (refill co now) = bucket_next_ms co"
  "total (refill co now) = total co" "identify_concurrency (refill co now) = identify_concurrency co"
  by (auto simp: refill_def identify_concurrency_def)

text \<open>What one pass does.\<close>

lemma attempt_cases:
  assumes "identify_attempt co shard now = (d, co')"
  obtains (taken) "d = 0" "\<not> bucket_next_ms co (unat shard mod identify_concurrency co) > now"
      "\<not> (remaining (refill co now) = 0 \<and> reset_at_ms (refill co now) > now)"
      "co' = (refill co now)\<lparr>bucket_next_ms := (bucket_next_ms co)(unat shard mod identify_concurrency co := now + 5000),
        remaining := (if remaining (refill co now) > 0 then remaining (refill co now) - 1 else remaining (refill co now))\<rparr>"
    | (waiting) "d \<noteq> 0" "co' = refill co now"
      "d = max (if remaining (refill co now) = 0 \<and> reset_at_ms (refill co now) > now then reset_at_ms (refill co now) - now else 0)
        (if bucket_next_ms co (unat shard mod identify_concurrency co) > now
         then bucket_next_ms co (unat shard mod identify_concurrency co) - now else 0)"
proof -
  define b where "b = unat shard mod identify_concurrency co"
  define x where "x = (if remaining (refill co now) = 0 \<and> reset_at_ms (refill co now) > now then reset_at_ms (refill co now) - now else 0)"
  define y where "y = (if bucket_next_ms co b > now then bucket_next_ms co b - now else 0)"
  have pos: "a > now \<Longrightarrow> a - now \<noteq> 0" for a :: u64 by auto
  have d: "(if bucket_next_ms co b > now \<and> bucket_next_ms co b - now > x then bucket_next_ms co b - now else x) = max x y"
    by (auto simp: y_def max_def not_less)
  have eq: "identify_attempt co shard now = (if max x y = 0 then
      (0, (refill co now)\<lparr>bucket_next_ms := (bucket_next_ms co)(b := now + 5000),
        remaining := (if remaining (refill co now) > 0 then remaining (refill co now) - 1 else remaining (refill co now))\<rparr>)
      else (max x y, refill co now))"
    unfolding identify_attempt_def Let_def refill_simps b_def [symmetric] x_def [symmetric] d ..
  show thesis
  proof (cases "max x y = 0")
    case True
    then have "x = 0" "y = 0" by (auto simp: max_def split: if_splits)
    then have "\<not> (remaining (refill co now) = 0 \<and> reset_at_ms (refill co now) > now)" "\<not> bucket_next_ms co b > now"
      using pos by (auto simp: x_def y_def split: if_splits)
    with True assms eq taken show thesis by (simp add: b_def)
  next
    case False
    then have dd: "d = max x y" "co' = refill co now" using assms unfolding eq by auto
    have "d \<noteq> 0" using False dd(1) by simp
    from waiting [OF this dd(2)] dd(1) show thesis unfolding x_def y_def b_def by blast
  qed
qed

section \<open>Spacing and budget\<close>

text \<open>The spacing of the reservations: of two in the same bucket, the later was made with a reading five
  seconds above the earlier one's.\<close>

definition spaced :: "reservation list \<Rightarrow> bool" where
  "spaced log \<longleftrightarrow> sorted_wrt (\<lambda>(b, t, _) (c, u, _). b = c \<longrightarrow> u + 5000 \<le> t) log"

definition spacing_inv :: "identify_run \<Rightarrow> bool" where
  "spacing_inv r \<longleftrightarrow> (case r of (co, clock, base, log) \<Rightarrow>
     spaced log \<and> (\<forall>(b, t, h) \<in> set log. t + 5000 \<le> unat (bucket_next_ms co b) \<and> t \<le> h))"

lemma spacing_step:
  assumes "spacing_inv r" "identify_step r r'"
  shows "spacing_inv r'"
  using assms(2,1)
proof (cases rule: identify_step.cases)
  case (taken clock held ns co shard co' base log)
  note held = now_ms_mono [OF taken(4)] and r = taken(1,2)
  from taken(5) show ?thesis
  proof (cases rule: attempt_cases)
    case taken
    define b where "b = unat shard mod identify_concurrency co"
    have nx: "unat (bucket_next_ms co b) \<le> unat (dcc_gateway_now_ms ns)"
      using taken(2) by (simp add: b_def not_less word_le_nat_alt)
    have inv: "spaced log" "\<forall>(c, t, h) \<in> set log. t + 5000 \<le> unat (bucket_next_ms co c) \<and> t \<le> h"
      using assms(1) r by (auto simp: spacing_inv_def)
    then have "\<forall>(c, t, h) \<in> set log. b = c \<longrightarrow> t + 5000 \<le> unat (dcc_gateway_now_ms ns)"
      using nx by fastforce
    then have "spaced ((b, unat (dcc_gateway_now_ms ns), unat (dcc_gateway_now_ms held)) # log)"
      using inv(1) by (auto simp: spaced_def)
    moreover have "t + 5000 \<le> unat (dcc_gateway_now_ms ns + 5000)" if "(b, t, h) \<in> set log" for t h
      using inv(2) that nx by (fastforce simp: unat_bucket_next)
    ultimately show ?thesis
      using r taken(4) inv(2) held by (auto simp: spacing_inv_def b_def unat_bucket_next)
  qed simp
next
  case (waiting clock held ns co shard d co' base log)
  from waiting(5,6) assms(1) show ?thesis
    by (cases rule: attempt_cases) (auto simp: spacing_inv_def waiting(1,2))
next
  case (information clock held mc source_mc source co mc' co' base log)
  then show ?thesis by (simp add: spacing_inv_def spaced_def)
qed

text \<open>The budget of the window the last gateway information described. While the window's end is still known,
  every reservation has been taken off the budget; once it is not, the end has passed.\<close>

definition before :: "nat \<Rightarrow> reservation list \<Rightarrow> nat" where
  "before r0 log = length (filter (\<lambda>(b, t, h). h < r0) log)"

definition budget_inv :: "identify_run \<Rightarrow> bool" where
  "budget_inv r \<longleftrightarrow> (case r of (co, clock, base, log) \<Rightarrow>
     reset_at_ms base \<noteq> 0 \<longrightarrow>
     (if reset_at_ms co = reset_at_ms base then length log + unat (remaining co) \<le> unat (remaining base)
      else reset_at_ms co = 0 \<and> unat (reset_at_ms base) \<le> unat (dcc_gateway_now_ms clock)
        \<and> before (unat (reset_at_ms base)) log \<le> unat (remaining base)))"

lemma before_Cons: "before r0 ((b, t, h) # log) = (if h < r0 then 1 else 0) + before r0 log"
  by (simp add: before_def)

lemma before_le: "before r0 log \<le> length log"
  by (simp add: before_def)

lemma refill_budget:
  assumes "r0 \<noteq> 0" "reset_at_ms co = r0"
  shows "refill co now = co \<or> r0 \<le> now \<and> reset_at_ms (refill co now) = 0 \<and> remaining co = 0"
  using assms by (auto simp: refill_def)

lemma refill_spent: "reset_at_ms co = 0 \<Longrightarrow> refill co now = co"
  by (simp add: refill_def)

lemma unat_dec: "(x :: u32) > 0 \<Longrightarrow> unat (x - 1) + 1 = unat x"
proof -
  assume "x > 0"
  then have "1 \<le> unat x" by (simp add: word_less_nat_alt)
  then show ?thesis by (simp add: unat_sub word_le_nat_alt)
qed

text \<open>An attempt on the window of the last gateway information: it waits or takes from the budget, unless its
  reading shows that the window is over.\<close>

lemma attempt_budget:
  assumes "identify_attempt co shard now = (d, co')" "reset_at_ms co = r0" "r0 \<noteq> 0"
  shows "reset_at_ms co' = r0 \<and> unat (remaining co') + (if d = 0 then 1 else 0) = unat (remaining co)
    \<or> reset_at_ms co' = 0 \<and> r0 \<le> now \<and> remaining co = 0"
  using assms(1)
proof (cases rule: attempt_cases)
  case taken
  from refill_budget [OF assms(3,2), of now] show ?thesis
  proof
    assume same: "refill co now = co"
    have "remaining co > 0"
    proof (rule ccontr)
      assume "\<not> remaining co > 0"
      then have z: "remaining co = 0" by (simp add: word_gt_0)
      then have "\<not> now < r0" using taken(3) same assms(2) by simp
      then have "reset_at_ms (refill co now) = 0" using z assms(2,3) by (simp add: refill_def)
      then show False using same assms(2,3) by simp
    qed
    then show ?thesis using taken same assms(2) unat_dec [of "remaining co"] by simp
  qed (use taken in simp)
next
  case waiting
  from refill_budget [OF assms(3,2), of now] waiting assms(2) show ?thesis by auto
qed

lemma attempt_spent:
  assumes "identify_attempt co shard now = (d, co')" "reset_at_ms co = 0"
  shows "reset_at_ms co' = 0"
  using assms(1) by (cases rule: attempt_cases) (simp_all add: refill_spent [OF assms(2)] assms(2))

lemma budget_attempt:
  assumes "budget_inv (co, clock, base, log)" "clock \<le> held" "ns \<le> held"
    and "identify_attempt co shard (dcc_gateway_now_ms ns) = (d, co')"
  shows "budget_inv (co', held, base, (if d = 0 then [(b, t, unat (dcc_gateway_now_ms held))] else []) @ log)"
proof (cases "reset_at_ms base = 0")
  case False
  let ?r0 = "reset_at_ms base"
  note mono = now_ms_mono [OF assms(2)] now_ms_mono [OF assms(3)]
  show ?thesis
  proof (cases "reset_at_ms co = ?r0")
    case True
    from attempt_budget [OF assms(4) True False] show ?thesis
      using assms(1) False True before_le [of "unat ?r0" log] mono
      by (auto simp: budget_inv_def before_Cons word_le_nat_alt split: if_splits)
  next
    case spent: False
    then have "reset_at_ms co = 0" using assms(1) False by (simp add: budget_inv_def)
    from attempt_spent [OF assms(4) this] show ?thesis
      using assms(1) False spent mono by (auto simp: budget_inv_def before_Cons)
  qed
qed (simp add: budget_inv_def)

lemma budget_step:
  assumes "budget_inv r" "identify_step r r'"
  shows "budget_inv r'"
  using assms(2)
proof (cases rule: identify_step.cases)
  case (taken clock held ns co shard co' base log)
  with assms(1) budget_attempt [of co clock base log held ns shard 0 co'] show ?thesis by simp
next
  case (waiting clock held ns co shard d co' base log)
  with assms(1) budget_attempt [of co clock base log held ns shard d co'] show ?thesis by simp
next
  case (information clock held mc source_mc source co mc' co' base log)
  then show ?thesis by (simp add: budget_inv_def)
qed

text \<open>Both invariants, as one transition system that starts with no reservation made.\<close>

definition identify_start :: "identify_run \<Rightarrow> bool" where
  "identify_start r \<longleftrightarrow> (case r of (co, clock, base, log) \<Rightarrow> base = co \<and> log = [])"

interpretation admission: transition_system identify_start identify_step "\<lambda>r. spacing_inv r \<and> budget_inv r"
proof
  fix s assume "identify_start s"
  then show "spacing_inv s \<and> budget_inv s"
    by (auto simp: identify_start_def spacing_inv_def budget_inv_def spaced_def)
next
  fix s s' assume "spacing_inv s \<and> budget_inv s" "identify_step s s'"
  then show "spacing_inv s' \<and> budget_inv s'"
    using spacing_step budget_step by blast
qed

section \<open>Waiting is enough\<close>

lemma unat_diff_u64: "a \<le> b \<Longrightarrow> unat (b - a :: u64) = unat b - unat a"
  by (simp add: unat_sub)

lemma attempt_after_wait:
  assumes "identify_attempt co shard now = (d, co')" "d \<noteq> 0" "unat now + unat d \<le> unat later"
  shows "fst (identify_attempt co' shard later) = 0"
proof -
  define b where "b = unat shard mod identify_concurrency co"
  from assms(1) show ?thesis
  proof (cases rule: attempt_cases)
    case waiting
    have reach: "a > now \<Longrightarrow> a - now \<le> d \<Longrightarrow> \<not> a > later" for a :: u64
      using assms(3) unat_diff_u64 [of now a] by (auto simp: word_less_nat_alt word_le_nat_alt)
    have "reset_at_ms co' - now \<le> d" if "remaining co' = 0" "reset_at_ms co' > now"
      using waiting(2,3) that by simp
    then have "\<not> (remaining co' = 0 \<and> reset_at_ms co' > later)"
    proof -
      assume le: "remaining co' = 0 \<Longrightarrow> reset_at_ms co' > now \<Longrightarrow> reset_at_ms co' - now \<le> d"
      have "now \<le> later" using assms(3) by (simp add: word_le_nat_alt)
      with le reach show ?thesis by (meson le_less_trans)
    qed
    then have r: "\<not> (remaining (refill co' later) = 0 \<and> reset_at_ms (refill co' later) > later)"
      by (auto simp: refill_def)
    have "bucket_next_ms co b > now \<Longrightarrow> bucket_next_ms co b - now \<le> d"
      using waiting(3) by (simp add: b_def)
    then have bk: "\<not> bucket_next_ms co b > later"
    proof -
      assume le: "bucket_next_ms co b > now \<Longrightarrow> bucket_next_ms co b - now \<le> d"
      have "now \<le> later" using assms(3) by (simp add: word_le_nat_alt)
      with le reach show ?thesis by (meson le_less_trans)
    qed
    obtain d2 co2 where a: "identify_attempt co' shard later = (d2, co2)" by fastforce
    then show ?thesis
    proof (cases rule: attempt_cases)
      case w: waiting
      have "bucket_next_ms co' (unat shard mod identify_concurrency co') = bucket_next_ms co b"
        using waiting(2) by (simp add: b_def)
      then have "d2 = 0" using w(3) r bk by (auto simp: max_def)
      then show ?thesis using a by simp
    qed (use a in simp)
  qed (use assms(2) in simp)
qed

text \<open>What the other shards may make of the coordinator while a shard waits without costing it its slot: its
  bucket stays as it is, and budget is left or the end of the window has not moved away.\<close>

definition leaves_slot :: "u32 \<Rightarrow> dcc_cluster_identify_coordinator \<Rightarrow> dcc_cluster_identify_coordinator \<Rightarrow> bool" where
  "leaves_slot shard co co' \<longleftrightarrow>
     max_concurrency co' = max_concurrency co
     \<and> bucket_next_ms co' (unat shard mod identify_concurrency co) \<le> bucket_next_ms co (unat shard mod identify_concurrency co)
     \<and> (remaining co' > 0 \<or> remaining co = 0 \<and> reset_at_ms co' \<le> reset_at_ms co)"

text \<open>Attempts of shards of other buckets are of this kind as long as budget is left.\<close>

lemma leaves_slot_attempt:
  assumes "identify_attempt co shard' now = (d, co')" "remaining co' > 0"
    and "unat shard' mod identify_concurrency co \<noteq> unat shard mod identify_concurrency co"
  shows "leaves_slot shard co co'"
  using assms(1)
  by (cases rule: attempt_cases) (use assms(2,3) in \<open>auto simp: leaves_slot_def\<close>)

text \<open>The delay of a pass covers the slot as long as the others leave it.\<close>

lemma attempt_after_wait_others:
  assumes "identify_attempt co shard now = (d, co1)" "d \<noteq> 0" "unat now + unat d \<le> unat later" "leaves_slot shard co1 co2"
  shows "fst (identify_attempt co2 shard later) = 0"
proof -
  define b where "b = unat shard mod identify_concurrency co1"
  have conc: "identify_concurrency co2 = identify_concurrency co1"
    using assms(4) by (simp add: leaves_slot_def identify_concurrency_def)
  obtain x cox where a1: "identify_attempt co1 shard later = (x, cox)" by fastforce
  have x: "x = 0" using attempt_after_wait [OF assms(1-3)] a1 by simp
  have open1: "\<not> bucket_next_ms co1 b > later" "\<not> (remaining (refill co1 later) = 0 \<and> reset_at_ms (refill co1 later) > later)"
    using a1 unfolding x by (cases rule: attempt_cases; simp add: b_def)+
  have open2: "\<not> bucket_next_ms co2 b > later"
    using assms(4) open1(1) unfolding leaves_slot_def b_def by (meson dual_order.strict_trans1 leD leI)
  have "\<not> (remaining co2 = 0 \<and> reset_at_ms co2 > later)"
    using assms(4) open1(2) by (auto simp: leaves_slot_def refill_def not_less split: if_splits)
  then have budget: "\<not> (remaining (refill co2 later) = 0 \<and> reset_at_ms (refill co2 later) > later)"
    by (auto simp: refill_def)
  obtain d2 co3 where a2: "identify_attempt co2 shard later = (d2, co3)" by fastforce
  then show ?thesis
  proof (cases rule: attempt_cases)
    case waiting
    have "d2 = 0" using waiting(3) budget open2 conc by (auto simp: b_def max_def)
    then show ?thesis using a2 by simp
  qed (use a2 in simp)
qed

text \<open>The sleeps of the passes are served: each pass reads the clock no earlier than its predecessor's
  reading plus the delay that one computed.\<close>

fun waits_served :: "dcc_cluster_identify_coordinator \<Rightarrow> u32 \<Rightarrow> identify_pass list \<Rightarrow> bool" where
  "waits_served co shard ((ns, interrupted, others) # (ns', interrupted', others') # later) =
     (case identify_attempt co shard (dcc_gateway_now_ms ns) of
        (d, co') \<Rightarrow> d = 0 \<or> unat (dcc_gateway_now_ms ns) + unat d \<le> unat (dcc_gateway_now_ms ns')
          \<and> waits_served (others co') shard ((ns', interrupted', others') # later))"
| "waits_served co shard passes = True"

text \<open>The coordinator that passes and the interference behind each of them leave.\<close>

fun passes_leave :: "dcc_cluster_identify_coordinator \<Rightarrow> u32 \<Rightarrow> identify_pass list \<Rightarrow> dcc_cluster_identify_coordinator" where
  "passes_leave co shard [] = co"
| "passes_leave co shard ((ns, interrupted, others) # later) =
     passes_leave (others (snd (identify_attempt co shard (dcc_gateway_now_ms ns)))) shard later"

lemma cluster_passes_last:
  assumes "\<forall>(ns, interrupted, others) \<in> set (pre @ [(ns, interrupted, others)]). \<forall>i. \<not> interrupted i"
    and "waits_served co shard (pre @ [(ns, interrupted, others), last_pass])"
    and "leaves_slot shard c (others c)" "c = snd (identify_attempt (passes_leave co shard pre) shard (dcc_gateway_now_ms ns))"
  shows "\<exists>co' b'. cluster_passes co b shard (pre @ [(ns, interrupted, others), last_pass]) = Some (DCC_OK, co', b')"
  using assms(1,2,4)
proof (induction pre arbitrary: co)
  case Nil
  obtain ns' interrupted' others' where l: "last_pass = (ns', interrupted', others')" by (cases last_pass)
  obtain d co1 where a: "identify_attempt co shard (dcc_gateway_now_ms ns) = (d, co1)" by fastforce
  show ?case
  proof (cases "d = 0")
    case False
    then have "fst (identify_attempt (others co1) shard (dcc_gateway_now_ms ns')) = 0"
      using attempt_after_wait_others [OF a] Nil.prems(2,3) assms(3) by (simp add: a l)
    with False a Nil.prems(1) show ?thesis
      by (cases "identify_attempt (others co1) shard (dcc_gateway_now_ms ns')") (auto simp: wait_ms_quiet l)
  qed (use a in simp)
next
  case (Cons p pre)
  obtain ns1 interrupted1 others1 where p: "p = (ns1, interrupted1, others1)" by (cases p)
  obtain d co1 where a: "identify_attempt co shard (dcc_gateway_now_ms ns1) = (d, co1)" by fastforce
  show ?case
  proof (cases "d = 0")
    case False
    have "waits_served (others1 co1) shard (pre @ [(ns, interrupted, others), last_pass])"
      using Cons.prems(2) False a p by (cases pre; cases "hd pre") auto
    moreover have "\<forall>i. \<not> interrupted1 i" using Cons.prems(1) p by simp
    then have "cluster_passes co b shard ((p # pre) @ [(ns, interrupted, others), last_pass])
        = cluster_passes (others1 co1) b shard (pre @ [(ns, interrupted, others), last_pass])"
      using False by (simp only: append_Cons p cluster_passes.simps a) (simp add: wait_ms_quiet)
    moreover have "\<forall>(ns, interrupted, others) \<in> set (pre @ [(ns, interrupted, others)]). \<forall>i. \<not> interrupted i"
      using Cons.prems(1) by simp
    ultimately show ?thesis using Cons.IH [of "others1 co1"] Cons.prems(3) p a by (metis passes_leave.simps(2) snd_conv)
  qed (use a p in simp)
qed

text \<open>The delay of a client covers the reset of its own budget.\<close>

lemma slot_delay_budget:
  assumes "identify_slot_delay b now = (d, b')" "unat now + unat d \<le> unat later"
    and "gateway_remaining_identifies b > 0 \<or> gateway_session_reset_at_ms b \<noteq> 0"
  shows "gateway_remaining_identifies (if d = 0 then b' else dcc_gateway_refresh_identify_limit b' later) > 0"
proof -
  define r where "r = dcc_gateway_refresh_identify_limit (b\<lparr>gateway_identify_delay_ms := 0\<rparr>) now"
  have b': "b' = r" using assms(1) by (auto simp: identify_slot_delay_def r_def Let_def split: if_splits)
  show ?thesis
  proof (cases "gateway_remaining_identifies r > 0")
    case True
    then show ?thesis
      by (auto simp: b' dcc_gateway_refresh_identify_limit_def word_neq_0_conv)
  next
    case False
    then have z: "gateway_remaining_identifies r = 0" by (simp add: word_gt_0)
    then have r: "gateway_remaining_identifies r = 0" "gateway_session_reset_at_ms r \<noteq> 0" "now < gateway_session_reset_at_ms r"
      using assms(3) by (auto simp: r_def dcc_gateway_refresh_identify_limit_def word_gt_0 split: if_splits)
    then have ge: "gateway_session_reset_at_ms r - now \<le> d"
      using assms(1) by (auto simp: identify_slot_delay_def r_def Let_def split: if_splits)
    then have "d \<noteq> 0" using r(3) by auto
    moreover have "gateway_session_reset_at_ms r \<le> later"
      using ge assms(2) r(3) unat_diff_u64 [of now "gateway_session_reset_at_ms r"] by (auto simp: word_le_nat_alt word_less_nat_alt)
    ultimately show ?thesis
      using r by (auto simp: b' dcc_gateway_refresh_identify_limit_def word_neq_0_conv)
  qed
qed

text \<open>The window's end is forgotten with the first refill.\<close>

definition identify_attempts ::
  "dcc_cluster_identify_coordinator \<Rightarrow> (u32 \<times> u64) list \<Rightarrow> dcc_cluster_identify_coordinator" where
  "identify_attempts = foldl (\<lambda>co (shard, now). snd (identify_attempt co shard now))"

lemma attempts_spent: "reset_at_ms co = 0 \<Longrightarrow> reset_at_ms (identify_attempts co xs) = 0"
proof (induction xs arbitrary: co)
  case (Cons x xs)
  obtain shard now where x: "x = (shard, now)" by fastforce
  obtain d co' where a: "identify_attempt co shard now = (d, co')" by fastforce
  from Cons.IH [OF attempt_spent [OF a Cons.prems]] show ?case by (simp add: identify_attempts_def x a)
qed (simp add: identify_attempts_def)

section \<open>Properties\<close>

text \<open>
  C12. Reservations of identify slots. However the shards of a cluster interleave, and whenever the clock
  readings of their attempts were taken, the reservations made in one concurrency bucket since the
  gateway information was last copied were made with clock readings at least five seconds apart, none of
  them ahead of the time; and no more reservations are made before the end of the session window that
  information described than the budget it left. Nothing is claimed of the budget after that window.
\<close>

theorem identify_spacing_and_budget:
  assumes "identify_step\<^sup>*\<^sup>* (co, clock, co, []) (co', clock', base, log)"
  shows "(\<forall>i < length log. \<forall>j < i. fst (log ! i) = fst (log ! j)
        \<longrightarrow> fst (snd (log ! i)) + 5000 \<le> fst (snd (log ! j)) \<and> fst (snd (log ! j)) \<le> snd (snd (log ! j)))
    \<and> (reset_at_ms base \<noteq> 0
        \<longrightarrow> length (filter (\<lambda>(b, t, h). h < unat (reset_at_ms base)) log) \<le> unat (remaining base))"
proof -
  have "spacing_inv (co', clock', base, log) \<and> budget_inv (co', clock', base, log)"
    by (rule admission.reachable_inv [OF _ assms]) (simp add: identify_start_def)
  then have sp: "spaced log" "\<forall>(b, t, h) \<in> set log. t \<le> h" and bd: "budget_inv (co', clock', base, log)"
    by (auto simp: spacing_inv_def)
  have "fst (snd (log ! i)) + 5000 \<le> fst (snd (log ! j))" if "i < length log" "j < i" "fst (log ! i) = fst (log ! j)" for i j
    using sp(1) that unfolding spaced_def by (auto dest: sorted_wrt_nth_less simp: split_beta)
  moreover have "fst (snd (log ! j)) \<le> snd (snd (log ! j))" if "j < length log" for j
    using sp(2) nth_mem [OF that] by (auto simp: split_beta)
  moreover have "before (unat (reset_at_ms base)) log \<le> unat (remaining base)" if "reset_at_ms base \<noteq> 0"
    using bd that before_le [of "unat (reset_at_ms base)" log] by (auto simp: budget_inv_def split: if_splits)
  ultimately show ?thesis by (auto simp: before_def)
qed

definition sample_coordinator :: dcc_cluster_identify_coordinator where
  "sample_coordinator = \<lparr>max_concurrency = 2, remaining = 3, total = 3, reset_at_ms = 90000, bucket_next_ms = (\<lambda>_. 0)\<rparr>"

text \<open>A reservation made at eight seconds with a reading of seven, after a shard of the other bucket was faster
  with a later reading.\<close>

theorem identify_spacing_and_budget_witness:
  "\<exists>co' log. identify_step\<^sup>*\<^sup>* (sample_coordinator, 0, sample_coordinator, []) (co', 8000000000, sample_coordinator, log)
     \<and> log = [(1, 7000, 8000), (0, 7500, 7500)]
     \<and> length (filter (\<lambda>(b, t, h). h < 90000) log) \<le> 3"
proof -
  obtain co1 where a1: "identify_attempt sample_coordinator 4 (dcc_gateway_now_ms 7500000000) = (0, co1)"
    "identify_concurrency co1 = 2" "bucket_next_ms co1 1 = 0" "remaining co1 = 2"
    by (auto simp: identify_attempt_def sample_coordinator_def dcc_gateway_now_ms_def refill_def identify_concurrency_def
        DCC_CLUSTER_IDENTIFY_BUCKET_CAP_def Let_def)
  then obtain co2 where a2: "identify_attempt co1 5 (dcc_gateway_now_ms 7000000000) = (0, co2)"
    by (auto simp: identify_attempt_def refill_def Let_def)
  have "identify_concurrency sample_coordinator = 2"
    by (simp add: sample_coordinator_def identify_concurrency_def DCC_CLUSTER_IDENTIFY_BUCKET_CAP_def)
  then have s1: "identify_step (sample_coordinator, 0, sample_coordinator, [])
      (co1, 7500000000, sample_coordinator, [(0, 7500, 7500)])"
    using identify_step.taken [OF _ _ a1(1), of 0 7500000000 sample_coordinator "[]"] by (simp add: dcc_gateway_now_ms_def)
  have s2: "identify_step (co1, 7500000000, sample_coordinator, [(0, 7500, 7500)])
      (co2, 8000000000, sample_coordinator, [(1, 7000, 8000), (0, 7500, 7500)])"
    using identify_step.taken [OF _ _ a2, of 7500000000 8000000000 sample_coordinator "[(0, 7500, 7500)]"] a1(2)
    by (simp add: dcc_gateway_now_ms_def)
  have run: "identify_step\<^sup>*\<^sup>* (sample_coordinator, 0, sample_coordinator, [])
      (co2, 8000000000, sample_coordinator, [(1, 7000, 8000), (0, 7500, 7500)])"
    using s1 s2 by (meson converse_rtranclp_into_rtranclp r_into_rtranclp)
  have "reset_at_ms sample_coordinator = 90000" "remaining sample_coordinator = 3" by (simp_all add: sample_coordinator_def)
  with run identify_spacing_and_budget [OF run] show ?thesis by (auto simp del: filter.simps)
qed

text \<open>
  C33. A client that nothing interrupts gets its slot. It first sleeps until its own budget is renewed; a client
  without a coordinator then has an IDENTIFY left to consume, if it has or awaits a budget at all. In a cluster,
  whatever other shards do to the coordinator between its earlier passes, a shard whose sleeps are served gets its slot
  at the pass after a sleep during which the others leave it the slot, that is, take no slot of its bucket and do
  not use up the budget: the delay covers both the bucket and the reset of the shared budget.
\<close>

theorem identify_wait_suffices:
  assumes "\<forall>i. \<not> interrupted i"
    and "unat (dcc_gateway_now_ms ns) + unat (fst (identify_slot_delay b (dcc_gateway_now_ms ns))) \<le> unat (dcc_gateway_now_ms ns_after)"
    and "\<forall>(ns, interrupted, others) \<in> set (pre @ [(ns1, interrupted1, others)]). \<forall>i. \<not> interrupted i"
    and "\<forall>co. coordinator = Some co \<longrightarrow> waits_served co shard (pre @ [(ns1, interrupted1, others), last_pass])"
    and "\<forall>co c. coordinator = Some co \<and> c = snd (identify_attempt (passes_leave co shard pre) shard (dcc_gateway_now_ms ns1))
      \<longrightarrow> leaves_slot shard c (others c)"
  shows "\<exists>coordinator' b'. dcc_gateway_wait_identify_slot coordinator b shard ns interrupted ns_after
      (pre @ [(ns1, interrupted1, others), last_pass]) = Some (DCC_OK, coordinator', b')
    \<and> (coordinator = None \<and> (gateway_remaining_identifies b > 0 \<or> gateway_session_reset_at_ms b \<noteq> 0)
        \<longrightarrow> gateway_remaining_identifies b' > 0)"
proof -
  obtain d b1 where d: "identify_slot_delay b (dcc_gateway_now_ms ns) = (d, b1)" by fastforce
  define b2 where "b2 = (if d = 0 then b1 else dcc_gateway_refresh_identify_limit b1 (dcc_gateway_now_ms ns_after))"
  have "dcc_gateway_wait_identify_slot coordinator b shard ns interrupted ns_after passes
      = dcc_gateway_wait_cluster_identify_slot coordinator b2 shard passes" for passes
    using d assms(1) by (simp add: dcc_gateway_wait_identify_slot_def b2_def wait_ms_quiet)
  moreover have "gateway_remaining_identifies b2 > 0"
    if "gateway_remaining_identifies b > 0 \<or> gateway_session_reset_at_ms b \<noteq> 0"
    using slot_delay_budget [OF d _ that, of "dcc_gateway_now_ms ns_after"] assms(2) by (simp add: d b2_def)
  moreover have "\<exists>co' b'. cluster_passes co b2 shard (pre @ [(ns1, interrupted1, others), last_pass]) = Some (DCC_OK, co', b')"
    if "coordinator = Some co" for co
    using cluster_passes_last [OF assms(3) _ _ refl] assms(4,5) that by blast
  ultimately show ?thesis
    by (cases coordinator) (auto simp: dcc_gateway_wait_cluster_identify_slot_def)
qed

text \<open>A shard that waits for the reset, finds its bucket taken meanwhile, waits again while a shard of the other
  bucket takes a slot, and gets its own.\<close>

theorem identify_wait_suffices_witness:
  "\<exists>coordinator' b'. dcc_gateway_wait_identify_slot (Some (sample_coordinator\<lparr>remaining := 0\<rparr>))
      \<lparr>gateway_remaining_identifies = 1, gateway_session_total_identifies = 1, gateway_session_reset_at_ms = 0,
        gateway_identify_delay_ms = 1500\<rparr> 1 1000000000 (\<lambda>_. False) 2500000000
      [(2500000000, \<lambda>_. False, \<lambda>c. snd (identify_attempt c 3 90000)),
       (90000000000, \<lambda>_. False, \<lambda>c. snd (identify_attempt c 4 94000)), (95000000000, \<lambda>_. False, \<lambda>c. c)]
      = Some (DCC_OK, coordinator', b')"
proof -
  define b :: identify_budget where "b = \<lparr>gateway_remaining_identifies = 1, gateway_session_total_identifies = 1,
    gateway_session_reset_at_ms = 0, gateway_identify_delay_ms = 1500\<rparr>"
  let ?co = "sample_coordinator\<lparr>remaining := 0\<rparr>" and ?o1 = "\<lambda>c. snd (identify_attempt c 3 90000)"
    and ?o2 = "\<lambda>c. snd (identify_attempt c 4 94000)"
  let ?pre = "[(2500000000, \<lambda>_. False, ?o1)] :: identify_pass list"
  define c where "c = snd (identify_attempt (passes_leave ?co 1 ?pre) 1 (dcc_gateway_now_ms 90000000000))"
  have c: "c = sample_coordinator\<lparr>remaining := 2, reset_at_ms := 0, bucket_next_ms := (\<lambda>_. 0)(1 := 95000)\<rparr>"
    by (simp add: c_def identify_attempt_def sample_coordinator_def dcc_gateway_now_ms_def refill_def Let_def
        identify_concurrency_def DCC_CLUSTER_IDENTIFY_BUCKET_CAP_def)
  have "waits_served ?co 1 (?pre @ [(90000000000, \<lambda>_. False, ?o2), (95000000000, \<lambda>_. False, \<lambda>c. c)])"
    by (simp add: identify_attempt_def sample_coordinator_def dcc_gateway_now_ms_def refill_def Let_def
        identify_concurrency_def DCC_CLUSTER_IDENTIFY_BUCKET_CAP_def)
  moreover have "leaves_slot 1 c (?o2 c)"
    by (rule leaves_slot_attempt [OF surjective_pairing])
      (simp_all add: c identify_attempt_def sample_coordinator_def refill_def Let_def
        identify_concurrency_def DCC_CLUSTER_IDENTIFY_BUCKET_CAP_def)
  moreover have "fst (identify_slot_delay b (dcc_gateway_now_ms 1000000000)) = 1500"
    by (simp add: identify_slot_delay_def b_def dcc_gateway_refresh_identify_limit_def Let_def)
  ultimately have "\<exists>coordinator' b'. dcc_gateway_wait_identify_slot (Some ?co) b 1 1000000000 (\<lambda>_. False) 2500000000
      (?pre @ [(90000000000, \<lambda>_. False, ?o2), (95000000000, \<lambda>_. False, \<lambda>c. c)]) = Some (DCC_OK, coordinator', b')
    \<and> (Some ?co = None \<and> (gateway_remaining_identifies b > 0 \<or> gateway_session_reset_at_ms b \<noteq> 0)
        \<longrightarrow> gateway_remaining_identifies b' > 0)"
    by (intro identify_wait_suffices) (simp_all add: dcc_gateway_now_ms_def c_def)
  then show ?thesis by (simp add: b_def)
qed

text \<open>
  C40. The session budget is not renewed for a second window. When a window ends the attempt that finds it over
  refills the budget but does not set the end of the next window, and no attempt after it does: however many
  attempts follow, every shard whose bucket is open gets a slot at once, even with the refilled budget used up.
\<close>

theorem identify_budget_lost_after_reset:
  assumes "remaining co = 0" "reset_at_ms co \<noteq> 0" "reset_at_ms co \<le> now"
    and "co' = identify_attempts co ((shard, now) # attempts)"
  shows "reset_at_ms co' = 0
    \<and> (\<forall>shard' now'. bucket_next_ms co' (unat shard' mod identify_concurrency co') \<le> now'
        \<longrightarrow> fst (identify_attempt co' shard' now') = 0)"
proof -
  obtain d co1 where a: "identify_attempt co shard now = (d, co1)" by fastforce
  from a have "reset_at_ms co1 = 0"
    by (cases rule: attempt_cases) (use assms(1-3) in \<open>simp_all add: refill_def\<close>)
  then have z: "reset_at_ms co' = 0"
    using attempts_spent [of co1 attempts] by (simp add: assms(4) identify_attempts_def a)
  moreover have "fst (identify_attempt co' shard' now') = 0"
    if "bucket_next_ms co' (unat shard' mod identify_concurrency co') \<le> now'" for shard' now'
    using that z by (auto simp: identify_attempt_def refill_def Let_def not_less)
  ultimately show ?thesis by blast
qed

text \<open>A budget of one per window: the refilled one is used up at once, and the next two attempts of the bucket get
  their slots all the same.\<close>

theorem identify_budget_lost_after_reset_witness:
  "remaining (identify_attempts (sample_coordinator\<lparr>remaining := 0, total := 1\<rparr>) [(0, 90000), (0, 95000)]) = 0
    \<and> fst (identify_attempt (identify_attempts (sample_coordinator\<lparr>remaining := 0, total := 1\<rparr>) [(0, 90000), (0, 95000)]) 0 100000) = 0"
proof -
  let ?co = "sample_coordinator\<lparr>remaining := 0, total := 1\<rparr>"
  let ?co' = "identify_attempts ?co [(0, 90000), (0, 95000)]"
  have "remaining ?co' = 0" "bucket_next_ms ?co' (unat (0 :: u32) mod identify_concurrency ?co') \<le> 100000"
    by (simp_all add: identify_attempts_def identify_attempt_def refill_def sample_coordinator_def Let_def)
  then show ?thesis
    using identify_budget_lost_after_reset [of ?co 90000 ?co' 0 "[(0, 95000)]"] by (simp add: sample_coordinator_def)
qed

end
