(* ===== verification/DCC_Gateway_Session.thy ===== *)
theory DCC_Gateway_Session
  imports DCC_Gateway_Text DCC_Gateway_Events DCC_Identify
begin

text \<open>
  One gateway session, \<^verbatim>\<open>src/gateway\<close>: the resume state of a client (\<^verbatim>\<open>gateway_resume.c\<close>), the close policy
  (\<^verbatim>\<open>gateway_close_policy.c\<close>), control requests (\<^verbatim>\<open>gateway.c\<close>, \<^verbatim>\<open>gateway_ws_control.c\<close>), the heartbeat task
  (\<^verbatim>\<open>gateway_heartbeat.c\<close>), the handling of payloads (\<^verbatim>\<open>gateway_session_opcode.c\<close>), the receive loop and the
  start and end of a session (\<^verbatim>\<open>gateway_session_receive.c\<close>, \<^verbatim>\<open>gateway_session_lifecycle.c\<close>).

  Three kinds of tasks share the state: the gateway task, the heartbeat task and the callers of control requests.
  The actions of the others are explicit: between the steps of the gateway task stand lists of actions, each of them
  atomic (the source holds the control lock, or touches single atomics). The client and its session point to the same
  socket; \<open>gateway_current_ws\<close> says whether the client's pointer is set.

  The parser of payloads (\<^verbatim>\<open>src/json\<close>) is an argument, and so is the status that delivering an event returns.
  Error texts and log lines are left out.
\<close>

section \<open>State\<close>

datatype dcc_gateway_next =
    DCC_GATEWAY_NEXT_STOP
  | DCC_GATEWAY_NEXT_FATAL
  | DCC_GATEWAY_NEXT_RECONNECT_IDENTIFY
  | DCC_GATEWAY_NEXT_RECONNECT_RESUME

record dcc_client =
  token :: "string option"
  intents :: u64
  shard_id :: u32
  shard_count :: u32
  gateway_url :: "string option"
  gateway_cached_url :: "string option"
  gateway_session_id :: "string option"
  gateway_resume_url :: "string option"
  gateway_seq :: u64
  gateway_has_seq :: bool
  gateway_can_resume :: bool
  gateway_recommended_shards :: u32
  gateway_max_concurrency :: u32
  gateway_budget :: identify_budget
  gateway_session_reset_after_ms :: u64
  stopping :: bool
  runtime_initialized :: bool
  gateway_task_running :: bool
  gateway_task_completed :: bool
  gateway_last_status :: dcc_status
  gateway_stop_requested :: bool
  gateway_reconnect_requested :: bool
  gateway_reconnect_resume :: bool
  gateway_current_ws :: bool

record dcc_gateway_heartbeat_state =
  hb_refs :: u32
  hb_stop :: bool
  waiting_ack :: bool
  hb_failed :: bool
  hb_has_seq :: bool
  hb_seq :: u64
  interval_ms :: u32
  jitter_seed :: u32

record dcc_gateway_session =
  ses_ws :: "dcc_ws option"
  heartbeat :: "dcc_gateway_heartbeat_state option"
  heartbeat_failed :: bool
  ses_seq :: u64
  ses_has_seq :: bool
  heartbeat_interval_ms :: u32
  ses_resume :: bool
  ses_next :: dcc_gateway_next
  payload_scratch :: bool

text \<open>A client, its session, and whether the heartbeat task is still running.\<close>

record gateway =
  cl :: dcc_client
  ses :: dcc_gateway_session
  hb_running :: bool

text \<open>The core fields of a parsed payload; a \<open>has_\<close> flag with its value is an option.\<close>

record dcc_json_gateway_payload =
  p_op :: "int option"
  p_seq :: "u64 option"
  p_event_name :: "string option"
  p_heartbeat_interval :: "int option"
  p_session_id :: "string option"
  p_resume_gateway_url :: "string option"
  p_invalid_session_resumable :: "bool option"

type_synonym payload_parser = "u8 list \<Rightarrow> dcc_status \<times> dcc_json_gateway_payload"

section \<open>The resume state\<close>

definition nonempty :: "string option \<Rightarrow> bool" where
  "nonempty s \<longleftrightarrow> s \<noteq> None \<and> s \<noteq> Some []"

definition dcc_gateway_can_resume :: "dcc_client \<Rightarrow> bool" where
  "dcc_gateway_can_resume c \<longleftrightarrow> gateway_can_resume c \<and> nonempty (gateway_session_id c) \<and> gateway_has_seq c"

definition dcc_gateway_clear_resume :: "dcc_client \<Rightarrow> dcc_client" where
  "dcc_gateway_clear_resume c =
     c\<lparr>gateway_session_id := None, gateway_resume_url := None, gateway_seq := 0, gateway_has_seq := False,
       gateway_can_resume := False\<rparr>"

definition dcc_gateway_replace_string :: "bool \<Rightarrow> string option \<Rightarrow> string option \<Rightarrow> dcc_status \<times> string option" where
  "dcc_gateway_replace_string alloc slot v =
     (if \<not> alloc then (DCC_ERR_NOMEM, slot) else (DCC_OK, Some (case v of None \<Rightarrow> [] | Some s \<Rightarrow> s)))"

definition dcc_gateway_store_ready ::
  "bool \<times> bool \<Rightarrow> dcc_client \<Rightarrow> string option \<Rightarrow> string option \<Rightarrow> dcc_status \<times> dcc_client" where
  "dcc_gateway_store_ready allocs c session_id resume_url =
     (if \<not> nonempty session_id then (DCC_ERR_DISCORD, c)
      else case dcc_gateway_replace_string (fst allocs) (gateway_session_id c) session_id of (st, slot) \<Rightarrow>
        if st \<noteq> DCC_OK then (st, c)
        else
          let c = c\<lparr>gateway_session_id := slot\<rparr> in
          if nonempty resume_url then
            (case dcc_gateway_replace_string (snd allocs) (gateway_resume_url c) resume_url of (st, slot) \<Rightarrow>
               if st \<noteq> DCC_OK then (st, c)
               else (DCC_OK, c\<lparr>gateway_resume_url := slot, gateway_can_resume := gateway_has_seq c\<rparr>))
          else (DCC_OK, c\<lparr>gateway_can_resume := gateway_has_seq c\<rparr>))"

definition dcc_gateway_reconnect_next :: "dcc_client \<Rightarrow> dcc_gateway_next" where
  "dcc_gateway_reconnect_next c =
     (if dcc_gateway_can_resume c then DCC_GATEWAY_NEXT_RECONNECT_RESUME else DCC_GATEWAY_NEXT_RECONNECT_IDENTIFY)"

definition set_identify_delay :: "u32 \<Rightarrow> dcc_client \<Rightarrow> dcc_client" where
  "set_identify_delay d c = c\<lparr>gateway_budget := (gateway_budget c)\<lparr>gateway_identify_delay_ms := d\<rparr>\<rparr>"

definition dcc_gateway_invalid_session_next ::
  "u64 \<Rightarrow> dcc_client \<Rightarrow> dcc_json_gateway_payload \<Rightarrow> dcc_gateway_next \<times> dcc_client" where
  "dcc_gateway_invalid_session_next ns c p =
     (if p_invalid_session_resumable p = Some True \<and> dcc_gateway_can_resume c
      then (DCC_GATEWAY_NEXT_RECONNECT_RESUME, c)
      else (DCC_GATEWAY_NEXT_RECONNECT_IDENTIFY,
        set_identify_delay (1000 + dcc_gateway_now_jitter ns 4000 (ucast (shard_id c + 1))) (dcc_gateway_clear_resume c)))"

definition dcc_gateway_next_for_close :: "dcc_client \<Rightarrow> u16 \<Rightarrow> dcc_gateway_next \<times> dcc_client" where
  "dcc_gateway_next_for_close c ccode =
     (if ccode = 4007 \<or> ccode = 4009 then (DCC_GATEWAY_NEXT_RECONNECT_IDENTIFY, dcc_gateway_clear_resume c)
      else if ccode \<in> {4004, 4010, 4011, 4012, 4013, 4014} then (DCC_GATEWAY_NEXT_FATAL, c)
      else if ccode = 4008 then (dcc_gateway_reconnect_next c, set_identify_delay 5000 c)
      else (dcc_gateway_reconnect_next c, c))"

section \<open>Control requests\<close>

text \<open>Changing the socket or the heartbeat state of the session, if there is one.\<close>

definition upd_ws :: "(dcc_ws \<Rightarrow> dcc_ws) \<Rightarrow> gateway \<Rightarrow> gateway" where
  "upd_ws f g = g\<lparr>ses := (ses g)\<lparr>ses_ws := map_option f (ses_ws (ses g))\<rparr>\<rparr>"

definition upd_hb :: "(dcc_gateway_heartbeat_state \<Rightarrow> dcc_gateway_heartbeat_state) \<Rightarrow> gateway \<Rightarrow> gateway" where
  "upd_hb f g = g\<lparr>ses := (ses g)\<lparr>heartbeat := map_option f (heartbeat (ses g))\<rparr>\<rparr>"

definition dcc_gateway_should_stop :: "dcc_client \<Rightarrow> bool" where
  "dcc_gateway_should_stop c \<longleftrightarrow> stopping c \<or> gateway_stop_requested c"

definition dcc_gateway_take_reconnect_request :: "dcc_client \<Rightarrow> dcc_gateway_next \<times> dcc_client" where
  "dcc_gateway_take_reconnect_request c =
     (let resume = (gateway_reconnect_resume c \<and> dcc_gateway_can_resume c);
          c = c\<lparr>gateway_reconnect_requested := False, gateway_reconnect_resume := False\<rparr> in
      if resume then (DCC_GATEWAY_NEXT_RECONNECT_RESUME, c)
      else (DCC_GATEWAY_NEXT_RECONNECT_IDENTIFY, dcc_gateway_clear_resume c))"

text \<open>\<open>dcc_gateway_interrupt_ws\<close> on the socket the client points to.\<close>

definition interrupt_current_ws :: "gateway \<Rightarrow> gateway" where
  "interrupt_current_ws g =
     (if gateway_current_ws (cl g) then upd_ws dcc_ws_abort g else g)"

definition dcc_gateway_request_stop :: "gateway \<Rightarrow> gateway" where
  "dcc_gateway_request_stop g =
     interrupt_current_ws (g\<lparr>cl := (cl g)\<lparr>gateway_stop_requested := True, gateway_reconnect_requested := False,
       gateway_reconnect_resume := False\<rparr>\<rparr>)"

definition dcc_gateway_request_reconnect :: "gateway \<Rightarrow> bool \<Rightarrow> dcc_status \<times> gateway" where
  "dcc_gateway_request_reconnect g resume =
     (if dcc_gateway_should_stop (cl g) \<or> \<not> runtime_initialized (cl g) \<or> \<not> gateway_task_running (cl g)
      then (DCC_ERR_STATE, g)
      else (DCC_OK, interrupt_current_ws
        (g\<lparr>cl := (cl g)\<lparr>gateway_reconnect_resume := resume, gateway_reconnect_requested := True\<rparr>\<rparr>)))"

definition dcc_gateway_bind_ws :: "gateway \<Rightarrow> gateway" where
  "dcc_gateway_bind_ws g =
     (let g = g\<lparr>cl := (cl g)\<lparr>gateway_current_ws := True\<rparr>\<rparr> in
      if ses_ws (ses g) \<noteq> None \<and> (dcc_gateway_should_stop (cl g) \<or> gateway_reconnect_requested (cl g))
      then interrupt_current_ws g else g)"

definition dcc_gateway_clear_ws :: "gateway \<Rightarrow> gateway" where
  "dcc_gateway_clear_ws g = g\<lparr>cl := (cl g)\<lparr>gateway_current_ws := False\<rparr>\<rparr>"

section \<open>The heartbeat task\<close>

text \<open>Dropping a reference to the heartbeat state; the last one drops the task's reference to the socket.\<close>

definition dcc_gateway_heartbeat_state_release :: "gateway \<Rightarrow> gateway" where
  "dcc_gateway_heartbeat_state_release g =
     (case heartbeat (ses g) of
        None \<Rightarrow> g
      | Some h \<Rightarrow>
          let g = upd_hb (hb_refs_update (\<lambda>r. r - 1)) g in
          if hb_refs h \<noteq> 1 then g else upd_ws dcc_ws_destroy g)"

text \<open>Sending on the socket of the session.\<close>

definition with_ws :: "(dcc_ws \<Rightarrow> dcc_status \<times> dcc_ws) \<Rightarrow> gateway \<Rightarrow> dcc_status \<times> gateway" where
  "with_ws f g =
     (case ses_ws (ses g) of
        None \<Rightarrow> (DCC_ERR_INVALID_ARG, g)
      | Some ws \<Rightarrow> (case f ws of (st, ws) \<Rightarrow> (st, g\<lparr>ses := (ses g)\<lparr>ses_ws := Some ws\<rparr>\<rparr>)))"

definition dcc_gateway_send_heartbeat_state :: "ws_env \<Rightarrow> gateway \<Rightarrow> dcc_gateway_heartbeat_state \<Rightarrow> dcc_status \<times> gateway" where
  "dcc_gateway_send_heartbeat_state env g h =
     with_ws (\<lambda>ws. send_heartbeat_text env ws (hb_has_seq h) (hb_seq h)) g"

text \<open>How long the task sleeps before its first beat and before each later one.\<close>

definition heartbeat_delay :: "bool \<Rightarrow> u64 \<Rightarrow> dcc_gateway_heartbeat_state \<Rightarrow> u32" where
  "heartbeat_delay first ns h =
     (let interval = (if interval_ms h = 0 then 45000 else interval_ms h) in
      if first then dcc_gateway_now_jitter ns interval (ucast (jitter_seed h)) else interval)"

text \<open>The end of the task, and its loop body after the sleep when it has not seen the stop flag.\<close>

definition heartbeat_exit :: "gateway \<Rightarrow> gateway" where
  "heartbeat_exit g = dcc_gateway_heartbeat_state_release (g\<lparr>hb_running := False\<rparr>)"

definition heartbeat_fail :: "gateway \<Rightarrow> gateway" where
  "heartbeat_fail g = heartbeat_exit (upd_ws dcc_ws_abort (upd_hb (hb_failed_update (\<lambda>_. True)) g))"

definition heartbeat_body :: "ws_env \<Rightarrow> gateway \<Rightarrow> gateway" where
  "heartbeat_body env g =
     (case heartbeat (ses g) of
        None \<Rightarrow> g
      | Some h \<Rightarrow>
          if waiting_ack h then heartbeat_fail g
          else (case dcc_gateway_send_heartbeat_state env (upd_hb (waiting_ack_update (\<lambda>_. True)) g) h of
            (st, g) \<Rightarrow> if st \<noteq> DCC_OK then heartbeat_fail g else g))"

text \<open>The task when its sleep is over or interrupted.\<close>

definition dcc_gateway_heartbeat_task :: "ws_env \<Rightarrow> gateway \<Rightarrow> gateway" where
  "dcc_gateway_heartbeat_task env g =
     (case heartbeat (ses g) of
        None \<Rightarrow> g
      | Some h \<Rightarrow>
          if \<not> hb_running g then g
          else if hb_stop h then heartbeat_exit g
          else heartbeat_body env g)"

section \<open>Actions of other tasks\<close>

datatype gateway_action =
    Beat ws_env
  | Request_stop
  | Request_reconnect bool
  | Client_stopping

fun act :: "gateway_action \<Rightarrow> gateway \<Rightarrow> gateway" where
  "act (Beat env) g = dcc_gateway_heartbeat_task env g"
| "act Request_stop g = dcc_gateway_request_stop g"
| "act (Request_reconnect resume) g = snd (dcc_gateway_request_reconnect g resume)"
| "act Client_stopping g = g\<lparr>cl := (cl g)\<lparr>stopping := True\<rparr>\<rparr>"

definition acts :: "gateway_action list \<Rightarrow> gateway \<Rightarrow> gateway" where
  "acts = fold act"

section \<open>Payloads\<close>

definition dcc_gateway_send_heartbeat :: "ws_env \<Rightarrow> gateway \<Rightarrow> dcc_status \<times> gateway" where
  "dcc_gateway_send_heartbeat env g =
     with_ws (\<lambda>ws. send_heartbeat_text env ws (ses_has_seq (ses g)) (ses_seq (ses g))) g"

definition dcc_gateway_update_seq :: "gateway \<Rightarrow> dcc_json_gateway_payload \<Rightarrow> gateway" where
  "dcc_gateway_update_seq g p =
     (case p_seq p of
        None \<Rightarrow> g
      | Some s \<Rightarrow>
          upd_hb (\<lambda>h. h\<lparr>hb_seq := s, hb_has_seq := True\<rparr>)
            (g\<lparr>ses := (ses g)\<lparr>ses_seq := s, ses_has_seq := True\<rparr>,
               cl := (cl g)\<lparr>gateway_seq := s, gateway_has_seq := True\<rparr>\<rparr>))"

text \<open>Events that concern the session itself; \<open>None\<close> when the event is another one. \<open>emit\<close> is the status of
  delivering the event to the listeners.\<close>

definition dcc_gateway_dispatch_session_event ::
  "bool \<times> bool \<Rightarrow> dcc_status \<Rightarrow> gateway \<Rightarrow> dcc_event_type \<Rightarrow> dcc_json_gateway_payload \<Rightarrow> (dcc_status \<times> gateway) option" where
  "dcc_gateway_dispatch_session_event allocs emit g type p =
     (if type = DCC_EVENT_READY then
        (case dcc_gateway_store_ready allocs (cl g) (p_session_id p) (p_resume_gateway_url p) of
           (st, c) \<Rightarrow> Some (if st \<noteq> DCC_OK then st else emit, g\<lparr>cl := c\<rparr>))
      else if type = DCC_EVENT_RESUMED then Some (emit, g\<lparr>cl := (cl g)\<lparr>gateway_can_resume := True\<rparr>\<rparr>)
      else None)"

definition dcc_gateway_handle_dispatch ::
  "bool \<times> bool \<Rightarrow> dcc_status \<Rightarrow> gateway \<Rightarrow> dcc_json_gateway_payload \<Rightarrow> dcc_status \<times> gateway" where
  "dcc_gateway_handle_dispatch allocs emit g p =
     (if p_event_name p = None then (DCC_OK, g)
      else case dcc_gateway_dispatch_session_event allocs emit g (dcc_gateway_event_type_from_name (p_event_name p)) p of
        Some r \<Rightarrow> r
      | None \<Rightarrow> (emit, g))"

definition set_next :: "dcc_gateway_next \<Rightarrow> gateway \<Rightarrow> gateway" where
  "set_next nx g = g\<lparr>ses := (ses g)\<lparr>ses_next := nx\<rparr>\<rparr>"

text \<open>What the environment does while one message is received and handled.\<close>

record session_env =
  acts_before_recv :: "gateway_action list"
  recv_envs :: "nat \<Rightarrow> ws_env"
  acts_after_recv :: "gateway_action list"
  scratch_alloc :: bool
  ready_allocs :: "bool \<times> bool"
  emit_status :: dcc_status
  reply_env :: ws_env
  jitter_ns :: u64
  acts_after_payload :: "gateway_action list"

definition dcc_gateway_session_handle_payload ::
  "session_env \<Rightarrow> gateway \<Rightarrow> dcc_json_gateway_payload \<Rightarrow> dcc_status \<times> gateway" where
  "dcc_gateway_session_handle_payload e g p =
     (let g = dcc_gateway_update_seq g p in
      case p_op p of
        None \<Rightarrow> (DCC_OK, g)
      | Some op \<Rightarrow>
          if op = 0 then
            (case dcc_gateway_handle_dispatch (ready_allocs e) (emit_status e) g p of
               (st, g) \<Rightarrow> (st, if st \<noteq> DCC_OK then set_next DCC_GATEWAY_NEXT_FATAL g else g))
          else if op = 1 then
            (case dcc_gateway_send_heartbeat (reply_env e) (upd_hb (waiting_ack_update (\<lambda>_. True)) g) of
               (st, g) \<Rightarrow> (st, if st \<noteq> DCC_OK then set_next (dcc_gateway_reconnect_next (cl g)) g else g))
          else if op = 7 then (DCC_ERR_DISCORD, set_next (dcc_gateway_reconnect_next (cl g)) g)
          else if op = 9 then
            (case dcc_gateway_invalid_session_next (jitter_ns e) (cl g) p of
               (nx, c) \<Rightarrow> (DCC_ERR_DISCORD, set_next nx (g\<lparr>cl := c\<rparr>)))
          else if op = 11 then (DCC_OK, upd_hb (waiting_ack_update (\<lambda>_. False)) g)
          else (DCC_OK, g))"

section \<open>The receive loop\<close>

definition dcc_gateway_session_payload_scratch :: "bool \<Rightarrow> gateway \<Rightarrow> gateway" where
  "dcc_gateway_session_payload_scratch alloc g = g\<lparr>ses := (ses g)\<lparr>payload_scratch := payload_scratch (ses g) \<or> alloc\<rparr>\<rparr>"

text \<open>Receiving on the socket of the session.\<close>

definition session_recv :: "(nat \<Rightarrow> ws_env) \<Rightarrow> gateway \<Rightarrow> dcc_status \<times> dcc_ws_message option \<times> gateway" where
  "session_recv E g =
     (case ses_ws (ses g) of
        None \<Rightarrow> (DCC_ERR_INVALID_ARG, None, g)
      | Some ws \<Rightarrow> (case dcc_ws_recv E ws of (st, m, ws) \<Rightarrow> (st, m, g\<lparr>ses := (ses g)\<lparr>ses_ws := Some ws\<rparr>\<rparr>)))"

definition last_close_code :: "gateway \<Rightarrow> u16" where
  "last_close_code g = (case ses_ws (ses g) of None \<Rightarrow> 0 | Some ws \<Rightarrow> close_code ws)"

definition take_reconnect :: "gateway \<Rightarrow> gateway" where
  "take_reconnect g = (case dcc_gateway_take_reconnect_request (cl g) of (nx, c) \<Rightarrow> set_next nx (g\<lparr>cl := c\<rparr>))"

text \<open>One pass of the loop: the status, the payload it handled, and whether the loop goes on.\<close>

definition receive_message :: "payload_parser \<Rightarrow> session_env \<Rightarrow> gateway \<Rightarrow> dcc_status \<times> dcc_json_gateway_payload option \<times> bool \<times> gateway" where
  "receive_message parse e g =
     (case session_recv (recv_envs e) (acts (acts_before_recv e) g) of (st, m, g) \<Rightarrow>
        let g = acts (acts_after_recv e) g in
        if st = DCC_ERR_CANCELED \<and> dcc_gateway_should_stop (cl g) then (DCC_OK, None, False, set_next DCC_GATEWAY_NEXT_STOP g)
        else if st = DCC_ERR_CANCELED \<and> gateway_reconnect_requested (cl g) then (st, None, False, take_reconnect g)
        else if st = DCC_ERR_CANCELED then
          (case dcc_gateway_next_for_close (cl g) (last_close_code g) of (nx, c) \<Rightarrow> (st, None, False, set_next nx (g\<lparr>cl := c\<rparr>)))
        else if st \<noteq> DCC_OK \<and> gateway_reconnect_requested (cl g) then (st, None, False, take_reconnect g)
        else if st \<noteq> DCC_OK then (st, None, False, set_next (dcc_gateway_reconnect_next (cl g)) g)
        else
          let g = dcc_gateway_session_payload_scratch (scratch_alloc e) g in
          if \<not> payload_scratch (ses g) then (DCC_ERR_NOMEM, None, False, set_next DCC_GATEWAY_NEXT_FATAL g)
          else case parse (case m of None \<Rightarrow> [] | Some m \<Rightarrow> msg_data m) of (st, p) \<Rightarrow>
            if st \<noteq> DCC_OK then (st, None, False, set_next DCC_GATEWAY_NEXT_RECONNECT_IDENTIFY g)
            else case dcc_gateway_session_handle_payload e g p of (st, g) \<Rightarrow>
              let g = acts (acts_after_payload e) g in
              (st, Some p,
               \<not> (st \<noteq> DCC_OK \<or> dcc_gateway_should_stop (cl g) \<or> gateway_reconnect_requested (cl g)), g))"

text \<open>The loop over the messages of an environment: the final status, the payloads handled in order and the final
  state; \<open>None\<close> while the loop still waits for another message.\<close>

fun dcc_gateway_session_receive_loop ::
  "payload_parser \<Rightarrow> dcc_status \<Rightarrow> gateway \<Rightarrow> session_env list
    \<Rightarrow> (dcc_status \<times> dcc_json_gateway_payload list \<times> gateway) option" where
  "dcc_gateway_session_receive_loop parse st g envs =
     (if dcc_gateway_should_stop (cl g) \<or> gateway_reconnect_requested (cl g) then Some (st, [], g)
      else case envs of
        [] \<Rightarrow> None
      | e # envs \<Rightarrow>
          (case receive_message parse e g of (st, p, continue, g) \<Rightarrow>
             let ps = (case p of None \<Rightarrow> [] | Some p \<Rightarrow> [p]) in
             if continue then
               map_option (\<lambda>(st, qs, g). (st, ps @ qs, g)) (dcc_gateway_session_receive_loop parse st g envs)
             else Some (st, ps, g)))"

declare dcc_gateway_session_receive_loop.simps [simp del]

section \<open>What other tasks leave alone\<close>

text \<open>A part of the state (\<open>view\<close>) that control requests and the heartbeat task do not touch: it does not depend on whether
  the socket is open, on the flags of the heartbeat, or on the control flags of the client, and sending a heartbeat
  keeps it. Such a view is the same after any actions of other tasks.\<close>

locale untouched_by_actions =
  fixes view :: "gateway \<Rightarrow> 'v"
  assumes ws: "view (upd_ws dcc_ws_abort g) = view g" "view (upd_ws dcc_ws_destroy g) = view g"
    and hb: "view (upd_hb (hb_refs_update r) g) = view g" "view (upd_hb (waiting_ack_update b) g) = view g"
      "view (upd_hb (hb_failed_update b) g) = view g" "view (upd_hb (hb_stop_update b) g) = view g"
    and running: "view (g\<lparr>hb_running := b'\<rparr>) = view g"
    and control: "view (g\<lparr>cl := (cl g)\<lparr>gateway_stop_requested := b'\<rparr>\<rparr>) = view g"
      "view (g\<lparr>cl := (cl g)\<lparr>gateway_reconnect_requested := b'\<rparr>\<rparr>) = view g"
      "view (g\<lparr>cl := (cl g)\<lparr>gateway_reconnect_resume := b'\<rparr>\<rparr>) = view g" "view (g\<lparr>cl := (cl g)\<lparr>stopping := b'\<rparr>\<rparr>) = view g"
    and send: "with_ws (\<lambda>ws. send_heartbeat_text env ws has s) g = (st, g') \<Longrightarrow> view g' = view g"
begin

lemma release_view: "view (dcc_gateway_heartbeat_state_release g) = view g"
  by (simp add: dcc_gateway_heartbeat_state_release_def ws hb Let_def split: option.splits)

lemma exit_view: "view (heartbeat_exit g) = view g"
  by (simp add: heartbeat_exit_def release_view running)

lemma fail_view: "view (heartbeat_fail g) = view g"
  by (simp add: heartbeat_fail_def exit_view ws hb)

lemma body_view: "view (heartbeat_body env g) = view g"
  by (auto simp: heartbeat_body_def dcc_gateway_send_heartbeat_state_def fail_view hb dest!: send split: option.splits prod.splits)

lemma task_view: "view (dcc_gateway_heartbeat_task env g) = view g"
  by (simp add: dcc_gateway_heartbeat_task_def exit_view body_view split: option.splits)

lemma interrupt_view: "view (interrupt_current_ws g) = view g"
  by (simp add: interrupt_current_ws_def ws)

lemma act_view: "view (act a g) = view g"
proof (cases a)
  case Request_stop
  define g1 where "g1 = g\<lparr>cl := (cl g)\<lparr>gateway_stop_requested := True\<rparr>\<rparr>"
  define g2 where "g2 = g1\<lparr>cl := (cl g1)\<lparr>gateway_reconnect_requested := False\<rparr>\<rparr>"
  have "act a g = interrupt_current_ws (g2\<lparr>cl := (cl g2)\<lparr>gateway_reconnect_resume := False\<rparr>\<rparr>)"
    by (simp add: Request_stop dcc_gateway_request_stop_def g1_def g2_def)
  then show ?thesis by (simp only: interrupt_view control g1_def g2_def)
next
  case (Request_reconnect r)
  define g1 where "g1 = g\<lparr>cl := (cl g)\<lparr>gateway_reconnect_resume := r\<rparr>\<rparr>"
  have "act a g = g \<or> act a g = interrupt_current_ws (g1\<lparr>cl := (cl g1)\<lparr>gateway_reconnect_requested := True\<rparr>\<rparr>)"
    by (simp add: Request_reconnect dcc_gateway_request_reconnect_def g1_def)
  then show ?thesis by (elim disjE) (simp_all only: interrupt_view control g1_def)
qed (simp_all add: task_view control)

lemma acts_view: "view (acts as g) = view g"
  by (induction as arbitrary: g) (simp_all add: acts_def act_view)

end

section \<open>What a session remembers\<close>

text \<open>The part of the state that decides how a session is resumed: what session, heartbeat and client know of the
  sequence number, and the rest of the client's resume state.\<close>

definition resume_view where
  "resume_view g =
     (ses_has_seq (ses g), ses_seq (ses g), map_option (\<lambda>h. (hb_has_seq h, hb_seq h)) (heartbeat (ses g)),
      gateway_session_id (cl g), gateway_resume_url (cl g), gateway_seq (cl g), gateway_has_seq (cl g), gateway_can_resume (cl g))"

lemma with_ws_view: "with_ws f g = (st, g') \<Longrightarrow> resume_view g' = resume_view g"
  by (auto simp: with_ws_def resume_view_def split: option.splits prod.splits)

interpretation memory: untouched_by_actions resume_view
  by unfold_locales (auto simp: resume_view_def upd_ws_def upd_hb_def option.map_comp comp_def dest: with_ws_view [unfolded resume_view_def])

declare memory.acts_view [simp] memory.hb [simp]

lemma session_recv_view: "session_recv E g = (st, m, g') \<Longrightarrow> resume_view g' = resume_view g"
  by (auto simp: session_recv_def resume_view_def split: option.splits prod.splits)

lemma scratch_view [simp]: "resume_view (dcc_gateway_session_payload_scratch a g) = resume_view g"
  by (simp add: dcc_gateway_session_payload_scratch_def resume_view_def)

lemma set_next_view [simp]: "resume_view (set_next nx g) = resume_view g"
  by (simp add: set_next_def resume_view_def)

text \<open>What the payloads of a session say: the last sequence number and the last session id of a READY.\<close>

definition seq_after :: "bool \<times> u64 \<Rightarrow> dcc_json_gateway_payload list \<Rightarrow> bool \<times> u64" where
  "seq_after s ps = fold (\<lambda>p s. case p_seq p of None \<Rightarrow> s | Some n \<Rightarrow> (True, n)) ps s"

definition is_ready :: "dcc_json_gateway_payload \<Rightarrow> bool" where
  "is_ready p \<longleftrightarrow> p_op p = Some 0 \<and> p_event_name p \<noteq> None
     \<and> dcc_gateway_event_type_from_name (p_event_name p) = DCC_EVENT_READY"

definition session_after :: "string option \<Rightarrow> dcc_json_gateway_payload list \<Rightarrow> string option" where
  "session_after sid ps = fold (\<lambda>p sid. if is_ready p \<and> nonempty (p_session_id p) then p_session_id p else sid) ps sid"

lemma seq_after_simps [simp]: "seq_after s [] = s" "seq_after s (ps @ qs) = seq_after (seq_after s ps) qs"
  by (simp_all add: seq_after_def)

lemma session_after_simps [simp]:
  "session_after sid [] = sid" "session_after sid (ps @ qs) = session_after (session_after sid ps) qs"
  by (simp_all add: session_after_def)

definition hb_knows :: "bool \<times> u64 \<Rightarrow> gateway \<Rightarrow> bool" where
  "hb_knows s g \<longleftrightarrow> map_option (\<lambda>h. (hb_has_seq h, hb_seq h)) (heartbeat (ses g)) = Some s"

definition session_knows :: "bool \<times> u64 \<Rightarrow> gateway \<Rightarrow> bool" where
  "session_knows s g \<longleftrightarrow> (ses_has_seq (ses g), ses_seq (ses g)) = s \<and> hb_knows s g"

definition client_knows :: "bool \<times> u64 \<Rightarrow> string option \<Rightarrow> dcc_client \<Rightarrow> bool" where
  "client_knows s sid c \<longleftrightarrow> (gateway_has_seq c, gateway_seq c) = s \<and> gateway_session_id c = sid"

definition resume_cleared :: "dcc_client \<Rightarrow> bool" where
  "resume_cleared c \<longleftrightarrow> gateway_session_id c = None \<and> gateway_resume_url c = None \<and> gateway_seq c = 0
     \<and> \<not> gateway_has_seq c \<and> \<not> gateway_can_resume c"

text \<open>These notions depend on the view only.\<close>

lemma session_knows_view: "resume_view g' = resume_view g \<Longrightarrow> session_knows s g' = session_knows s g"
  by (simp only: session_knows_def hb_knows_def resume_view_def prod.inject)

lemma client_knows_view: "resume_view g' = resume_view g \<Longrightarrow> client_knows s sid (cl g') = client_knows s sid (cl g)"
  by (simp add: client_knows_def resume_view_def)

lemma resume_cleared_view: "resume_view g' = resume_view g \<Longrightarrow> resume_cleared (cl g') = resume_cleared (cl g)"
  by (simp add: resume_cleared_def resume_view_def)

lemma cl_set_next [simp]: "cl (set_next nx g) = cl g"
  by (simp add: set_next_def)

lemma session_knows_set_next [simp]: "session_knows s (set_next nx g) = session_knows s g"
  by (rule session_knows_view) simp

lemma clear_resume_cleared [simp]: "resume_cleared (dcc_gateway_clear_resume c)" "resume_cleared (set_identify_delay d c) = resume_cleared c"
  by (simp_all add: resume_cleared_def dcc_gateway_clear_resume_def set_identify_delay_def)

lemma set_identify_delay_knows [simp]: "client_knows s sid (set_identify_delay d c) = client_knows s sid c"
  by (simp add: client_knows_def set_identify_delay_def)

lemma update_seq_knows:
  assumes "session_knows s g" "client_knows s sid (cl g)"
  shows "session_knows (seq_after s [p]) (dcc_gateway_update_seq g p)"
    and "client_knows (seq_after s [p]) sid (cl (dcc_gateway_update_seq g p))"
proof -
  show "session_knows (seq_after s [p]) (dcc_gateway_update_seq g p)"
    using assms(1)
    by (cases "p_seq p"; cases "heartbeat (ses g)")
      (simp_all add: dcc_gateway_update_seq_def seq_after_def session_knows_def hb_knows_def upd_hb_def)
  show "client_knows (seq_after s [p]) sid (cl (dcc_gateway_update_seq g p))"
    using assms(2) by (cases "p_seq p") (simp_all add: dcc_gateway_update_seq_def seq_after_def client_knows_def upd_hb_def)
qed

lemma store_ready_knows:
  assumes "client_knows s sid c" "dcc_gateway_store_ready allocs c i u = (st, c')" "fst allocs"
  shows "client_knows s (if nonempty i then i else sid) c'"
  using assms
  by (auto simp: dcc_gateway_store_ready_def dcc_gateway_replace_string_def client_knows_def nonempty_def Let_def
      split: if_splits option.splits)

lemma cl_update_session_knows [simp]: "session_knows s (g\<lparr>cl := c\<rparr>) = session_knows s g"
  by (simp add: session_knows_def hb_knows_def)

lemma handle_dispatch_knows:
  assumes "session_knows s g" "client_knows s sid (cl g)" "fst allocs" "p_op p = Some 0"
    "dcc_gateway_handle_dispatch allocs em g p = (st, g')"
  shows "session_knows s g'" "client_knows s (session_after sid [p]) (cl g')"
proof -
  have "session_knows s g' \<and> client_knows s (session_after sid [p]) (cl g')"
  proof (cases "is_ready p")
    case True
    obtain st0 c where r: "dcc_gateway_store_ready allocs (cl g) (p_session_id p) (p_resume_gateway_url p) = (st0, c)" by fastforce
    then have "g' = g\<lparr>cl := c\<rparr>"
      using True assms(5) by (auto simp: is_ready_def dcc_gateway_handle_dispatch_def dcc_gateway_dispatch_session_event_def)
    then show ?thesis
      using store_ready_knows [OF assms(2) r assms(3)] True assms(1) by (simp add: session_after_def)
  next
    case False
    have "g' = g \<or> g' = g\<lparr>cl := (cl g)\<lparr>gateway_can_resume := True\<rparr>\<rparr>"
      using False assms(4,5)
      by (auto simp: is_ready_def dcc_gateway_handle_dispatch_def dcc_gateway_dispatch_session_event_def split: if_splits)
    then show ?thesis
      using assms(1,2) False by (auto simp: session_after_def client_knows_def)
  qed
  then show "session_knows s g'" "client_knows s (session_after sid [p]) (cl g')" by simp_all
qed

lemma not_ready_session: "p_op p \<noteq> Some 0 \<Longrightarrow> session_after sid [p] = sid"
  by (simp add: session_after_def is_ready_def)

text \<open>The state after a payload: sequence number and session follow it, or the resume state was given up and the
  status says that the session ends.\<close>

definition follows :: "bool \<times> u64 \<Rightarrow> string option \<Rightarrow> bool \<Rightarrow> gateway \<Rightarrow> bool" where
  "follows s sid ended g \<longleftrightarrow> session_knows s g \<and> (client_knows s sid (cl g) \<or> ended \<and> resume_cleared (cl g))"

lemma follows_view:
  assumes "resume_view g' = resume_view g"
  shows "follows s sid e g' = follows s sid e g"
  unfolding follows_def session_knows_view [OF assms] client_knows_view [OF assms] resume_cleared_view [OF assms] ..

lemma follows_set_next [simp]: "follows s sid e (set_next nx g) = follows s sid e g"
  by (rule follows_view) simp

lemma invalid_session_follows:
  assumes "client_knows s sid c" "dcc_gateway_invalid_session_next ns c p = (nx, c')"
  shows "client_knows s sid c' \<or> resume_cleared c'"
  using assms by (auto simp: dcc_gateway_invalid_session_next_def split: if_splits)

lemma next_for_close_follows:
  assumes "client_knows s sid c" "dcc_gateway_next_for_close c ccode = (nx, c')"
  shows "client_knows s sid c' \<or> resume_cleared c'"
  using assms by (auto simp: dcc_gateway_next_for_close_def split: if_splits)

lemma take_reconnect_follows:
  assumes "session_knows s g" "client_knows s sid (cl g)"
  shows "follows s sid True (take_reconnect g)"
  using assms by (auto simp: take_reconnect_def dcc_gateway_take_reconnect_request_def Let_def follows_def client_knows_def)

lemma handle_payload_follows:
  assumes "session_knows s g" "client_knows s sid (cl g)" "fst (ready_allocs e)"
    and "dcc_gateway_session_handle_payload e g p = (st, g')"
  shows "follows (seq_after s [p]) (session_after sid [p]) (st \<noteq> DCC_OK) g'"
proof -
  define g1 where "g1 = dcc_gateway_update_seq g p"
  define s' where "s' = seq_after s [p]"
  note k = update_seq_knows [OF assms(1,2), of p, folded g1_def s'_def]
  have same: "follows s' (session_after sid [p]) (st \<noteq> DCC_OK) g'" if "p_op p \<noteq> Some 0" "resume_view g' = resume_view g1"
    unfolding follows_view [OF that(2)] using k that(1) by (simp add: follows_def not_ready_session)
  note h = assms(4) [unfolded dcc_gateway_session_handle_payload_def Let_def, folded g1_def]
  consider (none) "p_op p = None" | (dispatch) "p_op p = Some 0" | (beat) "p_op p = Some 1" | (invalid) "p_op p = Some 9"
    | (other) x where "p_op p = Some x" "x \<noteq> 0" "x \<noteq> 1" "x \<noteq> 9"
    by (cases "p_op p") auto
  then have "follows s' (session_after sid [p]) (st \<noteq> DCC_OK) g'"
  proof cases
    case none
    with h same show ?thesis by simp
  next
    case dispatch
    obtain st0 g0 where d: "dcc_gateway_handle_dispatch (ready_allocs e) (emit_status e) g1 p = (st0, g0)" by fastforce
    from handle_dispatch_knows [OF k assms(3) dispatch d] h dispatch d show ?thesis
      by (auto simp: follows_def)
  next
    case beat
    then have "resume_view g' = resume_view g1"
      using h by (auto simp: dcc_gateway_send_heartbeat_def dest!: with_ws_view split: prod.splits if_splits)
    with beat same show ?thesis by simp
  next
    case invalid
    obtain nx c where i: "dcc_gateway_invalid_session_next (jitter_ns e) (cl g1) p = (nx, c)" by fastforce
    with invalid h have g': "st = DCC_ERR_DISCORD" "g' = set_next nx (g1\<lparr>cl := c\<rparr>)" by auto
    from invalid_session_follows [OF k(2) i] k(1) invalid show ?thesis
      unfolding g'(2) by (auto simp: follows_def not_ready_session g'(1))
  next
    case (other x)
    then have "resume_view g' = resume_view g1" using h by (auto split: if_splits)
    with other same show ?thesis by simp
  qed
  then show ?thesis by (simp add: s'_def)
qed

text \<open>One pass of the loop, and then the loop.\<close>

lemma receive_message_follows:
  assumes "session_knows s g" "client_knows s sid (cl g)" "fst (ready_allocs e)"
    and "receive_message parse e g = (st, p, continue, g')"
  shows "follows (seq_after s (case p of None \<Rightarrow> [] | Some p \<Rightarrow> [p])) (session_after sid (case p of None \<Rightarrow> [] | Some p \<Rightarrow> [p]))
    (\<not> continue) g'"
proof -
  obtain st0 m g0 where recv: "session_recv (recv_envs e) (acts (acts_before_recv e) g) = (st0, m, g0)"
    by (metis prod_cases3)
  define g1 where "g1 = acts (acts_after_recv e) g0"
  have v: "resume_view g1 = resume_view g"
    using session_recv_view [OF recv] by (simp add: g1_def)
  have k: "session_knows s g1" "client_knows s sid (cl g1)"
    using assms(1,2) session_knows_view [OF v] client_knows_view [OF v] by simp_all
  have kf: "follows s sid b g1" for b using k by (simp add: follows_def)
  define g2 where "g2 = dcc_gateway_session_payload_scratch (scratch_alloc e) g1"
  have v2: "resume_view g2 = resume_view g1" by (simp add: g2_def)
  have k2: "session_knows s g2" "client_knows s sid (cl g2)"
    using k session_knows_view [OF v2] client_knows_view [OF v2] by simp_all
  have kf2: "follows s sid b g2" for b using k2 by (simp add: follows_def)
  note r = assms(4) [unfolded receive_message_def recv prod.case Let_def, folded g1_def, folded g2_def]
  show ?thesis
  proof (cases "st0 = DCC_OK")
    case False
    have close: "follows s sid True (set_next nx (g1\<lparr>cl := c\<rparr>))"
      if "dcc_gateway_next_for_close (cl g1) (last_close_code g1) = (nx, c)" for nx c
      using next_for_close_follows [OF k(2) that] k(1) by (auto simp: follows_def)
    from False r kf close take_reconnect_follows [OF k] show ?thesis
      by (auto split: if_splits prod.splits)
  next
    case True
    obtain st1 q where parse: "parse (case m of None \<Rightarrow> [] | Some m \<Rightarrow> msg_data m) = (st1, q)" by fastforce
    show ?thesis
    proof (cases "payload_scratch (ses g2) \<and> st1 = DCC_OK")
      case False
      with r True parse kf2 show ?thesis by (auto split: if_splits)
    next
      case ok: True
      obtain st2 g3 where h: "dcc_gateway_session_handle_payload e g2 q = (st2, g3)" by fastforce
      from handle_payload_follows [OF k2 assms(3) h]
      have "follows (seq_after s [q]) (session_after sid [q]) (st2 \<noteq> DCC_OK) (acts (acts_after_payload e) g3)"
        by (subst follows_view [OF memory.acts_view])
      then show ?thesis using r True parse ok h by (auto simp: follows_def)
    qed
  qed
qed

lemma receive_loop_follows:
  assumes "session_knows s g" "client_knows s sid (cl g)" "\<forall>e \<in> set envs. fst (ready_allocs e)"
    and "dcc_gateway_session_receive_loop parse st g envs = Some (st', ps, g')"
  shows "follows (seq_after s ps) (session_after sid ps) True g'"
  using assms
proof (induction envs arbitrary: s sid st g ps)
  case Nil
  then show ?case by (auto simp: dcc_gateway_session_receive_loop.simps [of _ _ _ "[]"] follows_def split: if_splits)
next
  case (Cons e envs)
  show ?case
  proof (cases "dcc_gateway_should_stop (cl g) \<or> gateway_reconnect_requested (cl g)")
    case True
    with Cons.prems show ?thesis
      by (auto simp: dcc_gateway_session_receive_loop.simps [of _ _ _ "e # envs"] follows_def split: if_splits)
  next
    case False
    obtain st1 p cont g1 where m: "receive_message parse e g = (st1, p, cont, g1)" by (metis prod_cases4)
    define qs where "qs = (case p of None \<Rightarrow> [] | Some p \<Rightarrow> [p])"
    have f: "follows (seq_after s qs) (session_after sid qs) (\<not> cont) g1"
      using receive_message_follows [OF Cons.prems(1,2) _ m] Cons.prems(3) by (simp add: qs_def)
    show ?thesis
    proof (cases cont)
      case True
      then obtain rs where rs: "dcc_gateway_session_receive_loop parse st1 g1 envs = Some (st', rs, g')" "ps = qs @ rs"
        using Cons.prems(4) False m
        by (auto simp: dcc_gateway_session_receive_loop.simps [of _ _ _ "e # envs"] qs_def)
      from f True have "session_knows (seq_after s qs) g1" "client_knows (seq_after s qs) (session_after sid qs) (cl g1)"
        by (simp_all add: follows_def)
      from Cons.IH [OF this _ rs(1)] Cons.prems(3) show ?thesis by (simp add: rs(2))
    next
      case False
      then have "ps = qs" "g' = g1"
        using Cons.prems(4) \<open>\<not> (dcc_gateway_should_stop (cl g) \<or> gateway_reconnect_requested (cl g))\<close> m
        by (auto simp: dcc_gateway_session_receive_loop.simps [of _ _ _ "e # envs"] qs_def)
      with f False show ?thesis by simp
    qed
  qed
qed

section \<open>How a session ends\<close>

lemma can_resume_view: "resume_view g' = resume_view g \<Longrightarrow> dcc_gateway_can_resume (cl g') = dcc_gateway_can_resume (cl g)"
  by (simp add: dcc_gateway_can_resume_def resume_view_def)

text \<open>The actions of other tasks leave the decision of the session alone, and a stop request stays.\<close>

definition decision :: "gateway \<Rightarrow> dcc_gateway_next \<times> bool" where
  "decision g = (ses_next (ses g), ses_resume (ses g))"

lemma upd_decision [simp]: "decision (upd_ws f g) = decision g" "decision (upd_hb f' g) = decision g" "decision (cl_update c g) = decision g"
  "decision (hb_running_update r g) = decision g"
  by (simp_all add: decision_def upd_ws_def upd_hb_def)

lemma with_ws_frame: "with_ws f g = (st, g') \<Longrightarrow> decision g' = decision g \<and> cl g' = cl g"
  by (auto simp: with_ws_def decision_def split: option.splits prod.splits)

interpretation decision: untouched_by_actions decision
  by unfold_locales (auto simp: decision_def upd_ws_def upd_hb_def dest: with_ws_frame [unfolded decision_def])

declare decision.acts_view [simp] decision.interrupt_view [simp] decision.release_view [simp] decision.body_view [simp] decision.exit_view [simp]

text \<open>The heartbeat task leaves the client alone, and a stop request stays.\<close>

lemma upd_cl [simp]: "cl (upd_ws f g) = cl g" "cl (upd_hb f' g) = cl g" "cl (interrupt_current_ws g) = cl g"
  by (simp_all add: upd_ws_def upd_hb_def interrupt_current_ws_def)

lemma release_cl [simp]: "cl (dcc_gateway_heartbeat_state_release g) = cl g"
  by (simp add: dcc_gateway_heartbeat_state_release_def Let_def split: option.splits)

lemma heartbeat_cl [simp]: "cl (heartbeat_exit g) = cl g" "cl (heartbeat_fail g) = cl g" "cl (heartbeat_body env g) = cl g"
  "cl (dcc_gateway_heartbeat_task env g) = cl g"
proof -
  show e: "cl (heartbeat_exit g) = cl g" for g by (simp add: heartbeat_exit_def)
  show f: "cl (heartbeat_fail g) = cl g" for g by (simp add: heartbeat_fail_def e)
  show b: "cl (heartbeat_body env g) = cl g"
    by (auto simp: heartbeat_body_def dcc_gateway_send_heartbeat_state_def f dest!: with_ws_frame split: option.splits prod.splits)
  show "cl (dcc_gateway_heartbeat_task env g) = cl g" by (simp add: dcc_gateway_heartbeat_task_def e b split: option.splits)
qed

lemma act_stop: "dcc_gateway_should_stop (cl g) \<Longrightarrow> dcc_gateway_should_stop (cl (act a g))"
  by (cases a) (auto simp: dcc_gateway_request_stop_def dcc_gateway_request_reconnect_def dcc_gateway_should_stop_def)

lemma acts_stop: "dcc_gateway_should_stop (cl g) \<Longrightarrow> dcc_gateway_should_stop (cl (acts as g))"
  by (induction as arbitrary: g) (simp_all add: acts_def act_stop)

lemma session_recv_frame: "session_recv E g = (st, m, g') \<Longrightarrow> decision g' = decision g \<and> cl g' = cl g"
  by (auto simp: session_recv_def decision_def split: option.splits prod.splits)

lemma scratch_frame [simp]:
  "decision (dcc_gateway_session_payload_scratch a g) = decision g" "cl (dcc_gateway_session_payload_scratch a g) = cl g"
  by (simp_all add: dcc_gateway_session_payload_scratch_def decision_def)

lemma decision_set_next [simp]: "fst (decision (set_next nx g)) = nx"
  by (simp add: decision_def set_next_def)

lemma reconnect_next_cases:
  "dcc_gateway_reconnect_next c = DCC_GATEWAY_NEXT_RECONNECT_RESUME \<longleftrightarrow> dcc_gateway_can_resume c"
  "dcc_gateway_reconnect_next c \<noteq> DCC_GATEWAY_NEXT_FATAL" "dcc_gateway_reconnect_next c \<noteq> DCC_GATEWAY_NEXT_STOP"
  by (simp_all add: dcc_gateway_reconnect_next_def)

lemma take_reconnect_request_cases:
  assumes "dcc_gateway_take_reconnect_request c = (nx, c')"
  shows "nx \<in> {DCC_GATEWAY_NEXT_RECONNECT_RESUME, DCC_GATEWAY_NEXT_RECONNECT_IDENTIFY}"
    and "nx = DCC_GATEWAY_NEXT_RECONNECT_RESUME \<longleftrightarrow> dcc_gateway_can_resume c'"
    and "dcc_gateway_should_stop c' = dcc_gateway_should_stop c"
  using assms
  by (auto simp: dcc_gateway_take_reconnect_request_def Let_def dcc_gateway_can_resume_def dcc_gateway_clear_resume_def
      dcc_gateway_should_stop_def split: if_splits)

text \<open>Why a session may end for good: a close code that says so, no memory for the payload, or an event that could
  not be delivered.\<close>

definition fatal_code :: "u16 \<Rightarrow> bool" where
  "fatal_code ccode \<longleftrightarrow> ccode \<in> {4004, 4010, 4011, 4012, 4013, 4014}"

definition fatal_end :: "dcc_status \<Rightarrow> dcc_json_gateway_payload list \<Rightarrow> gateway \<Rightarrow> bool" where
  "fatal_end st ps g \<longleftrightarrow>
     st = DCC_ERR_CANCELED \<and> fatal_code (last_close_code g)
     \<or> st = DCC_ERR_NOMEM \<and> \<not> payload_scratch (ses g)
     \<or> ps \<noteq> [] \<and> p_op (last ps) = Some 0"

text \<open>What a finished loop has decided.\<close>

definition decided :: "dcc_status \<Rightarrow> dcc_json_gateway_payload list \<Rightarrow> gateway \<Rightarrow> bool" where
  "decided st ps g \<longleftrightarrow> (case fst (decision g) of
     DCC_GATEWAY_NEXT_RECONNECT_RESUME \<Rightarrow> dcc_gateway_can_resume (cl g)
   | DCC_GATEWAY_NEXT_STOP \<Rightarrow> dcc_gateway_should_stop (cl g)
   | DCC_GATEWAY_NEXT_FATAL \<Rightarrow> st = DCC_OK \<or> fatal_end st ps g
   | DCC_GATEWAY_NEXT_RECONNECT_IDENTIFY \<Rightarrow> True)"

lemma reconnect_decided [simp]: "decided st ps (set_next (dcc_gateway_reconnect_next (cl g)) g)"
  by (simp add: decided_def dcc_gateway_reconnect_next_def)

lemma take_reconnect_decided: "decided st ps (take_reconnect g)"
proof -
  obtain nx c where t: "dcc_gateway_take_reconnect_request (cl g) = (nx, c)" by fastforce
  from take_reconnect_request_cases(1,2) [OF t] show ?thesis
    by (auto simp: take_reconnect_def t decided_def)
qed

lemma last_close_code_frame [simp]:
  "last_close_code (set_next nx g) = last_close_code g" "last_close_code (cl_update c g) = last_close_code g"
  by (simp_all add: last_close_code_def set_next_def)

lemma close_decided:
  assumes "dcc_gateway_next_for_close (cl g) (last_close_code g) = (nx, c)"
  shows "decided DCC_ERR_CANCELED ps (set_next nx (g\<lparr>cl := c\<rparr>))"
  using assms
  by (auto simp: dcc_gateway_next_for_close_def decided_def fatal_end_def fatal_code_def dcc_gateway_reconnect_next_def
      dcc_gateway_can_resume_def set_identify_delay_def split: if_splits)

lemma handle_payload_decided:
  assumes "dcc_gateway_session_handle_payload e g p = (st, g')" "fst (decision g) = DCC_GATEWAY_NEXT_FATAL"
  shows "decided st (ps @ [p]) g'" "st = DCC_OK \<Longrightarrow> fst (decision g') = DCC_GATEWAY_NEXT_FATAL"
proof -
  define g1 where "g1 = dcc_gateway_update_seq g p"
  have d1: "fst (decision g1) = DCC_GATEWAY_NEXT_FATAL"
    using assms(2) by (cases "p_seq p") (simp_all add: g1_def dcc_gateway_update_seq_def decision_def upd_hb_def)
  note h = assms(1) [unfolded dcc_gateway_session_handle_payload_def Let_def, folded g1_def]
  have fatal: "decided st' ps' g'" if "fst (decision g') = DCC_GATEWAY_NEXT_FATAL" "st' = DCC_OK \<or> fatal_end st' ps' g'" for st' ps'
    using that by (simp add: decided_def)
  consider (none) "p_op p = None" | (dispatch) "p_op p = Some 0" | (beat) "p_op p = Some 1" | (invalid) "p_op p = Some 9"
    | (other) x where "p_op p = Some x" "x \<noteq> 0" "x \<noteq> 1" "x \<noteq> 9"
    by (cases "p_op p") auto
  then have "decided st (ps @ [p]) g' \<and> (st = DCC_OK \<longrightarrow> fst (decision g') = DCC_GATEWAY_NEXT_FATAL)"
  proof cases
    case none
    with h d1 fatal show ?thesis by simp
  next
    case dispatch
    obtain st0 g0 where d: "dcc_gateway_handle_dispatch (ready_allocs e) (emit_status e) g1 p = (st0, g0)" by fastforce
    then have "decision g0 = decision g1"
      by (auto simp: dcc_gateway_handle_dispatch_def dcc_gateway_dispatch_session_event_def decision_def split: if_splits prod.splits)
    then have "fst (decision g') = DCC_GATEWAY_NEXT_FATAL" using h dispatch d d1 by (auto split: if_splits)
    then show ?thesis using dispatch by (intro conjI fatal) (simp_all add: fatal_end_def)
  next
    case beat
    obtain st0 g0 where b: "dcc_gateway_send_heartbeat (reply_env e) (upd_hb (waiting_ack_update (\<lambda>_. True)) g1) = (st0, g0)"
      by fastforce
    from b have "decision g0 = decision g1"
      by (auto simp: dcc_gateway_send_heartbeat_def dest: with_ws_frame)
    with h beat b d1 show ?thesis by (auto simp: decided_def dcc_gateway_reconnect_next_def)
  next
    case invalid
    obtain nx c where i: "dcc_gateway_invalid_session_next (jitter_ns e) (cl g1) p = (nx, c)" by fastforce
    with invalid h have g': "st = DCC_ERR_DISCORD" "g' = set_next nx (g1\<lparr>cl := c\<rparr>)" by auto
    show ?thesis
      using i unfolding g' by (auto simp: dcc_gateway_invalid_session_next_def decided_def split: if_splits)
  next
    case (other x)
    with h d1 fatal show ?thesis by (auto split: if_splits)
  qed
  then show "decided st (ps @ [p]) g'" "st = DCC_OK \<Longrightarrow> fst (decision g') = DCC_GATEWAY_NEXT_FATAL" by simp_all
qed

text \<open>After the decision, actions of other tasks leave it as justified as it was.\<close>

lemma ws_close_code [simp]:
  "close_code (dcc_ws_abort ws) = close_code ws" "close_code (dcc_ws_destroy ws) = close_code ws"
  by (simp_all add: dcc_ws_abort_def dcc_ws_destroy_def Let_def)

lemma ws_send_close_code: "close_code (snd (dcc_ws_send env ws opcode data)) = close_code ws"
  by (auto simp: dcc_ws_send_def dcc_ws_retain_def Let_def split: option.splits prod.splits if_splits)

lemma send_heartbeat_close_code: "close_code (snd (send_heartbeat_text env ws has s)) = close_code ws"
  by (simp add: send_heartbeat_text_def dcc_ws_send_text_def ws_send_close_code)

definition end_view :: "gateway \<Rightarrow> u16 \<times> bool" where
  "end_view g = (last_close_code g, payload_scratch (ses g))"

lemma upd_end_view [simp]:
  "(\<And>ws. close_code (f ws) = close_code ws) \<Longrightarrow> end_view (upd_ws f g) = end_view g" "end_view (upd_hb f' g) = end_view g"
  "end_view (hb_running_update r g) = end_view g" "end_view (cl_update c g) = end_view g"
  by (simp_all add: end_view_def last_close_code_def upd_ws_def upd_hb_def split: option.splits)

lemma with_ws_end_view:
  "(\<And>ws. close_code (snd (f ws)) = close_code ws) \<Longrightarrow> with_ws f g = (st, g') \<Longrightarrow> end_view g' = end_view g"
  by (auto simp: with_ws_def end_view_def last_close_code_def split: option.splits prod.splits) (metis snd_conv)

interpretation ending: untouched_by_actions end_view
  by unfold_locales (auto intro: with_ws_end_view [OF send_heartbeat_close_code])

declare ending.acts_view [simp] ending.release_view [simp] ending.body_view [simp] ending.exit_view [simp]

lemma acts_decided: "decided st ps g \<Longrightarrow> decided st ps (acts as g)"
proof -
  assume d: "decided st ps g"
  have "fatal_end st ps (acts as g) = fatal_end st ps g"
    using ending.acts_view [of as g] by (simp add: fatal_end_def end_view_def)
  with d show ?thesis
    using acts_stop [of g as] can_resume_view [OF memory.acts_view [of as g]]
    by (auto simp: decided_def split: dcc_gateway_next.splits)
qed

lemma receive_message_decided:
  assumes "receive_message parse e g = (st, p, continue, g')" "fst (decision g) = DCC_GATEWAY_NEXT_FATAL"
  shows "decided st (ps @ (case p of None \<Rightarrow> [] | Some p \<Rightarrow> [p])) g'"
    and "continue \<Longrightarrow> fst (decision g') = DCC_GATEWAY_NEXT_FATAL"
proof -
  obtain st0 m g0 where recv: "session_recv (recv_envs e) (acts (acts_before_recv e) g) = (st0, m, g0)"
    by (metis prod_cases3)
  define g1 where "g1 = acts (acts_after_recv e) g0"
  define g2 where "g2 = dcc_gateway_session_payload_scratch (scratch_alloc e) g1"
  have d2: "fst (decision g2) = DCC_GATEWAY_NEXT_FATAL"
    using session_recv_frame [OF recv] assms(2) by (simp add: g1_def g2_def)
  note r = assms(1) [unfolded receive_message_def recv prod.case Let_def, folded g1_def, folded g2_def]
  let ?goal = "decided st (ps @ (case p of None \<Rightarrow> [] | Some p \<Rightarrow> [p])) g' \<and> (continue \<longrightarrow> fst (decision g') = DCC_GATEWAY_NEXT_FATAL)"
  have ?goal
  proof (cases "st0 = DCC_OK")
    case False
    have stop: "decided st' qs (set_next DCC_GATEWAY_NEXT_STOP g1)" if "dcc_gateway_should_stop (cl g1)" for st' qs
      using that by (simp add: decided_def)
    have close: "decided DCC_ERR_CANCELED qs (set_next nx (g1\<lparr>cl := c\<rparr>))"
      if "dcc_gateway_next_for_close (cl g1) (last_close_code g1) = (nx, c)" for qs nx c
      using close_decided [OF that] .
    from False r stop close take_reconnect_decided show ?thesis
      by (auto split: if_splits prod.splits)
  next
    case True
    obtain st1 q where parse: "parse (case m of None \<Rightarrow> [] | Some m \<Rightarrow> msg_data m) = (st1, q)" by fastforce
    show ?thesis
    proof (cases "payload_scratch (ses g2) \<and> st1 = DCC_OK")
      case False
      have "decided DCC_ERR_NOMEM qs (set_next DCC_GATEWAY_NEXT_FATAL g2)" if "\<not> payload_scratch (ses g2)" for qs
        using that by (simp add: decided_def fatal_end_def) (simp add: set_next_def)
      moreover have "decided st' qs (set_next DCC_GATEWAY_NEXT_RECONNECT_IDENTIFY g2)" for st' qs by (simp add: decided_def)
      ultimately show ?thesis using r True parse False by (auto split: if_splits)
    next
      case ok: True
      obtain st2 g3 where h: "dcc_gateway_session_handle_payload e g2 q = (st2, g3)" by fastforce
      from handle_payload_decided(1) [OF h d2, of ps] handle_payload_decided(2) [OF h d2] r True parse ok h show ?thesis
        by (auto simp: acts_decided)
    qed
  qed
  then show "decided st (ps @ (case p of None \<Rightarrow> [] | Some p \<Rightarrow> [p])) g'" "continue \<Longrightarrow> fst (decision g') = DCC_GATEWAY_NEXT_FATAL"
    by simp_all
qed

lemma receive_loop_decided:
  assumes "dcc_gateway_session_receive_loop parse st g envs = Some (st', ps, g')" "fst (decision g) = DCC_GATEWAY_NEXT_FATAL" "st = DCC_OK"
  shows "decided st' ps g'"
  using assms
proof (induction envs arbitrary: st g ps)
  case Nil
  then show ?case by (auto simp: dcc_gateway_session_receive_loop.simps [of _ _ _ "[]"] decided_def split: if_splits)
next
  case (Cons e envs)
  show ?case
  proof (cases "dcc_gateway_should_stop (cl g) \<or> gateway_reconnect_requested (cl g)")
    case True
    with Cons.prems show ?thesis
      by (auto simp: dcc_gateway_session_receive_loop.simps [of _ _ _ "e # envs"] decided_def split: if_splits)
  next
    case go: False
    obtain st1 p cont g1 where m: "receive_message parse e g = (st1, p, cont, g1)" by (metis prod_cases4)
    define qs where "qs = (case p of None \<Rightarrow> [] | Some p \<Rightarrow> [p])"
    note unfold = dcc_gateway_session_receive_loop.simps [of _ _ _ "e # envs"]
    show ?thesis
    proof (cases cont)
      case True
      have "st1 = DCC_OK" using m True by (auto simp: receive_message_def Let_def split: prod.splits if_splits)
      from True obtain rs where rs: "dcc_gateway_session_receive_loop parse st1 g1 envs = Some (st', rs, g')" "ps = qs @ rs"
        using Cons.prems(1) go m by (auto simp: unfold qs_def)
      from Cons.IH [OF rs(1) receive_message_decided(2) [OF m Cons.prems(2) True] \<open>st1 = DCC_OK\<close>]
      show ?thesis by (auto simp: rs(2) decided_def fatal_end_def split: dcc_gateway_next.splits)
    next
      case False
      then have "ps = qs" "g' = g1" "st' = st1" using Cons.prems(1) go m by (auto simp: unfold qs_def)
      with receive_message_decided(1) [OF m Cons.prems(2), of "[]"] show ?thesis by (simp add: qs_def)
    qed
  qed
qed

end
