(* ===== verification/DCC_Gateway_Run.thy ===== *)
theory DCC_Gateway_Run
  imports DCC_Gateway_Session
begin

text \<open>
  The life of a gateway connection: starting and stopping the heartbeat, HELLO, the end of a session
  (\<^verbatim>\<open>gateway_session_lifecycle.c\<close>, \<^verbatim>\<open>gateway_session_hello.c\<close>, \<^verbatim>\<open>gateway_session_receive_finish.c\<close>), one connection
  (\<^verbatim>\<open>gateway_session.c\<close>), and the loop that reconnects with a growing delay (\<^verbatim>\<open>gateway_runtime_loop.c\<close>,
  \<^verbatim>\<open>gateway_runtime_retry.c\<close>).

  The result of \<open>dcc_ws_connect\<close> is an input here; \<^verbatim>\<open>DCC_Ws_Handshake\<close> says what it can be.
\<close>

section \<open>Start and end of a session\<close>

definition dcc_gateway_session_init :: "dcc_client \<Rightarrow> bool \<Rightarrow> dcc_gateway_session" where
  "dcc_gateway_session_init c resume =
     \<lparr>ses_ws = None, heartbeat = None, heartbeat_failed = False, ses_seq = gateway_seq c, ses_has_seq = gateway_has_seq c,
      heartbeat_interval_ms = 0, ses_resume = (resume \<and> dcc_gateway_can_resume c), ses_next = DCC_GATEWAY_NEXT_FATAL,
      payload_scratch = False\<rparr>"

definition dcc_gateway_session_start_heartbeat :: "bool \<Rightarrow> bool \<Rightarrow> gateway \<Rightarrow> dcc_status \<times> gateway" where
  "dcc_gateway_session_start_heartbeat alloc spawn g =
     (case ses_ws (ses g) of
        None \<Rightarrow> (DCC_ERR_INVALID_ARG, g)
      | Some ws \<Rightarrow>
          if \<not> alloc then (DCC_ERR_NOMEM, g)
          else case dcc_ws_retain ws of (st, ws) \<Rightarrow>
            if st \<noteq> DCC_OK then (DCC_ERR_STATE, g)
            else
              let h = \<lparr>hb_refs = 1 + 1, hb_stop = False, waiting_ack = False, hb_failed = False,
                       hb_has_seq = ses_has_seq (ses g), hb_seq = ses_seq (ses g),
                       interval_ms = heartbeat_interval_ms (ses g), jitter_seed = shard_id (cl g) + 1\<rparr>;
                  g = g\<lparr>ses := (ses g)\<lparr>ses_ws := Some ws, heartbeat := Some h\<rparr>\<rparr> in
              if \<not> spawn then
                let g = dcc_gateway_heartbeat_state_release (dcc_gateway_heartbeat_state_release g) in
                (DCC_ERR_RUNTIME, g\<lparr>ses := (ses g)\<lparr>heartbeat := None\<rparr>\<rparr>)
              else (DCC_OK, g\<lparr>hb_running := True\<rparr>))"

text \<open>Stopping the heartbeat and joining its task. \<open>late\<close> is a beat of the task that had passed its look at the stop
  flag before the flag was set.\<close>

definition join_heartbeat :: "ws_env option \<Rightarrow> gateway \<Rightarrow> gateway" where
  "join_heartbeat late g =
     (let g = (case late of None \<Rightarrow> g | Some env \<Rightarrow> if hb_running g then heartbeat_body env g else g) in
      if hb_running g then heartbeat_exit g else g)"

definition dcc_gateway_session_stop_heartbeat :: "ws_env option \<Rightarrow> gateway \<Rightarrow> gateway" where
  "dcc_gateway_session_stop_heartbeat late g =
     (case heartbeat (ses g) of
        None \<Rightarrow> g
      | Some h \<Rightarrow>
          let g = g\<lparr>ses := (ses g)\<lparr>heartbeat_failed := hb_failed h\<rparr>\<rparr>;
              g = join_heartbeat late (upd_hb (hb_stop_update (\<lambda>_. True)) g);
              failed = (case heartbeat (ses g) of None \<Rightarrow> False | Some h \<Rightarrow> hb_failed h);
              g = dcc_gateway_heartbeat_state_release
                    (g\<lparr>ses := (ses g)\<lparr>heartbeat_failed := heartbeat_failed (ses g) \<or> failed\<rparr>\<rparr>) in
          g\<lparr>ses := (ses g)\<lparr>heartbeat := None\<rparr>\<rparr>)"

definition dcc_gateway_session_drop_ws :: "gateway \<Rightarrow> gateway" where
  "dcc_gateway_session_drop_ws g =
     (if ses_ws (ses g) = None then g
      else let g = upd_ws dcc_ws_destroy (dcc_gateway_clear_ws g) in g\<lparr>ses := (ses g)\<lparr>ses_ws := None\<rparr>\<rparr>)"

definition dcc_gateway_session_finish_ws :: "ws_env \<Rightarrow> gateway \<Rightarrow> gateway" where
  "dcc_gateway_session_finish_ws env g =
     (if ses_ws (ses g) = None then g
      else
        let g = dcc_gateway_clear_ws g;
            g = (if ses_next (ses g) = DCC_GATEWAY_NEXT_STOP
                 then upd_ws (\<lambda>ws. dcc_ws_close env ws 1000 (bytes_of ''done'')) g
                 else upd_ws dcc_ws_abort g);
            g = upd_ws dcc_ws_destroy g in
        g\<lparr>ses := (ses g)\<lparr>ses_ws := None\<rparr>\<rparr>)"

definition dcc_gateway_session_finalize_receive :: "gateway \<Rightarrow> dcc_status \<Rightarrow> dcc_status \<times> gateway" where
  "dcc_gateway_session_finalize_receive g st =
     (if dcc_gateway_should_stop (cl g) then (DCC_OK, set_next DCC_GATEWAY_NEXT_STOP g)
      else if gateway_reconnect_requested (cl g) then (DCC_ERR_CANCELED, take_reconnect g)
      else if heartbeat_failed (ses g) then (DCC_ERR_DISCORD, set_next (dcc_gateway_reconnect_next (cl g)) g)
      else if ses_next (ses g) = DCC_GATEWAY_NEXT_FATAL \<and> st \<noteq> DCC_OK then (st, g)
      else if ses_next (ses g) = DCC_GATEWAY_NEXT_FATAL then (st, set_next (dcc_gateway_reconnect_next (cl g)) g)
      else (st, g))"

section \<open>HELLO\<close>

definition INT_MAX :: int where
  "INT_MAX = 2 ^ 31 - 1"

definition dcc_gateway_read_timeout_for_heartbeat :: "u32 \<Rightarrow> int" where
  "dcc_gateway_read_timeout_for_heartbeat interval =
     (let timeout_ms = ucast interval * 2 + 15000 :: u64;
          timeout_ms = (if timeout_ms < 90000 then 90000 else timeout_ms) in
      if timeout_ms > word_of_int INT_MAX then INT_MAX else uint timeout_ms)"

text \<open>What the environment does during one connection attempt.\<close>

record attempt_env =
  slot_ns :: u64
  slot_interrupted :: "nat \<Rightarrow> bool"
  slot_ns_after :: u64
  slot_passes :: "identify_pass list"
  acts_after_slot :: "gateway_action list"
  connect_result :: "string \<Rightarrow> dcc_status \<times> dcc_ws"
  acts_during_connect :: "gateway_action list"
  hello_acts :: "gateway_action list"
  hello_recv :: "nat \<Rightarrow> ws_env"
  hello_acts_after :: "gateway_action list"
  hello_scratch :: bool
  hb_alloc :: bool
  hb_spawn :: bool
  login_acts :: "gateway_action list"
  login_alloc :: "nat \<Rightarrow> bool"
  login_env :: ws_env
  login_acts_after :: "gateway_action list"
  messages :: "session_env list"
  late_beat :: "ws_env option"
  acts_before_finalize :: "gateway_action list"
  close_env :: ws_env

definition dcc_gateway_read_hello :: "payload_parser \<Rightarrow> attempt_env \<Rightarrow> gateway \<Rightarrow> dcc_status \<times> gateway" where
  "dcc_gateway_read_hello parse a g =
     (case session_recv (hello_recv a) (acts (hello_acts a) g) of (st, m, g) \<Rightarrow>
        let g = acts (hello_acts_after a) g in
        if st \<noteq> DCC_OK then (st, g)
        else
          let g = dcc_gateway_session_payload_scratch (hello_scratch a) g in
          if \<not> payload_scratch (ses g) then (DCC_ERR_NOMEM, g)
          else case parse (case m of None \<Rightarrow> [] | Some m \<Rightarrow> msg_data m) of (st, p) \<Rightarrow>
            if st \<noteq> DCC_OK then (st, g)
            else if p_op p \<noteq> Some 10 then (DCC_ERR_DISCORD, g)
            else case p_heartbeat_interval p of
              None \<Rightarrow> (DCC_ERR_DISCORD, g)
            | Some interval \<Rightarrow>
                if interval \<le> 0 then (DCC_ERR_DISCORD, g)
                else
                  let interval = word_of_int interval :: u32 in
                  (DCC_OK, upd_ws (\<lambda>ws. dcc_ws_set_timeout_ms ws (dcc_gateway_read_timeout_for_heartbeat interval))
                    (g\<lparr>ses := (ses g)\<lparr>heartbeat_interval_ms := interval\<rparr>\<rparr>)))"

section \<open>One connection\<close>

definition dcc_gateway_send_identify :: "(nat \<Rightarrow> bool) \<Rightarrow> ws_env \<Rightarrow> gateway \<Rightarrow> dcc_status \<times> gateway" where
  "dcc_gateway_send_identify alloc env g =
     with_ws (\<lambda>ws. send_pieces alloc env ws
       (identify_pieces (token (cl g)) (intents (cl g)) (shard_id (cl g)) (shard_count (cl g)))) g"

definition dcc_gateway_send_resume :: "(nat \<Rightarrow> bool) \<Rightarrow> ws_env \<Rightarrow> gateway \<Rightarrow> dcc_status \<times> gateway" where
  "dcc_gateway_send_resume alloc env g =
     (if \<not> dcc_gateway_can_resume (cl g) then (DCC_ERR_STATE, g)
      else with_ws (\<lambda>ws. send_pieces alloc env ws
        (resume_pieces (token (cl g)) (gateway_session_id (cl g)) (gateway_seq (cl g)))) g)"

text \<open>The wait for an identify slot, with the actions of other tasks during it.\<close>

definition wait_slot ::
  "attempt_env \<Rightarrow> dcc_cluster_identify_coordinator option \<Rightarrow> gateway
    \<Rightarrow> (dcc_status \<times> dcc_cluster_identify_coordinator option \<times> gateway) option" where
  "wait_slot a co g =
     map_option (\<lambda>(st, co, b). (st, co, acts (acts_after_slot a) (g\<lparr>cl := (cl g)\<lparr>gateway_budget := b\<rparr>\<rparr>)))
       (dcc_gateway_wait_identify_slot co (gateway_budget (cl g)) (shard_id (cl g)) (slot_ns a) (slot_interrupted a)
         (slot_ns_after a) (slot_passes a))"

type_synonym attempt_result =
  "(dcc_status \<times> dcc_gateway_next \<times> dcc_cluster_identify_coordinator option \<times> dcc_client) option"

text \<open>The end of an attempt after its session is over: the flags are looked at in this order.\<close>

definition give_up :: "dcc_status \<Rightarrow> dcc_cluster_identify_coordinator option \<Rightarrow> gateway \<Rightarrow> attempt_result" where
  "give_up st co g =
     (if dcc_gateway_should_stop (cl g) then Some (DCC_OK, DCC_GATEWAY_NEXT_STOP, co, cl g)
      else if gateway_reconnect_requested (cl g) then
        (case dcc_gateway_take_reconnect_request (cl g) of (nx, c) \<Rightarrow> Some (st, nx, co, c))
      else Some (st, dcc_gateway_reconnect_next (cl g), co, cl g))"

text \<open>The end of an attempt that was interrupted while it waited for its identify slot.\<close>

definition no_slot :: "dcc_cluster_identify_coordinator option \<Rightarrow> gateway \<Rightarrow> attempt_result" where
  "no_slot co g =
     (if dcc_gateway_should_stop (cl g) then Some (DCC_OK, DCC_GATEWAY_NEXT_STOP, co, cl g)
      else if gateway_reconnect_requested (cl g) then
        (case dcc_gateway_take_reconnect_request (cl g) of (nx, c) \<Rightarrow> Some (DCC_OK, nx, co, c))
      else Some (DCC_OK, DCC_GATEWAY_NEXT_STOP, co, cl g))"

definition receive_phase ::
  "payload_parser \<Rightarrow> attempt_env \<Rightarrow> dcc_cluster_identify_coordinator option \<Rightarrow> gateway \<Rightarrow> attempt_result" where
  "receive_phase parse a co g =
     (case dcc_gateway_session_receive_loop parse DCC_OK g (messages a) of
        None \<Rightarrow> None
      | Some (st, _, g) \<Rightarrow>
          let g = acts (acts_before_finalize a) (dcc_gateway_session_stop_heartbeat (late_beat a) g) in
          (case dcc_gateway_session_finalize_receive g st of (st, g) \<Rightarrow>
             let g = dcc_gateway_session_finish_ws (close_env a) g in Some (st, ses_next (ses g), co, cl g)))"

definition login_phase ::
  "payload_parser \<Rightarrow> attempt_env \<Rightarrow> dcc_cluster_identify_coordinator option \<Rightarrow> gateway \<Rightarrow> attempt_result" where
  "login_phase parse a co g =
     (case (if ses_resume (ses g) then dcc_gateway_send_resume (login_alloc a) (login_env a) (acts (login_acts a) g)
            else dcc_gateway_send_identify (login_alloc a) (login_env a) (acts (login_acts a) g)) of (st, g) \<Rightarrow>
        let g = acts (login_acts_after a) g in
        if st \<noteq> DCC_OK then
          give_up st co (dcc_gateway_session_drop_ws (dcc_gateway_session_stop_heartbeat (late_beat a) g))
        else if ses_resume (ses g) then receive_phase parse a co g
        else receive_phase parse a co
          (g\<lparr>cl := (cl g)\<lparr>gateway_budget := dcc_gateway_consume_identify (co \<noteq> None) (gateway_budget (cl g))\<rparr>\<rparr>))"

definition connect_phase ::
  "payload_parser \<Rightarrow> attempt_env \<Rightarrow> dcc_cluster_identify_coordinator option \<Rightarrow> gateway \<Rightarrow> string \<Rightarrow> attempt_result" where
  "connect_phase parse a co g url =
     (case connect_result a url of (st, ws) \<Rightarrow>
        let g = acts (acts_during_connect a) g in
        if st \<noteq> DCC_OK then Some (st, dcc_gateway_reconnect_next (cl g), co, cl g)
        else case dcc_gateway_read_hello parse a (dcc_gateway_bind_ws (g\<lparr>ses := (ses g)\<lparr>ses_ws := Some ws\<rparr>\<rparr>)) of (st, g) \<Rightarrow>
          if st \<noteq> DCC_OK then map_option (\<lambda>(st, nx, co, c). (st, nx, co, c\<lparr>gateway_current_ws := False\<rparr>)) (give_up st co g)
          else case dcc_gateway_session_start_heartbeat (hb_alloc a) (hb_spawn a) g of (st, g) \<Rightarrow>
            if st \<noteq> DCC_OK then Some (st, DCC_GATEWAY_NEXT_FATAL, co, cl (dcc_gateway_session_drop_ws g))
            else if \<not> ses_resume (ses g) \<and> co = None then
              (case wait_slot a co g of
                 None \<Rightarrow> None
               | Some (st, co, g) \<Rightarrow>
                   if st \<noteq> DCC_OK then
                     no_slot co (dcc_gateway_session_drop_ws (dcc_gateway_session_stop_heartbeat (late_beat a) g))
                   else login_phase parse a co g)
            else login_phase parse a co g)"

definition dcc_gateway_run_once ::
  "payload_parser \<Rightarrow> attempt_env \<Rightarrow> dcc_cluster_identify_coordinator option \<Rightarrow> dcc_client \<Rightarrow> string \<Rightarrow> bool \<Rightarrow> attempt_result" where
  "dcc_gateway_run_once parse a co c url resume =
     (let g = \<lparr>cl = c, ses = dcc_gateway_session_init c resume, hb_running = False\<rparr> in
      if \<not> ses_resume (ses g) \<and> co \<noteq> None then
        (case wait_slot a co g of
           None \<Rightarrow> None
         | Some (st, co, g) \<Rightarrow>
             if st \<noteq> DCC_OK then
               Some (st, if dcc_gateway_should_stop (cl g) then DCC_GATEWAY_NEXT_STOP else DCC_GATEWAY_NEXT_RECONNECT_IDENTIFY, co, cl g)
             else connect_phase parse a co g url)
      else connect_phase parse a co g url)"

section \<open>Bot information\<close>

text \<open>\<open>strstr(s, "://")\<close>: what follows the first occurrence.\<close>

fun after_scheme :: "string \<Rightarrow> string option" where
  "after_scheme [] = None"
| "after_scheme (c # s) = (if has_prefix (c # s) ''://'' then Some (drop 3 (c # s)) else after_scheme s)"

definition dcc_gateway_url_with_json_query :: "bool \<Rightarrow> string \<Rightarrow> dcc_status \<times> string" where
  "dcc_gateway_url_with_json_query alloc raw =
     (let rest = (case after_scheme raw of None \<Rightarrow> raw | Some r \<Rightarrow> r);
          after_authority = dropWhile (\<lambda>c. c \<noteq> CHR ''/'' \<and> c \<noteq> CHR ''?'') rest;
          has_path = (after_authority \<noteq> [] \<and> hd after_authority = CHR ''/'');
          query = (if CHR ''?'' \<notin> set raw
                   then (if has_path then ''?v=10&encoding=json'' else ''/?v=10&encoding=json'')
                   else ''&v=10&encoding=json'') in
      if \<not> alloc then (DCC_ERR_NOMEM, []) else (DCC_OK, raw @ query))"

text \<open>The members of the bot information that the code reads, as the JSON accessors return them.\<close>

record bot_info =
  info_url :: "string option"
  info_shards :: "u64 option"
  info_limit :: bool
  info_total :: "u64 option"
  info_max_concurrency :: "u64 option"
  info_remaining :: "u64 option"
  info_reset_after :: "u64 option"

definition UINT32_MAX :: u64 where
  "UINT32_MAX = 0xffffffff"

definition dcc_gateway_apply_bot_info :: "bool \<Rightarrow> u64 \<Rightarrow> dcc_client \<Rightarrow> bot_info \<Rightarrow> dcc_status \<times> dcc_client" where
  "dcc_gateway_apply_bot_info alloc ns c info =
     (if \<not> nonempty (info_url info) then (DCC_ERR_DISCORD, c)
      else case dcc_gateway_url_with_json_query alloc (the (info_url info)) of (st, url) \<Rightarrow>
        let c = (if st = DCC_OK then c\<lparr>gateway_cached_url := Some url\<rparr> else c);
            c = (case info_shards info of
                   Some v \<Rightarrow> if v > 0 \<and> v \<le> UINT32_MAX then c\<lparr>gateway_recommended_shards := ucast v\<rparr> else c
                 | None \<Rightarrow> c);
            b = gateway_budget c;
            b = (case info_total info of
                   Some v \<Rightarrow> if info_limit info \<and> v \<le> UINT32_MAX then b\<lparr>gateway_session_total_identifies := ucast v\<rparr> else b
                 | None \<Rightarrow> b);
            c = (case info_max_concurrency info of
                   Some v \<Rightarrow> if info_limit info \<and> v > 0 \<and> v \<le> UINT32_MAX then c\<lparr>gateway_max_concurrency := ucast v\<rparr> else c
                 | None \<Rightarrow> c);
            b = (case info_remaining info of
                   Some v \<Rightarrow> if info_limit info \<and> v \<le> UINT32_MAX then b\<lparr>gateway_remaining_identifies := ucast v\<rparr> else b
                 | None \<Rightarrow> b) in
        (st, case info_reset_after info of
           Some v \<Rightarrow>
             if info_limit info then
               c\<lparr>gateway_session_reset_after_ms := v,
                 gateway_budget := b\<lparr>gateway_session_reset_at_ms := sat_add (dcc_gateway_now_ms ns) v\<rparr>\<rparr>
             else c\<lparr>gateway_budget := b\<rparr>
         | None \<Rightarrow> c\<lparr>gateway_budget := b\<rparr>))"

text \<open>Fetching it: the outcome of the request, the status of the response, and what its body parses to.\<close>

record fetch_env =
  fetch_http :: dcc_status
  fetch_code :: nat
  fetch_json :: "dcc_status \<times> bot_info"
  fetch_url_alloc :: bool
  fetch_auth_alloc :: bool
  fetch_ns :: u64

definition dcc_gateway_fetch_bot_info :: "bool \<Rightarrow> fetch_env \<Rightarrow> dcc_client \<Rightarrow> dcc_status \<times> dcc_client" where
  "dcc_gateway_fetch_bot_info query_alloc f c =
     (if \<not> nonempty (token c) then (DCC_ERR_INVALID_ARG, c)
      else if nonempty (gateway_cached_url c) then (DCC_OK, c)
      else if \<not> fetch_url_alloc f \<or> \<not> fetch_auth_alloc f then (DCC_ERR_NOMEM, c)
      else if fetch_http f \<noteq> DCC_OK then (fetch_http f, c)
      else if fetch_code f < 200 \<or> fetch_code f \<ge> 300 then (DCC_ERR_DISCORD, c)
      else case fetch_json f of (st, info) \<Rightarrow>
        if st \<noteq> DCC_OK then (st, c) else dcc_gateway_apply_bot_info query_alloc (fetch_ns f) c info)"

section \<open>Reconnecting\<close>

definition dcc_gateway_attempt_url :: "bool \<Rightarrow> dcc_client \<Rightarrow> bool \<Rightarrow> string option" where
  "dcc_gateway_attempt_url alloc c resume =
     (let url = (if nonempty (gateway_url c) then gateway_url c else gateway_cached_url c);
          url = (if resume \<and> nonempty (gateway_resume_url c) then gateway_resume_url c else url) in
      if \<not> alloc then None else Some (case url of None \<Rightarrow> [] | Some u \<Rightarrow> u))"

definition dcc_gateway_backoff_ms :: "u32 \<Rightarrow> u32" where
  "dcc_gateway_backoff_ms attempt =
     (let shifts = (if attempt < 5 then attempt else 5);
          delay = ((\<lambda>d. d * 2) ^^ unat shifts) 250 in
      if delay > 5000 then 5000 else delay)"

definition dcc_gateway_backoff_jitter_ms :: "u64 \<Rightarrow> u32 \<Rightarrow> u64 \<Rightarrow> u32" where
  "dcc_gateway_backoff_jitter_ms ns attempt salt =
     (let base = dcc_gateway_backoff_ms attempt;
          spread = base div 5;
          jitter = dcc_gateway_now_jitter ns (spread * 2 + 1) (salt + ucast attempt) in
      base - spread + jitter)"

record run_env =
  top_acts :: "gateway_action list"
  fetch :: fetch_env
  query_alloc :: bool
  url_alloc :: bool
  connection :: attempt_env
  end_acts :: "gateway_action list"
  backoff_ns :: u64
  wait_interrupted :: "nat \<Rightarrow> bool"
  wait_acts :: "gateway_action list"

text \<open>Actions of other tasks while there is no session.\<close>

definition client_acts :: "gateway_action list \<Rightarrow> dcc_client \<Rightarrow> dcc_client" where
  "client_acts as c = cl (acts as \<lparr>cl = c, ses = dcc_gateway_session_init c False, hb_running = False\<rparr>)"

text \<open>The delay before the next attempt; a pending identify delay that is longer is used instead, and used up.\<close>

definition next_delay :: "u64 \<Rightarrow> u32 \<Rightarrow> dcc_client \<Rightarrow> u32 \<times> dcc_client" where
  "next_delay ns attempt c =
     (let d = dcc_gateway_backoff_jitter_ms ns attempt (push_bit 32 (ucast (shard_id c)) XOR ucast (shard_count c)) in
      if gateway_identify_delay_ms (gateway_budget c) > d
      then (gateway_identify_delay_ms (gateway_budget c), set_identify_delay 0 c) else (d, c))"

text \<open>The loop: the final status, the delays between attempts, the coordinator and the client; \<open>None\<close> while it is
  still running when the environment ends.\<close>

fun dcc_gateway_run ::
  "payload_parser \<Rightarrow> run_env list \<Rightarrow> dcc_cluster_identify_coordinator option \<Rightarrow> dcc_client \<Rightarrow> bool \<Rightarrow> u32 \<Rightarrow> dcc_status
    \<Rightarrow> (dcc_status \<times> u32 list \<times> dcc_cluster_identify_coordinator option \<times> dcc_client) option" where
  "dcc_gateway_run parse [] co c resume attempt last_status = None"
| "dcc_gateway_run parse (e # envs) co c resume attempt last_status =
     (let c = client_acts (top_acts e) c in
      if dcc_gateway_should_stop c then Some (if last_status = DCC_ERR_CANCELED then DCC_OK else last_status, [], co, c)
      else
        let (resume, attempt, c) =
              (if gateway_reconnect_requested c then
                 case dcc_gateway_take_reconnect_request c of (nx, c) \<Rightarrow> (nx = DCC_GATEWAY_NEXT_RECONNECT_RESUME, 0, c)
               else (resume, attempt, c));
            resume = (resume \<and> dcc_gateway_can_resume c);
            (st, c) =
              (if \<not> resume \<and> \<not> nonempty (gateway_url c) \<and> \<not> nonempty (gateway_cached_url c)
               then dcc_gateway_fetch_bot_info (query_alloc e) (fetch e) c else (DCC_OK, c)) in
        if st \<noteq> DCC_OK then Some (st, [], co, c)
        else case dcc_gateway_attempt_url (url_alloc e) c resume of
          None \<Rightarrow> Some (DCC_ERR_NOMEM, [], co, c)
        | Some url \<Rightarrow>
            if url = [] then Some (DCC_ERR_INVALID_ARG, [], co, c)
            else case dcc_gateway_run_once parse (connection e) co c url resume of
              None \<Rightarrow> None
            | Some (last_status, nx, co, c) \<Rightarrow>
                let c = client_acts (end_acts e) c in
                if nx = DCC_GATEWAY_NEXT_STOP \<or> dcc_gateway_should_stop c then Some (DCC_OK, [], co, c)
                else if nx = DCC_GATEWAY_NEXT_FATAL then Some (last_status, [], co, c)
                else
                  let resume = (nx = DCC_GATEWAY_NEXT_RECONNECT_RESUME);
                      (d, c) = next_delay (backoff_ns e) attempt c;
                      attempt = attempt + 1;
                      (wait_st, _) = dcc_gateway_wait_ms (wait_interrupted e) (ucast d);
                      c = client_acts (wait_acts e) c;
                      later = map_option (\<lambda>(st, ds, r). (st, d # ds, r)) in
                  if wait_st = DCC_ERR_CANCELED then
                    (if dcc_gateway_should_stop c then Some (DCC_OK, [d], co, c)
                     else if gateway_reconnect_requested c then
                       (case dcc_gateway_take_reconnect_request c of (nx, c) \<Rightarrow>
                          later (dcc_gateway_run parse envs co c (nx = DCC_GATEWAY_NEXT_RECONNECT_RESUME) 0 last_status))
                     else Some (DCC_OK, [d], co, c))
                  else later (dcc_gateway_run parse envs co c resume attempt last_status))"

section \<open>Starting the gateway\<close>

definition dcc_gateway_start :: "dcc_status \<Rightarrow> dcc_client \<Rightarrow> dcc_status \<times> dcc_client" where
  "dcc_gateway_start spawn c =
     (if gateway_task_running c then (DCC_ERR_STATE, c)
      else
        let c = c\<lparr>gateway_stop_requested := False, gateway_reconnect_requested := False, gateway_reconnect_resume := False\<rparr> in
        if \<not> nonempty (gateway_url c) \<and> \<not> nonempty (token c) then (DCC_OK, c)
        else if spawn \<noteq> DCC_OK then
          (spawn, c\<lparr>gateway_task_running := False, gateway_task_completed := True, gateway_last_status := spawn\<rparr>)
        else (DCC_OK, c\<lparr>gateway_last_status := DCC_OK, gateway_task_completed := False, gateway_task_running := True\<rparr>))"

text \<open>The gateway task; \<open>stop_on_error\<close> is \<open>gateway_stop_runtime_on_error\<close>, whose effect on the client is that of
  \<open>dcc_client_stop\<close> (stopping the runtime itself is outside the gateway).\<close>

definition dcc_gateway_task ::
  "bool \<Rightarrow> payload_parser \<Rightarrow> run_env list \<Rightarrow> dcc_cluster_identify_coordinator option \<Rightarrow> dcc_client
    \<Rightarrow> (dcc_cluster_identify_coordinator option \<times> dcc_client) option" where
  "dcc_gateway_task stop_on_error parse envs co c =
     (case dcc_gateway_run parse envs co c False 0 DCC_OK of
        None \<Rightarrow> None
      | Some (st, _, co, c) \<Rightarrow>
          let c = c\<lparr>gateway_last_status := st, gateway_task_running := False, gateway_task_completed := True\<rparr> in
          Some (co, if st \<noteq> DCC_OK \<and> \<not> stopping c \<and> stop_on_error then client_acts [Client_stopping, Request_stop] c else c))"

section \<open>Frames of the lifecycle\<close>

lemma join_frame [simp]:
  "decision (join_heartbeat late g) = decision g" "cl (join_heartbeat late g) = cl g" "end_view (join_heartbeat late g) = end_view g"
  by (simp_all add: join_heartbeat_def Let_def split: option.splits)

lemma ses_update_frame [simp]:
  "decision (g\<lparr>ses := (ses g)\<lparr>heartbeat := h\<rparr>\<rparr>) = decision g" "end_view (g\<lparr>ses := (ses g)\<lparr>heartbeat := h\<rparr>\<rparr>) = end_view g"
  "decision (g\<lparr>ses := (ses g)\<lparr>heartbeat_failed := b\<rparr>\<rparr>) = decision g" "end_view (g\<lparr>ses := (ses g)\<lparr>heartbeat_failed := b\<rparr>\<rparr>) = end_view g"
  by (simp_all add: decision_def end_view_def last_close_code_def)

lemma stop_heartbeat_frame [simp]:
  "decision (dcc_gateway_session_stop_heartbeat late g) = decision g" "cl (dcc_gateway_session_stop_heartbeat late g) = cl g"
  "end_view (dcc_gateway_session_stop_heartbeat late g) = end_view g"
  by (simp_all add: dcc_gateway_session_stop_heartbeat_def Let_def split: option.splits)

lemma can_resume_current_ws [simp]:
  "dcc_gateway_can_resume (c\<lparr>gateway_current_ws := b\<rparr>) = dcc_gateway_can_resume c"
  "dcc_gateway_should_stop (c\<lparr>gateway_current_ws := b\<rparr>) = dcc_gateway_should_stop c"
  by (simp_all add: dcc_gateway_can_resume_def dcc_gateway_should_stop_def)

lemma finish_ws_frame:
  "ses_next (ses (dcc_gateway_session_finish_ws env g)) = ses_next (ses g)"
  "dcc_gateway_can_resume (cl (dcc_gateway_session_finish_ws env g)) = dcc_gateway_can_resume (cl g)"
  "dcc_gateway_should_stop (cl (dcc_gateway_session_finish_ws env g)) = dcc_gateway_should_stop (cl g)"
  by (simp_all add: dcc_gateway_session_finish_ws_def dcc_gateway_clear_ws_def upd_ws_def Let_def)

text \<open>The socket of a session stays until the session drops it.\<close>

definition has_ws :: "gateway \<Rightarrow> bool" where
  "has_ws g \<longleftrightarrow> ses_ws (ses g) \<noteq> None"

lemma with_ws_has_ws: "with_ws f g = (st, g') \<Longrightarrow> has_ws g' = has_ws g"
  by (auto simp: with_ws_def has_ws_def split: option.splits prod.splits)

interpretation socket: untouched_by_actions has_ws
  by unfold_locales (auto simp: has_ws_def upd_ws_def upd_hb_def dest: with_ws_has_ws [unfolded has_ws_def])

declare socket.acts_view [simp] socket.interrupt_view [simp]

lemma upd_has_ws [simp]: "has_ws (upd_ws f g) = has_ws g" "has_ws (cl_update c g) = has_ws g"
  by (simp_all add: has_ws_def upd_ws_def)

lemma session_recv_has_ws: "session_recv E g = (st, m, g') \<Longrightarrow> has_ws g' = has_ws g"
  by (auto simp: session_recv_def has_ws_def split: option.splits prod.splits)

lemma scratch_has_ws [simp]: "has_ws (dcc_gateway_session_payload_scratch b g) = has_ws g"
  by (simp add: dcc_gateway_session_payload_scratch_def has_ws_def)

lemma bind_frame [simp]:
  "has_ws (dcc_gateway_bind_ws g) = has_ws g" "decision (dcc_gateway_bind_ws g) = decision g"
  by (simp_all add: dcc_gateway_bind_ws_def Let_def)

lemma read_hello_frame:
  assumes "dcc_gateway_read_hello parse a g = (st, g')"
  shows "has_ws g' = has_ws g" "decision g' = decision g"
proof -
  obtain st0 m g0 where recv: "session_recv (hello_recv a) (acts (hello_acts a) g) = (st0, m, g0)" by (metis prod_cases3)
  define g1 where "g1 = dcc_gateway_session_payload_scratch (hello_scratch a) (acts (hello_acts_after a) g0)"
  have f: "has_ws g0 = has_ws g" "decision g0 = decision g"
    using session_recv_has_ws [OF recv] session_recv_frame [OF recv] by simp_all
  have i: "has_ws (g1\<lparr>ses := (ses g1)\<lparr>heartbeat_interval_ms := x\<rparr>\<rparr>) = has_ws g1"
    "decision (g1\<lparr>ses := (ses g1)\<lparr>heartbeat_interval_ms := x\<rparr>\<rparr>) = decision g1" for x
    by (simp_all add: has_ws_def decision_def)
  note r = assms [unfolded dcc_gateway_read_hello_def recv prod.case Let_def, folded g1_def]
  have g1: "has_ws g1 = has_ws g" "decision g1 = decision g" using f by (simp_all add: g1_def)
  have "has_ws g' = has_ws g \<and> decision g' = decision g"
    using r f g1 i by (auto split: if_splits prod.splits option.splits)
  then show "has_ws g' = has_ws g" "decision g' = decision g" by simp_all
qed

lemma start_heartbeat_status:
  assumes "dcc_gateway_session_start_heartbeat alloc spawn g = (st, g')" "has_ws g"
  shows "st = DCC_OK \<or> st = DCC_ERR_NOMEM \<and> \<not> alloc \<or> st = DCC_ERR_STATE \<or> st = DCC_ERR_RUNTIME \<and> \<not> spawn"
  using assms by (auto simp: dcc_gateway_session_start_heartbeat_def has_ws_def Let_def split: option.splits prod.splits if_splits)

lemma start_heartbeat_frame:
  assumes "dcc_gateway_session_start_heartbeat alloc spawn g = (st, g')"
  shows "decision g' = decision g"
proof -
  have "decision (g\<lparr>ses := (ses g)\<lparr>ses_ws := w, heartbeat := h\<rparr>\<rparr>) = decision g" for w h by (simp add: decision_def)
  then show ?thesis
    using assms by (auto simp: dcc_gateway_session_start_heartbeat_def Let_def split: option.splits prod.splits if_splits)
qed

section \<open>How an attempt ends\<close>

lemma finalize_policy:
  assumes "dcc_gateway_session_finalize_receive g st = (st', g')" "decided st ps g"
  shows "ses_next (ses g') = DCC_GATEWAY_NEXT_RECONNECT_RESUME \<Longrightarrow> dcc_gateway_can_resume (cl g')"
    and "ses_next (ses g') = DCC_GATEWAY_NEXT_STOP \<Longrightarrow> dcc_gateway_should_stop (cl g')"
    and "ses_next (ses g') = DCC_GATEWAY_NEXT_FATAL \<Longrightarrow> st' = st \<and> st \<noteq> DCC_OK \<and> fatal_end st ps g"
proof -
  have take: "decided st0 ps0 (take_reconnect g)" for st0 ps0 by (rule take_reconnect_decided)
  have dec: "fst (decision x) = ses_next (ses x)" for x by (simp add: decision_def)
  have notfatal: "ses_next (ses (take_reconnect g)) \<noteq> DCC_GATEWAY_NEXT_FATAL"
    by (auto simp: take_reconnect_def dcc_gateway_take_reconnect_request_def Let_def set_next_def)
  have nx: "ses_next (ses (set_next x g)) = x" for x by (simp add: set_next_def)
  note fin = assms(1) [unfolded dcc_gateway_session_finalize_receive_def]
  show "dcc_gateway_can_resume (cl g')" if "ses_next (ses g') = DCC_GATEWAY_NEXT_RECONNECT_RESUME"
    using fin that take [of DCC_OK "[]"] assms(2)
    by (auto simp: decided_def dec nx reconnect_next_cases split: if_splits dcc_gateway_next.splits)
  show "dcc_gateway_should_stop (cl g')" if "ses_next (ses g') = DCC_GATEWAY_NEXT_STOP"
    using fin that take [of DCC_OK "[]"] assms(2)
    by (auto simp: decided_def dec nx reconnect_next_cases split: if_splits dcc_gateway_next.splits)
  show "st' = st \<and> st \<noteq> DCC_OK \<and> fatal_end st ps g" if "ses_next (ses g') = DCC_GATEWAY_NEXT_FATAL"
    using fin that notfatal assms(2)
    by (auto simp: decided_def dec nx reconnect_next_cases split: if_splits dcc_gateway_next.splits)
qed

text \<open>Why an attempt may end the gateway for good.\<close>

definition fatal_attempt :: "payload_parser \<Rightarrow> attempt_env \<Rightarrow> dcc_status \<Rightarrow> bool" where
  "fatal_attempt parse a st \<longleftrightarrow> st \<noteq> DCC_OK \<and>
     (st = DCC_ERR_NOMEM \<and> \<not> hb_alloc a \<or> st = DCC_ERR_STATE \<or> st = DCC_ERR_RUNTIME \<and> \<not> hb_spawn a
      \<or> (\<exists>g ps g'. dcc_gateway_session_receive_loop parse DCC_OK g (messages a) = Some (st, ps, g') \<and> fatal_end st ps g'))"

definition justified :: "payload_parser \<Rightarrow> attempt_env \<Rightarrow> dcc_status \<Rightarrow> dcc_gateway_next \<Rightarrow> dcc_client \<Rightarrow> bool" where
  "justified parse a st nx c \<longleftrightarrow> (case nx of
     DCC_GATEWAY_NEXT_RECONNECT_RESUME \<Rightarrow> dcc_gateway_can_resume c
   | DCC_GATEWAY_NEXT_STOP \<Rightarrow> dcc_gateway_should_stop c \<or> (\<exists>i. slot_interrupted a i)
   | DCC_GATEWAY_NEXT_FATAL \<Rightarrow> fatal_attempt parse a st
   | DCC_GATEWAY_NEXT_RECONNECT_IDENTIFY \<Rightarrow> True)"

lemma justified_reconnect [simp]: "justified parse a st (dcc_gateway_reconnect_next c) c"
  by (simp add: justified_def dcc_gateway_reconnect_next_def)

lemma justified_take: "dcc_gateway_take_reconnect_request c = (nx, c') \<Longrightarrow> justified parse a st nx c'"
  using take_reconnect_request_cases(1,2) [of c nx c'] by (auto simp: justified_def)

lemma justified_stop: "dcc_gateway_should_stop c \<Longrightarrow> justified parse a st DCC_GATEWAY_NEXT_STOP c"
  by (simp add: justified_def)

lemma justified_current_ws [simp]: "justified parse a st nx (c\<lparr>gateway_current_ws := b\<rparr>) = justified parse a st nx c"
  by (simp add: justified_def split: dcc_gateway_next.splits)

lemma give_up_justified: "give_up st0 co g = Some (st, nx, co', c) \<Longrightarrow> justified parse a st nx c"
  by (auto simp: give_up_def justified_stop dest: justified_take split: if_splits prod.splits)

lemma receive_phase_justified:
  assumes "receive_phase parse a co g = Some (st, nx, co', c)" "fst (decision g) = DCC_GATEWAY_NEXT_FATAL"
  shows "justified parse a st nx c"
proof -
  obtain st0 ps g0 where loop: "dcc_gateway_session_receive_loop parse DCC_OK g (messages a) = Some (st0, ps, g0)"
    using assms(1) by (auto simp: receive_phase_def split: option.splits)
  define g1 where "g1 = acts (acts_before_finalize a) (dcc_gateway_session_stop_heartbeat (late_beat a) g0)"
  have dec0: "decided st0 ps g0" using receive_loop_decided [OF loop assms(2) refl] .
  have fe: "fatal_end st0 ps (dcc_gateway_session_stop_heartbeat (late_beat a) g0) = fatal_end st0 ps g0"
    using stop_heartbeat_frame(3) [of "late_beat a" g0] by (simp add: fatal_end_def end_view_def)
  have fe1: "fatal_end st0 ps g1 = fatal_end st0 ps g0"
    using fe ending.acts_view [of "acts_before_finalize a" "dcc_gateway_session_stop_heartbeat (late_beat a) g0"]
    by (simp add: fatal_end_def end_view_def g1_def)
  have "decided st0 ps (dcc_gateway_session_stop_heartbeat (late_beat a) g0)"
    using dec0 fe by (auto simp: decided_def split: dcc_gateway_next.splits)
  then have dec1: "decided st0 ps g1" unfolding g1_def by (rule acts_decided)
  obtain st1 g2 where fin: "dcc_gateway_session_finalize_receive g1 st0 = (st1, g2)" by fastforce
  have res: "st = st1" "nx = ses_next (ses g2)" "c = cl (dcc_gateway_session_finish_ws (close_env a) g2)"
    using assms(1) loop fin by (auto simp: receive_phase_def Let_def finish_ws_frame simp flip: g1_def)
  from finalize_policy [OF fin dec1] loop fe1 show ?thesis
    by (auto simp: justified_def res finish_ws_frame fatal_attempt_def split: dcc_gateway_next.splits)
qed

lemma login_phase_justified:
  assumes "login_phase parse a co g = Some (st, nx, co', c)" "fst (decision g) = DCC_GATEWAY_NEXT_FATAL"
  shows "justified parse a st nx c"
proof -
  obtain st0 g0 where s: "(if ses_resume (ses g) then dcc_gateway_send_resume (login_alloc a) (login_env a) (acts (login_acts a) g)
            else dcc_gateway_send_identify (login_alloc a) (login_env a) (acts (login_acts a) g)) = (st0, g0)"
    by fastforce
  then have "decision g0 = decision g"
    by (auto simp: dcc_gateway_send_resume_def dcc_gateway_send_identify_def dest!: with_ws_frame split: if_splits)
  then have d: "fst (decision (acts (login_acts_after a) g0)) = DCC_GATEWAY_NEXT_FATAL"
    "fst (decision (acts (login_acts_after a) g0\<lparr>cl := x\<rparr>)) = DCC_GATEWAY_NEXT_FATAL" for x
    using assms(2) by simp_all
  from assms(1) show ?thesis
    unfolding login_phase_def s prod.case Let_def
    by (auto dest: give_up_justified receive_phase_justified [OF _ d(1)] receive_phase_justified [OF _ d(2)] split: if_splits)
qed

lemma slot_interrupted:
  assumes "wait_slot a None g = Some (st, co, g')" "st \<noteq> DCC_OK"
  shows "\<exists>i. slot_interrupted a i"
proof (rule ccontr)
  assume "\<not> (\<exists>i. slot_interrupted a i)"
  then have quiet: "dcc_gateway_wait_ms (slot_interrupted a) d = (DCC_OK, unat d)" for d by (simp add: wait_ms_quiet)
  from assms show False
    by (auto simp: wait_slot_def dcc_gateway_wait_identify_slot_def dcc_gateway_wait_cluster_identify_slot_def quiet
        split: prod.splits if_splits)
qed

lemma wait_slot_frame:
  assumes "wait_slot a co g = Some (st, co', g')"
  shows "decision g' = decision g"
  using assms by (auto simp: wait_slot_def)

lemma connect_phase_justified:
  assumes "connect_phase parse a co g url = Some (st, nx, co', c)" "fst (decision g) = DCC_GATEWAY_NEXT_FATAL"
  shows "justified parse a st nx c"
proof -
  obtain st0 ws where conn: "connect_result a url = (st0, ws)" by fastforce
  define g0 where "g0 = acts (acts_during_connect a) g"
  note r = assms(1) [unfolded connect_phase_def conn prod.case Let_def, folded g0_def]
  show ?thesis
  proof (cases "st0 = DCC_OK")
    case False
    then show ?thesis using r by auto
  next
    case ok: True
    define gb where "gb = dcc_gateway_bind_ws (g0\<lparr>ses := (ses g0)\<lparr>ses_ws := Some ws\<rparr>\<rparr>)"
    obtain st1 g1 where hello: "dcc_gateway_read_hello parse a gb = (st1, g1)" by fastforce
    have gb: "has_ws gb" "decision gb = decision g"
      by (simp_all add: gb_def) (simp_all add: has_ws_def decision_def g0_def decision.acts_view [unfolded decision_def])
    have g1: "has_ws g1" "fst (decision g1) = DCC_GATEWAY_NEXT_FATAL"
      using read_hello_frame [OF hello] gb assms(2) by simp_all
    note r1 = r [folded gb_def, unfolded hello prod.case]
    show ?thesis
    proof (cases "st1 = DCC_OK")
      case False
      with r1 ok show ?thesis by (auto dest: give_up_justified)
    next
      case ok1: True
      obtain st2 g2 where hb: "dcc_gateway_session_start_heartbeat (hb_alloc a) (hb_spawn a) g1 = (st2, g2)" by fastforce
      have g2: "fst (decision g2) = DCC_GATEWAY_NEXT_FATAL" using start_heartbeat_frame [OF hb] g1(2) by simp
      note r2 = r1 [unfolded hb prod.case]
      show ?thesis
      proof (cases "st2 = DCC_OK")
        case False
        with r2 ok ok1 start_heartbeat_status [OF hb g1(1)] show ?thesis
          by (auto simp: justified_def fatal_attempt_def)
      next
        case ok2: True
        have slot: "justified parse a st nx c"
          if w: "wait_slot a None g2 = Some (st3, co3, g3)" "st3 \<noteq> DCC_OK" and n: "no_slot co3 g4 = Some (st, nx, co', c)" for st3 co3 g3 g4
        proof -
          have "justified parse a s DCC_GATEWAY_NEXT_STOP x" for s x
            using slot_interrupted [OF w] by (simp add: justified_def)
          with n show ?thesis by (auto simp: no_slot_def dest: justified_take split: if_splits prod.splits)
        qed
        have login: "justified parse a st nx c"
          if "wait_slot a None g2 = Some (st3, co3, g3)" "login_phase parse a co3 g3 = Some (st, nx, co', c)" for st3 co3 g3
          using login_phase_justified [OF that(2)] wait_slot_frame [OF that(1)] g2 by simp
        show ?thesis
          using r2 ok ok1 ok2 slot login login_phase_justified [of parse a co g2] g2
          by (auto split: if_splits option.splits prod.splits)
      qed
    qed
  qed
qed

section \<open>Heartbeats and acknowledgements\<close>

text \<open>A session seen from the heartbeat: beats of the task and payloads handled, in any order.\<close>

datatype hb_event =
    Beats ws_env
  | Handles session_env dcc_json_gateway_payload

fun hb_step :: "hb_event \<Rightarrow> gateway \<Rightarrow> gateway" where
  "hb_step (Beats env) g = act (Beat env) g"
| "hb_step (Handles e p) g = snd (dcc_gateway_session_handle_payload e g p)"

text \<open>Some beat comes due while the acknowledgement of an earlier heartbeat is still missing.\<close>

fun missed_ack :: "bool \<Rightarrow> hb_event list \<Rightarrow> bool" where
  "missed_ack waiting [] = False"
| "missed_ack waiting (Beats env # es) = (waiting \<or> missed_ack True es)"
| "missed_ack waiting (Handles e p # es) =
     missed_ack (if p_op p = Some 1 then True else if p_op p = Some 11 then False else waiting) es"

definition alive :: "bool \<Rightarrow> gateway \<Rightarrow> bool" where
  "alive w g \<longleftrightarrow> hb_running g \<and> (\<exists>h. heartbeat (ses g) = Some h \<and> \<not> hb_stop h \<and> \<not> hb_failed h \<and> waiting_ack h = w)"

definition dead :: "gateway \<Rightarrow> bool" where
  "dead g \<longleftrightarrow> \<not> hb_running g \<and> (\<exists>h. heartbeat (ses g) = Some h \<and> hb_failed h)
     \<and> (\<forall>ws. ses_ws (ses g) = Some ws \<longrightarrow> \<not> ws_open ws)"

lemma ws_send_closed: "\<not> ws_open ws \<Longrightarrow> \<not> ws_open (snd (dcc_ws_send env ws opcode data))"
  by (auto simp: dcc_ws_send_def dcc_ws_retain_def dcc_ws_destroy_def Let_def split: if_splits)

lemma send_heartbeat_closed: "\<not> ws_open ws \<Longrightarrow> \<not> ws_open (snd (send_heartbeat_text env ws has s))"
  by (simp add: send_heartbeat_text_def dcc_ws_send_text_def ws_send_closed)

lemma abort_closes [simp]: "\<not> ws_open (dcc_ws_abort ws)" "\<not> ws_open (dcc_ws_destroy (dcc_ws_abort ws))"
  by (simp_all add: dcc_ws_abort_def dcc_ws_destroy_def Let_def)

lemma heartbeat_fail_dead: "heartbeat (ses g) = Some h \<Longrightarrow> dead (heartbeat_fail g)"
  by (auto simp: dead_def heartbeat_fail_def heartbeat_exit_def dcc_gateway_heartbeat_state_release_def upd_ws_def upd_hb_def Let_def)

text \<open>The part of the state the heartbeat task owns, and what handling a payload does to it.\<close>

definition hb_view :: "gateway \<Rightarrow> bool \<times> (bool \<times> bool \<times> bool) option" where
  "hb_view g = (hb_running g, map_option (\<lambda>h. (hb_stop h, hb_failed h, waiting_ack h)) (heartbeat (ses g)))"

definition with_waiting :: "(bool \<Rightarrow> bool) \<Rightarrow> bool \<times> (bool \<times> bool \<times> bool) option \<Rightarrow> bool \<times> (bool \<times> bool \<times> bool) option" where
  "with_waiting f v = (fst v, map_option (\<lambda>(s, b, w). (s, b, f w)) (snd v))"

lemma hb_view_frame [simp]:
  "hb_view (cl_update c g) = hb_view g" "hb_view (set_next nx g) = hb_view g"
  "hb_view (upd_hb (waiting_ack_update f) g) = with_waiting f (hb_view g)"
  by (auto simp: hb_view_def set_next_def upd_hb_def with_waiting_def option.map_comp comp_def)

lemma update_seq_hb_view [simp]: "hb_view (dcc_gateway_update_seq g p) = hb_view g"
  by (auto simp: dcc_gateway_update_seq_def hb_view_def upd_hb_def option.map_comp comp_def split: option.splits)

lemma with_ws_hb_view: "with_ws f g = (st, g') \<Longrightarrow> hb_view g' = hb_view g"
  by (auto simp: with_ws_def hb_view_def split: option.splits prod.splits)

lemma handle_dispatch_hb_view: "dcc_gateway_handle_dispatch allocs em g p = (st, g') \<Longrightarrow> hb_view g' = hb_view g"
  by (auto simp: dcc_gateway_handle_dispatch_def dcc_gateway_dispatch_session_event_def split: if_splits prod.splits)

lemma handle_payload_hb_view:
  "hb_view (snd (dcc_gateway_session_handle_payload e g p)) =
     with_waiting (\<lambda>w. if p_op p = Some 1 then True else if p_op p = Some 11 then False else w) (hb_view g)"
proof -
  have id: "with_waiting (\<lambda>w. w) v = v" for v
    by (cases v; cases "snd v") (simp_all add: with_waiting_def)
  show ?thesis
    by (auto simp: dcc_gateway_session_handle_payload_def Let_def id dcc_gateway_send_heartbeat_def
        dest!: with_ws_hb_view handle_dispatch_hb_view split: option.splits prod.splits if_splits)
qed

lemma alive_view: "alive w g \<longleftrightarrow> hb_view g = (True, Some (False, False, w))"
  by (auto simp: alive_def hb_view_def)

lemma handles_alive:
  "alive w g \<Longrightarrow> alive (if p_op p = Some 1 then True else if p_op p = Some 11 then False else w) (hb_step (Handles e p) g)"
  by (simp add: alive_view handle_payload_hb_view with_waiting_def)

definition ws_closed :: "gateway \<Rightarrow> bool" where
  "ws_closed g \<longleftrightarrow> (\<forall>ws. ses_ws (ses g) = Some ws \<longrightarrow> \<not> ws_open ws)"

lemma handle_payload_ws:
  "ses_ws (ses (snd (dcc_gateway_session_handle_payload e g p))) = ses_ws (ses g)
   \<or> (\<exists>ws has s. ses_ws (ses g) = Some ws
        \<and> ses_ws (ses (snd (dcc_gateway_session_handle_payload e g p))) = Some (snd (send_heartbeat_text (reply_env e) ws has s)))"
proof -
  have ws: "ses_ws (ses (set_next nx x)) = ses_ws (ses x)" "ses_ws (ses (cl_update c x)) = ses_ws (ses x)"
    "ses_ws (ses (upd_hb f x)) = ses_ws (ses x)" "ses_ws (ses (dcc_gateway_update_seq x p)) = ses_ws (ses x)" for nx c f x
    by (auto simp: set_next_def upd_hb_def dcc_gateway_update_seq_def split: option.splits)
  have disp: "dcc_gateway_handle_dispatch allocs em x p = (st, x') \<Longrightarrow> ses_ws (ses x') = ses_ws (ses x)" for allocs em x st x'
    by (auto simp: dcc_gateway_handle_dispatch_def dcc_gateway_dispatch_session_event_def split: if_splits prod.splits)
  show ?thesis
    by (auto simp: dcc_gateway_session_handle_payload_def Let_def ws dcc_gateway_send_heartbeat_def with_ws_def
        dest!: disp split: option.splits prod.splits if_splits) (metis snd_conv)+
qed

lemma handles_dead: "dead g \<Longrightarrow> dead (hb_step (Handles e p) g)"
proof -
  assume d: "dead g"
  have "ws_closed (hb_step (Handles e p) g)"
    using d handle_payload_ws [of e g p] send_heartbeat_closed by (fastforce simp: dead_def ws_closed_def)
  moreover obtain s w where "hb_view g = (False, Some (s, True, w))" using d by (auto simp: dead_def hb_view_def)
  ultimately show ?thesis
    using handle_payload_hb_view [of e g p] by (auto simp: dead_def ws_closed_def hb_view_def with_waiting_def)
qed

lemma beats_dead: "dead g \<Longrightarrow> dead (hb_step (Beats env) g)"
  by (auto simp: dead_def dcc_gateway_heartbeat_task_def)

lemma steps_dead: "dead g \<Longrightarrow> dead (fold hb_step es g)"
proof (induction es arbitrary: g)
  case (Cons e es)
  then show ?case by (cases e) (simp_all add: beats_dead [simplified] handles_dead [simplified])
qed simp

lemma beats_alive:
  assumes "alive w g"
  shows "w \<Longrightarrow> dead (hb_step (Beats env) g)"
    and "\<not> w \<Longrightarrow> alive True (hb_step (Beats env) g) \<or> dead (hb_step (Beats env) g)
      \<and> (\<exists>h. heartbeat (ses g) = Some h \<and> fst (dcc_gateway_send_heartbeat_state env (upd_hb (waiting_ack_update (\<lambda>_. True)) g) h) \<noteq> DCC_OK)"
proof -
  obtain h where h: "heartbeat (ses g) = Some h" "\<not> hb_stop h" "\<not> hb_failed h" "waiting_ack h = w" "hb_running g"
    using assms by (auto simp: alive_def)
  then have step: "hb_step (Beats env) g = heartbeat_body env g" by (simp add: dcc_gateway_heartbeat_task_def)
  show "dead (hb_step (Beats env) g)" if w
    using h that unfolding step by (simp add: heartbeat_body_def heartbeat_fail_dead)
  show "alive True (hb_step (Beats env) g) \<or> dead (hb_step (Beats env) g)
      \<and> (\<exists>h. heartbeat (ses g) = Some h \<and> fst (dcc_gateway_send_heartbeat_state env (upd_hb (waiting_ack_update (\<lambda>_. True)) g) h) \<noteq> DCC_OK)"
    if "\<not> w"
  proof -
    obtain st g1 where s: "dcc_gateway_send_heartbeat_state env (upd_hb (waiting_ack_update (\<lambda>_. True)) g) h = (st, g1)" by fastforce
    have "hb_view g1 = with_waiting (\<lambda>_. True) (hb_view g)"
      using with_ws_hb_view [OF s [unfolded dcc_gateway_send_heartbeat_state_def]] by simp
    then have v: "hb_view g1 = (True, Some (False, False, True))"
      using assms by (simp add: alive_view with_waiting_def)
    then obtain h1 where "heartbeat (ses g1) = Some h1" by (auto simp: hb_view_def)
    with v s h that show ?thesis unfolding step
      by (cases "st = DCC_OK") (auto simp: heartbeat_body_def alive_view heartbeat_fail_dead)
  qed
qed

lemma missed_ack_dead: "alive w g \<Longrightarrow> missed_ack w es \<Longrightarrow> dead (fold hb_step es g)"
proof (induction es arbitrary: w g)
  case (Cons ev es)
  show ?case
  proof (cases ev)
    case (Beats env)
    with Cons beats_alive [OF Cons.prems(1), of env] show ?thesis
      by (cases w) (auto dest: steps_dead simp del: hb_step.simps)
  next
    case (Handles e p)
    with Cons.IH [OF handles_alive [OF Cons.prems(1), of p e]] Cons.prems(2) show ?thesis by (simp del: hb_step.simps)
  qed
qed simp

text \<open>If the task failed although no acknowledgement was missing, one of its heartbeats could not be sent.\<close>

definition send_failed :: "gateway \<Rightarrow> hb_event list \<Rightarrow> bool" where
  "send_failed g es \<longleftrightarrow> (\<exists>es1 env es2 h. es = es1 @ Beats env # es2 \<and> heartbeat (ses (fold hb_step es1 g)) = Some h
     \<and> fst (dcc_gateway_send_heartbeat_state env (upd_hb (waiting_ack_update (\<lambda>_. True)) (fold hb_step es1 g)) h) \<noteq> DCC_OK)"

lemma send_failed_Cons: "send_failed (hb_step ev g) es \<Longrightarrow> send_failed g (ev # es)"
  unfolding send_failed_def by (metis append_Cons fold_simps(2))

lemma acked_alive: "alive w g \<Longrightarrow> \<not> missed_ack w es \<Longrightarrow> (\<exists>w'. alive w' (fold hb_step es g)) \<or> send_failed g es"
proof (induction es arbitrary: w g)
  case (Cons ev es)
  show ?case
  proof (cases ev)
    case (Beats env)
    with Cons.prems have "\<not> w" "\<not> missed_ack True es" by simp_all
    from beats_alive(2) [OF Cons.prems(1) this(1), of env] show ?thesis
    proof
      assume "alive True (hb_step (Beats env) g)"
      from Cons.IH [OF this \<open>\<not> missed_ack True es\<close>] show ?thesis
        using Beats by (auto intro: send_failed_Cons simp del: hb_step.simps)
    next
      assume "dead (hb_step (Beats env) g)
        \<and> (\<exists>h. heartbeat (ses g) = Some h \<and> fst (dcc_gateway_send_heartbeat_state env (upd_hb (waiting_ack_update (\<lambda>_. True)) g) h) \<noteq> DCC_OK)"
      then have "send_failed g (ev # es)"
        unfolding send_failed_def Beats by (intro exI [of _ "[]"] exI [of _ env] exI [of _ es]) simp
      then show ?thesis ..
    qed
  next
    case (Handles e p)
    from Cons.IH [OF handles_alive [OF Cons.prems(1), of p e]] Cons.prems(2) Handles show ?thesis
      by (auto intro: send_failed_Cons simp del: hb_step.simps)
  qed
qed auto

section \<open>Delays\<close>

lemma now_jitter_less: "m \<noteq> 0 \<Longrightarrow> dcc_gateway_now_jitter ns m salt < m"
proof -
  assume m: "m \<noteq> 0"
  have le: "unat ((v :: u64) mod ucast m) < unat m" for v
    using m by (simp add: unat_mod unat_ucast_u32 mod_less_divisor unat_gt_0)
  have "unat (ucast ((v :: u64) mod ucast m) :: u32) < unat m" for v
    using le_less_trans [OF take_bit_nat_less_eq_self le [of v], of 32] by (simp add: unsigned_ucast_eq)
  then show ?thesis using m by (simp add: dcc_gateway_now_jitter_def Let_def word_less_nat_alt)
qed

lemma unat_backoff: "unat (dcc_gateway_backoff_ms attempt) = min 5000 (250 * 2 ^ min 5 (unat attempt))"
proof -
  have "(if attempt < 5 then attempt else 5) = of_nat (min 5 (unat attempt))"
    by (auto simp: min_def word_less_nat_alt)
  then have s: "unat (if attempt < 5 then attempt else 5) = min 5 (unat attempt)"
    by (simp add: unat_of_nat min_def)
  have p: "((\<lambda>d. d * 2) ^^ n) (250 :: u32) = 250 * 2 ^ n" for n by (induction n) simp_all
  have "min 5 (unat attempt) \<in> {0, 1, 2, 3, 4, 5}" by auto
  then show ?thesis
    unfolding dcc_gateway_backoff_ms_def Let_def s p by (elim insertE emptyE) simp_all
qed

lemma backoff_jitter_bounds:
  "let base = min 5000 (250 * 2 ^ min 5 (unat attempt)) in
   base - base div 5 \<le> unat (dcc_gateway_backoff_jitter_ms ns attempt salt)
   \<and> unat (dcc_gateway_backoff_jitter_ms ns attempt salt) \<le> base + base div 5"
proof -
  define b where "b = dcc_gateway_backoff_ms attempt"
  define j where "j = dcc_gateway_now_jitter ns (b div 5 * 2 + 1) (salt + ucast attempt)"
  have ub: "unat b = min 5000 (250 * 2 ^ min 5 (unat attempt))" by (simp add: b_def unat_backoff)
  have b: "unat b \<le> 5000" using ub by simp
  have sp: "unat (b div 5) = unat b div 5" by (simp add: unat_div)
  have m: "unat (b div 5 * 2 + 1) = unat b div 5 * 2 + 1"
    using b by (simp add: unat_word_ariths sp)
  then have "b div 5 * 2 + 1 \<noteq> 0" by (metis add_is_0 one_neq_zero unat_0)
  from now_jitter_less [OF this, of ns "salt + ucast attempt"] have j: "unat j \<le> unat b div 5 * 2"
    using m by (simp add: j_def word_less_nat_alt)
  have "unat (b - b div 5) = unat b - unat b div 5"
    by (subst unat_sub) (simp_all add: sp word_le_nat_alt)
  then have "unat (b - b div 5 + j) = unat b - unat b div 5 + unat j"
    using b j by (simp add: unat_word_ariths)
  moreover have "dcc_gateway_backoff_jitter_ms ns attempt salt = b - b div 5 + j"
    by (simp add: dcc_gateway_backoff_jitter_ms_def b_def j_def Let_def)
  ultimately show ?thesis using j by (auto simp: Let_def ub [symmetric])
qed

lemma next_delay_least: "next_delay ns attempt c = (d, c') \<Longrightarrow> 200 \<le> unat d"
proof -
  assume n: "next_delay ns attempt c = (d, c')"
  define x where "x = dcc_gateway_backoff_jitter_ms ns attempt (push_bit 32 (ucast (shard_id c)) XOR ucast (shard_count c))"
  have "min 5 (unat attempt) \<in> {0, 1, 2, 3, 4, 5}" by auto
  with backoff_jitter_bounds [of attempt ns "push_bit 32 (ucast (shard_id c)) XOR ucast (shard_count c)"]
  have "200 \<le> unat x" unfolding Let_def x_def [symmetric] by (elim insertE emptyE) simp_all
  moreover have "unat x \<le> unat d"
    using n by (auto simp: next_delay_def Let_def x_def [symmetric] word_less_nat_alt split: if_splits)
  ultimately show ?thesis by simp
qed

lemma run_delays: "dcc_gateway_run parse envs co c resume attempt last_status = Some (st, ds, co', c') \<Longrightarrow> \<forall>d \<in> set ds. 200 \<le> unat d"
proof (induction envs arbitrary: co c resume attempt last_status ds)
  case (Cons e envs)
  from Cons.prems show ?case
    by (auto simp: Let_def split: if_splits option.splits prod.splits dest!: next_delay_least Cons.IH)
qed simp

section \<open>Properties\<close>

text \<open>A client, a socket and environments for the witnesses: one text frame with one byte is waiting.\<close>

definition sample_client :: dcc_client where
  "sample_client = \<lparr>token = Some ''t'', intents = 1, shard_id = 0, shard_count = 1, gateway_url = Some ''ws://g'',
     gateway_cached_url = None, gateway_session_id = Some ''old'', gateway_resume_url = None, gateway_seq = 4, gateway_has_seq = True,
     gateway_can_resume = True, gateway_recommended_shards = 0, gateway_max_concurrency = 0,
     gateway_budget = \<lparr>gateway_remaining_identifies = 1, gateway_session_total_identifies = 1, gateway_session_reset_at_ms = 0,
       gateway_identify_delay_ms = 0\<rparr>, gateway_session_reset_after_ms = 0, stopping = False, runtime_initialized = True,
     gateway_task_running = True, gateway_task_completed = False, gateway_last_status = DCC_OK, gateway_stop_requested = False,
     gateway_reconnect_requested = False, gateway_reconnect_resume = False, gateway_current_ws = True\<rparr>"

definition sample_socket :: dcc_ws where
  "sample_socket = sample_ws\<lparr>rx_buf := [0x81, 1, 7]\<rparr>"

definition sample_gateway :: gateway where
  "sample_gateway = \<lparr>cl = sample_client, ses = (dcc_gateway_session_init sample_client True)\<lparr>ses_ws := Some sample_socket\<rparr>, hb_running = False\<rparr>"

definition sample_payload :: dcc_json_gateway_payload where
  "sample_payload = \<lparr>p_op = Some 11, p_seq = Some 5, p_event_name = None, p_heartbeat_interval = None, p_session_id = None,
     p_resume_gateway_url = None, p_invalid_session_resumable = None\<rparr>"

definition sample_message :: session_env where
  "sample_message = \<lparr>acts_before_recv = [], recv_envs = (\<lambda>_. good_env), acts_after_recv = [], scratch_alloc = True,
     ready_allocs = (True, True), emit_status = DCC_OK, reply_env = good_env, jitter_ns = 0, acts_after_payload = [Request_stop]\<rparr>"

lemma sample_recv:
  obtains ws where "dcc_ws_recv (\<lambda>_. good_env) (sample_socket\<lparr>ref_count := r\<rparr>) = (DCC_OK, Some \<lparr>msg_opcode = 1, msg_data = [7]\<rparr>, ws)"
proof -
  define b where "b = sample_socket\<lparr>ref_count := r\<rparr>"
  have u: "unread b = encode_frame None (True, 1, [7]) @ incoming (ws_conn b)"
    by (simp add: b_def sample_socket_def unread_def sample_ws_def encode_frame_def len_byte_def ext_len_def)
  have w: "frame_wf (True, 1, [7 :: u8])" by (simp add: frame_wf_def DCC_WS_MAX_MESSAGE_BYTES_def)
  have e: "env_good good_env" by (simp add: env_good_def good_env_def)
  have c: "control_ok (True, 1, [7 :: u8])" by (simp add: control_ok_def)
  obtain b' where "recv_loop (\<lambda>_. good_env) 0 b None =
       (case recv_dispatch good_env b' None (True, 1, [7]) of
          (Return st m, ws'') \<Rightarrow> (st, m, ws'') | (Continue frag', ws'') \<Rightarrow> recv_loop (\<lambda>_. good_env) (0 + 1) ws'' frag')"
    by (rule recv_loop_frame [where E = "\<lambda>_. good_env" and k = 0 and frag = None, OF u w e c])
  moreover have "ws_open b" by (simp add: b_def sample_socket_def sample_ws_def)
  ultimately show thesis
    using that by (auto simp: dcc_ws_recv_def recv_dispatch_def ws_opcodes b_def)
qed

text \<open>
  C6. What a session remembers follows what the server sent. Whatever arrives and whatever other tasks do meanwhile, after
  the receive loop the session and its heartbeat know the last sequence number of the payloads handled (or the one the
  session started with), and the client has the same number and the session id of the last READY, ready to be resumed,
  unless its resume state was given up as a whole. The copies of the session ids are assumed to be allocated.
\<close>

theorem gateway_session_follows_stream:
  assumes "ses_has_seq (ses g) = gateway_has_seq (cl g)" "ses_seq (ses g) = gateway_seq (cl g)"
    and "dcc_gateway_session_start_heartbeat alloc spawn g = (DCC_OK, g1)"
    and "\<forall>e \<in> set envs. fst (ready_allocs e)"
    and "dcc_gateway_session_receive_loop parse DCC_OK g1 envs = Some (st, ps, g2)"
  shows "let last_seq = seq_after (gateway_has_seq (cl g), gateway_seq (cl g)) ps in
    (ses_has_seq (ses g2), ses_seq (ses g2)) = last_seq
    \<and> map_option (\<lambda>h. (hb_has_seq h, hb_seq h)) (heartbeat (ses g2)) = Some last_seq
    \<and> ((gateway_has_seq (cl g2), gateway_seq (cl g2)) = last_seq
         \<and> gateway_session_id (cl g2) = session_after (gateway_session_id (cl g)) ps
       \<or> resume_cleared (cl g2))"
proof -
  define s where "s = (gateway_has_seq (cl g), gateway_seq (cl g))"
  have cl: "cl g1 = cl g" and hb: "session_knows s g1"
    using assms(1-3)
    by (auto simp: dcc_gateway_session_start_heartbeat_def Let_def session_knows_def hb_knows_def s_def
        split: option.splits prod.splits if_splits)
  then have "client_knows s (gateway_session_id (cl g)) (cl g1)" by (simp add: client_knows_def s_def)
  from receive_loop_follows [OF hb this assms(4,5)] show ?thesis
    by (auto simp: follows_def session_knows_def hb_knows_def client_knows_def s_def Let_def)
qed

theorem gateway_session_follows_stream_witness:
  "\<exists>g1 g2. dcc_gateway_session_start_heartbeat True True sample_gateway = (DCC_OK, g1)
     \<and> dcc_gateway_session_receive_loop (\<lambda>_. (DCC_OK, sample_payload)) DCC_OK g1 [sample_message] = Some (DCC_OK, [sample_payload], g2)
     \<and> (ses_has_seq (ses g2), ses_seq (ses g2)) = (True, 5)"
proof -
  define h where "h = \<lparr>hb_refs = 1 + 1, hb_stop = False, waiting_ack = False, hb_failed = False, hb_has_seq = True, hb_seq = 4,
    interval_ms = 0, jitter_seed = 0 + 1\<rparr>"
  define g1 where "g1 = sample_gateway\<lparr>ses := (ses sample_gateway)\<lparr>ses_ws := Some (sample_socket\<lparr>ref_count := 1 + 1\<rparr>), heartbeat := Some h\<rparr>,
    hb_running := True\<rparr>"
  have start: "dcc_gateway_session_start_heartbeat True True sample_gateway = (DCC_OK, g1)"
    by (simp add: dcc_gateway_session_start_heartbeat_def sample_gateway_def dcc_ws_retain_def sample_socket_def sample_ws_def
        UINT_MAX_def g1_def h_def dcc_gateway_session_init_def sample_client_def Let_def)
  obtain ws where recv: "dcc_ws_recv (\<lambda>_. good_env) (sample_socket\<lparr>ref_count := 1 + 1\<rparr>) = (DCC_OK, Some \<lparr>msg_opcode = 1, msg_data = [7]\<rparr>, ws)"
    by (rule sample_recv)
  obtain p g2 where m: "receive_message (\<lambda>_. (DCC_OK, sample_payload)) sample_message g1 = (DCC_OK, Some sample_payload, False, g2)"
    using recv
    by (simp add: receive_message_def sample_message_def acts_def session_recv_def g1_def sample_gateway_def
        dcc_gateway_session_payload_scratch_def dcc_gateway_session_handle_payload_def sample_payload_def
        dcc_gateway_request_stop_def dcc_gateway_should_stop_def Let_def dcc_gateway_update_seq_def)
  then have loop: "dcc_gateway_session_receive_loop (\<lambda>_. (DCC_OK, sample_payload)) DCC_OK g1 [sample_message]
      = Some (DCC_OK, [sample_payload], g2)"
    by (simp add: dcc_gateway_session_receive_loop.simps g1_def sample_gateway_def sample_client_def dcc_gateway_should_stop_def)
  have "gateway_has_seq (cl sample_gateway)" "gateway_seq (cl sample_gateway) = 4" "ses_has_seq (ses sample_gateway)"
    "ses_seq (ses sample_gateway) = 4"
    by (simp_all add: sample_gateway_def sample_client_def dcc_gateway_session_init_def)
  then have "(ses_has_seq (ses g2), ses_seq (ses g2)) = seq_after (True, 4) [sample_payload]"
    using gateway_session_follows_stream [OF _ _ start _ loop] by (simp add: Let_def sample_message_def)
  with start loop show ?thesis by (auto simp: seq_after_def sample_payload_def)
qed

text \<open>
  C10. A connection attempt decides soundly how to go on. It asks for a RESUME only when the client has a session to
  resume; it stops only when a stop was requested or the wait for its slot was interrupted; and it gives up for good only
  because the heartbeat could not be started, because the server closed with a code that forbids to come back, because
  there was no memory for a payload, or because an event could not be delivered. Every other end, network failures
  among them, leads to another attempt.
\<close>

theorem gateway_attempt_decision:
  assumes "dcc_gateway_run_once parse a co c url resume = Some (st, nx, co', c')"
  shows "(nx = DCC_GATEWAY_NEXT_RECONNECT_RESUME \<longrightarrow> dcc_gateway_can_resume c')
    \<and> (nx = DCC_GATEWAY_NEXT_STOP \<longrightarrow> dcc_gateway_should_stop c' \<or> (\<exists>i. slot_interrupted a i))
    \<and> (nx = DCC_GATEWAY_NEXT_FATAL \<longrightarrow> st \<noteq> DCC_OK \<and>
         (st = DCC_ERR_NOMEM \<and> \<not> hb_alloc a \<or> st = DCC_ERR_STATE \<or> st = DCC_ERR_RUNTIME \<and> \<not> hb_spawn a
          \<or> (\<exists>g ps g'. dcc_gateway_session_receive_loop parse DCC_OK g (messages a) = Some (st, ps, g') \<and>
               (st = DCC_ERR_CANCELED \<and> last_close_code g' \<in> {4004, 4010, 4011, 4012, 4013, 4014}
                \<or> st = DCC_ERR_NOMEM \<and> \<not> payload_scratch (ses g')
                \<or> ps \<noteq> [] \<and> p_op (last ps) = Some 0))))"
proof -
  define g where "g = \<lparr>cl = c, ses = dcc_gateway_session_init c resume, hb_running = False\<rparr>"
  have d: "fst (decision g) = DCC_GATEWAY_NEXT_FATAL" by (simp add: g_def decision_def dcc_gateway_session_init_def)
  have slot: "fst (decision g1) = DCC_GATEWAY_NEXT_FATAL" if "wait_slot a co g = Some (st1, co1, g1)" for st1 co1 g1
    using wait_slot_frame [OF that] d by simp
  note r = assms [unfolded dcc_gateway_run_once_def Let_def, folded g_def]
  have "justified parse a st nx c'"
  proof (cases "\<not> ses_resume (ses g) \<and> co \<noteq> None")
    case True
    then obtain st1 co1 g1 where w: "wait_slot a co g = Some (st1, co1, g1)"
      using r by (auto split: option.splits)
    show ?thesis
    proof (cases "st1 = DCC_OK")
      case ok: True
      then have "connect_phase parse a co1 g1 url = Some (st, nx, co', c')" using r True w by simp
      then show ?thesis using connect_phase_justified slot [OF w] by blast
    next
      case False
      with r True w show ?thesis by (auto simp: justified_def)
    qed
  next
    case False
    then have "connect_phase parse a co g url = Some (st, nx, co', c')" using r by (auto split: if_splits)
    then show ?thesis using connect_phase_justified d by blast
  qed
  then show ?thesis
    by (cases nx) (auto simp: justified_def fatal_attempt_def fatal_end_def fatal_code_def)
qed

definition sample_attempt :: attempt_env where
  "sample_attempt = \<lparr>slot_ns = 0, slot_interrupted = (\<lambda>_. False), slot_ns_after = 0, slot_passes = [], acts_after_slot = [],
     connect_result = (\<lambda>_. (DCC_ERR_NETWORK, sample_ws)), acts_during_connect = [Request_reconnect True], hello_acts = [],
     hello_recv = (\<lambda>_. good_env), hello_acts_after = [], hello_scratch = True, hb_alloc = True, hb_spawn = True, login_acts = [],
     login_alloc = (\<lambda>_. True), login_env = good_env, login_acts_after = [], messages = [sample_message], late_beat = None,
     acts_before_finalize = [], close_env = good_env\<rparr>"

theorem gateway_attempt_decision_witness:
  "\<exists>c'. dcc_gateway_run_once (\<lambda>_. (DCC_OK, sample_payload)) sample_attempt None sample_client ''ws://g'' True
      = Some (DCC_ERR_NETWORK, DCC_GATEWAY_NEXT_RECONNECT_RESUME, None, c') \<and> dcc_gateway_can_resume c'"
proof -
  obtain c' where r: "dcc_gateway_run_once (\<lambda>_. (DCC_OK, sample_payload)) sample_attempt None sample_client ''ws://g'' True
      = Some (DCC_ERR_NETWORK, DCC_GATEWAY_NEXT_RECONNECT_RESUME, None, c')"
    by (simp add: dcc_gateway_run_once_def dcc_gateway_session_init_def sample_client_def sample_attempt_def connect_phase_def acts_def
        dcc_gateway_request_reconnect_def dcc_gateway_should_stop_def interrupt_current_ws_def dcc_gateway_reconnect_next_def
        dcc_gateway_can_resume_def nonempty_def Let_def)
  from gateway_attempt_decision [OF r] r show ?thesis by blast
qed

text \<open>
  C14. Dead connections are found, live ones are kept. Take any interleaving of the beats of the heartbeat task with the
  payloads of the session. If a beat comes due while the acknowledgement of an earlier heartbeat is missing, the task
  fails, the socket is closed, and the session ends with another attempt (a resume where that is possible). If no
  acknowledgement is ever missing, the task keeps running unless a heartbeat could not be sent.
\<close>

theorem gateway_heartbeat_detects_loss:
  assumes "hb_running g" "heartbeat (ses g) = Some h" "\<not> hb_stop h" "\<not> hb_failed h" "g' = fold hb_step es g"
  shows "(missed_ack (waiting_ack h) es \<longrightarrow>
      \<not> hb_running g' \<and> (\<forall>ws. ses_ws (ses g') = Some ws \<longrightarrow> \<not> ws_open ws)
      \<and> (\<not> dcc_gateway_should_stop (cl g') \<and> \<not> gateway_reconnect_requested (cl g') \<longrightarrow>
          (case dcc_gateway_session_finalize_receive (dcc_gateway_session_stop_heartbeat late g') st of (st', g'') \<Rightarrow>
             st' = DCC_ERR_DISCORD \<and> ses_next (ses g'') = dcc_gateway_reconnect_next (cl g'))))
    \<and> (\<not> missed_ack (waiting_ack h) es \<longrightarrow> hb_running g' \<or> send_failed g es)"
proof (intro conjI impI)
  have a: "alive (waiting_ack h) g" using assms by (simp add: alive_def)
  show "hb_running g' \<or> send_failed g es" if "\<not> missed_ack (waiting_ack h) es"
    using acked_alive [OF a that] assms(5) by (auto simp: alive_def)
  assume "missed_ack (waiting_ack h) es"
  then have d: "dead g'" using missed_ack_dead [OF a] assms(5) by simp
  then show "\<not> hb_running g'" "\<forall>ws. ses_ws (ses g') = Some ws \<longrightarrow> \<not> ws_open ws" by (simp_all add: dead_def)
  assume quiet: "\<not> dcc_gateway_should_stop (cl g') \<and> \<not> gateway_reconnect_requested (cl g')"
  have "heartbeat_failed (ses (dcc_gateway_session_stop_heartbeat late g'))"
    using d by (auto simp: dead_def dcc_gateway_session_stop_heartbeat_def join_heartbeat_def upd_hb_def upd_ws_def Let_def
        dcc_gateway_heartbeat_state_release_def split: option.splits)
  with quiet show "case dcc_gateway_session_finalize_receive (dcc_gateway_session_stop_heartbeat late g') st of (st', g'') \<Rightarrow>
      st' = DCC_ERR_DISCORD \<and> ses_next (ses g'') = dcc_gateway_reconnect_next (cl g')"
    by (simp add: dcc_gateway_session_finalize_receive_def set_next_def)
qed

theorem gateway_heartbeat_detects_loss_witness:
  "\<exists>g. hb_running g \<and> \<not> hb_running (fold hb_step [Beats good_env, Handles sample_message (sample_payload\<lparr>p_op := Some 7\<rparr>), Beats good_env] g)"
proof -
  define h where "h = \<lparr>hb_refs = 2, hb_stop = False, waiting_ack = False, hb_failed = False, hb_has_seq = True, hb_seq = 4,
    interval_ms = 0, jitter_seed = 1\<rparr>"
  define g where "g = sample_gateway\<lparr>ses := (ses sample_gateway)\<lparr>heartbeat := Some h\<rparr>, hb_running := True\<rparr>"
  have "missed_ack (waiting_ack h) [Beats good_env, Handles sample_message (sample_payload\<lparr>p_op := Some 7\<rparr>), Beats good_env]"
    by simp
  moreover have "hb_running g" "heartbeat (ses g) = Some h" "\<not> hb_stop h" "\<not> hb_failed h" by (simp_all add: g_def h_def)
  ultimately show ?thesis
    using gateway_heartbeat_detects_loss [where g = g and h = h, OF _ _ _ _ refl] by blast
qed

definition sample_fetch :: fetch_env where
  "sample_fetch = \<lparr>fetch_http = DCC_ERR_NETWORK, fetch_code = 0, fetch_json = (DCC_ERR_JSON,
     \<lparr>info_url = None, info_shards = None, info_limit = False, info_total = None, info_max_concurrency = None, info_remaining = None,
      info_reset_after = None\<rparr>), fetch_url_alloc = True, fetch_auth_alloc = True, fetch_ns = 0\<rparr>"

text \<open>
  Reconnecting is paced. The delay before attempt \<open>n\<close> is \<open>250 * 2^n\<close> milliseconds, at most 5000, give or take a fifth of
  it, without overflow for any attempt counter, and the loop never starts another attempt less than 200 milliseconds after
  the last one has ended.
\<close>

theorem gateway_reconnect_delays:
  "(let base = min 5000 (250 * 2 ^ min 5 (unat attempt)) in
      base - base div 5 \<le> unat (dcc_gateway_backoff_jitter_ms ns attempt salt)
      \<and> unat (dcc_gateway_backoff_jitter_ms ns attempt salt) \<le> base + base div 5)
   \<and> (dcc_gateway_run parse envs co c resume attempt0 last_status = Some (st, ds, co', c') \<longrightarrow> list_all (\<lambda>d. 200 \<le> unat d) ds)"
  using backoff_jitter_bounds run_delays by (auto simp: list_all_iff)

theorem gateway_reconnect_delays_witness:
  "\<exists>st ds co' c'. dcc_gateway_run (\<lambda>_. (DCC_OK, sample_payload))
      [\<lparr>top_acts = [], fetch = sample_fetch, query_alloc = True, url_alloc = True, connection = sample_attempt\<lparr>acts_during_connect := []\<rparr>,
        end_acts = [], backoff_ns = 0, wait_interrupted = (\<lambda>_. True), wait_acts = [Request_stop]\<rparr>]
      None sample_client True 0 DCC_OK = Some (st, ds, co', c') \<and> ds \<noteq> [] \<and> list_all (\<lambda>d. 200 \<le> unat d) ds"
proof -
  define e where "e = \<lparr>top_acts = [], fetch = sample_fetch, query_alloc = True, url_alloc = True,
    connection = sample_attempt\<lparr>acts_during_connect := []\<rparr>, end_acts = [], backoff_ns = 0, wait_interrupted = (\<lambda>_. True),
    wait_acts = [Request_stop]\<rparr>"
  have conn: "dcc_gateway_run_once (\<lambda>_. (DCC_OK, sample_payload)) (sample_attempt\<lparr>acts_during_connect := []\<rparr>) None sample_client ''ws://g'' True
      = Some (DCC_ERR_NETWORK, DCC_GATEWAY_NEXT_RECONNECT_RESUME, None, sample_client)"
    by (simp add: dcc_gateway_run_once_def dcc_gateway_session_init_def sample_client_def sample_attempt_def connect_phase_def acts_def
        dcc_gateway_reconnect_next_def dcc_gateway_can_resume_def nonempty_def Let_def)
  obtain d c2 where nd: "next_delay 0 0 sample_client = (d, c2)" by fastforce
  then have "d \<noteq> 0" using next_delay_least [OF nd] by auto
  then have wait: "dcc_gateway_wait_ms (\<lambda>_. True) (ucast d) = (DCC_ERR_CANCELED, 0)"
    by (simp add: dcc_gateway_wait_ms_def wait_slices.simps)
  have acts0: "client_acts [] x = x" "dcc_gateway_should_stop (client_acts [Request_stop] x)" for x
    by (simp_all add: client_acts_def acts_def dcc_gateway_request_stop_def dcc_gateway_should_stop_def)
  have flags: "\<not> dcc_gateway_should_stop sample_client" "\<not> gateway_reconnect_requested sample_client" "dcc_gateway_can_resume sample_client"
    "dcc_gateway_attempt_url True sample_client True = Some ''ws://g''"
    by (simp_all add: sample_client_def dcc_gateway_should_stop_def dcc_gateway_can_resume_def nonempty_def dcc_gateway_attempt_url_def Let_def)
  have "dcc_gateway_run (\<lambda>_. (DCC_OK, sample_payload)) [e] None sample_client True 0 DCC_OK
      = Some (DCC_OK, [d], None, client_acts [Request_stop] c2)"
    by (simp add: e_def acts0 flags conn nd wait Let_def)
  with gateway_reconnect_delays show ?thesis unfolding e_def by blast
qed

text \<open>
  What logging in and heartbeats put on the socket, given memory: the texts of the payloads, whole. That the JSON
  parser reads them back is shown where it is at hand.
\<close>

lemma gateway_texts_sent:
  assumes "\<forall>n. alloc n"
  shows "length (concat (identify_pieces (token (cl g)) (intents (cl g)) (shard_id (cl g)) (shard_count (cl g)))) < SIZE_MAX div 2
      \<Longrightarrow> dcc_gateway_send_identify alloc env g = with_ws (\<lambda>ws. dcc_ws_send_text env ws
        (bytes_of (concat (identify_pieces (token (cl g)) (intents (cl g)) (shard_id (cl g)) (shard_count (cl g)))))) g"
    and "dcc_gateway_can_resume (cl g)
      \<Longrightarrow> length (concat (resume_pieces (token (cl g)) (gateway_session_id (cl g)) (gateway_seq (cl g)))) < SIZE_MAX div 2
      \<Longrightarrow> dcc_gateway_send_resume alloc env g = with_ws (\<lambda>ws. dcc_ws_send_text env ws
        (bytes_of (concat (resume_pieces (token (cl g)) (gateway_session_id (cl g)) (gateway_seq (cl g)))))) g"
    and "dcc_gateway_send_heartbeat env g = with_ws (\<lambda>ws. dcc_ws_send_text env ws
        (bytes_of (heartbeat_text (ses_has_seq (ses g)) (ses_seq (ses g))))) g"
  by (simp_all add: dcc_gateway_send_identify_def dcc_gateway_send_resume_def dcc_gateway_send_heartbeat_def
      send_pieces_text [OF assms] send_heartbeat_text_eq)

end
