(* ===== verification/DCC_Json_String.thy ===== *)
theory DCC_Json_String
  imports DCC_Prelude
begin

text \<open>
  JSON strings: UTF-8 (\<^verbatim>\<open>src/json/dcc_json_string_utf8.c\<close>, \<^verbatim>\<open>dcc_json_string_utf8_append.c\<close>), escapes
  (\<^verbatim>\<open>dcc_json_string_escape.c\<close>), the search for the closing quote (\<^verbatim>\<open>dcc_json_string.c\<close>), the decoding
  of a span (\<^verbatim>\<open>dcc_json_string_decode.c\<close>) and the copy into a caller's buffer
  (\<^verbatim>\<open>dcc_json_string_parse.c\<close>). A cursor with its end is the text from the cursor on; code points and
  other 32-bit values stay below \<open>2 ^ 21\<close> and are numbers, with the source's bit operations.

  Against the code stand the encoding \<open>utf8\<close> of a Unicode scalar value and the grammar \<open>json_chars\<close> of
  the characters between two quotes. The lemmas show that the code reads exactly this grammar.
\<close>

section \<open>UTF-8 and escapes\<close>

definition utf8_cont :: "char \<Rightarrow> bool" where
  "utf8_cont c \<longleftrightarrow> code c AND 0xc0 = 0x80"

definition dcc_json_utf8_scan_one :: "string \<Rightarrow> string option" where
  "dcc_json_utf8_scan_one p =
     (case p of
        [] \<Rightarrow> None
      | c # r \<Rightarrow>
          let c0 = code c; b1 = code (p ! 1) in
          if c0 \<le> 0x7f then (if c0 < 0x20 then None else Some r)
          else if 0xc2 \<le> c0 \<and> c0 \<le> 0xdf then
            (if length p < 2 \<or> \<not> utf8_cont (p ! 1) then None else Some (drop 2 p))
          else if c0 = 0xe0 then
            (if length p < 3 \<or> b1 < 0xa0 \<or> b1 > 0xbf \<or> \<not> utf8_cont (p ! 2) then None else Some (drop 3 p))
          else if 0xe1 \<le> c0 \<and> c0 \<le> 0xec then
            (if length p < 3 \<or> \<not> utf8_cont (p ! 1) \<or> \<not> utf8_cont (p ! 2) then None else Some (drop 3 p))
          else if c0 = 0xed then
            (if length p < 3 \<or> b1 < 0x80 \<or> b1 > 0x9f \<or> \<not> utf8_cont (p ! 2) then None else Some (drop 3 p))
          else if 0xee \<le> c0 \<and> c0 \<le> 0xef then
            (if length p < 3 \<or> \<not> utf8_cont (p ! 1) \<or> \<not> utf8_cont (p ! 2) then None else Some (drop 3 p))
          else if c0 = 0xf0 then
            (if length p < 4 \<or> b1 < 0x90 \<or> b1 > 0xbf \<or> \<not> utf8_cont (p ! 2) \<or> \<not> utf8_cont (p ! 3)
             then None else Some (drop 4 p))
          else if 0xf1 \<le> c0 \<and> c0 \<le> 0xf3 then
            (if length p < 4 \<or> \<not> utf8_cont (p ! 1) \<or> \<not> utf8_cont (p ! 2) \<or> \<not> utf8_cont (p ! 3)
             then None else Some (drop 4 p))
          else if c0 = 0xf4 then
            (if length p < 4 \<or> b1 < 0x80 \<or> b1 > 0x8f \<or> \<not> utf8_cont (p ! 2) \<or> \<not> utf8_cont (p ! 3)
             then None else Some (drop 4 p))
          else None)"

text \<open>The bytes appended, when \<open>room\<close> bytes are left.\<close>

definition dcc_json_utf8_append :: "nat \<Rightarrow> nat \<Rightarrow> string option" where
  "dcc_json_utf8_append room cp =
     (let bytes =
        (if cp \<le> 0x7f then Some [char_of cp]
         else if cp \<le> 0x7ff then
           Some [char_of (0xc0 OR (drop_bit 6 cp AND 0x1f)), char_of (0x80 OR (cp AND 0x3f))]
         else if cp \<le> 0xffff then
           (if 0xd800 \<le> cp \<and> cp \<le> 0xdfff then None
            else Some [char_of (0xe0 OR (drop_bit 12 cp AND 0x0f)), char_of (0x80 OR (drop_bit 6 cp AND 0x3f)),
                       char_of (0x80 OR (cp AND 0x3f))])
         else if cp \<le> 0x10ffff then
           Some [char_of (0xf0 OR (drop_bit 18 cp AND 0x07)), char_of (0x80 OR (drop_bit 12 cp AND 0x3f)),
                 char_of (0x80 OR (drop_bit 6 cp AND 0x3f)), char_of (0x80 OR (cp AND 0x3f))]
         else None) in
      case bytes of None \<Rightarrow> None | Some tmp \<Rightarrow> if room < length tmp then None else Some tmp)"

definition dcc_json_hex_value :: "char \<Rightarrow> nat option" where
  "dcc_json_hex_value c =
     (if 48 \<le> code c \<and> code c \<le> 57 then Some (code c - 48)
      else if 97 \<le> code c \<and> code c \<le> 102 then Some (code c - 97 + 10)
      else if 65 \<le> code c \<and> code c \<le> 70 then Some (code c - 65 + 10)
      else None)"

text \<open>The loop over the four digits; the callers have checked that they are there.\<close>

fun hex_loop :: "nat \<Rightarrow> nat \<Rightarrow> string \<Rightarrow> nat option" where
  "hex_loop 0 v p = Some v"
| "hex_loop (Suc n) v [] = None"
| "hex_loop (Suc n) v (c # p) =
     (case dcc_json_hex_value c of None \<Rightarrow> None | Some h \<Rightarrow> hex_loop n (push_bit 4 v OR h) p)"

definition dcc_json_parse_hex4_at :: "string \<Rightarrow> nat option" where
  "dcc_json_parse_hex4_at p = hex_loop 4 0 p"

section \<open>The closing quote\<close>

definition simple_escapes :: string where
  "simple_escapes = [CHR 0x22, CHR 0x5C, CHR ''/'', CHR ''b'', CHR ''f'', CHR ''n'', CHR ''r'', CHR ''t'']"

lemma utf8_scan_one_shorter: "dcc_json_utf8_scan_one p = Some r \<Longrightarrow> length r < length p"
  by (auto simp: dcc_json_utf8_scan_one_def Let_def split: list.splits if_splits)

text \<open>The loop of \<open>dcc_json_find_string_end\<close>: the raw characters, the text from the closing quote on, and
  whether there was an escape.\<close>

function (sequential) string_end_loop :: "string \<Rightarrow> string \<Rightarrow> bool \<Rightarrow> (string \<times> string \<times> bool) option" where
  "string_end_loop [] raw escaped = None"
| "string_end_loop (c # p) raw escaped =
     (if c = CHR 0x22 then Some (raw, c # p, escaped)
      else if code c < 0x20 then None
      else if c = CHR 0x5C then
        (case p of
           [] \<Rightarrow> None
         | esc # p' \<Rightarrow>
             if esc \<in> set simple_escapes then string_end_loop p' (raw @ [c, esc]) True
             else if esc = CHR ''u'' then
               (if length p' < 4 \<or> dcc_json_parse_hex4_at p' = None then None
                else string_end_loop (drop 4 p') (raw @ [c, esc] @ take 4 p') True)
             else None)
      else if code c \<ge> 0x80 then
        (case dcc_json_utf8_scan_one (c # p) of
           None \<Rightarrow> None
         | Some r \<Rightarrow> string_end_loop r (raw @ take (length (c # p) - length r) (c # p)) escaped)
      else string_end_loop p (raw @ [c]) escaped)"
  by pat_completeness auto
termination
  by (relation "measure (\<lambda>(p, raw, escaped). length p)") (auto dest: utf8_scan_one_shorter)

definition dcc_json_find_string_end :: "string \<Rightarrow> (string \<times> string \<times> bool) option" where
  "dcc_json_find_string_end p =
     (case p of [] \<Rightarrow> None | c # p' \<Rightarrow> if c = CHR 0x22 then string_end_loop p' [] False else None)"

section \<open>Decoding\<close>

definition escape_byte :: "char \<Rightarrow> char" where
  "escape_byte esc =
     (if esc = CHR ''b'' then CHR 0x08 else if esc = CHR ''f'' then CHR 0x0C
      else if esc = CHR ''n'' then CHR 0x0A else if esc = CHR ''r'' then CHR 0x0D
      else if esc = CHR ''t'' then CHR 0x09 else esc)"

text \<open>The code point of a Unicode escape whose digits start the text, with the text behind it: the
  second escape of a surrogate pair belongs to it.\<close>

definition decode_unicode :: "string \<Rightarrow> (nat \<times> string) option" where
  "decode_unicode p =
     (if length p < 4 then None
      else case dcc_json_parse_hex4_at p of
        None \<Rightarrow> None
      | Some cp \<Rightarrow>
          let p = drop 4 p in
          if 0xd800 \<le> cp \<and> cp \<le> 0xdbff then
            (if length p < 6 \<or> p ! 0 \<noteq> CHR 0x5C \<or> p ! 1 \<noteq> CHR ''u'' then None
             else case dcc_json_parse_hex4_at (drop 2 p) of
               None \<Rightarrow> None
             | Some low \<Rightarrow>
                 if low < 0xdc00 \<or> low > 0xdfff then None
                 else Some (0x10000 + (push_bit 10 (cp - 0xd800) OR (low - 0xdc00)), drop 6 p))
          else if 0xdc00 \<le> cp \<and> cp \<le> 0xdfff then None
          else Some (cp, p))"

lemma decode_unicode_shorter: "decode_unicode p = Some (cp, r) \<Longrightarrow> length r < length p"
  by (auto simp: decode_unicode_def Let_def split: if_splits option.splits)

text \<open>The loop of \<open>dcc_json_decode_string_span\<close>: \<open>out\<close> holds what is decoded, \<open>cap\<close> the size of the buffer.\<close>

function (sequential) decode_loop :: "nat \<Rightarrow> string \<Rightarrow> string \<Rightarrow> string option" where
  "decode_loop cap [] out = (if length out \<ge> cap then None else Some out)"
| "decode_loop cap (c # p) out =
     (if c \<noteq> CHR 0x5C then
        (if length out \<ge> cap then None else decode_loop cap p (out @ [c]))
      else case p of
        [] \<Rightarrow> None
      | esc # p' \<Rightarrow>
          if esc \<in> set simple_escapes then
            (if length out \<ge> cap then None else decode_loop cap p' (out @ [escape_byte esc]))
          else if esc = CHR ''u'' then
            (case decode_unicode p' of
               None \<Rightarrow> None
             | Some (cp, r) \<Rightarrow>
                 (case dcc_json_utf8_append (cap - length out) cp of
                    None \<Rightarrow> None
                  | Some tmp \<Rightarrow> decode_loop cap r (out @ tmp)))
          else None)"
  by pat_completeness auto
termination
  by (relation "measure (\<lambda>(cap, p, out). length p)") (auto dest: decode_unicode_shorter)

definition dcc_json_decode_string_span :: "string \<Rightarrow> nat \<Rightarrow> string option" where
  "dcc_json_decode_string_span raw out_cap = decode_loop out_cap raw []"

text \<open>The text copied and the cursor behind the closing quote.\<close>

definition dcc_json_parse_string_buffer :: "string \<Rightarrow> nat \<Rightarrow> (string \<times> string) option" where
  "dcc_json_parse_string_buffer p out_cap =
     (if out_cap = 0 then None
      else case dcc_json_find_string_end p of
        None \<Rightarrow> None
      | Some (raw, r, escaped) \<Rightarrow>
          if \<not> escaped then (if length raw \<ge> out_cap then None else Some (raw, tl r))
          else (case dcc_json_decode_string_span raw out_cap of
                  None \<Rightarrow> None
                | Some out \<Rightarrow> Some (out, tl r)))"

section \<open>Reference: scalar values and the characters of a string\<close>

definition scalar :: "nat \<Rightarrow> bool" where
  "scalar cp \<longleftrightarrow> cp < 0xd800 \<or> 0xe000 \<le> cp \<and> cp \<le> 0x10ffff"

definition utf8 :: "nat \<Rightarrow> string" where
  "utf8 cp =
     (if cp < 0x80 then [char_of cp]
      else if cp < 0x800 then [char_of (192 + cp div 64), char_of (128 + cp mod 64)]
      else if cp < 0x10000 then
        [char_of (224 + cp div 4096), char_of (128 + cp div 64 mod 64), char_of (128 + cp mod 64)]
      else
        [char_of (240 + cp div 262144), char_of (128 + cp div 4096 mod 64),
         char_of (128 + cp div 64 mod 64), char_of (128 + cp mod 64)])"

text \<open>The tables of the grammar, written out: the hexadecimal digits with their values and the characters behind a
  backslash with the code points they stand for.\<close>

definition hex_digit :: "char \<Rightarrow> nat \<Rightarrow> bool" where
  "hex_digit c d \<longleftrightarrow> (c, d) \<in> set (zip ''0123456789abcdef'' [0..<16]) \<union> set (zip ''ABCDEF'' [10..<16])"

definition hex4 :: "string \<Rightarrow> nat \<Rightarrow> bool" where
  "hex4 h cp \<longleftrightarrow> (\<exists>ds. length ds = 4 \<and> list_all2 hex_digit h ds \<and> cp = foldl (\<lambda>v d. v * 16 + d) 0 ds)"

definition json_escapes :: "(char \<times> nat) list" where
  "json_escapes = [(CHR 0x22, 0x22), (CHR 0x5C, 0x5c), (CHR ''/'', 0x2f), (CHR ''b'', 8), (CHR ''f'', 12),
     (CHR ''n'', 10), (CHR ''r'', 13), (CHR ''t'', 9)]"

inductive json_chars :: "nat list \<Rightarrow> string \<Rightarrow> bool" where
  Empty: "json_chars [] []"
| Plain: "json_chars (cp # cps) (utf8 cp @ raw)"
    if "scalar cp" "0x20 \<le> cp" "cp \<noteq> 0x22" "cp \<noteq> 0x5c" "json_chars cps raw"
| Escape: "json_chars (cp # cps) (CHR 0x5C # esc # raw)"
    if "(esc, cp) \<in> set json_escapes" "json_chars cps raw"
| Unicode: "json_chars (cp # cps) (CHR 0x5C # CHR ''u'' # h @ raw)"
    if "hex4 h cp" "scalar cp" "json_chars cps raw"
| Surrogates: "json_chars ((0x10000 + (hi - 0xd800) * 1024 + (lo - 0xdc00)) # cps)
      (CHR 0x5C # CHR ''u'' # h @ CHR 0x5C # CHR ''u'' # l @ raw)"
    if "hex4 h hi" "0xd800 \<le> hi" "hi \<le> 0xdbff" "hex4 l lo" "0xdc00 \<le> lo" "lo \<le> 0xdfff" "json_chars cps raw"

text \<open>What the search for the closing quote checks: surrogates need not be paired.\<close>

inductive raw_chars :: "string \<Rightarrow> bool" where
  Empty: "raw_chars []"
| Plain: "raw_chars (utf8 cp @ raw)" if "scalar cp" "0x20 \<le> cp" "cp \<noteq> 0x22" "cp \<noteq> 0x5c" "raw_chars raw"
| Escape: "raw_chars (CHR 0x5C # esc # raw)" if "esc \<in> set simple_escapes" "raw_chars raw"
| Unicode: "raw_chars (CHR 0x5C # CHR ''u'' # h @ raw)" if "hex4 h cp" "raw_chars raw"

abbreviation utf8s :: "nat list \<Rightarrow> string" where
  "utf8s cps \<equiv> concat (map utf8 cps)"

text \<open>The whole of reading a string: raw text, decoded text.\<close>

definition string_content :: "nat \<Rightarrow> string \<Rightarrow> bool \<Rightarrow> string option" where
  "string_content cap raw escaped =
     (if \<not> escaped then (if length raw < cap then Some raw else None) else dcc_json_decode_string_span raw cap)"

section \<open>The encoding\<close>

text \<open>Bit operations as arithmetic.\<close>

lemma push_or_add:
  assumes "b < 2 ^ n"
  shows "push_bit n a OR b = a * 2 ^ n + (b :: nat)"
proof -
  have "bit b m \<Longrightarrow> m < n" for m
    using assms by (metis bit_take_bit_iff take_bit_nat_eq_self)
  then have "push_bit n a AND b = 0"
    by (fastforce simp: bit_eq_iff bit_simps)
  then show ?thesis
    by (simp add: disjunctive_add_eq_or [symmetric] push_bit_eq_mult)
qed

lemma and_low_bits: "x AND 0x07 = x mod 8" "x AND 0x0f = x mod 16" "x AND 0x1f = x mod 32" "x AND 0x3f = x mod 64"
  for x :: nat
  using take_bit_eq_mask [of 3 x] take_bit_eq_mask [of 4 x] take_bit_eq_mask [of 5 x] take_bit_eq_mask [of 6 x]
  by (simp_all add: take_bit_eq_mod mask_eq_exp_minus_1)

lemma or_high_bits:
  "b < 64 \<Longrightarrow> 0x80 OR b = 128 + b" "b < 32 \<Longrightarrow> 0xc0 OR b = 192 + b"
  "b < 16 \<Longrightarrow> 0xe0 OR b = 224 + b" "b < 8 \<Longrightarrow> 0xf0 OR b = 240 + b" for b :: nat
  using push_or_add [of b 6 2] push_or_add [of b 5 6] push_or_add [of b 4 14] push_or_add [of b 3 30]
  by (simp_all add: push_bit_eq_mult)

lemma utf8_cont_iff: "utf8_cont c \<longleftrightarrow> 128 \<le> code c \<and> code c \<le> 191"
proof -
  have "code c AND push_bit 6 (mask 2) = push_bit 6 (drop_bit 6 (code c) AND mask 2)"
    by (auto simp: bit_eq_iff bit_simps)
  also have "\<dots> = code c div 64 mod 4 * 64"
    by (simp add: push_bit_eq_mult drop_bit_eq_div take_bit_eq_mod flip: take_bit_eq_mask)
  also have "\<dots> = code c div 64 * 64"
    using less_mult_imp_div_less [of "code c" 4 64] nat_of_char_less_256 [of c] by simp
  finally have "code c AND 0xc0 = code c div 64 * 64"
    by (simp add: push_bit_eq_mult mask_eq_exp_minus_1)
  then show ?thesis
    by (auto simp: utf8_cont_def)
qed

lemma code_char_of: "n < 256 \<Longrightarrow> code (char_of n) = n"
  by (simp add: of_char_of)

lemma eq_char_of: "n < 256 \<Longrightarrow> c = char_of n \<longleftrightarrow> code c = n"
  using code_char_of [of n] char_of_char [of c] by metis

lemma utf8_append_eq:
  assumes "scalar cp"
  shows "dcc_json_utf8_append room cp = (if room < length (utf8 cp) then None else Some (utf8 cp))"
  using assms
  by (auto simp: dcc_json_utf8_append_def utf8_def scalar_def Let_def and_low_bits or_high_bits drop_bit_eq_div
      not_le div_mult2_eq [symmetric])

lemma utf8_append_scalar: "dcc_json_utf8_append room cp = Some tmp \<Longrightarrow> scalar cp"
  by (auto simp: dcc_json_utf8_append_def scalar_def Let_def split: if_splits)

lemma utf8_length: "1 \<le> length (utf8 cp)" "length (utf8 cp) \<le> 4" "cp < 0x80 \<Longrightarrow> length (utf8 cp) = 1"
  "cp < 0x10000 \<Longrightarrow> length (utf8 cp) \<le> 3"
  by (auto simp: utf8_def)

lemma utf8_bytes:
  assumes "scalar cp" "0x80 \<le> cp"
  shows "list_all (\<lambda>b. 128 \<le> code b) (utf8 cp)"
  using assms by (auto simp: utf8_def scalar_def code_char_of)

text \<open>A code point as its groups of six bits.\<close>

lemma base64: "z < 64 \<Longrightarrow> (q * 64 + z) div 64 = q" "z < 64 \<Longrightarrow> (q * 64 + z) mod 64 = (z :: nat)"
  by simp_all

lemma div_4096: "n div 4096 = n div 64 div (64 :: nat)" and div_262144: "n div 262144 = n div 4096 div (64 :: nat)"
  by (simp_all add: div_mult2_eq [symmetric])

lemma six_bits: "n div 64 * 64 + n mod 64 = (n :: nat)"
  by simp

lemma utf8_scan_encoded:
  assumes "scalar cp" "0x20 \<le> cp"
  shows "dcc_json_utf8_scan_one (utf8 cp @ r) = Some r"
proof -
  define a b where "a = cp div 64" and "b = a div 64"
  have eqs: "cp div 64 = a" "cp div 4096 = b" "cp div 262144 = b div 64"
    by (simp_all add: a_def b_def div_4096 div_262144)
  have parts: "cp = a * 64 + cp mod 64" "a = b * 64 + a mod 64" "b = b div 64 * 64 + b mod 64"
    by (simp_all add: a_def b_def)
  have lt: "cp mod 64 < 64" "a mod 64 < 64" "b mod 64 < 64"
    by simp_all
  consider "cp < 0x80" | "0x80 \<le> cp" "cp < 0x800" | "0x800 \<le> cp" "cp < 0x10000" | "0x10000 \<le> cp"
    by linarith
  then show ?thesis
  proof cases
    case 1
    then show ?thesis using assms by (simp add: utf8_def dcc_json_utf8_scan_one_def code_char_of)
  next
    case 2
    then have "2 \<le> a" "a < 32"
      using parts(1) lt(1) by linarith+
    with 2 lt show ?thesis
      by (simp add: utf8_def eqs dcc_json_utf8_scan_one_def code_char_of utf8_cont_iff)
  next
    case 3
    have "b < 16" using 3 parts lt by linarith
    moreover have "0 < b \<or> 32 \<le> a mod 64"
      using 3 parts(1,2) lt by linarith
    moreover have "a mod 64 < 32" if "b = 13"
      using that 3 parts(1,2) lt assms(1) unfolding scalar_def by linarith
    ultimately show ?thesis using 3 lt
      by (auto simp: utf8_def eqs Let_def dcc_json_utf8_scan_one_def code_char_of utf8_cont_iff)
  next
    case 4
    have "cp \<le> 0x10ffff"
      using 4 assms(1) by (simp add: scalar_def)
    then have "b div 64 < 5" using parts lt by linarith
    moreover have "0 < b div 64 \<or> 16 \<le> b mod 64"
      using 4 parts lt by linarith
    moreover have "b div 64 < 4 \<or> b mod 64 < 16"
      using \<open>cp \<le> _\<close> parts lt by linarith
    ultimately show ?thesis using 4 lt
      by (auto simp: utf8_def eqs Let_def dcc_json_utf8_scan_one_def code_char_of utf8_cont_iff)
  qed
qed

text \<open>Every accepted sequence is the encoding of the scalar value its bits spell.\<close>

lemma utf8_two:
  assumes "0xc2 \<le> code a" "code a \<le> 0xdf" "128 \<le> code b" "code b \<le> 191"
  shows "\<exists>cp. scalar cp \<and> 0x80 \<le> cp \<and> [a, b] = utf8 cp"
proof -
  define x y where "x = code a - 192" and "y = code b - 128"
  define cp where "cp = x * 64 + y"
  have xy: "code a = 192 + x" "code b = 128 + y" "2 \<le> x" "x < 32" "y < 64"
    using assms by (auto simp: x_def y_def)
  then have "cp div 64 = x" "cp mod 64 = y" "0x80 \<le> cp" "cp < 0x800"
    using base64 [of y x] by (auto simp: cp_def)
  with xy show ?thesis
    by (intro exI [of _ cp]) (simp add: utf8_def scalar_def eq_char_of)
qed

lemma utf8_three:
  assumes "0xe0 \<le> code a" "code a \<le> 0xef" "128 \<le> code b" "code b \<le> 191" "128 \<le> code c" "code c \<le> 191"
    and "code a = 0xe0 \<Longrightarrow> 0xa0 \<le> code b" "code a = 0xed \<Longrightarrow> code b \<le> 0x9f"
  shows "\<exists>cp. scalar cp \<and> 0x80 \<le> cp \<and> [a, b, c] = utf8 cp"
proof -
  define x y z where "x = code a - 224" and "y = code b - 128" and "z = code c - 128"
  define cp where "cp = (x * 64 + y) * 64 + z"
  have eqs: "code a = 224 + x" "code b = 128 + y" "code c = 128 + z" and lt: "x < 16" "y < 64" "z < 64"
    using assms by (auto simp: x_def y_def z_def)
  have edge: "x = 0 \<Longrightarrow> 32 \<le> y" "x = 13 \<Longrightarrow> y < 32"
    using assms(7,8) eqs by auto
  have parts: "cp div 4096 = x" "cp div 64 mod 64 = y" "cp mod 64 = z"
    by (simp_all only: cp_def div_4096 base64 [OF lt(2)] base64 [OF lt(3)])
  have size: "0x800 \<le> cp"
    using edge(1) lt by (cases "x = 0") (simp_all add: cp_def)
  have "cp < 0x10000"
    using lt by (simp add: cp_def)
  have "scalar cp"
    using edge(2) lt unfolding scalar_def cp_def by (cases "x = 13") (simp_all, linarith)
  with size \<open>cp < 0x10000\<close> eqs lt show ?thesis
    by (intro exI [of _ cp]) (simp add: utf8_def parts eq_char_of)
qed

lemma utf8_four:
  assumes "0xf0 \<le> code a" "code a \<le> 0xf4" "128 \<le> code b" "code b \<le> 191" "128 \<le> code c" "code c \<le> 191"
    and "128 \<le> code d" "code d \<le> 191"
    and "code a = 0xf0 \<Longrightarrow> 0x90 \<le> code b" "code a = 0xf4 \<Longrightarrow> code b \<le> 0x8f"
  shows "\<exists>cp. scalar cp \<and> 0x80 \<le> cp \<and> [a, b, c, d] = utf8 cp"
proof -
  define x y z w where "x = code a - 240" and "y = code b - 128" and "z = code c - 128" and "w = code d - 128"
  define cp where "cp = ((x * 64 + y) * 64 + z) * 64 + w"
  have eqs: "code a = 240 + x" "code b = 128 + y" "code c = 128 + z" "code d = 128 + w"
    and lt: "x \<le> 4" "y < 64" "z < 64" "w < 64"
    using assms by (auto simp: x_def y_def z_def w_def)
  have edge: "x = 0 \<Longrightarrow> 16 \<le> y" "x = 4 \<Longrightarrow> y < 16"
    using assms(9,10) eqs by auto
  have parts: "cp div 262144 = x" "cp div 4096 mod 64 = y" "cp div 64 mod 64 = z" "cp mod 64 = w"
    by (simp_all only: cp_def div_4096 div_262144 base64 [OF lt(2)] base64 [OF lt(3)] base64 [OF lt(4)])
  have "0x10000 \<le> cp"
    using edge(1) lt by (cases "x = 0") (simp_all add: cp_def)
  moreover have "cp \<le> 0x10ffff"
    using edge(2) lt by (cases "x = 4") (simp_all add: cp_def)
  ultimately show ?thesis
    using eqs lt by (intro exI [of _ cp]) (simp add: utf8_def scalar_def parts eq_char_of)
qed

lemma utf8_scan_cases:
  assumes "dcc_json_utf8_scan_one s = Some r"
  shows "\<exists>cp. scalar cp \<and> 0x20 \<le> cp \<and> s = utf8 cp @ r"
proof -
  obtain c p where s: "s = c # p"
    using assms by (cases s) (auto simp: dcc_json_utf8_scan_one_def)
  consider "code c \<le> 0x7f" | "0xc2 \<le> code c" "code c \<le> 0xdf" | "0xe0 \<le> code c" "code c \<le> 0xef"
    | "0xf0 \<le> code c" "code c \<le> 0xf4" | "0x7f < code c" "code c < 0xc2 \<or> 0xf4 < code c"
    by linarith
  then show ?thesis
  proof cases
    case 1
    then show ?thesis
      using assms by (intro exI [of _ "code c"]) (auto simp: s dcc_json_utf8_scan_one_def utf8_def scalar_def
          split: if_splits)
  next
    case 2
    with assms obtain b where b: "p = b # r" "utf8_cont b"
      by (cases p) (auto simp: s dcc_json_utf8_scan_one_def Let_def split: if_splits)
    with utf8_two [of c b] 2 show ?thesis
      by (fastforce simp: s utf8_cont_iff)
  next
    case 3
    with assms obtain b d where b: "p = b # d # r" "128 \<le> code b" "code b \<le> 191" "utf8_cont d"
      "code c = 0xe0 \<Longrightarrow> 0xa0 \<le> code b" "code c = 0xed \<Longrightarrow> code b \<le> 0x9f"
      by (cases p; cases "tl p") (auto simp: s dcc_json_utf8_scan_one_def Let_def utf8_cont_iff split: if_splits)
    with utf8_three [of c b d] 3 show ?thesis
      by (fastforce simp: s utf8_cont_iff)
  next
    case 4
    with assms obtain b d e where b: "p = b # d # e # r" "128 \<le> code b" "code b \<le> 191" "utf8_cont d" "utf8_cont e"
      "code c = 0xf0 \<Longrightarrow> 0x90 \<le> code b" "code c = 0xf4 \<Longrightarrow> code b \<le> 0x8f"
      by (cases p; cases "tl p"; cases "tl (tl p)")
        (auto simp: s dcc_json_utf8_scan_one_def Let_def utf8_cont_iff split: if_splits)
    with utf8_four [of c b d e] 4 show ?thesis
      by (fastforce simp: s utf8_cont_iff)
  next
    case 5
    then show ?thesis
      using assms by (auto simp: s dcc_json_utf8_scan_one_def Let_def split: if_splits)
  qed
qed

lemma utf8_scan_iff:
  "dcc_json_utf8_scan_one s = Some r \<longleftrightarrow> (\<exists>cp. scalar cp \<and> 0x20 \<le> cp \<and> s = utf8 cp @ r)"
  using utf8_scan_cases utf8_scan_encoded by blast

section \<open>Escapes\<close>

text \<open>The tables of the code are those of the grammar.\<close>

lemma hex_digit_code: "hex_digit c d \<longleftrightarrow> dcc_json_hex_value c = Some d"
proof
  assume "hex_digit c d"
  then show "dcc_json_hex_value c = Some d"
    by (auto simp: hex_digit_def dcc_json_hex_value_def upt_rec)
next
  assume h: "dcc_json_hex_value c = Some d"
  have c: "c = char_of (code c)" by simp
  from h have "code c \<in> {48..57} \<union> {97..102} \<union> {65..70}"
    by (auto simp: dcc_json_hex_value_def split: if_splits)
  then have "code c \<in> set ([48..<58] @ [97..<103] @ [65..<71])"
    unfolding set_append set_upt Un_iff atLeastAtMost_iff atLeastLessThan_iff by linarith
  then have "c \<in> set (map char_of ([48..<58] @ [97..<103] @ [65..<71]))"
    using c by (metis image_eqI set_map)
  moreover have "map char_of ([48..<58] @ [97..<103] @ [65..<71]) = ''0123456789abcdefABCDEF''" by code_simp
  ultimately have "c \<in> set ''0123456789abcdefABCDEF''" by metis
  moreover have "list_all (\<lambda>c. hex_digit c (the (dcc_json_hex_value c))) ''0123456789abcdefABCDEF''" by code_simp
  ultimately have "hex_digit c (the (dcc_json_hex_value c))" unfolding list_all_iff by blast
  then show "hex_digit c d" unfolding h by simp
qed

lemma hex4_code:
  "hex4 h cp \<longleftrightarrow>
     length h = 4 \<and> list_all (\<lambda>c. dcc_json_hex_value c \<noteq> None) h
     \<and> cp = foldl (\<lambda>v c. v * 16 + the (dcc_json_hex_value c)) 0 h"
proof -
  have eq: "list_all2 hex_digit h ds \<longleftrightarrow> list_all (\<lambda>c. dcc_json_hex_value c \<noteq> None) h \<and> ds = map (\<lambda>c. the (dcc_json_hex_value c)) h" for ds
    by (induction h arbitrary: ds) (auto simp: hex_digit_code list_all2_Cons1)
  have "foldl (\<lambda>v d. v * 16 + d) 0 (map f xs) = foldl (\<lambda>v c. v * 16 + f c) 0 xs" for f :: "char \<Rightarrow> nat" and xs
    by (simp add: foldl_map)
  then show ?thesis unfolding hex4_def eq by (metis length_map)
qed

lemma json_escapes_code: "(esc, cp) \<in> set json_escapes \<longleftrightarrow> esc \<in> set simple_escapes \<and> cp = code (escape_byte esc)"
proof -
  have eq: "json_escapes = map (\<lambda>esc. (esc, code (escape_byte esc))) simple_escapes"
    by (simp add: json_escapes_def simple_escapes_def escape_byte_def)
  show ?thesis unfolding eq by auto
qed

lemma hex_value_less: "dcc_json_hex_value c = Some h \<Longrightarrow> h < 16"
  by (auto simp: dcc_json_hex_value_def split: if_splits)

lemma hex_loop_eq:
  "length p \<ge> n \<Longrightarrow> hex_loop n v p =
     (if list_all (\<lambda>c. dcc_json_hex_value c \<noteq> None) (take n p)
      then Some (foldl (\<lambda>v c. v * 16 + the (dcc_json_hex_value c)) v (take n p)) else None)"
proof (induction n v p rule: hex_loop.induct)
  case (3 n v c p)
  then show ?case
    using push_or_add [of _ 4 v] hex_value_less [of c] by (cases "dcc_json_hex_value c") auto
qed auto

lemma hex4_at_iff:
  "4 \<le> length p \<Longrightarrow> dcc_json_parse_hex4_at p = Some cp \<longleftrightarrow> hex4 (take 4 p) cp"
  by (auto simp: dcc_json_parse_hex4_at_def hex_loop_eq hex4_code)

lemma hex4_read: "hex4 h cp \<Longrightarrow> dcc_json_parse_hex4_at (h @ p) = Some cp"
  by (subst hex4_at_iff) (auto simp: hex4_code)

lemma decode_unicode_iff:
  "decode_unicode p = Some (cp, r) \<longleftrightarrow>
     (\<exists>h. p = h @ r \<and> hex4 h cp \<and> \<not> (0xd800 \<le> cp \<and> cp \<le> 0xdfff))
     \<or> (\<exists>h l hi lo. p = h @ CHR 0x5C # CHR ''u'' # l @ r \<and> hex4 h hi \<and> 0xd800 \<le> hi \<and> hi \<le> 0xdbff
          \<and> hex4 l lo \<and> 0xdc00 \<le> lo \<and> lo \<le> 0xdfff
          \<and> cp = 0x10000 + (hi - 0xd800) * 1024 + (lo - 0xdc00))" (is "?L \<longleftrightarrow> ?R")
proof
  assume L: ?L
  define q where "q = drop 4 p"
  from L have len: "4 \<le> length p" and p: "p = take 4 p @ q"
    by (auto simp: decode_unicode_def q_def split: if_splits)
  from L len obtain hi where hi: "hex4 (take 4 p) hi" "dcc_json_parse_hex4_at p = Some hi"
    using hex4_at_iff by (auto simp: decode_unicode_def split: option.splits)
  show ?R
  proof (cases "0xd800 \<le> hi \<and> hi \<le> 0xdbff")
    case False
    with L len hi have "cp = hi" "r = q" "\<not> (0xd800 \<le> hi \<and> hi \<le> 0xdfff)"
      by (auto simp: decode_unicode_def q_def split: if_splits)
    then show ?thesis
      using p hi(1) by blast
  next
    case True
    with L len hi obtain lo where q: "6 \<le> length q" "q ! 0 = CHR 0x5C" "q ! 1 = CHR ''u''"
      and lo: "dcc_json_parse_hex4_at (drop 2 q) = Some lo" "0xdc00 \<le> lo" "lo \<le> 0xdfff"
      and res: "cp = 0x10000 + (push_bit 10 (hi - 0xd800) OR (lo - 0xdc00))" "r = drop 6 q"
      by (auto simp: decode_unicode_def Let_def q_def not_less split: if_splits option.splits)
    obtain q' where q': "q = CHR 0x5C # CHR ''u'' # q'"
      using q by (cases q; cases "tl q") auto
    then have "hex4 (take 4 q') lo" "q' = take 4 q' @ r"
      using lo(1) q(1) hex4_at_iff [of q' lo] res(2) by simp_all
    with q' have "hex4 (take 4 q') lo" "q = CHR 0x5C # CHR ''u'' # take 4 q' @ r"
      by simp_all
    moreover have "cp = 0x10000 + (hi - 0xd800) * 1024 + (lo - 0xdc00)"
      using res(1) lo(2,3) push_or_add [of "lo - 0xdc00" 10 "hi - 0xd800"] by simp
    ultimately show ?thesis
      using p hi(1) True lo(2,3) by metis
  qed
next
  assume ?R
  then show ?L
  proof (elim disjE exE conjE)
    fix h
    assume h: "p = h @ r" "hex4 h cp" "\<not> (0xd800 \<le> cp \<and> cp \<le> 0xdfff)"
    then show ?L
      using hex4_read [OF h(2), of r] by (auto simp: decode_unicode_def hex4_code)
  next
    fix h l hi lo
    assume h: "p = h @ CHR 0x5C # CHR ''u'' # l @ r" "hex4 h hi" "0xd800 \<le> hi" "hi \<le> 0xdbff"
      and l: "hex4 l lo" "0xdc00 \<le> lo" "lo \<le> 0xdfff"
      and cp: "cp = 0x10000 + (hi - 0xd800) * 1024 + (lo - 0xdc00)"
    have "length h = 4" "length l = 4"
      using h(2) l(1) by (simp_all add: hex4_code)
    then show ?L
      using hex4_read [OF h(2)] hex4_read [OF l(1), of r] h l(2,3)
        push_or_add [of "lo - 0xdc00" 10 "hi - 0xd800"]
      by (simp add: decode_unicode_def Let_def cp)
  qed
qed

section \<open>The grammar of the characters\<close>

lemma utf8_plain_byte:
  assumes "scalar cp" "0x20 \<le> cp" "cp \<noteq> 0x22" "cp \<noteq> 0x5c" "b \<in> set (utf8 cp)"
  shows "0x20 \<le> code b" "code b \<noteq> 0x22" "code b \<noteq> 0x5c"
proof -
  have "b = char_of cp \<and> cp < 0x80 \<or> 128 \<le> code b"
    using utf8_bytes [OF assms(1)] assms(5) by (cases "cp < 0x80") (auto simp: utf8_def list_all_iff)
  then show "0x20 \<le> code b" "code b \<noteq> 0x22" "code b \<noteq> 0x5c"
    using assms(2-4) by (auto simp: code_char_of)
qed

lemma char_code: "c = CHR 0x22 \<longleftrightarrow> code c = 0x22" "c = CHR 0x5C \<longleftrightarrow> code c = 0x5c"
  using of_char_eq_iff [of c "CHR 0x22", where 'a = nat] of_char_eq_iff [of c "CHR 0x5C", where 'a = nat] by simp_all

lemma utf8_head:
  assumes "scalar cp" "0x20 \<le> cp" "cp \<noteq> 0x22" "cp \<noteq> 0x5c"
  shows "\<exists>c p. utf8 cp = c # p \<and> c \<noteq> CHR 0x22 \<and> c \<noteq> CHR 0x5C \<and> 0x20 \<le> code c
    \<and> (code c < 0x80 \<longrightarrow> p = [])"
proof -
  obtain c p where "utf8 cp = c # p"
    using utf8_length(1) [of cp] by (cases "utf8 cp") auto
  moreover have "p = []" if "code c < 0x80"
    using that utf8_bytes [OF assms(1)] \<open>utf8 cp = c # p\<close> by (cases "cp < 0x80") (auto simp: utf8_def)
  ultimately show ?thesis
    using utf8_plain_byte [OF assms, of c] by (simp add: char_code)
qed

lemma u_not_simple: "CHR ''u'' \<notin> set simple_escapes"
  by (simp add: simple_escapes_def)

lemma string_end_found:
  assumes "raw_chars t"
  shows "string_end_loop (t @ CHR 0x22 # r) raw escaped
     = Some (raw @ t, CHR 0x22 # r, escaped \<or> CHR 0x5C \<in> set t)"
  using assms
proof (induction t arbitrary: raw escaped rule: raw_chars.induct)
  case (Plain cp t)
  obtain c p where c: "utf8 cp = c # p" "c \<noteq> CHR 0x22" "c \<noteq> CHR 0x5C" "0x20 \<le> code c" "code c < 0x80 \<Longrightarrow> p = []"
    using utf8_head [OF Plain.hyps(1-4)] by blast
  have scan: "dcc_json_utf8_scan_one (c # p @ t @ CHR 0x22 # r) = Some (t @ CHR 0x22 # r)"
    using utf8_scan_encoded [OF Plain.hyps(1,2), of "t @ CHR 0x22 # r"] c(1) by simp
  have "CHR 0x5C \<notin> set (utf8 cp)"
    using utf8_plain_byte(3) [OF Plain.hyps(1-4), of "CHR 0x5C"] by auto
  then show ?case
    using c scan Plain.IH by (cases "code c < 0x80") (auto simp: not_less)
next
  case (Escape esc t)
  then show ?case by simp
next
  case (Unicode h cp t)
  then have "length h = 4" "dcc_json_parse_hex4_at (h @ t @ CHR 0x22 # r) = Some cp"
    using hex4_read by (auto simp: hex4_code)
  then show ?case
    using Unicode.IH u_not_simple by simp
qed simp

lemma string_end_sound:
  assumes "string_end_loop p raw escaped = Some (raw', r, escaped')"
  shows "\<exists>t r'. p = t @ CHR 0x22 # r' \<and> r = CHR 0x22 # r' \<and> raw_chars t"
  using assms
proof (induction p raw escaped rule: string_end_loop.induct)
  case (2 c p raw escaped)
  consider "c = CHR 0x22" | esc p' where "c = CHR 0x5C" "p = esc # p'" "esc \<in> set simple_escapes"
    | p' cp where "c = CHR 0x5C" "p = CHR ''u'' # p'" "4 \<le> length p'" "dcc_json_parse_hex4_at p' = Some cp"
    | q where "c \<noteq> CHR 0x22" "c \<noteq> CHR 0x5C" "0x80 \<le> code c" "dcc_json_utf8_scan_one (c # p) = Some q"
    | "c \<noteq> CHR 0x22" "c \<noteq> CHR 0x5C" "0x20 \<le> code c" "code c < 0x80"
    using "2.prems" by (auto simp: not_less not_le split: if_splits list.splits option.splits)
  then show ?case
  proof cases
    case 1
    then show ?thesis
      using "2.prems" by (auto intro: exI [of _ "[]"] raw_chars.Empty)
  next
    case (2 esc p')
    then obtain t r' where "p' = t @ CHR 0x22 # r'" "r = CHR 0x22 # r'" "raw_chars t"
      using "2.IH"(1) "2.prems" by auto
    then show ?thesis
      using 2 raw_chars.Escape [of esc t] by - (rule exI [of _ "CHR 0x5C # esc # t"], simp)
  next
    case (3 p' cp)
    then obtain t r' where "drop 4 p' = t @ CHR 0x22 # r'" "r = CHR 0x22 # r'" "raw_chars t"
      using "2.IH"(2) "2.prems" u_not_simple by auto
    moreover have "hex4 (take 4 p') cp"
      using 3 hex4_at_iff by blast
    ultimately show ?thesis
      using 3 raw_chars.Unicode [of "take 4 p'" cp t] append_take_drop_id [of 4 p']
      by - (rule exI [of _ "CHR 0x5C # CHR ''u'' # take 4 p' @ t"], simp)
  next
    case (4 q)
    then obtain t r' where t: "q = t @ CHR 0x22 # r'" "r = CHR 0x22 # r'" "raw_chars t"
      using "2.IH"(3) "2.prems" by auto
    obtain cp where cp: "scalar cp" "0x20 \<le> cp" "c # p = utf8 cp @ q"
      using 4(4) utf8_scan_iff by blast
    then have "0x80 \<le> cp"
      using 4(3) by (auto simp: utf8_def code_char_of split: if_splits)
    then show ?thesis
      using t cp raw_chars.Plain [of cp t] by - (rule exI [of _ "utf8 cp @ t"], simp)
  next
    case 5
    then obtain t r' where t: "p = t @ CHR 0x22 # r'" "r = CHR 0x22 # r'" "raw_chars t"
      using "2.IH"(4) "2.prems" by auto
    then show ?thesis
      using 5 raw_chars.Plain [of "code c" t] by - (rule exI [of _ "c # t"], auto simp: utf8_def scalar_def char_code)
  qed
qed simp

lemma find_string_end_iff:
  "dcc_json_find_string_end p = Some (raw, r, escaped) \<longleftrightarrow>
     (\<exists>r'. p = CHR 0x22 # raw @ CHR 0x22 # r' \<and> r = CHR 0x22 # r' \<and> raw_chars raw
        \<and> escaped = (CHR 0x5C \<in> set raw))" (is "?L \<longleftrightarrow> ?R")
proof
  assume L: ?L
  then obtain p' where p: "p = CHR 0x22 # p'" and loop: "string_end_loop p' [] False = Some (raw, r, escaped)"
    by (auto simp: dcc_json_find_string_end_def split: list.splits if_splits)
  from string_end_sound [OF loop] obtain t r' where t: "p' = t @ CHR 0x22 # r'" "r = CHR 0x22 # r'" "raw_chars t"
    by blast
  with loop string_end_found [OF t(3), of r' "[]" False] p show ?R
    by auto
next
  assume ?R
  then show ?L
    using string_end_found [of raw _ "[]" False] by (auto simp: dcc_json_find_string_end_def)
qed

lemma decode_copy:
  "CHR 0x5C \<notin> set u \<Longrightarrow> length out + length u \<le> cap
     \<Longrightarrow> decode_loop cap (u @ t) out = decode_loop cap t (out @ u)"
  by (induction u arbitrary: out) auto

lemma decode_copyD:
  "CHR 0x5C \<notin> set u \<Longrightarrow> decode_loop cap (u @ t) out = Some res
     \<Longrightarrow> decode_loop cap t (out @ u) = Some res"
proof (induction u arbitrary: out)
  case (Cons a u)
  then show ?case
    using Cons.IH [of "out @ [a]"] by (auto split: if_splits)
qed simp

lemma utf8_plain_no_backslash:
  "scalar cp \<Longrightarrow> 0x20 \<le> cp \<Longrightarrow> cp \<noteq> 0x22 \<Longrightarrow> cp \<noteq> 0x5c \<Longrightarrow> CHR 0x5C \<notin> set (utf8 cp)"
  using utf8_plain_byte(3) [of cp "CHR 0x5C"] by auto

lemma utf8_escape_byte: "esc \<in> set simple_escapes \<Longrightarrow> utf8 (code (escape_byte esc)) = [escape_byte esc]"
proof -
  assume "esc \<in> set simple_escapes"
  moreover have "list_all (\<lambda>c. code (escape_byte c) < 0x80) simple_escapes"
    by (simp add: simple_escapes_def escape_byte_def)
  ultimately have "code (escape_byte esc) < 0x80"
    by (simp add: list_all_iff)
  then show ?thesis
    by (simp add: utf8_def char_of_char)
qed

lemma surrogates_scalar:
  assumes "0xd800 \<le> hi" "hi \<le> 0xdbff" "0xdc00 \<le> lo" "lo \<le> 0xdfff"
  shows "scalar (0x10000 + (hi - 0xd800) * 1024 + (lo - 0xdc00))"
  using assms by (simp add: scalar_def)

lemma decode_complete:
  assumes "json_chars cps t" "length out + length (utf8s cps) < cap"
  shows "decode_loop cap t out = Some (out @ utf8s cps)"
  using assms
proof (induction cps t arbitrary: out rule: json_chars.induct)
  case (Plain cp cps raw)
  then show ?case
    using decode_copy [of "utf8 cp" out cap raw] utf8_plain_no_backslash by simp
next
  case (Escape esc cp cps raw)
  then show ?case
    using utf8_escape_byte by (simp add: json_escapes_code)
next
  case (Unicode h cp cps raw)
  then have "decode_unicode (h @ raw) = Some (cp, raw)"
    unfolding decode_unicode_iff by (auto simp: scalar_def)
  then show ?case
    using Unicode utf8_append_eq u_not_simple by simp
next
  case (Surrogates h hi l lo cps raw)
  then have "decode_unicode (h @ CHR 0x5C # CHR ''u'' # l @ raw)
      = Some (0x10000 + (hi - 0xd800) * 1024 + (lo - 0xdc00), raw)"
    unfolding decode_unicode_iff by blast
  then show ?case
    using Surrogates utf8_append_eq surrogates_scalar u_not_simple by simp
qed simp

lemma raw_chars_unicode_tail:
  assumes "raw_chars (CHR 0x5C # CHR ''u'' # l @ r)" "length l = 4"
  shows "raw_chars r"
  using assms(1)
proof cases
  case (Plain cp raw)
  with utf8_head [of cp] show ?thesis by (auto simp: Cons_eq_append_conv)
next
  case Escape
  then show ?thesis using u_not_simple by simp
next
  case (Unicode h cp raw)
  then show ?thesis using assms(2) by (simp add: hex4_code)
qed

lemma decode_sound:
  assumes "raw_chars t" "decode_loop cap t out = Some res"
  shows "\<exists>cps. json_chars cps t \<and> res = out @ utf8s cps \<and> length res < cap"
  using assms
proof (induction "length t" arbitrary: t out rule: less_induct)
  case less
  from less.prems(1) show ?case
  proof cases
    case Empty
    then show ?thesis
      using less.prems(2) json_chars.Empty by (intro exI [of _ "[]"]) (auto split: if_splits)
  next
    case (Plain cp raw)
    have "decode_loop cap raw (out @ utf8 cp) = Some res"
      using less.prems(2) Plain decode_copyD utf8_plain_no_backslash by blast
    then obtain cps where "json_chars cps raw" "res = (out @ utf8 cp) @ utf8s cps" "length res < cap"
      using less.hyps [of raw "out @ utf8 cp"] Plain utf8_length(1) [of cp] by fastforce
    then show ?thesis
      using Plain json_chars.Plain [of cp cps raw] by (intro exI [of _ "cp # cps"]) simp
  next
    case (Escape esc raw)
    then have "decode_loop cap raw (out @ [escape_byte esc]) = Some res"
      using less.prems(2) by (auto split: if_splits)
    then obtain cps where "json_chars cps raw" "res = (out @ [escape_byte esc]) @ utf8s cps" "length res < cap"
      using less.hyps [of raw "out @ [escape_byte esc]"] Escape by auto
    then show ?thesis
      using Escape json_chars.Escape [of esc "code (escape_byte esc)" cps raw] utf8_escape_byte json_escapes_code
      by (intro exI [of _ "code (escape_byte esc) # cps"]) simp
  next
    case (Unicode h hi raw)
    then obtain cp r tmp where cp: "decode_unicode (h @ raw) = Some (cp, r)"
      "dcc_json_utf8_append (cap - length out) cp = Some tmp" "decode_loop cap r (out @ tmp) = Some res"
      using less.prems(2) u_not_simple by (auto split: option.splits)
    then have "scalar cp"
      using utf8_append_scalar by blast
    then have tmp: "tmp = utf8 cp"
      using cp(2) utf8_append_eq by (simp split: if_splits)
    have len: "length h = 4"
      using Unicode(2) by (simp add: hex4_code)
    have IH: "\<exists>cps. json_chars cps r \<and> res = (out @ utf8 cp) @ utf8s cps \<and> length res < cap"
      if "raw_chars r" "length r \<le> length raw"
      using that less.hyps [of r "out @ tmp"] cp(3) tmp Unicode(1) by auto
    from cp(1) [unfolded decode_unicode_iff] show ?thesis
    proof (elim disjE exE conjE)
      fix h'
      assume h': "h @ raw = h' @ r" "hex4 h' cp"
      then have "h' = h" "r = raw"
        using len by (auto simp: hex4_code)
      with IH Unicode(3) obtain cps where "json_chars cps raw" "res = out @ utf8 cp @ utf8s cps" "length res < cap"
        by auto
      then show ?thesis
        using Unicode(1) h' \<open>h' = h\<close> json_chars.Unicode [of h cp cps raw] \<open>scalar cp\<close>
        by (intro exI [of _ "cp # cps"]) simp
    next
      fix h' l hi' lo
      assume h': "h @ raw = h' @ CHR 0x5C # CHR ''u'' # l @ r" "hex4 h' hi'" "0xd800 \<le> hi'" "hi' \<le> 0xdbff"
        and l: "hex4 l lo" "0xdc00 \<le> lo" "lo \<le> 0xdfff"
        and eq: "cp = 0x10000 + (hi' - 0xd800) * 1024 + (lo - 0xdc00)"
      then have "h' = h" and raw: "raw = CHR 0x5C # CHR ''u'' # l @ r"
        using len by (auto simp: hex4_code)
      have "raw_chars r"
        using Unicode(3) l(1) raw raw_chars_unicode_tail by (auto simp: hex4_code)
      with IH raw obtain cps where "json_chars cps r" "res = out @ utf8 cp @ utf8s cps" "length res < cap"
        by auto
      then show ?thesis
        using Unicode(1) h' l raw \<open>h' = h\<close> json_chars.Surrogates [of h hi' l lo cps r] eq
        by (intro exI [of _ "cp # cps"]) simp
    qed
  qed
qed

lemma json_chars_raw: "json_chars cps t \<Longrightarrow> raw_chars t"
proof (induction rule: json_chars.induct)
  case (Surrogates h hi l lo cps raw)
  then show ?case
    using raw_chars.Unicode [of h hi "CHR 0x5C # CHR ''u'' # l @ raw"] raw_chars.Unicode [of l lo raw] by simp
qed (auto simp: json_escapes_code intro: raw_chars.intros)

lemma raw_chars_plain:
  assumes "raw_chars t" "CHR 0x5C \<notin> set t"
  shows "\<exists>cps. json_chars cps t \<and> t = utf8s cps"
  using assms
proof (induction rule: raw_chars.induct)
  case Empty
  then show ?case using json_chars.Empty by (intro exI [of _ "[]"]) simp
next
  case (Plain cp raw)
  then obtain cps where "json_chars cps raw" "raw = utf8s cps" by auto
  then show ?case
    using Plain json_chars.Plain [of cp cps raw] by (intro exI [of _ "cp # cps"]) simp
qed simp_all

lemma json_chars_shrink: "json_chars cps t \<Longrightarrow> length (utf8s cps) \<le> length t"
proof (induction rule: json_chars.induct)
  case (Escape esc cp cps raw)
  then show ?case using utf8_escape_byte by (simp add: json_escapes_code)
next
  case (Unicode h cp cps raw)
  then show ?case using utf8_length(2) [of cp] by (simp add: hex4_code)
next
  case (Surrogates h hi l lo cps raw)
  then show ?case
    using utf8_length(2) [of "0x10000 + (hi - 0xd800) * 1024 + (lo - 0xdc00)"] by (simp add: hex4_code)
qed auto

lemma json_chars_plain_eq: "json_chars cps t \<Longrightarrow> CHR 0x5C \<notin> set t \<Longrightarrow> t = utf8s cps"
  by (induction rule: json_chars.induct) auto

lemma string_content_iff:
  assumes "raw_chars raw"
  shows "string_content cap raw (CHR 0x5C \<in> set raw) = Some s
    \<longleftrightarrow> (\<exists>cps. json_chars cps raw \<and> s = utf8s cps \<and> length s < cap)"
proof (cases "CHR 0x5C \<in> set raw")
  case True
  then show ?thesis
    using decode_sound [OF assms, of cap "[]" s] decode_complete [of _ raw "[]" cap]
    by (auto simp: string_content_def dcc_json_decode_string_span_def)
next
  case False
  then show ?thesis
    using raw_chars_plain [OF assms] json_chars_plain_eq [of _ raw] by (auto simp: string_content_def)
qed

lemma string_buffer_iff:
  "dcc_json_parse_string_buffer p cap = Some (s, r) \<longleftrightarrow>
     (\<exists>cps raw. p = CHR 0x22 # raw @ CHR 0x22 # r \<and> json_chars cps raw \<and> s = utf8s cps \<and> length s < cap)"
    (is "?L \<longleftrightarrow> ?R")
proof -
  have "?L \<longleftrightarrow> (\<exists>raw. p = CHR 0x22 # raw @ CHR 0x22 # r \<and> raw_chars raw
      \<and> string_content cap raw (CHR 0x5C \<in> set raw) = Some s)"
  proof
    assume ?L
    then obtain raw r' e where f: "dcc_json_find_string_end p = Some (raw, r', e)" "r = tl r'"
      "string_content cap raw e = Some s"
      by (auto simp: dcc_json_parse_string_buffer_def string_content_def split: if_splits option.splits)
    then show "\<exists>raw. p = CHR 0x22 # raw @ CHR 0x22 # r \<and> raw_chars raw
        \<and> string_content cap raw (CHR 0x5C \<in> set raw) = Some s"
      unfolding find_string_end_iff by auto
  next
    assume "\<exists>raw. p = CHR 0x22 # raw @ CHR 0x22 # r \<and> raw_chars raw
        \<and> string_content cap raw (CHR 0x5C \<in> set raw) = Some s"
    then obtain raw where raw: "dcc_json_find_string_end p = Some (raw, CHR 0x22 # r, CHR 0x5C \<in> set raw)"
      "string_content cap raw (CHR 0x5C \<in> set raw) = Some s" "raw_chars raw"
      using find_string_end_iff by blast
    then have "0 < cap"
      using string_content_iff [OF raw(3)] by auto
    with raw show ?L
      by (auto simp: dcc_json_parse_string_buffer_def string_content_def split: if_splits)
  qed
  also have "\<dots> \<longleftrightarrow> ?R"
    by (metis string_content_iff json_chars_raw)
  finally show ?thesis .
qed

end
