(* ===== verification/DCC_Json_Tokens.thy ===== *)
theory DCC_Json_Tokens
  imports DCC_Json_String
begin

text \<open>
  The tokens of JSON below values: white space and literals (\<^verbatim>\<open>src/json/dcc_json_parse_core.c\<close>), numbers
  (\<^verbatim>\<open>dcc_json_parse_number_span.c\<close>, \<^verbatim>\<open>dcc_json_parse_number_ascii.c\<close>, \<^verbatim>\<open>dcc_json_parse_number_direct.c\<close>), the
  readers of integers and nullable strings that the payload parsers use (\<^verbatim>\<open>dcc_json_parse_tokens.c\<close>,
  \<^verbatim>\<open>dcc_json_parse_nullable_strings.c\<close>). A reader maps the text from the cursor on to an error or to
  what it read and the text it left; after an error the callers read no further. An out parameter is the
  value of the result, a nullable one an \<open>option\<close>.
\<close>

section \<open>White space and literals\<close>

definition json_ws :: "char \<Rightarrow> bool" where
  "json_ws c \<longleftrightarrow> c = CHR '' '' \<or> c = CHR 0x09 \<or> c = CHR 0x0A \<or> c = CHR 0x0D"

definition dcc_json_skip_ws :: "string \<Rightarrow> string" where
  "dcc_json_skip_ws p = dropWhile json_ws p"

definition dcc_json_array_first_value_is_object :: "string \<Rightarrow> bool" where
  "dcc_json_array_first_value_is_object p =
     (case dcc_json_skip_ws p of
        [] \<Rightarrow> False
      | c # q \<Rightarrow> if c \<noteq> CHR ''['' then False
                 else (case dcc_json_skip_ws q of [] \<Rightarrow> False | d # _ \<Rightarrow> d = CHR ''{''))"

definition dcc_json_match_literal :: "string \<Rightarrow> string \<Rightarrow> string option" where
  "dcc_json_match_literal p literal =
     (if length p < length literal \<or> take (length literal) p \<noteq> literal then None
      else Some (drop (length literal) p))"

section \<open>Numbers\<close>

definition dcc_json_is_number_char :: "char \<Rightarrow> bool" where
  "dcc_json_is_number_char c \<longleftrightarrow>
     is_digit c \<or> c = CHR ''-'' \<or> c = CHR ''+'' \<or> c = CHR ''.'' \<or> c = CHR ''e'' \<or> c = CHR ''E''"

text \<open>\<open>parser->cur < parser->end && *parser->cur ...\<close>\<close>

definition next_is :: "(char \<Rightarrow> bool) \<Rightarrow> string \<Rightarrow> bool" where
  "next_is P q \<longleftrightarrow> q \<noteq> [] \<and> P (hd q)"

text \<open>The parts of \<open>dcc_json_parse_number_span\<close> behind the integer digits: \<open>start\<close> is where the number
  began, \<open>cur\<close> the cursor; the result is the text of the number, whether it is an integer, and the rest.\<close>

definition number_end :: "string \<Rightarrow> string \<Rightarrow> bool \<Rightarrow> dcc_status + string \<times> bool \<times> string" where
  "number_end start cur integer =
     (if next_is dcc_json_is_number_char cur then Inl DCC_ERR_JSON
      else Inr (take (length start - length cur) start, integer, cur))"

definition number_exponent :: "string \<Rightarrow> string \<Rightarrow> bool \<Rightarrow> dcc_status + string \<times> bool \<times> string" where
  "number_exponent start cur integer =
     (if next_is (\<lambda>c. c = CHR ''e'' \<or> c = CHR ''E'') cur then
        let cur = tl cur;
            cur = (if next_is (\<lambda>c. c = CHR ''+'' \<or> c = CHR ''-'') cur then tl cur else cur) in
        if \<not> next_is is_digit cur then Inl DCC_ERR_JSON
        else number_end start (dropWhile is_digit cur) False
      else number_end start cur integer)"

definition number_fraction :: "string \<Rightarrow> string \<Rightarrow> dcc_status + string \<times> bool \<times> string" where
  "number_fraction start cur =
     (if next_is (\<lambda>c. c = CHR ''.'') cur then
        let cur = tl cur in
        if \<not> next_is is_digit cur then Inl DCC_ERR_JSON
        else number_exponent start (dropWhile is_digit cur) False
      else number_exponent start cur True)"

definition dcc_json_parse_number_span :: "string \<Rightarrow> dcc_status + string \<times> bool \<times> string" where
  "dcc_json_parse_number_span start =
     (let cur = (if next_is (\<lambda>c. c = CHR ''-'') start then tl start else start) in
      if cur = [] then Inl DCC_ERR_JSON
      else if hd cur = CHR ''0'' then number_fraction start (tl cur)
      else if is_digit (hd cur) then number_fraction start (dropWhile is_digit cur)
      else Inl DCC_ERR_JSON)"

text \<open>The digit loop shared by the two readers below.\<close>

fun ascii_digits :: "u64 \<Rightarrow> u64 \<Rightarrow> string \<Rightarrow> u64 option" where
  "ascii_digits limit v [] = Some v"
| "ascii_digits limit v (c # s) =
     (if \<not> is_digit c then None
      else let digit = (of_nat (code c - 48) :: u64) in
        if v > (limit - digit) div 10 then None else ascii_digits limit (v * 10 + digit) s)"

definition LLONG_MAX :: u64 where
  "LLONG_MAX = 2 ^ 63 - 1"

definition dcc_json_parse_i64_ascii :: "string \<Rightarrow> int option" where
  "dcc_json_parse_i64_ascii data =
     (if data = [] then None
      else
        let neg = (hd data = CHR ''-''); digits = (if neg then tl data else data) in
        if digits = [] then None
        else
          let limit = (if neg then LLONG_MAX + 1 else LLONG_MAX) in
          case ascii_digits limit 0 digits of
            None \<Rightarrow> None
          | Some v \<Rightarrow> Some (if neg then (if v = limit then - (2 ^ 63) else - uint v) else uint v))"

definition dcc_json_parse_u64_ascii :: "string \<Rightarrow> u64 option" where
  "dcc_json_parse_u64_ascii data =
     (if data = [] \<or> hd data = CHR ''-'' then None else ascii_digits UINT64_MAX 0 data)"

section \<open>Readers of integers\<close>

definition dcc_json_parse_i64_direct :: "string \<Rightarrow> dcc_status + int \<times> string" where
  "dcc_json_parse_i64_direct p =
     (case dcc_json_parse_number_span p of
        Inl status \<Rightarrow> Inl status
      | Inr (t, integer, r) \<Rightarrow>
          if \<not> integer \<or> t = [] \<or> length t \<ge> 64 then Inl DCC_ERR_JSON
          else (case dcc_json_parse_i64_ascii t of None \<Rightarrow> Inl DCC_ERR_JSON | Some v \<Rightarrow> Inr (v, r)))"

definition dcc_json_parse_u64_direct :: "string \<Rightarrow> dcc_status + u64 \<times> string" where
  "dcc_json_parse_u64_direct p =
     (case dcc_json_parse_number_span p of
        Inl status \<Rightarrow> Inl status
      | Inr (t, integer, r) \<Rightarrow>
          if \<not> integer \<or> t = [] \<or> length t \<ge> 64 \<or> hd t = CHR ''-'' then Inl DCC_ERR_JSON
          else (case dcc_json_parse_u64_ascii t of None \<Rightarrow> Inl DCC_ERR_JSON | Some v \<Rightarrow> Inr (v, r)))"

definition dcc_json_parse_u32_direct :: "string \<Rightarrow> dcc_status + u32 \<times> string" where
  "dcc_json_parse_u32_direct p =
     (case dcc_json_parse_u64_direct p of
        Inl status \<Rightarrow> Inl status
      | Inr (v, r) \<Rightarrow> if v > 0xffffffff then Inl DCC_ERR_JSON else Inr (ucast v, r))"

definition dcc_json_parse_bool_direct :: "string \<Rightarrow> dcc_status + bool \<times> string" where
  "dcc_json_parse_bool_direct p =
     (case dcc_json_match_literal p ''true'' of
        Some r \<Rightarrow> Inr (True, r)
      | None \<Rightarrow> (case dcc_json_match_literal p ''false'' of Some r \<Rightarrow> Inr (False, r) | None \<Rightarrow> Inl DCC_ERR_JSON))"

text \<open>The number in a string, as \<open>dcc_json_parse_u64_token\<close> and \<open>dcc_json_parse_snowflake_map_key\<close> read it
  alike; the decoded text is a C string and ends at the first NUL.\<close>

definition c_string :: "string \<Rightarrow> string" where
  "c_string s = takeWhile (\<lambda>c. code c \<noteq> 0) s"

definition dcc_json_parse_snowflake_map_key :: "string \<Rightarrow> dcc_status + u64 \<times> string" where
  "dcc_json_parse_snowflake_map_key p =
     (case dcc_json_find_string_end p of
        None \<Rightarrow> Inl DCC_ERR_JSON
      | Some (raw, r, escaped) \<Rightarrow>
          (case (if escaped then map_option c_string (dcc_json_decode_string_span raw 32)
                 else if length raw \<ge> 32 then None else Some raw) of
             None \<Rightarrow> Inl DCC_ERR_JSON
           | Some digits \<Rightarrow>
               (case dcc_json_parse_u64_ascii digits of None \<Rightarrow> Inl DCC_ERR_JSON | Some v \<Rightarrow> Inr (v, tl r))))"

definition dcc_json_parse_u64_token :: "string \<Rightarrow> dcc_status + u64 \<times> string" where
  "dcc_json_parse_u64_token p =
     (let p = dcc_json_skip_ws p in
      if p = [] then Inl DCC_ERR_JSON
      else if hd p \<noteq> CHR 0x22 then dcc_json_parse_u64_direct p
      else dcc_json_parse_snowflake_map_key p)"

definition dcc_json_parse_u16_token :: "string \<Rightarrow> dcc_status + u16 \<times> string" where
  "dcc_json_parse_u16_token p =
     (case dcc_json_parse_u64_token p of
        Inl status \<Rightarrow> Inl status
      | Inr (v, r) \<Rightarrow> if v > 0xffff then Inl DCC_ERR_JSON else Inr (ucast v, r))"

definition dcc_json_parse_nullable_u64_token :: "string \<Rightarrow> dcc_status + u64 option \<times> string" where
  "dcc_json_parse_nullable_u64_token p =
     (let p = dcc_json_skip_ws p in
      if p = [] then Inl DCC_ERR_JSON
      else if hd p = CHR ''n'' then
        (case dcc_json_match_literal p ''null'' of None \<Rightarrow> Inl DCC_ERR_JSON | Some r \<Rightarrow> Inr (None, r))
      else (case dcc_json_parse_u64_token p of Inl status \<Rightarrow> Inl status | Inr (v, r) \<Rightarrow> Inr (Some v, r)))"

definition dcc_json_parse_nullable_u32_token :: "string \<Rightarrow> dcc_status + u32 option \<times> string" where
  "dcc_json_parse_nullable_u32_token p =
     (case dcc_json_parse_nullable_u64_token p of
        Inl status \<Rightarrow> Inl status
      | Inr (None, r) \<Rightarrow> Inr (None, r)
      | Inr (Some v, r) \<Rightarrow> if v > 0xffffffff then Inl DCC_ERR_JSON else Inr (Some (ucast v), r))"

definition dcc_json_parse_nullable_string_buffer :: "string \<Rightarrow> nat \<Rightarrow> dcc_status + string option \<times> string" where
  "dcc_json_parse_nullable_string_buffer p out_cap =
     (let p = dcc_json_skip_ws p in
      if p = [] \<or> out_cap = 0 then Inl DCC_ERR_JSON
      else if hd p = CHR ''n'' then
        (case dcc_json_match_literal p ''null'' of None \<Rightarrow> Inl DCC_ERR_JSON | Some r \<Rightarrow> Inr (None, r))
      else (case dcc_json_parse_string_buffer p out_cap of
              None \<Rightarrow> Inl DCC_ERR_JSON
            | Some (s, r) \<Rightarrow> Inr (Some s, r)))"

definition dcc_json_parse_nullable_string_or_number_buffer ::
  "string \<Rightarrow> nat \<Rightarrow> dcc_status + string option \<times> string" where
  "dcc_json_parse_nullable_string_or_number_buffer p out_cap =
     (let p = dcc_json_skip_ws p in
      if p = [] \<or> out_cap = 0 then Inl DCC_ERR_JSON
      else if hd p = CHR ''n'' \<or> hd p = CHR 0x22 then dcc_json_parse_nullable_string_buffer p out_cap
      else if hd p = CHR ''-'' \<or> is_digit (hd p) then
        (case dcc_json_parse_number_span p of
           Inl status \<Rightarrow> Inl status
         | Inr (t, integer, r) \<Rightarrow> if length t \<ge> out_cap then Inl DCC_ERR_JSON else Inr (Some t, r))
      else Inl DCC_ERR_JSON)"

section \<open>Reference: the grammar of numbers\<close>

definition json_digits :: "string \<Rightarrow> bool" where
  "json_digits d \<longleftrightarrow> d \<noteq> [] \<and> list_all is_digit d"

definition json_int :: "string \<Rightarrow> bool" where
  "json_int i \<longleftrightarrow> i = ''0'' \<or> json_digits i \<and> hd i \<noteq> CHR ''0''"

definition json_frac :: "string \<Rightarrow> bool" where
  "json_frac f \<longleftrightarrow> f = [] \<or> (\<exists>d. f = CHR ''.'' # d \<and> json_digits d)"

definition json_exp :: "string \<Rightarrow> bool" where
  "json_exp e \<longleftrightarrow> e = []
     \<or> (\<exists>c sgn d. e = c # sgn @ d \<and> c \<in> set ''eE'' \<and> sgn \<in> {[], ''+'', ''-''} \<and> json_digits d)"

definition json_number :: "string \<Rightarrow> bool \<Rightarrow> bool" where
  "json_number t integer \<longleftrightarrow>
     (\<exists>sgn i f e. t = sgn @ i @ f @ e \<and> sgn \<in> {[], ''-''} \<and> json_int i \<and> json_frac f \<and> json_exp e
        \<and> integer = (f = [] \<and> e = []))"

text \<open>The integer that a text with an optional sign denotes.\<close>

definition signed_value :: "string \<Rightarrow> int" where
  "signed_value s = (if hd s = CHR ''-'' then - int (dec_value (tl s)) else int (dec_value s))"

section \<open>Numbers are read by the grammar\<close>

abbreviation ends_number :: "string \<Rightarrow> bool" where
  "ends_number r \<equiv> \<not> next_is dcc_json_is_number_char r"

lemma next_is_simps [simp]: "next_is P [] = False" "next_is P (c # s) = P c"
  by (simp_all add: next_is_def)

lemma ends_number_digit: "ends_number r \<Longrightarrow> \<not> next_is is_digit r"
  by (auto simp: next_is_def dcc_json_is_number_char_def)

lemma number_end_iff:
  "start = u @ cur \<Longrightarrow> number_end start cur b = Inr (t, i, r) \<longleftrightarrow> t = u \<and> i = b \<and> r = cur \<and> ends_number r"
  by (auto simp: number_end_def)

text \<open>Digits up to the first other character.\<close>

lemma json_digits_split:
  assumes "\<not> next_is is_digit r"
  shows "json_digits d \<and> cur = d @ r \<longleftrightarrow> next_is is_digit cur \<and> d = takeWhile is_digit cur \<and> r = dropWhile is_digit cur"
proof
  assume L: "json_digits d \<and> cur = d @ r"
  then have "takeWhile is_digit cur = d" "dropWhile is_digit cur = r"
    using assms by (auto simp: json_digits_def list_all_iff takeWhile_append2 dropWhile_append2 next_is_def
        takeWhile_eq_Nil_iff dropWhile_eq_self_iff)
  with L show "next_is is_digit cur \<and> d = takeWhile is_digit cur \<and> r = dropWhile is_digit cur"
    by (auto simp: json_digits_def next_is_def list_all_iff hd_append)
next
  assume "next_is is_digit cur \<and> d = takeWhile is_digit cur \<and> r = dropWhile is_digit cur"
  then show "json_digits d \<and> cur = d @ r"
    by (cases cur) (auto simp: json_digits_def next_is_def list_all_iff dest: set_takeWhileD)
qed

lemma not_digit_dropWhile: "\<not> next_is is_digit (dropWhile is_digit s)"
  using hd_dropWhile [of is_digit s] by (auto simp: next_is_def)

lemma number_exponent_digits:
  assumes "start = v @ cur"
  shows "(if \<not> next_is is_digit cur then Inl DCC_ERR_JSON else number_end start (dropWhile is_digit cur) False)
      = Inr (t, i, r)
    \<longleftrightarrow> (\<exists>d. json_digits d \<and> cur = d @ r \<and> t = v @ d \<and> \<not> i \<and> ends_number r)" (is "?L \<longleftrightarrow> ?R")
proof
  assume L: ?L
  then have "next_is is_digit cur" "start = (v @ takeWhile is_digit cur) @ dropWhile is_digit cur"
    using assms by (auto split: if_splits)
  with L number_end_iff have "t = v @ takeWhile is_digit cur" "\<not> i" "r = dropWhile is_digit cur" "ends_number r"
    by (metis (no_types, lifting))+
  then show ?R
    using \<open>next_is is_digit cur\<close> json_digits_split [OF not_digit_dropWhile [of cur], of "takeWhile is_digit cur" cur]
    by blast
next
  assume ?R
  then obtain d where d: "json_digits d" "cur = d @ r" "t = v @ d" "\<not> i" "ends_number r"
    by blast
  then have cur: "next_is is_digit cur \<and> d = takeWhile is_digit cur \<and> r = dropWhile is_digit cur"
    using json_digits_split [OF ends_number_digit [OF d(5)], of d cur] by blast
  have "start = t @ r"
    using assms d by simp
  then show ?L
    using cur d(4,5) number_end_iff [of start t "dropWhile is_digit cur" False t i r] by simp
qed

lemma number_exponent_iff:
  assumes "start = u @ cur"
  shows "number_exponent start cur b = Inr (t, i, r)
    \<longleftrightarrow> (\<exists>e. cur = e @ r \<and> json_exp e \<and> t = u @ e \<and> i = (b \<and> e = []) \<and> ends_number r)" (is "?L \<longleftrightarrow> ?R")
proof (cases "next_is (\<lambda>c. c = CHR ''e'' \<or> c = CHR ''E'') cur")
  case False
  then have "?L \<longleftrightarrow> t = u \<and> i = b \<and> r = cur \<and> ends_number r"
    using number_end_iff [OF assms] by (simp add: number_exponent_def)
  also have "\<dots> \<longleftrightarrow> ?R"
    using False by (auto simp: json_exp_def)
  finally show ?thesis .
next
  case True
  then obtain c q where cur: "cur = c # q" "c \<in> set ''eE''"
    by (cases cur) auto
  define sgn where "sgn = (if next_is (\<lambda>c. c = CHR ''+'' \<or> c = CHR ''-'') q then [hd q] else [])"
  define q' where "q' = (if next_is (\<lambda>c. c = CHR ''+'' \<or> c = CHR ''-'') q then tl q else q)"
  have q: "q = sgn @ q'" "sgn \<in> {[], ''+'', ''-''}"
    by (cases q; auto simp: sgn_def q'_def)+
  have start: "start = (u @ c # sgn) @ q'"
    using assms cur(1) q(1) by simp
  have "?L \<longleftrightarrow> (\<exists>d. json_digits d \<and> q' = d @ r \<and> t = (u @ c # sgn) @ d \<and> \<not> i \<and> ends_number r)"
    unfolding number_exponent_digits [OF start, symmetric]
    using True cur(1) by (simp add: number_exponent_def Let_def q'_def)
  also have "\<dots> \<longleftrightarrow> ?R"
  proof
    assume "\<exists>d. json_digits d \<and> q' = d @ r \<and> t = (u @ c # sgn) @ d \<and> \<not> i \<and> ends_number r"
    then obtain d where d: "json_digits d" "q' = d @ r" "t = (u @ c # sgn) @ d" "\<not> i" "ends_number r" by blast
    moreover have "json_exp (c # sgn @ d)"
      using d(1) q(2) cur(2) unfolding json_exp_def by blast
    ultimately show ?R
      using cur(1) q(1) by (intro exI [of _ "c # sgn @ d"]) simp
  next
    assume ?R
    then obtain e where e: "cur = e @ r" "json_exp e" "t = u @ e" "i = (b \<and> e = [])" "ends_number r" by blast
    have "e \<noteq> []"
      using e cur by (auto simp: dcc_json_is_number_char_def)
    then obtain c' sgn' d where e': "e = c' # sgn' @ d" "sgn' \<in> {[], ''+'', ''-''}" "json_digits d"
      using e(2) by (auto simp: json_exp_def)
    have "\<not> next_is (\<lambda>c. c = CHR ''+'' \<or> c = CHR ''-'') (d @ r)"
      using e'(3) by (cases d) (auto simp: json_digits_def is_digit_def)
    then have "sgn' = sgn \<and> q' = d @ r"
      using e(1) e' cur(1) by (auto simp: sgn_def q'_def)
    then show "\<exists>d. json_digits d \<and> q' = d @ r \<and> t = (u @ c # sgn) @ d \<and> \<not> i \<and> ends_number r"
      using e e' cur(1) \<open>e \<noteq> []\<close> by (intro exI [of _ d]) simp
  qed
  finally show ?thesis .
qed

lemma number_fraction_iff:
  assumes "start = u @ cur"
  shows "number_fraction start cur = Inr (t, i, r)
    \<longleftrightarrow> (\<exists>f e. cur = f @ e @ r \<and> json_frac f \<and> json_exp e \<and> t = u @ f @ e \<and> i = (f = [] \<and> e = [])
          \<and> ends_number r)" (is "?L \<longleftrightarrow> ?R")
proof (cases "next_is (\<lambda>c. c = CHR ''.'') cur")
  case False
  then have "?L \<longleftrightarrow> (\<exists>e. cur = e @ r \<and> json_exp e \<and> t = u @ e \<and> i = (e = []) \<and> ends_number r)"
    using number_exponent_iff [OF assms] by (simp add: number_fraction_def)
  also have "\<dots> \<longleftrightarrow> ?R"
    using False by (auto simp: json_frac_def)
  finally show ?thesis .
next
  case True
  then obtain q where cur: "cur = CHR ''.'' # q"
    by (cases cur) auto
  have "\<not> next_is is_digit (e @ r)" if "json_exp e" "ends_number r" for e r
    using that ends_number_digit by (auto simp: json_exp_def is_digit_def)
  note split = json_digits_split [OF this]
  show ?thesis
  proof
    assume L: ?L
    then have digit: "next_is is_digit q"
      and exp: "number_exponent start (dropWhile is_digit q) False = Inr (t, i, r)"
      using cur by (auto simp: number_fraction_def Let_def split: if_splits)
    have "start = (u @ CHR ''.'' # takeWhile is_digit q) @ dropWhile is_digit q"
      using assms cur by simp
    from exp [unfolded number_exponent_iff [OF this]] obtain e where
      "dropWhile is_digit q = e @ r" "json_exp e" "t = (u @ CHR ''.'' # takeWhile is_digit q) @ e" "\<not> i" "ends_number r"
      by blast
    moreover from this have "json_digits (takeWhile is_digit q)"
      using split [of e r "takeWhile is_digit q" q] digit by simp
    ultimately show ?R
      using cur takeWhile_dropWhile_id [of is_digit q]
      by (intro exI [of _ "CHR ''.'' # takeWhile is_digit q"] exI [of _ e]) (auto simp: json_frac_def)
  next
    assume ?R
    then obtain f e where fe: "cur = f @ e @ r" "json_frac f" "json_exp e" "t = u @ f @ e"
      "i = (f = [] \<and> e = [])" "ends_number r" by blast
    have "f \<noteq> []"
      using fe cur by (auto simp: json_exp_def dcc_json_is_number_char_def)
    then obtain d where d: "f = CHR ''.'' # d" "json_digits d"
      using fe(2) by (auto simp: json_frac_def)
    then have "next_is is_digit q" "d = takeWhile is_digit q" "e @ r = dropWhile is_digit q"
      using fe cur split [of e r d q] by auto
    moreover have "start = (u @ f) @ e @ r"
      using assms fe(1) by simp
    from number_exponent_iff [OF this] have "number_exponent start (e @ r) False = Inr (t, i, r)"
      using fe \<open>f \<noteq> []\<close> by auto
    ultimately show ?L
      using cur by (simp add: number_fraction_def Let_def)
  qed
qed

lemma number_tail_not_digit:
  assumes "json_frac f" "json_exp e" "ends_number r"
  shows "\<not> next_is is_digit (f @ e @ r)"
  using assms ends_number_digit by (auto simp: json_frac_def json_exp_def is_digit_def)

lemma number_unsigned_iff:
  assumes "start = u @ cur"
  shows "(if cur = [] then Inl DCC_ERR_JSON
      else if hd cur = CHR ''0'' then number_fraction start (tl cur)
      else if is_digit (hd cur) then number_fraction start (dropWhile is_digit cur)
      else Inl DCC_ERR_JSON) = Inr (t, i, r)
    \<longleftrightarrow> (\<exists>n f e. cur = n @ f @ e @ r \<and> json_int n \<and> json_frac f \<and> json_exp e \<and> t = u @ n @ f @ e
          \<and> i = (f = [] \<and> e = []) \<and> ends_number r)" (is "?L \<longleftrightarrow> ?R")
proof -
  define P where "P n q \<longleftrightarrow> (\<exists>f e. q = f @ e @ r \<and> json_frac f \<and> json_exp e \<and> t = (u @ n) @ f @ e
      \<and> i = (f = [] \<and> e = []) \<and> ends_number r)" for n q
  have frac: "number_fraction start q = Inr (t, i, r) \<longleftrightarrow> P n q" if "cur = n @ q" for n q
    unfolding P_def by (rule number_fraction_iff) (simp add: assms that)
  have R: "?R \<longleftrightarrow> (\<exists>n q. cur = n @ q \<and> json_int n \<and> P n q)"
    unfolding P_def by auto
  have tail: "\<not> next_is is_digit q" if "P n q" for n q
    using that number_tail_not_digit by (auto simp: P_def)
  show ?thesis
  proof (cases cur)
    case Nil
    then show ?thesis by (auto simp: json_int_def json_digits_def)
  next
    case (Cons c q)
    show ?thesis
    proof (cases "c = CHR ''0''")
      case True
      have "?L \<longleftrightarrow> P ''0'' q"
        using frac [of "''0''" q] Cons True by simp
      also have "\<dots> \<longleftrightarrow> ?R"
      proof
        assume "P ''0'' q"
        then show ?R
          unfolding R using Cons True by (intro exI [of _ "''0''"] exI [of _ q]) (simp add: json_int_def)
      next
        assume ?R
        then show "P ''0'' q"
          unfolding R using Cons True by (auto simp: json_int_def json_digits_def Cons_eq_append_conv)
      qed
      finally show ?thesis .
    next
      case False
      have split: "json_int n \<and> cur = n @ q' \<longleftrightarrow> is_digit c \<and> n = takeWhile is_digit cur \<and> q' = dropWhile is_digit cur"
        if "P n q'" for n q'
        using json_digits_split [OF tail [OF that], of n cur] False Cons
        by (auto simp: json_int_def json_digits_def Cons_eq_append_conv)
      show ?thesis
      proof (cases "is_digit c")
        case digit: True
        have "?L \<longleftrightarrow> P (takeWhile is_digit cur) (dropWhile is_digit cur)"
          using frac [of "takeWhile is_digit cur" "dropWhile is_digit cur"] Cons False digit by simp
        also have "\<dots> \<longleftrightarrow> (\<exists>n q. cur = n @ q \<and> json_int n \<and> P n q)"
          using split digit by (metis takeWhile_dropWhile_id)
        finally show ?thesis
          by (simp only: R)
      next
        case False
        with Cons \<open>c \<noteq> _\<close> split show ?thesis
          unfolding R by auto
      qed
    qed
  qed
qed

lemma number_span_iff:
  "dcc_json_parse_number_span p = Inr (t, i, r) \<longleftrightarrow> p = t @ r \<and> json_number t i \<and> ends_number r"
    (is "?L \<longleftrightarrow> ?R")
proof -
  define sgn where "sgn = (if next_is (\<lambda>c. c = CHR ''-'') p then ''-'' else [])"
  define cur where "cur = (if next_is (\<lambda>c. c = CHR ''-'') p then tl p else p)"
  have p: "p = sgn @ cur" "sgn \<in> {[], ''-''}"
    by (cases p; auto simp: sgn_def cur_def)+
  have "?L \<longleftrightarrow> (\<exists>n f e. cur = n @ f @ e @ r \<and> json_int n \<and> json_frac f \<and> json_exp e \<and> t = sgn @ n @ f @ e
          \<and> i = (f = [] \<and> e = []) \<and> ends_number r)"
    unfolding number_unsigned_iff [OF p(1), symmetric]
    by (simp add: dcc_json_parse_number_span_def Let_def cur_def)
  also have "\<dots> \<longleftrightarrow> ?R"
  proof
    assume "\<exists>n f e. cur = n @ f @ e @ r \<and> json_int n \<and> json_frac f \<and> json_exp e \<and> t = sgn @ n @ f @ e
          \<and> i = (f = [] \<and> e = []) \<and> ends_number r"
    then obtain n f e where "cur = n @ f @ e @ r" "json_int n" "json_frac f" "json_exp e" "t = sgn @ n @ f @ e"
      "i = (f = [] \<and> e = [])" "ends_number r"
      by blast
    moreover from this have "json_number t i"
      using p(2) unfolding json_number_def by blast
    ultimately show ?R
      using p(1) by simp
  next
    assume R: ?R
    then obtain sgn' n f e where t: "t = sgn' @ n @ f @ e" "sgn' \<in> {[], ''-''}" "json_int n" "json_frac f"
      "json_exp e" "i = (f = [] \<and> e = [])"
      unfolding json_number_def by blast
    obtain c n' where n: "n = c # n'" "is_digit c"
      using t(3) by (cases n) (auto simp: json_int_def json_digits_def is_digit_def)
    have "c \<noteq> CHR ''-''"
      using n(2) is_digit_not_space by blast
    then have "sgn' = sgn" "cur = n @ f @ e @ r"
      using R t(1,2) n(1) by (auto simp: sgn_def cur_def)
    with t R show "\<exists>n f e. cur = n @ f @ e @ r \<and> json_int n \<and> json_frac f \<and> json_exp e \<and> t = sgn @ n @ f @ e
          \<and> i = (f = [] \<and> e = []) \<and> ends_number r"
      by blast
  qed
  finally show ?thesis .
qed

section \<open>Integers\<close>

abbreviation dec_from :: "nat \<Rightarrow> string \<Rightarrow> nat" where
  "dec_from a s \<equiv> foldl (\<lambda>a c. a * 10 + (code c - 48)) a s"

lemma dec_from_ge: "a \<le> dec_from a s"
proof (induction s arbitrary: a)
  case (Cons c s)
  have "a \<le> a * 10 + (code c - 48)" by simp
  also have "\<dots> \<le> dec_from (a * 10 + (code c - 48)) s" by (rule Cons.IH)
  finally show ?case by simp
qed simp

lemma ascii_guard:
  fixes limit v :: u64
  assumes "d < 10" "9 \<le> unat limit" "unat v \<le> unat limit"
  shows "v > (limit - of_nat d) div 10 \<longleftrightarrow> unat limit < unat v * 10 + d"
    and "unat v * 10 + d \<le> unat limit \<Longrightarrow> unat (v * 10 + of_nat d) = unat v * 10 + d"
proof -
  have d: "unat (of_nat d :: u64) = d"
    using assms(1) by (intro unat_of_nat_eq_u64) simp
  then have "unat (limit - of_nat d) = unat limit - d"
    using assms(1,2) unat_sub [of "of_nat d" limit] by (simp add: word_le_nat_alt del: unat_of_nat)
  then show "v > (limit - of_nat d) div 10 \<longleftrightarrow> unat limit < unat v * 10 + d"
    using assms(1,2) by (simp add: word_less_nat_alt unat_div) linarith
  assume fits: "unat v * 10 + d \<le> unat limit"
  then have "unat v * 10 < 2 ^ 64" "unat v * 10 + d < 2 ^ 64"
    using unat_u64_less [of limit] by linarith+
  then have "unat (v * 10) = unat v * 10"
    by (subst unat_mult_lem [THEN iffD1]) auto
  then show "unat (v * 10 + of_nat d) = unat v * 10 + d"
    using \<open>unat v * 10 + d < 2 ^ 64\<close> d by (subst unat_add_lem [THEN iffD1]) auto
qed

lemma ascii_digits_iff:
  assumes "9 \<le> unat limit" "unat v \<le> unat limit"
  shows "ascii_digits limit v s = Some r \<longleftrightarrow>
     list_all is_digit s \<and> dec_from (unat v) s \<le> unat limit \<and> unat r = dec_from (unat v) s"
  using assms(2)
proof (induction s arbitrary: v)
  case Nil
  then show ?case by (auto simp: word_unat_eq_iff)
next
  case (Cons c s)
  let ?d = "code c - 48"
  show ?case
  proof (cases "is_digit c")
    case True
    then have d: "?d < 10"
      by (auto simp: is_digit_def)
    note guard = ascii_guard [OF d assms(1) Cons.prems]
    show ?thesis
    proof (cases "unat v * 10 + ?d \<le> unat limit")
      case fits: True
      then show ?thesis
        using Cons.IH [of "v * 10 + of_nat ?d"] True guard by (simp add: Let_def)
    next
      case False
      then show ?thesis
        using guard(1) True dec_from_ge [of "unat v * 10 + ?d" s] by (simp add: Let_def)
    qed
  qed simp
qed

lemma u64_ascii_iff:
  "dcc_json_parse_u64_ascii s = Some v \<longleftrightarrow> json_digits s \<and> dec_value s < 2 ^ 64 \<and> unat v = dec_value s"
proof -
  have "hd s \<noteq> CHR ''-''" if "json_digits s"
    using that is_digit_not_space by (cases s) (auto simp: json_digits_def)
  then show ?thesis
    using ascii_digits_iff [of UINT64_MAX 0 s v] unat_u64_less [of v]
    by (auto simp: dcc_json_parse_u64_ascii_def json_digits_def dec_value_def)
qed

lemma unat_LLONG_MAX: "unat LLONG_MAX = 2 ^ 63 - 1" "unat (LLONG_MAX + 1) = 2 ^ 63"
  by (simp_all add: LLONG_MAX_def)

lemma i64_ascii_iff:
  "dcc_json_parse_i64_ascii s = Some v \<longleftrightarrow>
     s \<noteq> [] \<and> json_digits (if hd s = CHR ''-'' then tl s else s) \<and> v = signed_value s
     \<and> - (2 ^ 63) \<le> v \<and> v < 2 ^ 63"
proof (cases "s = []")
  case False
  define neg where "neg = (hd s = CHR ''-'')"
  define digits where "digits = (if neg then tl s else s)"
  define limit where "limit = (if neg then LLONG_MAX + 1 else LLONG_MAX)"
  define result where
    "result w = (if neg then (if w = limit then - (2 ^ 63) else - uint w) else uint w)" for w :: u64
  have ascii: "ascii_digits limit 0 digits = Some w
      \<longleftrightarrow> list_all is_digit digits \<and> dec_value digits \<le> unat limit \<and> unat w = dec_value digits" for w
    using ascii_digits_iff [of limit 0 digits w] by (simp add: limit_def unat_LLONG_MAX dec_value_def)
  have val: "result w = signed_value s"
    if "unat w = dec_value digits" for w
  proof -
    have "uint w = int (dec_value digits)"
      by (metis that of_nat_unat)
    moreover have "w = limit \<Longrightarrow> neg \<Longrightarrow> dec_value digits = 2 ^ 63"
      using that unat_LLONG_MAX(2) by (simp add: limit_def)
    ultimately show ?thesis
      by (auto simp: signed_value_def neg_def digits_def result_def)
  qed
  have range: "dec_value digits \<le> unat limit \<longleftrightarrow> - (2 ^ 63) \<le> signed_value s \<and> signed_value s < 2 ^ 63"
    by (auto simp: limit_def unat_LLONG_MAX signed_value_def neg_def digits_def)
  have "dcc_json_parse_i64_ascii s = Some v \<longleftrightarrow> digits \<noteq> [] \<and>
      (\<exists>w. ascii_digits limit 0 digits = Some w \<and> v = result w)"
    using False by (auto simp: result_def dcc_json_parse_i64_ascii_def Let_def neg_def digits_def limit_def split: option.splits)
  also have "\<dots> \<longleftrightarrow> digits \<noteq> [] \<and> list_all is_digit digits \<and> v = signed_value s
      \<and> dec_value digits \<le> unat limit"
  proof -
    have "unat (of_nat (dec_value digits) :: u64) = dec_value digits" if "dec_value digits \<le> unat limit"
      using that unat_u64_less [of limit] by (intro unat_of_nat_eq_u64) linarith
    then have "(\<exists>w. ascii_digits limit 0 digits = Some w) \<longleftrightarrow> list_all is_digit digits \<and> dec_value digits \<le> unat limit"
      unfolding ascii by blast
    moreover have "result w = signed_value s"
      if "ascii_digits limit 0 digits = Some w" for w
      using that val ascii by simp
    ultimately show ?thesis
      by auto
  qed
  finally show ?thesis
    using False range by (auto simp: json_digits_def digits_def neg_def)
qed (simp add: dcc_json_parse_i64_ascii_def)

section \<open>Tokens\<close>

lemma skip_ws_append [simp]: "list_all json_ws w \<Longrightarrow> dcc_json_skip_ws (w @ p) = dcc_json_skip_ws p"
  by (induction w) (simp_all add: dcc_json_skip_ws_def)

lemma skip_ws_here [simp]: "\<not> json_ws c \<Longrightarrow> dcc_json_skip_ws (c # p) = c # p"
  by (simp add: dcc_json_skip_ws_def)

lemma skip_ws_split: "\<exists>w. p = w @ dcc_json_skip_ws p \<and> list_all json_ws w"
  by (rule exI [of _ "takeWhile json_ws p"]) (auto simp: dcc_json_skip_ws_def list_all_iff dest: set_takeWhileD)

lemma skip_ws_length: "length (dcc_json_skip_ws p) \<le> length p"
  by (simp add: dcc_json_skip_ws_def length_dropWhile_le)

lemma match_literal_iff: "dcc_json_match_literal p l = Some r \<longleftrightarrow> p = l @ r"
  by (auto simp: dcc_json_match_literal_def) (metis append_take_drop_id)

lemma digit_not_ws: "is_digit c \<Longrightarrow> \<not> json_ws c"
  by (auto simp: json_ws_def is_digit_def)

lemma json_int_dec_string: "json_int (dec_string n)"
proof (induction n rule: dec_string.induct)
  case (1 n)
  show ?case
  proof (cases "n < 10")
    case True
    have "code (digit_char n) = code (CHR ''0'') \<longleftrightarrow> n = 0"
      using True by simp
    then have "digit_char n = CHR ''0'' \<longleftrightarrow> n = 0"
      by (simp only: of_char_eq_iff)
    moreover have "dec_string n = [digit_char n]"
      using True by (simp add: dec_string.simps [of n])
    ultimately show ?thesis
      using True by (cases "n = 0") (auto simp: json_int_def json_digits_def)
  next
    case False
    then have "n div 10 \<noteq> 0" by simp
    have "dec_string (n div 10) \<noteq> ''0''"
      using dec_value_dec_string [of "n div 10"] \<open>n div 10 \<noteq> 0\<close> by (auto simp: dec_value_def)
    then have "json_digits (dec_string (n div 10))" "hd (dec_string (n div 10)) \<noteq> CHR ''0''"
      using 1 False by (auto simp: json_int_def)
    with False show ?thesis
      by (simp add: dec_string.simps [of n] json_int_def json_digits_def)
  qed
qed

lemma u64_direct_dec:
  assumes "ends_number r"
  shows "dcc_json_parse_u64_direct (dec_string (unat v) @ r) = Inr (v, r)"
proof -
  let ?t = "dec_string (unat v)"
  have "json_number ?t True"
    unfolding json_number_def using json_int_dec_string [of "unat v"]
    by (intro exI [of _ "[]"] exI [of _ ?t]) (auto simp: json_frac_def json_exp_def)
  then have "dcc_json_parse_number_span (?t @ r) = Inr (?t, True, r)"
    using assms number_span_iff by blast
  moreover have "dcc_json_parse_u64_ascii ?t = Some v"
    unfolding u64_ascii_iff using unat_u64_less [of v] by (simp add: json_digits_def)
  moreover have "length ?t < 64"
    using unat_u64_less [of v] length_dec_string [of 20 "unat v"] by simp
  moreover have "hd ?t \<noteq> CHR ''-''"
    using is_digit_not_space dec_string_digits [of "unat v"] dec_string_nonempty [of "unat v"]
    by (metis list.pred_set list.set_sel(1))
  ultimately show ?thesis
    by (simp add: dcc_json_parse_u64_direct_def not_le)
qed

lemma digits_raw: "json_digits d \<Longrightarrow> raw_chars d \<and> CHR 0x5C \<notin> set d"
proof -
  have "raw_chars d \<and> CHR 0x5C \<notin> set d" if "list_all is_digit d" for d
    using that
  proof (induction d)
    case (Cons c d)
    then have c: "48 \<le> code c" "code c \<le> 57"
      by (simp_all add: is_digit_def)
    then have "utf8 (code c) = [c]"
      by (simp add: utf8_def)
    moreover have "raw_chars (utf8 (code c) @ d)"
      using Cons c by (intro raw_chars.Plain) (auto simp: scalar_def)
    ultimately show ?case
      using Cons c by (auto simp: char_code(2))
  qed (simp add: raw_chars.Empty)
  then show "json_digits d \<Longrightarrow> raw_chars d \<and> CHR 0x5C \<notin> set d"
    by (simp add: json_digits_def)
qed

lemma snowflake_key_dec:
  "dcc_json_parse_snowflake_map_key (CHR 0x22 # dec_string (unat v) @ CHR 0x22 # r) = Inr (v, r)"
proof -
  let ?t = "dec_string (unat v)"
  have digits: "json_digits ?t"
    by (simp add: json_digits_def)
  have "dcc_json_find_string_end (CHR 0x22 # ?t @ CHR 0x22 # r) = Some (?t, CHR 0x22 # r, False)"
    unfolding find_string_end_iff using digits_raw [OF digits] by auto
  moreover have "dcc_json_parse_u64_ascii ?t = Some v"
    unfolding u64_ascii_iff using unat_u64_less [of v] digits by simp
  moreover have "length ?t < 32"
    using unat_u64_less [of v] length_dec_string [of 20 "unat v"] by simp
  ultimately show ?thesis
    by (simp add: dcc_json_parse_snowflake_map_key_def)
qed

lemma u64_direct_sound:
  assumes "dcc_json_parse_u64_direct p = Inr (v, r)"
  shows "\<exists>t. p = t @ r \<and> json_number t True \<and> json_digits t \<and> dec_value t = unat v"
  using assms
  by (fastforce simp: dcc_json_parse_u64_direct_def number_span_iff u64_ascii_iff
      split: sum.splits if_splits option.splits)

lemma snowflake_key_sound:
  assumes "dcc_json_parse_snowflake_map_key p = Inr (v, r)"
  shows "\<exists>raw cps. p = CHR 0x22 # raw @ CHR 0x22 # r \<and> json_chars cps raw
    \<and> json_digits (c_string (utf8s cps)) \<and> dec_value (c_string (utf8s cps)) = unat v"
proof -
  obtain raw r' e where f: "dcc_json_find_string_end p = Some (raw, r', e)"
    using assms by (auto simp: dcc_json_parse_snowflake_map_key_def split: option.splits)
  then have raw: "p = CHR 0x22 # raw @ CHR 0x22 # tl r'" "raw_chars raw" "e = (CHR 0x5C \<in> set raw)"
    by (auto simp: find_string_end_iff)
  have r: "r = tl r'"
    using assms f by (auto simp: dcc_json_parse_snowflake_map_key_def split: option.splits if_splits)
  show ?thesis
  proof (cases e)
    case True
    with assms f obtain s where s: "dcc_json_decode_string_span raw 32 = Some s" "dcc_json_parse_u64_ascii (c_string s) = Some v"
      by (auto simp: dcc_json_parse_snowflake_map_key_def split: option.splits)
    then obtain cps where "json_chars cps raw" "s = utf8s cps"
      using string_content_iff [OF raw(2), of 32 s] True raw(3) by (auto simp: string_content_def)
    then show ?thesis
      using s(2) raw(1) r u64_ascii_iff by auto
  next
    case False
    with assms f have d: "json_digits raw" "dec_value raw = unat v"
      using u64_ascii_iff [of raw v]
      by (auto simp: dcc_json_parse_snowflake_map_key_def split: option.splits if_splits)
    obtain cps where cps: "json_chars cps raw" "raw = utf8s cps"
      using raw_chars_plain raw(2,3) False by blast
    have "c_string raw = raw"
      using d(1) by (auto simp: c_string_def json_digits_def list_all_iff is_digit_def takeWhile_eq_all_conv)
    then show ?thesis
      using cps d raw(1) r by auto
  qed
qed

end
