(* ===== verification/DCC_Json_Memory.thy ===== *)
theory DCC_Json_Memory
  imports DCC_Prelude
begin

text \<open>
  The memory of a JSON document: the growth of its vectors (\<^verbatim>\<open>src/internal/json/dcc_json_capacity.h\<close>)
  and the arena that holds the values (\<^verbatim>\<open>src/json/dcc_json_arena.c\<close>). The allocator's answers are a
  list of booleans, one per call in the order of the calls; when the list is used up every further
  call succeeds. A pointer into the arena is the number of its chunk, counted from the oldest, and the
  offset in the chunk. The alignment and the sizes of the structures are those of x86-64.
\<close>

section \<open>Capacities and the allocator\<close>

definition alloc_next :: "bool list \<Rightarrow> bool \<times> bool list" where
  "alloc_next heap = (case heap of [] \<Rightarrow> (True, []) | b # bs \<Rightarrow> (b, bs))"

definition dcc_json_next_cap :: "nat \<Rightarrow> nat \<Rightarrow> nat \<Rightarrow> nat option" where
  "dcc_json_next_cap current initial elem_size =
     (if initial = 0 \<or> elem_size = 0 then None
      else if current \<noteq> 0 \<and> current > SIZE_MAX div 2 then None
      else
        let next = (if current \<noteq> 0 then current * 2 else initial) in
        if next > SIZE_MAX div elem_size then None else Some next)"

section \<open>The arena\<close>

record dcc_json_arena_chunk =
  chunk_len :: u64
  chunk_cap :: u64

type_synonym dcc_json_arena = "dcc_json_arena_chunk list"
type_synonym arena_ptr = "nat \<times> u64"

definition DCC_JSON_ARENA_MASK :: u64 where
  "DCC_JSON_ARENA_MASK = 15"

definition DCC_JSON_ARENA_MAX_ALIGNED :: u64 where
  "DCC_JSON_ARENA_MAX_ALIGNED = UINT64_MAX - DCC_JSON_ARENA_MASK"

definition DCC_JSON_ARENA_CHUNK_SIZE :: u64 where
  "DCC_JSON_ARENA_CHUNK_SIZE = 16384"

definition sizeof_arena_chunk :: u64 where
  "sizeof_arena_chunk = 64"

definition dcc_json_align_up_unchecked :: "u64 \<Rightarrow> u64" where
  "dcc_json_align_up_unchecked v = (v + DCC_JSON_ARENA_MASK) AND NOT DCC_JSON_ARENA_MASK"

definition dcc_json_align_up :: "u64 \<Rightarrow> u64 option" where
  "dcc_json_align_up v =
     (if v > DCC_JSON_ARENA_MAX_ALIGNED then None else Some (dcc_json_align_up_unchecked v))"

text \<open>The newest chunk is the first of the list, as \<open>head\<close> and \<open>next\<close> link them.\<close>

definition dcc_json_arena_alloc ::
  "dcc_json_arena \<Rightarrow> bool list \<Rightarrow> u64 \<Rightarrow> arena_ptr option \<times> dcc_json_arena \<times> bool list" where
  "dcc_json_arena_alloc arena heap sz =
     (if sz = 0 then (None, arena, heap)
      else case dcc_json_align_up sz of
        None \<Rightarrow> (None, arena, heap)
      | Some aligned \<Rightarrow>
          if aligned > UINT64_MAX - sizeof_arena_chunk then (None, arena, heap)
          else if arena = [] \<or> aligned > chunk_cap (hd arena) - chunk_len (hd arena) then
            let cap = (if aligned > DCC_JSON_ARENA_CHUNK_SIZE then aligned else DCC_JSON_ARENA_CHUNK_SIZE);
                (ok, heap') = alloc_next heap in
            if \<not> ok then (None, arena, heap')
            else (Some (length arena, 0), \<lparr>chunk_len = aligned, chunk_cap = cap\<rparr> # arena, heap')
          else
            (Some (length (tl arena), chunk_len (hd arena)),
             (hd arena)\<lparr>chunk_len := chunk_len (hd arena) + aligned\<rparr> # tl arena, heap))"

section \<open>What the arena promises\<close>

text \<open>The blocks a sequence of requests is handed, each with the size that was asked for, and the arena
  afterwards.\<close>

fun arena_allocs :: "dcc_json_arena \<Rightarrow> bool list \<Rightarrow> u64 list \<Rightarrow> (arena_ptr \<times> u64) list \<times> dcc_json_arena" where
  "arena_allocs arena heap [] = ([], arena)"
| "arena_allocs arena heap (n # ns) =
     (case dcc_json_arena_alloc arena heap n of
        (ptr, arena', heap') \<Rightarrow>
          let (blocks, arena'') = arena_allocs arena' heap' ns in
          (case ptr of None \<Rightarrow> blocks | Some p \<Rightarrow> (p, n) # blocks, arena''))"

text \<open>The capacities of the chunks, the oldest first, and a block that lies in its chunk.\<close>

definition arena_caps :: "dcc_json_arena \<Rightarrow> nat list" where
  "arena_caps arena = rev (map (\<lambda>c. unat (chunk_cap c)) arena)"

definition block_inside :: "dcc_json_arena \<Rightarrow> arena_ptr \<times> u64 \<Rightarrow> bool" where
  "block_inside arena b \<longleftrightarrow>
     fst (fst b) < length arena \<and> unat (snd (fst b)) + unat (snd b) \<le> arena_caps arena ! fst (fst b)"

definition chunk_ok :: "dcc_json_arena_chunk \<Rightarrow> bool" where
  "chunk_ok c \<longleftrightarrow> unat (chunk_len c) \<le> unat (chunk_cap c) \<and> 16 dvd unat (chunk_len c)"

text \<open>Two blocks that share no byte.\<close>

definition blocks_apart :: "arena_ptr \<times> u64 \<Rightarrow> arena_ptr \<times> u64 \<Rightarrow> bool" where
  "blocks_apart a b \<longleftrightarrow>
     fst (fst a) \<noteq> fst (fst b)
     \<or> unat (snd (fst a)) + unat (snd a) \<le> unat (snd (fst b))
     \<or> unat (snd (fst b)) + unat (snd b) \<le> unat (snd (fst a))"

text \<open>A block that lies in the free part of an arena: in a chunk still to come, or behind what the
  newest chunk has handed out.\<close>

definition block_new :: "dcc_json_arena \<Rightarrow> arena_ptr \<times> u64 \<Rightarrow> bool" where
  "block_new arena b \<longleftrightarrow>
     length arena \<le> fst (fst b)
     \<or> arena \<noteq> [] \<and> fst (fst b) = length (tl arena) \<and> unat (chunk_len (hd arena)) \<le> unat (snd (fst b))"

lemma next_cap_some:
  assumes "current \<le> 2 ^ 58" "0 < initial" "initial \<le> 2 ^ 58" "0 < elem" "elem \<le> 16"
  shows "dcc_json_next_cap current initial elem = Some (if current \<noteq> 0 then current * 2 else initial)"
proof -
  have "(2 :: nat) ^ 59 \<le> SIZE_MAX div 16"
    by (simp add: SIZE_MAX_def)
  moreover have "SIZE_MAX div 16 \<le> SIZE_MAX div elem"
    using assms(4,5) by (intro div_le_mono2)
  ultimately show ?thesis
    using assms by (auto simp: dcc_json_next_cap_def Let_def SIZE_MAX_def)
qed

lemma unat_align_up:
  assumes "dcc_json_align_up v = Some a"
  shows "unat a = 16 * ((unat v + 15) div 16)"
proof -
  have v: "unat v \<le> 2 ^ 64 - 16"
    using assms by (simp add: dcc_json_align_up_def DCC_JSON_ARENA_MAX_ALIGNED_def DCC_JSON_ARENA_MASK_def
        not_less word_le_nat_alt unat_UINT64_MAX_minus split: if_splits)
  have sum: "unat (v + 15) = unat v + 15"
    using v by (subst unat_add_lem [THEN iffD1]) auto
  have "a = (v + 15) AND NOT (mask 4)"
    using assms by (simp add: dcc_json_align_up_def dcc_json_align_up_unchecked_def DCC_JSON_ARENA_MASK_def
        mask_eq_exp_minus_1 split: if_splits)
  also have "\<dots> = push_bit 4 (drop_bit 4 (v + 15))"
    by (rule bit_word_eqI) (auto simp: bit_simps)
  finally have "unat a = take_bit 64 (push_bit 4 (drop_bit 4 (unat (v + 15))))"
    using unat_u64_less [of "v + 15"]
    by (simp only: unsigned_push_bit_eq unsigned_drop_bit_eq) (simp add: take_bit_nat_eq_self)
  then have "unat a = (16 * ((unat v + 15) div 16)) mod 2 ^ 64"
    by (simp add: take_bit_eq_mod push_bit_eq_mult drop_bit_eq_div sum mult.commute)
  then show ?thesis
    using v by simp
qed

lemma align_up_bounds:
  assumes "dcc_json_align_up v = Some a"
  shows "unat v \<le> unat a" "16 dvd unat a"
  using unat_align_up [OF assms] by presburger+

text \<open>The block of one allocation: free before it, aligned, inside its chunk, and used afterwards.\<close>

lemma arena_alloc_some:
  assumes "dcc_json_arena_alloc arena heap sz = (Some ptr, arena', heap')" "list_all chunk_ok arena"
  shows "list_all chunk_ok arena' \<and> block_new arena (ptr, sz) \<and> 16 dvd unat (snd ptr)
    \<and> arena' \<noteq> [] \<and> fst ptr = length (tl arena')
    \<and> unat (snd ptr) + unat sz \<le> unat (chunk_len (hd arena'))
    \<and> (\<exists>added. arena_caps arena' = arena_caps arena @ added)"
proof -
  from assms(1) obtain aligned where al: "dcc_json_align_up sz = Some aligned"
    by (auto simp: dcc_json_arena_alloc_def split: if_splits option.splits)
  note bounds = align_up_bounds [OF al]
  show ?thesis
  proof (cases "arena = [] \<or> aligned > chunk_cap (hd arena) - chunk_len (hd arena)")
    case True
    then have "ptr = (length arena, 0)" "arena' = \<lparr>chunk_len = aligned,
        chunk_cap = (if aligned > DCC_JSON_ARENA_CHUNK_SIZE then aligned else DCC_JSON_ARENA_CHUNK_SIZE)\<rparr> # arena"
      using assms(1) al by (auto simp: dcc_json_arena_alloc_def Let_def split: if_splits prod.splits)
    then show ?thesis
      using bounds assms(2) by (auto simp: chunk_ok_def block_new_def word_less_nat_alt arena_caps_def)
  next
    case False
    then obtain c cs where arena: "arena = c # cs"
      by (cases arena) auto
    with False assms(1) al have res: "ptr = (length cs, chunk_len c)"
      "arena' = c\<lparr>chunk_len := chunk_len c + aligned\<rparr> # cs"
      by (auto simp: dcc_json_arena_alloc_def split: if_splits)
    have ok: "unat (chunk_len c) \<le> unat (chunk_cap c)" "16 dvd unat (chunk_len c)"
      using assms(2) arena by (simp_all add: chunk_ok_def)
    then have fit: "unat (chunk_len c) + unat aligned \<le> unat (chunk_cap c)"
      using False arena unat_sub [of "chunk_len c" "chunk_cap c"] by (simp add: not_less word_le_nat_alt)
    then have "unat (chunk_len c + aligned) = unat (chunk_len c) + unat aligned"
      using unat_u64_less [of "chunk_cap c"] by (subst unat_add_lem [THEN iffD1]) auto
    then show ?thesis
      using fit ok bounds assms(2) by (auto simp: res arena chunk_ok_def block_new_def arena_caps_def intro: dvd_add)
  qed
qed

lemma arena_alloc_none:
  "dcc_json_arena_alloc arena heap sz = (None, arena', heap') \<Longrightarrow> arena' = arena"
  by (auto simp: dcc_json_arena_alloc_def Let_def split: if_splits option.splits prod.splits)

lemma length_arena_caps [simp]: "length (arena_caps arena) = length arena"
  by (simp add: arena_caps_def)

lemma arena_caps_last: "arena_caps (c # cs) ! length cs = unat (chunk_cap c)"
  by (simp add: arena_caps_def nth_append)

lemma block_inside_grown:
  assumes "block_inside arena b" "arena_caps arena' = arena_caps arena @ added"
  shows "block_inside arena' b"
proof -
  have "length arena \<le> length arena'"
    using arg_cong [OF assms(2), of length] by simp
  then show ?thesis
    using assms by (simp add: block_inside_def nth_append)
qed

lemma arena_alloc_inside:
  assumes "arena' \<noteq> []" "list_all chunk_ok arena'" "fst ptr = length (tl arena')"
    and "unat (snd ptr) + unat sz \<le> unat (chunk_len (hd arena'))"
  shows "block_inside arena' (ptr, sz)"
  using assms by (cases arena') (auto simp: block_inside_def arena_caps_last chunk_ok_def)

lemma arena_alloc_later:
  assumes "block_new arena (ptr, sz)" "fst ptr = length (tl arena')" "arena' \<noteq> []"
    and "unat (snd ptr) + unat sz \<le> unat (chunk_len (hd arena'))"
    and "block_new arena' b"
  shows "block_new arena b \<and> blocks_apart (ptr, sz) b"
proof (cases "length arena' \<le> fst (fst b)")
  case True
  moreover have "length arena \<le> Suc (fst ptr)"
    using assms(1) by (cases arena) (auto simp: block_new_def)
  moreover have "length arena' = Suc (fst ptr)"
    using assms(2,3) by (cases arena') auto
  ultimately show ?thesis
    by (simp add: block_new_def blocks_apart_def)
next
  case False
  then have same: "fst (fst b) = fst ptr" "unat (snd ptr) + unat sz \<le> unat (snd (fst b))"
    using assms(2,4,5) by (auto simp: block_new_def)
  then show ?thesis
    using assms(1) by (auto simp: block_new_def blocks_apart_def)
qed

lemma arena_allocs_blocks:
  assumes "list_all chunk_ok arena" "arena_allocs arena heap ns = (blocks, arena'')"
  shows "list_all (\<lambda>b. block_new arena b \<and> block_inside arena'' b \<and> 16 dvd unat (snd (fst b))) blocks
    \<and> sorted_wrt blocks_apart blocks \<and> (\<exists>added. arena_caps arena'' = arena_caps arena @ added)"
  using assms
proof (induction ns arbitrary: arena heap blocks)
  case (Cons n ns)
  obtain ptr arena' heap' where alloc: "dcc_json_arena_alloc arena heap n = (ptr, arena', heap')"
    by (metis prod_cases3)
  obtain blocks' where rest: "arena_allocs arena' heap' ns = (blocks', arena'')"
    and blocks: "blocks = (case ptr of None \<Rightarrow> blocks' | Some p \<Rightarrow> (p, n) # blocks')"
    using Cons.prems(2) alloc by (auto split: prod.splits)
  show ?case
  proof (cases ptr)
    case None
    then have "arena' = arena"
      using alloc by (auto dest: arena_alloc_none)
    then show ?thesis
      using Cons.IH [OF _ rest] Cons.prems(1) blocks None by simp
  next
    case (Some p)
    note step = arena_alloc_some [OF alloc [unfolded Some] Cons.prems(1)]
    then obtain added added' where caps: "arena_caps arena' = arena_caps arena @ added"
      "arena_caps arena'' = arena_caps arena' @ added'"
      using Cons.IH [OF _ rest] by blast
    have later: "block_new arena b \<and> blocks_apart (p, n) b" if "block_new arena' b" for b
      using that step arena_alloc_later [of arena p n arena' b] by blast
    have "block_inside arena'' (p, n)"
      using step caps(2) by (intro block_inside_grown [OF arena_alloc_inside]) auto
    then show ?thesis
      using Cons.IH [OF _ rest] step blocks Some later caps by (auto simp: list_all_iff)
  qed
qed simp

text \<open>Allocation succeeds while the allocator does.\<close>

lemma arena_alloc_succeeds:
  assumes "0 < n" "n \<le> 2 ^ 62"
  shows "\<exists>ptr arena'. dcc_json_arena_alloc arena [] (of_nat n) = (Some ptr, arena', [])"
proof -
  have n: "unat (of_nat n :: u64) = n"
    using assms(2) by (intro unat_of_nat_eq_u64) simp
  then have "(of_nat n :: u64) \<noteq> 0"
    using assms(1) by (metis unat_0 less_irrefl)
  moreover have "of_nat n \<le> DCC_JSON_ARENA_MAX_ALIGNED"
    using assms(2) by (simp add: DCC_JSON_ARENA_MAX_ALIGNED_def DCC_JSON_ARENA_MASK_def word_le_nat_alt
        unat_UINT64_MAX_minus n)
  then obtain a where a: "dcc_json_align_up (of_nat n) = Some a"
    by (simp add: dcc_json_align_up_def not_less)
  moreover have "unat a \<le> 2 ^ 63"
    using unat_align_up [OF a] assms(2) by (simp add: n)
  then have "a \<le> UINT64_MAX - sizeof_arena_chunk"
    by (simp add: sizeof_arena_chunk_def word_le_nat_alt unat_UINT64_MAX_minus)
  ultimately show ?thesis
    by (auto simp: dcc_json_arena_alloc_def Let_def alloc_next_def not_less)
qed

end
