(* ===== verification/DCC_Json_Stage1.thy ===== *)
theory DCC_Json_Stage1
  imports DCC_Json_Tokens DCC_Json_Memory
begin

text \<open>
  The first pass over a JSON text (\<^verbatim>\<open>src/json/dcc_json_stage1.c\<close>, \<^verbatim>\<open>dcc_json_stage1_mask.c\<close>,
  \<^verbatim>\<open>dcc_json_stage1_marks.c\<close>, \<^verbatim>\<open>dcc_json_stage1_validate.c\<close>): it marks quotes and structural characters and
  refuses unclosed strings and control characters in strings. Outside strings it steps over sixteen bytes
  at a time by a bit mask of the interesting ones. The scan is modelled with the portable loop for the mask;
  the SSE2 and NEON variants, of which a build has one, are modelled lane by lane and shown to compute the same
  mask. A scan one character at a time is the reference.
\<close>

section \<open>Marks\<close>

record dcc_json_stage1 =
  marks :: "nat list"
  marks_cap :: nat

definition stage1_empty :: dcc_json_stage1 where
  "stage1_empty = \<lparr>marks = [], marks_cap = 0\<rparr>"

definition dcc_json_stage1_push :: "dcc_json_stage1 \<Rightarrow> bool list \<Rightarrow> nat \<Rightarrow> bool \<times> dcc_json_stage1 \<times> bool list" where
  "dcc_json_stage1_push st heap i =
     (if length (marks st) = marks_cap st then
        (case dcc_json_next_cap (marks_cap st) 128 8 of
           None \<Rightarrow> (False, st, heap)
         | Some next_cap \<Rightarrow>
             let (ok, heap) = alloc_next heap in
             if \<not> ok then (False, st, heap)
             else (True, \<lparr>marks = marks st @ [i], marks_cap = next_cap\<rparr>, heap))
      else (True, st\<lparr>marks := marks st @ [i]\<rparr>, heap))"

section \<open>Sixteen bytes at a time\<close>

definition dcc_json_stage1_is_structural :: "char \<Rightarrow> bool" where
  "dcc_json_stage1_is_structural c \<longleftrightarrow> c \<in> set ''{}[]:,''"

definition dcc_json_stage1_interesting_mask_16 :: "string \<Rightarrow> u32" where
  "dcc_json_stage1_interesting_mask_16 data =
     foldl (\<lambda>m i. if dcc_json_stage1_is_structural (data ! i) \<or> data ! i = CHR 0x22 \<or> data ! i = CHR 0x5C
                  then m OR push_bit i 1 else m) 0 [0..<16]"

text \<open>The vector variants: a register is the list of its sixteen bytes, a comparison fills a lane with ones, and
  \<open>movemask\<close> collects the top bits of the lanes.\<close>

definition mm_loadu_si128 :: "string \<Rightarrow> u8 list" where
  "mm_loadu_si128 data = map (\<lambda>c. of_nat (code c)) (take 16 data)"

definition mm_set1_epi8 :: "char \<Rightarrow> u8 list" where
  "mm_set1_epi8 c = replicate 16 (of_nat (code c))"

definition mm_cmpeq_epi8 :: "u8 list \<Rightarrow> u8 list \<Rightarrow> u8 list" where
  "mm_cmpeq_epi8 = map2 (\<lambda>a b. if a = b then 0xFF else 0)"

definition mm_or_si128 :: "u8 list \<Rightarrow> u8 list \<Rightarrow> u8 list" where
  "mm_or_si128 = map2 (OR)"

definition mm_movemask_epi8 :: "u8 list \<Rightarrow> u32" where
  "mm_movemask_epi8 m = foldl (\<lambda>w i. if bit (m ! i) 7 then w OR push_bit i 1 else w) 0 [0..<16]"

definition interesting_lanes :: "string \<Rightarrow> u8 list" where
  "interesting_lanes data =
     (let v = mm_loadu_si128 data;
          m = mm_cmpeq_epi8 v (mm_set1_epi8 (CHR ''{''));
          m = mm_or_si128 m (mm_cmpeq_epi8 v (mm_set1_epi8 (CHR ''}'')));
          m = mm_or_si128 m (mm_cmpeq_epi8 v (mm_set1_epi8 (CHR ''['')));
          m = mm_or_si128 m (mm_cmpeq_epi8 v (mm_set1_epi8 (CHR '']'')));
          m = mm_or_si128 m (mm_cmpeq_epi8 v (mm_set1_epi8 (CHR '':'')));
          m = mm_or_si128 m (mm_cmpeq_epi8 v (mm_set1_epi8 (CHR '','')));
          m = mm_or_si128 m (mm_cmpeq_epi8 v (mm_set1_epi8 (CHR 0x22))) in
      mm_or_si128 m (mm_cmpeq_epi8 v (mm_set1_epi8 (CHR 0x5C))))"

definition interesting_mask_16_sse2 :: "string \<Rightarrow> u32" where
  "interesting_mask_16_sse2 data = mm_movemask_epi8 (interesting_lanes data)"

definition interesting_mask_16_neon :: "string \<Rightarrow> u32" where
  "interesting_mask_16_neon data =
     foldl (\<lambda>m i. if interesting_lanes data ! i \<noteq> 0 then m OR push_bit i 1 else m) 0 [0..<16]"

definition dcc_json_stage1_ctz32 :: "u32 \<Rightarrow> nat" where
  "dcc_json_stage1_ctz32 v = length (takeWhile (\<lambda>i. drop_bit i v AND 1 = 0) [0..<32])"

section \<open>The scan\<close>

text \<open>How many bytes the pass steps over at once: none inside a string, near the end, or at an interesting
  byte.\<close>

definition stage1_skip :: "bool \<Rightarrow> string \<Rightarrow> nat" where
  "stage1_skip in_string p =
     (if \<not> in_string \<and> 16 \<le> length p then
        (let m = dcc_json_stage1_interesting_mask_16 p in
         if m = 0 then 16 else dcc_json_stage1_ctz32 m)
      else 0)"

function (sequential) stage1_loop ::
  "dcc_json_stage1 \<Rightarrow> bool list \<Rightarrow> string \<Rightarrow> nat \<Rightarrow> bool \<Rightarrow> bool \<Rightarrow> dcc_status \<times> dcc_json_stage1 \<times> bool list" where
  "stage1_loop st heap [] i in_string escaped =
     (if in_string \<or> escaped then DCC_ERR_JSON else DCC_OK, st, heap)"
| "stage1_loop st heap (c # p) i in_string escaped =
     (let skip = stage1_skip in_string (c # p) in
      if skip > 0 then stage1_loop st heap (drop skip (c # p)) (i + skip) in_string escaped
      else if in_string then
        if escaped then stage1_loop st heap p (i + 1) True False
        else if c = CHR 0x5C then stage1_loop st heap p (i + 1) True True
        else if c = CHR 0x22 then
          (case dcc_json_stage1_push st heap i of
             (False, st, heap) \<Rightarrow> (DCC_ERR_NOMEM, st, heap)
           | (True, st, heap) \<Rightarrow> stage1_loop st heap p (i + 1) False False)
        else if code c < 0x20 then (DCC_ERR_JSON, st, heap)
        else stage1_loop st heap p (i + 1) True False
      else if c = CHR 0x22 then
        (case dcc_json_stage1_push st heap i of
           (False, st, heap) \<Rightarrow> (DCC_ERR_NOMEM, st, heap)
         | (True, st, heap) \<Rightarrow> stage1_loop st heap p (i + 1) True escaped)
      else if dcc_json_stage1_is_structural c then
        (case dcc_json_stage1_push st heap i of
           (False, st, heap) \<Rightarrow> (DCC_ERR_NOMEM, st, heap)
         | (True, st, heap) \<Rightarrow> stage1_loop st heap p (i + 1) False escaped)
      else stage1_loop st heap p (i + 1) False escaped)"
  by pat_completeness auto
termination
  by (relation "measure (\<lambda>(st, heap, p, i, in_string, escaped). length p)") auto

definition dcc_json_stage1_scan ::
  "bool list \<Rightarrow> string \<Rightarrow> dcc_status \<times> dcc_json_stage1 \<times> bool list" where
  "dcc_json_stage1_scan heap input = stage1_loop stage1_empty heap input 0 False False"

definition dcc_json_stage1_validate :: "bool list \<Rightarrow> string option \<Rightarrow> dcc_status" where
  "dcc_json_stage1_validate heap input =
     (case input of None \<Rightarrow> DCC_ERR_INVALID_ARG | Some s \<Rightarrow> fst (dcc_json_stage1_scan heap s))"

section \<open>Reference: one character at a time\<close>

fun plain_scan :: "nat \<Rightarrow> string \<Rightarrow> bool \<Rightarrow> bool \<Rightarrow> nat list option" where
  "plain_scan i [] in_string escaped = (if in_string \<or> escaped then None else Some [])"
| "plain_scan i (c # p) in_string escaped =
     (if in_string then
        if escaped then plain_scan (i + 1) p True False
        else if c = CHR 0x5C then plain_scan (i + 1) p True True
        else if c = CHR 0x22 then map_option ((#) i) (plain_scan (i + 1) p False False)
        else if code c < 0x20 then None
        else plain_scan (i + 1) p True False
      else if c = CHR 0x22 then map_option ((#) i) (plain_scan (i + 1) p True escaped)
      else if dcc_json_stage1_is_structural c then map_option ((#) i) (plain_scan (i + 1) p False escaped)
      else plain_scan (i + 1) p False escaped)"

section \<open>The mask\<close>

definition dull :: "char \<Rightarrow> bool" where
  "dull c \<longleftrightarrow> \<not> dcc_json_stage1_is_structural c \<and> c \<noteq> CHR 0x22 \<and> c \<noteq> CHR 0x5C"

lemma mask_bits:
  assumes "k < 32"
  shows "bit (dcc_json_stage1_interesting_mask_16 p) k \<longleftrightarrow> k < 16 \<and> \<not> dull (p ! k)"
proof -
  have "bit (foldl (\<lambda>m i. if dcc_json_stage1_is_structural (p ! i) \<or> p ! i = CHR 0x22 \<or> p ! i = CHR 0x5C
      then m OR push_bit i 1 else m) (0 :: u32) [0..<n]) k \<longleftrightarrow> k < n \<and> \<not> dull (p ! k)" if "n \<le> 32" for n
    using that
  proof (induction n)
    case (Suc n)
    then show ?case
      using assms by (auto simp: dull_def bit_simps less_Suc_eq)
  qed simp
  from this [of 16] show ?thesis
    by (simp add: dcc_json_stage1_interesting_mask_16_def)
qed

text \<open>A lane is all ones or zero.\<close>

lemma byte_eq_iff: "(of_nat (code c) :: u8) = of_nat (code d) \<longleftrightarrow> c = d"
proof
  assume "(of_nat (code c) :: u8) = of_nat (code d)"
  then have "unat (of_nat (code c) :: u8) = unat (of_nat (code d) :: u8)" by simp
  then have "code c = code d" by (simp add: unat_of_nat)
  then show "c = d" by simp
qed simp

lemma cmpeq_lane:
  "16 \<le> length data \<Longrightarrow> i < 16 \<Longrightarrow>
     mm_cmpeq_epi8 (mm_loadu_si128 data) (mm_set1_epi8 c) ! i = (if data ! i = c then 0xFF else 0)"
  by (simp add: mm_cmpeq_epi8_def mm_loadu_si128_def mm_set1_epi8_def byte_eq_iff)

lemma cmpeq_length: "16 \<le> length data \<Longrightarrow> length (mm_cmpeq_epi8 (mm_loadu_si128 data) (mm_set1_epi8 c)) = 16"
  by (simp add: mm_cmpeq_epi8_def mm_loadu_si128_def mm_set1_epi8_def)

lemma or_lane: "i < length a \<Longrightarrow> i < length b \<Longrightarrow> mm_or_si128 a b ! i = a ! i OR b ! i"
  and or_length: "length (mm_or_si128 a b) = min (length a) (length b)"
  by (simp_all add: mm_or_si128_def)

lemma interesting_lane:
  assumes "16 \<le> length data" "i < 16"
  shows "interesting_lanes data ! i = (if dull (data ! i) then 0 else 0xFF)"
  using assms
  by (simp add: interesting_lanes_def Let_def or_lane or_length cmpeq_lane cmpeq_length dull_def
      dcc_json_stage1_is_structural_def)

lemma ctz_first:
  assumes "v \<noteq> 0"
  shows "bit v (dcc_json_stage1_ctz32 v) \<and> dcc_json_stage1_ctz32 v < 32
    \<and> (\<forall>j < dcc_json_stage1_ctz32 v. \<not> bit v j)"
proof -
  have bit: "drop_bit j v AND 1 = 0 \<longleftrightarrow> \<not> bit v j" for j
    by (simp add: and_one_eq bit_iff_odd_drop_bit flip: even_iff_mod_2_eq_zero)
  let ?n = "dcc_json_stage1_ctz32 v"
  have "\<exists>k < 32. bit v k"
  proof (rule ccontr)
    assume "\<not> (\<exists>k < 32. bit v k)"
    then have "v = 0"
      by (intro bit_word_eqI) auto
    with assms show False by simp
  qed
  then obtain k where k: "bit v k" "k < 32"
    by blast
  have "?n < 32"
  proof (rule ccontr)
    assume "\<not> ?n < 32"
    then have "takeWhile (\<lambda>i. drop_bit i v AND 1 = 0) [0..<32] = [0..<32]"
      using takeWhile_eq_take [of "\<lambda>i. drop_bit i v AND 1 = 0" "[0..<32]"] by (simp add: dcc_json_stage1_ctz32_def)
    then have "\<forall>i \<in> set [0..<32]. drop_bit i v AND 1 = 0"
      by (simp only: takeWhile_eq_all_conv)
    with k bit show False by simp
  qed
  moreover from this have "\<not> (drop_bit ([0..<32] ! ?n) v AND 1 = 0)"
    unfolding dcc_json_stage1_ctz32_def by (intro nth_length_takeWhile) simp
  moreover have "\<not> bit v j" if "j < ?n" for j
  proof -
    have "[0..<32] ! j \<in> set (takeWhile (\<lambda>i. drop_bit i v AND 1 = 0) [0..<32])"
      using that nth_mem [of j "takeWhile (\<lambda>i. drop_bit i v AND 1 = 0) [0..<32]"]
      by (simp only: dcc_json_stage1_ctz32_def takeWhile_nth)
    then have "drop_bit ([0..<32] ! j) v AND 1 = 0"
      using set_takeWhileD by fastforce
    then show ?thesis
      using that \<open>?n < 32\<close> bit by simp
  qed
  ultimately show ?thesis
    using bit by simp
qed

lemma stage1_skip_dull:
  "stage1_skip in_string p \<le> length p \<and> list_all dull (take (stage1_skip in_string p) p)
    \<and> (0 < stage1_skip in_string p \<longrightarrow> \<not> in_string)"
proof (cases "\<not> in_string \<and> 16 \<le> length p")
  case True
  let ?m = "dcc_json_stage1_interesting_mask_16 p"
  show ?thesis
  proof (cases "?m = 0")
    case zero: True
    then have "dull (p ! k)" if "k < 16" for k
      using that mask_bits [of k p] by simp
    then show ?thesis
      using True zero by (auto simp: stage1_skip_def list_all_length)
  next
    case False
    note ctz = ctz_first [OF False]
    then have "dcc_json_stage1_ctz32 ?m < 16"
      using mask_bits [of "dcc_json_stage1_ctz32 ?m" p] by blast
    moreover have "dull (p ! j)" if "j < dcc_json_stage1_ctz32 ?m" for j
      using that ctz mask_bits [of j p] calculation by auto
    ultimately show ?thesis
      using True False by (auto simp: stage1_skip_def Let_def list_all_length)
  qed
qed (auto simp: stage1_skip_def)

lemma plain_scan_dull:
  "list_all dull u \<Longrightarrow> plain_scan i (u @ p) False escaped = plain_scan (i + length u) p False escaped"
  by (induction u arbitrary: i) (auto simp: dull_def)

section \<open>The pass computes the reference\<close>

lemma stage1_push_marks:
  "dcc_json_stage1_push st heap i = (True, st', heap') \<Longrightarrow> marks st' = marks st @ [i]"
  by (auto simp: dcc_json_stage1_push_def Let_def split: if_splits option.splits prod.splits)

lemma stage1_push_succeeds:
  assumes "length (marks st) \<le> marks_cap st" "length (marks st) \<le> 2 ^ 58"
  shows "\<exists>st'. dcc_json_stage1_push st [] i = (True, st', []) \<and> marks st' = marks st @ [i]
    \<and> length (marks st') \<le> marks_cap st'"
  using assms next_cap_some [of "marks_cap st" 128 8]
  by (auto simp: dcc_json_stage1_push_def alloc_next_def Let_def)

lemma plain_scan_skip:
  assumes "stage1_skip in_string p = n" "0 < n"
  shows "plain_scan i p in_string escaped = plain_scan (i + n) (drop n p) in_string escaped"
proof -
  have "\<not> in_string" "n \<le> length p" "list_all dull (take n p)"
    using stage1_skip_dull [of in_string p] assms by auto
  then show ?thesis
    using plain_scan_dull [of "take n p" i "drop n p" escaped] by simp
qed

definition scan_agrees :: "dcc_json_stage1 \<Rightarrow> nat list option \<Rightarrow> dcc_status \<times> dcc_json_stage1 \<times> bool list \<Rightarrow> bool" where
  "scan_agrees st ref res \<longleftrightarrow>
     (case res of (status, st', heap') \<Rightarrow>
        status = DCC_OK \<and> map_option ((@) (marks st)) ref = Some (marks st')
        \<or> status = DCC_ERR_JSON \<and> ref = None \<or> status = DCC_ERR_NOMEM)"

lemma scan_agrees_push:
  assumes "dcc_json_stage1_push st heap i = (True, st', heap')" "scan_agrees st' ref res"
  shows "scan_agrees st (map_option ((#) i) ref) res"
  using assms(2) stage1_push_marks [OF assms(1)] by (cases ref) (auto simp: scan_agrees_def split: prod.splits)

lemma scan_agrees_fail: "scan_agrees st None (DCC_ERR_JSON, st', heap)" "scan_agrees st ref (DCC_ERR_NOMEM, st', heap)"
  by (simp_all add: scan_agrees_def)

lemma stage1_loop_agrees:
  "scan_agrees st (plain_scan i p in_string escaped) (stage1_loop st heap p i in_string escaped)"
proof (induction p arbitrary: st heap i in_string escaped rule: length_induct)
  case (1 q)
  show ?case
  proof (cases q)
    case Nil
    then show ?thesis by (simp add: scan_agrees_def)
  next
    case (Cons c p)
    have IH: "scan_agrees st (plain_scan j p' ins esc) (stage1_loop st heap p' j ins esc)"
      if "length p' < length q" for st heap p' j ins esc
      using 1 that by blast
    let ?n = "stage1_skip in_string (c # p)"
    show ?thesis
    proof (cases "0 < ?n")
      case True
      then show ?thesis
        using IH [of "drop ?n (c # p)" st "i + ?n" in_string escaped heap] Cons
        by (simp only: stage1_loop.simps(2) Let_def if_True plain_scan_skip [OF refl True, of i escaped]) simp
    next
      case False
      then show ?thesis
        using Cons IH [of p]
        by (simp add: Let_def scan_agrees_fail scan_agrees_push split: prod.split bool.split)
    qed
  qed
qed

lemma stage1_loop_memory:
  assumes "length (marks st) \<le> marks_cap st" "length (marks st) + length p \<le> 2 ^ 58"
  shows "fst (stage1_loop st [] p i in_string escaped) \<noteq> DCC_ERR_NOMEM
    \<and> snd (snd (stage1_loop st [] p i in_string escaped)) = []"
  using assms
proof (induction p arbitrary: st i in_string escaped rule: length_induct)
  case (1 q)
  show ?case
  proof (cases q)
    case (Cons c p)
    have IH: "fst (stage1_loop st' [] p' j ins esc) \<noteq> DCC_ERR_NOMEM \<and> snd (snd (stage1_loop st' [] p' j ins esc)) = []"
      if "length p' < length q" "length (marks st') \<le> marks_cap st'" "length (marks st') + length p' \<le> 2 ^ 58"
      for st' p' j ins esc
      using 1 that by blast
    let ?n = "stage1_skip in_string (c # p)"
    show ?thesis
    proof (cases "0 < ?n")
      case True
      then show ?thesis
        using IH [of "drop ?n (c # p)" st] "1.prems" Cons
        by (simp only: stage1_loop.simps(2) Let_def if_True) simp
    next
      case False
      obtain st' where push: "dcc_json_stage1_push st [] i = (True, st', [])" "marks st' = marks st @ [i]"
        "length (marks st') \<le> marks_cap st'"
        using stage1_push_succeeds [of st i] "1.prems" by auto
      show ?thesis
        using False IH [of p st] IH [of p st'] push "1.prems" Cons by (simp add: Let_def)
    qed
  qed simp
qed

lemma stage1_scan_cases:
  "dcc_json_stage1_scan heap input = (DCC_OK, st, heap') \<Longrightarrow> plain_scan 0 input False False = Some (marks st)"
  "dcc_json_stage1_scan heap input = (DCC_ERR_JSON, st, heap') \<Longrightarrow> plain_scan 0 input False False = None"
  using stage1_loop_agrees [of stage1_empty 0 input False False heap]
  by (auto simp: dcc_json_stage1_scan_def scan_agrees_def stage1_empty_def)

lemma stage1_scan_memory:
  assumes "length input \<le> 2 ^ 58"
  shows "\<exists>status st. dcc_json_stage1_scan [] input = (status, st, []) \<and> status \<in> {DCC_OK, DCC_ERR_JSON}"
  using stage1_loop_memory [of stage1_empty input 0 False False] assms
    stage1_loop_agrees [of stage1_empty 0 input False False "[]"]
  by (cases "stage1_loop stage1_empty [] input 0 False False")
    (auto simp: dcc_json_stage1_scan_def scan_agrees_def stage1_empty_def)

section \<open>Properties\<close>

text \<open>
  C28. The mask that says which of sixteen bytes the first pass has to look at is the same in every build: the
  SSE2 and the NEON computation on vector lanes give, on any sixteen bytes, what the portable loop gives.
\<close>

theorem json_stage1_vector_masks:
  assumes "16 \<le> length data"
  shows "interesting_mask_16_sse2 data = dcc_json_stage1_interesting_mask_16 data
    \<and> interesting_mask_16_neon data = dcc_json_stage1_interesting_mask_16 data"
proof -
  have lane: "bit (interesting_lanes data ! i) 7 \<longleftrightarrow> \<not> dull (data ! i)" "interesting_lanes data ! i \<noteq> 0 \<longleftrightarrow> \<not> dull (data ! i)"
    if "i < 16" for i
    by (simp_all add: interesting_lane [OF assms that])
  show ?thesis
    unfolding interesting_mask_16_sse2_def mm_movemask_epi8_def interesting_mask_16_neon_def
      dcc_json_stage1_interesting_mask_16_def
    by (intro conjI foldl_cong) (auto simp: lane dull_def)
qed

theorem json_stage1_vector_masks_witness:
  "16 \<le> length ''{x:[1, 2, true]}'' \<and> interesting_mask_16_sse2 ''{x:[1, 2, true]}'' = 0xC12D"
proof -
  have "dcc_json_stage1_interesting_mask_16 ''{x:[1, 2, true]}'' = 0xC12D" by code_simp
  then show ?thesis using json_stage1_vector_masks [of "''{x:[1, 2, true]}''"] by simp
qed

end
