(* ===== verification/DCC_Json_Dom.thy ===== *)
theory DCC_Json_Dom
  imports DCC_Json_Stage1
begin

text \<open>
  The JSON document: the recursive-descent parser of \<^verbatim>\<open>src/json/dcc_json_dom.c\<close>, \<^verbatim>\<open>dcc_json_dom_value.c\<close>,
  \<^verbatim>\<open>dcc_json_dom_array.c\<close> and \<^verbatim>\<open>dcc_json_dom_object.c\<close>, the accessors of \<^verbatim>\<open>dcc_json_accessors.c\<close>, and the
  grammar that they are compared with.

  A parser is the text from the cursor on with the arena and the allocator's answers to come. Every
  allocation of the source is made, in its order, so that a failure of any of them is a branch of the
  model; the value itself is a datatype, since nothing of a document is shared or changed after it is
  built. The recursion is as deep as the text is nested: the source has no limit, and the model none.
\<close>

section \<open>Values and the parser\<close>

datatype dcc_json =
    DCC_JSON_NULL
  | DCC_JSON_BOOL bool
  | DCC_JSON_NUMBER string
  | DCC_JSON_STRING string
  | DCC_JSON_ARRAY "dcc_json list"
  | DCC_JSON_OBJECT "(string \<times> dcc_json) list"

record dcc_json_parser =
  cur :: string
  doc_arena :: dcc_json_arena
  heap :: "bool list"

type_synonym json_result = "(dcc_status + dcc_json) \<times> dcc_json_parser"

definition parser_alloc :: "dcc_json_parser \<Rightarrow> nat \<Rightarrow> bool \<times> dcc_json_parser" where
  "parser_alloc p n =
     (case dcc_json_arena_alloc (doc_arena p) (heap p) (of_nat n) of
        (ptr, a, h) \<Rightarrow> (ptr \<noteq> None, p\<lparr>doc_arena := a, heap := h\<rparr>))"

definition sizeof_json :: nat where
  "sizeof_json = 40"

definition dcc_json_new :: "dcc_json_parser \<Rightarrow> bool \<times> dcc_json_parser" where
  "dcc_json_new p = parser_alloc p sizeof_json"

text \<open>The vectors of array items and object entries, which differ in the size of an element.\<close>

definition json_push :: "nat \<Rightarrow> dcc_json_parser \<Rightarrow> nat \<Rightarrow> 'a list \<Rightarrow> 'a \<Rightarrow> (nat \<times> 'a list) option \<times> dcc_json_parser" where
  "json_push elem_size p cap items item =
     (if length items = cap then
        (case dcc_json_next_cap cap 4 elem_size of
           None \<Rightarrow> (None, p)
         | Some next_cap \<Rightarrow>
             (case parser_alloc p (next_cap * elem_size) of
                (False, p) \<Rightarrow> (None, p)
              | (True, p) \<Rightarrow> (Some (next_cap, items @ [item]), p)))
      else (Some (cap, items @ [item]), p))"

definition dcc_json_array_push :: "dcc_json_parser \<Rightarrow> nat \<Rightarrow> dcc_json list \<Rightarrow> dcc_json \<Rightarrow> (nat \<times> dcc_json list) option \<times> dcc_json_parser" where
  "dcc_json_array_push = json_push 8"

definition dcc_json_object_push ::
  "dcc_json_parser \<Rightarrow> nat \<Rightarrow> (string \<times> dcc_json) list \<Rightarrow> string \<times> dcc_json
     \<Rightarrow> (nat \<times> (string \<times> dcc_json) list) option \<times> dcc_json_parser" where
  "dcc_json_object_push = json_push 16"

definition dcc_json_parse_string_arena :: "dcc_json_parser \<Rightarrow> string option \<times> dcc_json_parser" where
  "dcc_json_parse_string_arena p =
     (case dcc_json_find_string_end (cur p) of
        None \<Rightarrow> (None, p)
      | Some (raw, r, escaped) \<Rightarrow>
          if length raw = SIZE_MAX then (None, p)
          else case parser_alloc p (length raw + 1) of
            (False, p) \<Rightarrow> (None, p)
          | (True, p) \<Rightarrow>
              (case (if \<not> escaped then Some raw else dcc_json_decode_string_span raw (length raw + 1)) of
                 None \<Rightarrow> (None, p)
               | Some s \<Rightarrow> (Some s, p\<lparr>cur := tl r\<rparr>)))"

definition dcc_json_parse_number :: "dcc_json_parser \<Rightarrow> json_result" where
  "dcc_json_parse_number p =
     (case dcc_json_parse_number_span (cur p) of
        Inl status \<Rightarrow> (Inl status, p)
      | Inr (t, integer, r) \<Rightarrow>
          (case dcc_json_new (p\<lparr>cur := r\<rparr>) of
             (False, p) \<Rightarrow> (Inl DCC_ERR_NOMEM, p)
           | (True, p) \<Rightarrow>
               if length t = SIZE_MAX then (Inl DCC_ERR_NOMEM, p)
               else case parser_alloc p (length t + 1) of
                 (False, p) \<Rightarrow> (Inl DCC_ERR_NOMEM, p)
               | (True, p) \<Rightarrow> (Inr (DCC_JSON_NUMBER t), p)))"

definition json_parse_literal :: "dcc_json_parser \<Rightarrow> string \<Rightarrow> dcc_json \<Rightarrow> json_result" where
  "json_parse_literal p literal v =
     (case dcc_json_match_literal (cur p) literal of
        None \<Rightarrow> (Inl DCC_ERR_JSON, p)
      | Some r \<Rightarrow>
          (case dcc_json_new (p\<lparr>cur := r\<rparr>) of
             (False, p) \<Rightarrow> (Inl DCC_ERR_NOMEM, p)
           | (True, p) \<Rightarrow> (Inr v, p)))"

definition json_parse_string_value :: "dcc_json_parser \<Rightarrow> json_result" where
  "json_parse_string_value p =
     (case dcc_json_new p of
        (False, p) \<Rightarrow> (Inl DCC_ERR_NOMEM, p)
      | (True, p) \<Rightarrow>
          (case dcc_json_parse_string_arena p of
             (None, p) \<Rightarrow> (Inl DCC_ERR_JSON, p)
           | (Some s, p) \<Rightarrow> (Inr (DCC_JSON_STRING s), p)))"

text \<open>The values of \<open>dcc_json_parse_value\<close> that are not arrays or objects, by their first character.\<close>

definition json_parse_scalar :: "dcc_json_parser \<Rightarrow> char \<Rightarrow> json_result" where
  "json_parse_scalar p c =
     (if c = CHR 0x22 then json_parse_string_value p
      else if c = CHR ''-'' \<or> is_digit c then dcc_json_parse_number p
      else if c = CHR ''t'' then json_parse_literal p ''true'' (DCC_JSON_BOOL True)
      else if c = CHR ''f'' then json_parse_literal p ''false'' (DCC_JSON_BOOL False)
      else if c = CHR ''n'' then json_parse_literal p ''null'' DCC_JSON_NULL
      else (Inl DCC_ERR_JSON, p))"

definition parser_skip_ws :: "dcc_json_parser \<Rightarrow> dcc_json_parser" where
  "parser_skip_ws p = p\<lparr>cur := dcc_json_skip_ws (cur p)\<rparr>"

text \<open>The start that arrays and objects share, with the cursor on the opening bracket: the value is
  allocated, and the closing bracket may follow at once (\<open>Inr True\<close>).\<close>

definition json_begin :: "char \<Rightarrow> dcc_json_parser \<Rightarrow> (dcc_status + bool) \<times> dcc_json_parser" where
  "json_begin close p =
     (case dcc_json_new (p\<lparr>cur := tl (cur p)\<rparr>) of
        (False, p) \<Rightarrow> (Inl DCC_ERR_NOMEM, p)
      | (True, p) \<Rightarrow>
          let p = parser_skip_ws p in
          if next_is (\<lambda>c. c = close) (cur p) then (Inr True, p\<lparr>cur := tl (cur p)\<rparr>) else (Inr False, p))"

text \<open>The end of a round of their loops: the closing bracket (\<open>Inr True\<close>), or a comma and the space behind it.\<close>

definition json_separator :: "char \<Rightarrow> dcc_json_parser \<Rightarrow> (dcc_status + bool) \<times> dcc_json_parser" where
  "json_separator close p =
     (let p = parser_skip_ws p in
      case cur p of
        [] \<Rightarrow> (Inl DCC_ERR_JSON, p)
      | c # r \<Rightarrow>
          if c = close then (Inr True, p\<lparr>cur := r\<rparr>)
          else if c \<noteq> CHR '','' then (Inl DCC_ERR_JSON, p)
          else (Inr False, parser_skip_ws (p\<lparr>cur := r\<rparr>)))"

text \<open>The key of an object's entry and the colon.\<close>

definition json_key :: "dcc_json_parser \<Rightarrow> string option \<times> dcc_json_parser" where
  "json_key p =
     (case dcc_json_parse_string_arena p of
        (None, p) \<Rightarrow> (None, p)
      | (Some key, p) \<Rightarrow>
          let p = parser_skip_ws p in
          if \<not> next_is (\<lambda>c. c = CHR '':'') (cur p) then (None, p) else (Some key, p\<lparr>cur := tl (cur p)\<rparr>))"

section \<open>The cursor only advances\<close>

lemma parser_alloc_cur: "parser_alloc p n = (ok, p') \<Longrightarrow> cur p' = cur p"
  by (auto simp: parser_alloc_def split: prod.splits)

lemma json_new_cur: "dcc_json_new p = (ok, p') \<Longrightarrow> cur p' = cur p"
  by (simp add: dcc_json_new_def parser_alloc_cur)

lemma json_push_cur: "json_push n p cap items item = (res, p') \<Longrightarrow> cur p' = cur p"
  by (auto simp: json_push_def split: option.splits prod.splits bool.splits if_splits dest: parser_alloc_cur)

lemma skip_ws_cur_length: "length (cur (parser_skip_ws p)) \<le> length (cur p)"
  by (simp add: parser_skip_ws_def skip_ws_length)

lemma string_arena_length: "dcc_json_parse_string_arena p = (res, p') \<Longrightarrow> length (cur p') \<le> length (cur p)"
  by (auto simp: dcc_json_parse_string_arena_def find_string_end_iff
      split: option.splits prod.splits bool.splits if_splits dest!: parser_alloc_cur)

lemma json_scalar_length:
  assumes "json_parse_scalar p c = (res, p')"
  shows "length (cur p') \<le> length (cur p)"
proof -
  have "json_parse_string_value p = (res, p') \<Longrightarrow> ?thesis" "dcc_json_parse_number p = (res, p') \<Longrightarrow> ?thesis"
    "json_parse_literal p l v = (res, p') \<Longrightarrow> ?thesis" for l v
    by (auto simp: json_parse_string_value_def dcc_json_parse_number_def json_parse_literal_def number_span_iff
        match_literal_iff split: option.splits prod.splits bool.splits if_splits sum.splits
        dest!: json_new_cur string_arena_length parser_alloc_cur)
  with assms show ?thesis
    unfolding json_parse_scalar_def by (metis order_refl prod.inject)
qed

lemma json_begin_length:
  assumes "json_begin close p = (res, p')" "cur p \<noteq> []"
  shows "length (cur p') < length (cur p)"
proof -
  obtain ok p1 where new: "dcc_json_new (p\<lparr>cur := tl (cur p)\<rparr>) = (ok, p1)"
    by (metis surj_pair)
  then have "length (cur p1) < length (cur p)"
    using json_new_cur assms(2) by fastforce
  with assms(1) new skip_ws_cur_length [of p1] show ?thesis
    by (auto simp: json_begin_def Let_def split: bool.splits if_splits)
qed

lemma json_separator_length:
  assumes "json_separator close p = (res, p')"
  shows "length (cur p') \<le> length (cur p)" "res = Inr b \<Longrightarrow> length (cur p') < length (cur p)"
proof -
  have *: "length (cur (parser_skip_ws (parser_skip_ws p\<lparr>cur := r\<rparr>))) \<le> length r" for r
    using skip_ws_cur_length [of "parser_skip_ws p\<lparr>cur := r\<rparr>"] by simp
  have step: "length (cur p') \<le> length (cur p) \<and> (\<forall>b. res = Inr b \<longrightarrow> length (cur p') < length (cur p))"
  proof (cases "cur (parser_skip_ws p)")
    case Nil
    with assms show ?thesis by (auto simp: json_separator_def)
  next
    case (Cons c r)
    with skip_ws_cur_length [of p] have "Suc (length r) \<le> length (cur p)"
      by simp
    with assms Cons * [of r] show ?thesis
      by (auto simp: json_separator_def Let_def split: if_splits)
  qed
  then show "length (cur p') \<le> length (cur p)" "res = Inr b \<Longrightarrow> length (cur p') < length (cur p)"
    by blast+
qed

lemma json_key_length:
  assumes "json_key p = (res, p')"
  shows "length (cur p') \<le> length (cur p)"
proof -
  obtain key p1 where key: "dcc_json_parse_string_arena p = (key, p1)"
    by (metis surj_pair)
  then have "length (cur p1) \<le> length (cur p)" "length (cur (parser_skip_ws p1)) \<le> length (cur p)"
    using string_arena_length skip_ws_cur_length [of p1] by (fastforce dest: order_trans)+
  with assms key show ?thesis
    by (auto simp: json_key_def Let_def split: option.splits if_splits)
qed

section \<open>The recursive parser\<close>

text \<open>\<open>dcc_json_parse_array\<close> and \<open>dcc_json_parse_object\<close> are called with the cursor on the bracket; with no
  text left, which no caller has, they fail. The loops carry what the array or object holds so far with
  the capacity of its vector.\<close>

function dcc_json_parse_value :: "dcc_json_parser \<Rightarrow> json_result"
  and dcc_json_parse_array :: "dcc_json_parser \<Rightarrow> json_result"
  and json_array_loop :: "dcc_json_parser \<Rightarrow> nat \<Rightarrow> dcc_json list \<Rightarrow> json_result"
  and dcc_json_parse_object :: "dcc_json_parser \<Rightarrow> json_result"
  and json_object_loop :: "dcc_json_parser \<Rightarrow> nat \<Rightarrow> (string \<times> dcc_json) list \<Rightarrow> json_result"
where
  "dcc_json_parse_value q =
     (let p = parser_skip_ws q in
      case cur p of
        [] \<Rightarrow> (Inl DCC_ERR_JSON, p)
      | c # _ \<Rightarrow>
          if c = CHR ''{'' then dcc_json_parse_object p
          else if c = CHR ''['' then dcc_json_parse_array p
          else json_parse_scalar p c)"
| "dcc_json_parse_array q =
     (if cur q = [] then (Inl DCC_ERR_JSON, q)
      else case json_begin (CHR '']'') q of
        (Inl status, p) \<Rightarrow> (Inl status, p)
      | (Inr closed, p) \<Rightarrow> if closed then (Inr (DCC_JSON_ARRAY []), p) else json_array_loop p 0 [])"
| "json_array_loop q cap items =
     (case dcc_json_parse_value q of
        (Inl status, p) \<Rightarrow> (Inl status, p)
      | (Inr item, p1) \<Rightarrow>
          (case dcc_json_array_push p1 cap items item of
             (None, p) \<Rightarrow> (Inl DCC_ERR_NOMEM, p)
           | (Some (cap', items'), p2) \<Rightarrow>
               (case json_separator (CHR '']'') p2 of
                  (Inl status, p) \<Rightarrow> (Inl status, p)
                | (Inr closed, p) \<Rightarrow>
                    if closed then (Inr (DCC_JSON_ARRAY items'), p) else json_array_loop p cap' items')))"
| "dcc_json_parse_object q =
     (if cur q = [] then (Inl DCC_ERR_JSON, q)
      else case json_begin (CHR ''}'') q of
        (Inl status, p) \<Rightarrow> (Inl status, p)
      | (Inr closed, p) \<Rightarrow> if closed then (Inr (DCC_JSON_OBJECT []), p) else json_object_loop p 0 [])"
| "json_object_loop q cap entries =
     (case json_key q of
        (None, p) \<Rightarrow> (Inl DCC_ERR_JSON, p)
      | (Some key, p1) \<Rightarrow>
          (case dcc_json_parse_value p1 of
             (Inl status, p) \<Rightarrow> (Inl status, p)
           | (Inr v, p2) \<Rightarrow>
               (case dcc_json_object_push p2 cap entries (key, v) of
                  (None, p) \<Rightarrow> (Inl DCC_ERR_NOMEM, p)
                | (Some (cap', entries'), p3) \<Rightarrow>
                    (case json_separator (CHR ''}'') p3 of
                       (Inl status, p) \<Rightarrow> (Inl status, p)
                     | (Inr closed, p) \<Rightarrow>
                         if closed then (Inr (DCC_JSON_OBJECT entries'), p)
                         else json_object_loop p cap' entries'))))"
  by pat_completeness auto

text \<open>The recursion ends: a value leaves no more text than it found, and every round of a loop takes a
  character.\<close>

lemmas json_parse_pinduct =
  dcc_json_parse_value_dcc_json_parse_array_json_array_loop_dcc_json_parse_object_json_object_loop.pinduct

abbreviation json_parse_dom where
  "json_parse_dom \<equiv> dcc_json_parse_value_dcc_json_parse_array_json_array_loop_dcc_json_parse_object_json_object_loop_dom"

lemma json_parse_shrinks:
  "json_parse_dom (Inl (Inl q1)) \<Longrightarrow> length (cur (snd (dcc_json_parse_value q1))) \<le> length (cur q1)"
  "json_parse_dom (Inl (Inr q2)) \<Longrightarrow> length (cur (snd (dcc_json_parse_array q2))) \<le> length (cur q2)"
  "json_parse_dom (Inr (Inl (q3, cap3, items))) \<Longrightarrow> length (cur (snd (json_array_loop q3 cap3 items))) \<le> length (cur q3)"
  "json_parse_dom (Inr (Inr (Inl q4))) \<Longrightarrow> length (cur (snd (dcc_json_parse_object q4))) \<le> length (cur q4)"
  "json_parse_dom (Inr (Inr (Inr (q5, cap5, entries)))) \<Longrightarrow> length (cur (snd (json_object_loop q5 cap5 entries))) \<le> length (cur q5)"
proof (induction q1 and q2 and q3 cap3 items and q4 and q5 cap5 entries rule: json_parse_pinduct)
  case (1 q)
  have "length (cur (snd (json_parse_scalar (parser_skip_ws q) c))) \<le> length (cur (parser_skip_ws q))" for c
    by (metis json_scalar_length prod.collapse)
  then have "length (cur (snd (dcc_json_parse_value q))) \<le> length (cur (parser_skip_ws q))"
    using 1 by (auto simp: dcc_json_parse_value.psimps Let_def split: list.split)
  then show ?case
    using skip_ws_cur_length [of q] by (rule order_trans)
next
  case (2 q)
  then show ?case
    using json_begin_length [of "CHR '']''" q]
    by (fastforce simp: dcc_json_parse_array.psimps split: prod.split sum.split)
next
  case (3 q cap items)
  then show ?case
    by (fastforce simp: json_array_loop.psimps dcc_json_array_push_def split: prod.split sum.split option.split
        dest: json_push_cur json_separator_length)
next
  case (4 q)
  then show ?case
    using json_begin_length [of "CHR ''}''" q]
    by (fastforce simp: dcc_json_parse_object.psimps split: prod.split sum.split)
next
  case (5 q cap entries)
  then show ?case
    by (fastforce simp: json_object_loop.psimps dcc_json_object_push_def split: prod.split sum.split option.split
        dest: json_key_length json_push_cur json_separator_length)
qed


definition json_rank :: "(dcc_json_parser + dcc_json_parser) + (dcc_json_parser \<times> nat \<times> dcc_json list)
    + dcc_json_parser + (dcc_json_parser \<times> nat \<times> (string \<times> dcc_json) list) \<Rightarrow> nat \<times> nat" where
  "json_rank x =
     (case x of
        Inl (Inl q) \<Rightarrow> (length (cur q), 1)
      | Inl (Inr q) \<Rightarrow> (length (cur q), 0)
      | Inr (Inl (q, _)) \<Rightarrow> (length (cur q), 2)
      | Inr (Inr (Inl q)) \<Rightarrow> (length (cur q), 0)
      | Inr (Inr (Inr (q, _))) \<Rightarrow> (length (cur q), 2))"

lemma json_round_shorter:
  assumes "(Inr v, p1) = dcc_json_parse_value q" "json_parse_dom (Inl (Inl q))"
    and "(res, p2) = json_push n p1 cap items item" "(Inr b, p3) = json_separator close p2"
  shows "length (cur p3) < length (cur q)"
proof -
  have "length (cur p1) \<le> length (cur q)"
    using json_parse_shrinks(1) [OF assms(2)] assms(1) by (metis snd_conv)
  moreover have "length (cur p3) < length (cur p2)"
    using json_separator_length(2) [OF assms(4) [symmetric] refl] .
  ultimately show ?thesis
    using json_push_cur [OF assms(3) [symmetric]] by simp
qed

lemma skip_ws_Cons_length: "cur (parser_skip_ws q) = c # r \<Longrightarrow> Suc (length r) \<le> length (cur q)"
  using skip_ws_cur_length [of q] by simp

termination dcc_json_parse_value
  by (relation "measures [fst \<circ> json_rank, snd \<circ> json_rank]")
    (auto simp: json_rank_def dcc_json_array_push_def dcc_json_object_push_def order_le_less
       dest: json_begin_length [OF sym] json_round_shorter json_key_length [OF sym] less_le_trans skip_ws_Cons_length)

declare dcc_json_parse_value.simps [simp del] dcc_json_parse_array.simps [simp del] json_array_loop.simps [simp del]
  dcc_json_parse_object.simps [simp del] json_object_loop.simps [simp del]

section \<open>Documents\<close>

text \<open>\<open>dcc_json_parse\<close> with the allocator's answers; the result is the status and the document.\<close>

definition dcc_json_parse :: "bool list \<Rightarrow> string option \<Rightarrow> dcc_status \<times> dcc_json option" where
  "dcc_json_parse hp input =
     (case input of
        None \<Rightarrow> (DCC_ERR_INVALID_ARG, None)
      | Some s \<Rightarrow>
          (case alloc_next hp of
             (False, hp) \<Rightarrow> (DCC_ERR_NOMEM, None)
           | (True, hp) \<Rightarrow>
               (case dcc_json_stage1_scan hp s of
                  (status, st, hp) \<Rightarrow>
                    if status \<noteq> DCC_OK then (status, None)
                    else
                      (case dcc_json_parse_value \<lparr>cur = s, doc_arena = [], heap = hp\<rparr> of
                         (Inl status, p) \<Rightarrow> (status, None)
                       | (Inr v, p) \<Rightarrow>
                           if cur (parser_skip_ws p) \<noteq> [] then (DCC_ERR_JSON, None) else (DCC_OK, Some v)))))"

section \<open>Accessors\<close>

datatype dcc_json_type = TYPE_NULL | TYPE_BOOL | TYPE_NUMBER | TYPE_STRING | TYPE_ARRAY | TYPE_OBJECT

definition dcc_json_typeof :: "dcc_json option \<Rightarrow> dcc_json_type" where
  "dcc_json_typeof j =
     (case j of
        None \<Rightarrow> TYPE_NULL
      | Some v \<Rightarrow>
          (case v of
             DCC_JSON_NULL \<Rightarrow> TYPE_NULL | DCC_JSON_BOOL _ \<Rightarrow> TYPE_BOOL | DCC_JSON_NUMBER _ \<Rightarrow> TYPE_NUMBER
           | DCC_JSON_STRING _ \<Rightarrow> TYPE_STRING | DCC_JSON_ARRAY _ \<Rightarrow> TYPE_ARRAY | DCC_JSON_OBJECT _ \<Rightarrow> TYPE_OBJECT))"

text \<open>The loop of \<open>dcc_json_object_get\<close>: \<open>strcmp\<close> compares up to the first NUL.\<close>

fun json_entries_find :: "string \<Rightarrow> (string \<times> dcc_json) list \<Rightarrow> dcc_json option" where
  "json_entries_find key [] = None"
| "json_entries_find key ((k, v) # es) = (if c_string k = key then Some v else json_entries_find key es)"

definition dcc_json_object_get :: "dcc_json option \<Rightarrow> string option \<Rightarrow> dcc_json option" where
  "dcc_json_object_get j key =
     (case (j, key) of
        (Some (DCC_JSON_OBJECT es), Some k) \<Rightarrow> json_entries_find k es
      | _ \<Rightarrow> None)"

definition dcc_json_array_get :: "dcc_json option \<Rightarrow> nat \<Rightarrow> dcc_json option" where
  "dcc_json_array_get j i =
     (case j of Some (DCC_JSON_ARRAY vs) \<Rightarrow> if i \<ge> length vs then None else Some (vs ! i) | _ \<Rightarrow> None)"

definition dcc_json_array_size :: "dcc_json option \<Rightarrow> nat" where
  "dcc_json_array_size j = (case j of Some (DCC_JSON_ARRAY vs) \<Rightarrow> length vs | _ \<Rightarrow> 0)"

definition dcc_json_string :: "dcc_json option \<Rightarrow> string option" where
  "dcc_json_string j = (case j of Some (DCC_JSON_STRING s) \<Rightarrow> Some (c_string s) | _ \<Rightarrow> None)"

definition dcc_json_bool :: "dcc_json option \<Rightarrow> bool option" where
  "dcc_json_bool j = (case j of Some (DCC_JSON_BOOL b) \<Rightarrow> Some b | _ \<Rightarrow> None)"

definition dcc_json_i64 :: "dcc_json option \<Rightarrow> int option" where
  "dcc_json_i64 j = (case j of Some (DCC_JSON_NUMBER t) \<Rightarrow> dcc_json_parse_i64_ascii t | _ \<Rightarrow> None)"

definition dcc_json_u64 :: "dcc_json option \<Rightarrow> u64 option" where
  "dcc_json_u64 j =
     (case j of
        Some (DCC_JSON_NUMBER t) \<Rightarrow> if next_is (\<lambda>c. c = CHR ''-'') t then None else dcc_json_parse_u64_ascii t
      | _ \<Rightarrow> None)"

section \<open>Reference: the grammar of values\<close>

text \<open>
  The grammar of JSON texts, with the value a text denotes: a string is the UTF-8 encoding of its
  characters, a number its own text, and objects keep all their members in order. White space may stand
  around every token; with \<open>tight\<close> there is none between a comma and the key that follows it.
\<close>

inductive json_value :: "bool \<Rightarrow> dcc_json \<Rightarrow> string \<Rightarrow> bool"
  and json_elements :: "bool \<Rightarrow> dcc_json list \<Rightarrow> string \<Rightarrow> bool"
  and json_members :: "bool \<Rightarrow> (string \<times> dcc_json) list \<Rightarrow> string \<Rightarrow> bool"
  for tight :: bool where
  Null: "json_value tight DCC_JSON_NULL ''null''"
| TrueValue: "json_value tight (DCC_JSON_BOOL True) ''true''"
| FalseValue: "json_value tight (DCC_JSON_BOOL False) ''false''"
| Number: "json_value tight (DCC_JSON_NUMBER t) t" if "json_number t i"
| String: "json_value tight (DCC_JSON_STRING (utf8s cps)) (CHR 0x22 # raw @ [CHR 0x22])" if "json_chars cps raw"
| EmptyArray: "json_value tight (DCC_JSON_ARRAY []) (CHR ''['' # w @ '']'')" if "list_all json_ws w"
| Array: "json_value tight (DCC_JSON_ARRAY vs) (CHR ''['' # w @ t @ '']'')"
    if "list_all json_ws w" "json_elements tight vs t"
| EmptyObject: "json_value tight (DCC_JSON_OBJECT []) (CHR ''{'' # w @ ''}'')" if "list_all json_ws w"
| Object: "json_value tight (DCC_JSON_OBJECT es) (CHR ''{'' # w @ t @ ''}'')"
    if "list_all json_ws w" "json_members tight es t"
| LastElement: "json_elements tight [v] (t @ w)" if "json_value tight v t" "list_all json_ws w"
| Element: "json_elements tight (v # vs) (t @ w @ CHR '','' # w' @ u)"
    if "json_value tight v t" "list_all json_ws w" "list_all json_ws w'" "json_elements tight vs u"
| LastMember: "json_members tight [(utf8s cps, v)]
      (CHR 0x22 # raw @ CHR 0x22 # w1 @ CHR '':'' # w2 @ t @ w)"
    if "json_chars cps raw" "list_all json_ws w1" "list_all json_ws w2" "json_value tight v t" "list_all json_ws w"
| Member: "json_members tight ((utf8s cps, v) # es)
      (CHR 0x22 # raw @ CHR 0x22 # w1 @ CHR '':'' # w2 @ t @ w @ CHR '','' # w' @ u)"
    if "json_chars cps raw" "list_all json_ws w1" "list_all json_ws w2" "json_value tight v t" "list_all json_ws w"
      "list_all json_ws w'" "tight \<longrightarrow> w' = []" "json_members tight es u"

text \<open>A whole document.\<close>

definition json_text :: "dcc_json \<Rightarrow> string \<Rightarrow> bool" where
  "json_text v s \<longleftrightarrow>
     (\<exists>w t w'. s = w @ t @ w' \<and> list_all json_ws w \<and> list_all json_ws w' \<and> json_value False v t)"

end
