(* ===== verification/DCC_Json_Grammar.thy ===== *)
theory DCC_Json_Grammar
  imports DCC_Json_Dom
begin

text \<open>
  The JSON parser and the grammar: whatever the allocator answers, an accepted text is in the grammar of
  JSON with the value that was built; and with memory for it every text of the grammar is accepted. The
  two halves go by induction over the recursion of the parser and over the grammar. The properties of
  the strings, numbers and the first pass that both rest on are stated here too.
\<close>

section \<open>Every accepted text is in the grammar\<close>

lemma parser_skip_ws_split: "\<exists>w. cur p = w @ cur (parser_skip_ws p) \<and> list_all json_ws w"
  using skip_ws_split [of "cur p"] by (simp add: parser_skip_ws_def)

lemma string_arena_sound:
  assumes "dcc_json_parse_string_arena p = (Some s, p')"
  shows "\<exists>cps raw. cur p = CHR 0x22 # raw @ CHR 0x22 # cur p' \<and> json_chars cps raw \<and> s = utf8s cps"
proof -
  obtain raw r e p1 where f: "dcc_json_find_string_end (cur p) = Some (raw, r, e)"
    and s: "(if \<not> e then Some raw else dcc_json_decode_string_span raw (length raw + 1)) = Some s"
    and p': "p' = p1\<lparr>cur := tl r\<rparr>"
    using assms by (auto simp: dcc_json_parse_string_arena_def split: option.splits prod.splits bool.splits if_splits)
  from f have raw: "cur p = CHR 0x22 # raw @ CHR 0x22 # tl r" "raw_chars raw" "e = (CHR 0x5C \<in> set raw)"
    by (auto simp: find_string_end_iff)
  have "string_content (length raw + 1) raw e = Some s"
    using s by (auto simp: string_content_def split: if_splits)
  with raw string_content_iff [OF raw(2)] p' show ?thesis
    by auto
qed

lemma json_scalar_sound:
  assumes "json_parse_scalar p c = (Inr v, p')" "cur p = c # r"
  shows "\<exists>t. cur p = t @ cur p' \<and> json_value tight v t"
proof -
  have lit: "\<exists>t. cur p = t @ cur p' \<and> json_value tight v t"
    if "json_parse_literal p l u = (Inr v, p')" "json_value tight u l" for l u
    using that by (auto simp: json_parse_literal_def match_literal_iff split: option.splits prod.splits bool.splits
        dest!: json_new_cur)
  have num: "\<exists>t. cur p = t @ cur p' \<and> json_value tight v t" if "dcc_json_parse_number p = (Inr v, p')"
    using that by (fastforce simp: dcc_json_parse_number_def number_span_iff intro: Number
        split: sum.splits prod.splits bool.splits if_splits dest!: json_new_cur parser_alloc_cur)
  have str: "\<exists>t. cur p = t @ cur p' \<and> json_value tight v t" if st: "json_parse_string_value p = (Inr v, p')"
  proof -
    obtain p1 s where s: "dcc_json_new p = (True, p1)" "dcc_json_parse_string_arena p1 = (Some s, p')"
      "v = DCC_JSON_STRING s"
      using st by (auto simp: json_parse_string_value_def split: prod.splits bool.splits option.splits)
    with string_arena_sound [OF s(2)] json_new_cur [OF s(1)] obtain cps raw where
      "cur p = CHR 0x22 # raw @ CHR 0x22 # cur p'" "json_chars cps raw" "s = utf8s cps"
      by auto
    then show ?thesis
      using s(3) String [of cps raw tight] by (intro exI [of _ "CHR 0x22 # raw @ [CHR 0x22]"]) simp
  qed
  show ?thesis
    using assms(1) lit num str json_value_json_elements_json_members.Null TrueValue FalseValue
    unfolding json_parse_scalar_def by (auto split: if_splits)
qed

lemma json_begin_sound:
  assumes "json_begin close p = (Inr b, p')" "cur p = c # r"
  shows "\<exists>w. list_all json_ws w \<and> cur p = c # w @ (if b then [close] else []) @ cur p'"
proof -
  obtain ok p1 where new: "dcc_json_new (p\<lparr>cur := r\<rparr>) = (ok, p1)"
    by (metis surj_pair)
  with assms have ok: ok
    by (cases ok) (auto simp: json_begin_def)
  have "cur p1 = r"
    using json_new_cur [OF new] by simp
  then obtain w where w: "r = w @ cur (parser_skip_ws p1)" "list_all json_ws w"
    using parser_skip_ws_split [of p1] by auto
  have "(if b then next_is (\<lambda>c. c = close) (cur (parser_skip_ws p1)) \<and> cur p' = tl (cur (parser_skip_ws p1))
      else p' = parser_skip_ws p1)"
    using assms new ok by (auto simp: json_begin_def Let_def split: if_splits)
  then have "cur (parser_skip_ws p1) = (if b then [close] else []) @ cur p'"
    by (cases b; cases "cur (parser_skip_ws p1)") auto
  then show ?thesis
    using w assms(2) by auto
qed

lemma json_separator_sound:
  assumes "json_separator close p = (Inr b, p')"
  shows "\<exists>w w'. list_all json_ws w \<and> list_all json_ws w'
    \<and> cur p = w @ (if b then [close] else CHR '','' # w') @ cur p'"
proof -
  obtain w where w: "cur p = w @ cur (parser_skip_ws p)" "list_all json_ws w"
    using parser_skip_ws_split [of p] by auto
  obtain c r where c: "cur (parser_skip_ws p) = c # r"
    using assms by (cases "cur (parser_skip_ws p)") (auto simp: json_separator_def)
  obtain w' where w': "r = w' @ cur (parser_skip_ws (parser_skip_ws p\<lparr>cur := r\<rparr>))" "list_all json_ws w'"
    using parser_skip_ws_split [of "parser_skip_ws p\<lparr>cur := r\<rparr>"] by auto
  have "if b then c = close \<and> p' = parser_skip_ws p\<lparr>cur := r\<rparr>
      else c = CHR '','' \<and> p' = parser_skip_ws (parser_skip_ws p\<lparr>cur := r\<rparr>)"
    using assms c by (auto simp: json_separator_def Let_def split: if_splits)
  then have "c # r = (if b then [close] else CHR '','' # w') @ cur p'"
    using w'(1) by (cases b) auto
  then show ?thesis
    using w w'(2) c by auto
qed

lemma json_key_sound:
  assumes "json_key p = (Some key, p')"
  shows "\<exists>cps raw w. cur p = CHR 0x22 # raw @ CHR 0x22 # w @ CHR '':'' # cur p' \<and> json_chars cps raw
    \<and> key = utf8s cps \<and> list_all json_ws w"
proof -
  obtain p1 where p1: "dcc_json_parse_string_arena p = (Some key, p1)"
    and "next_is (\<lambda>c. c = CHR '':'') (cur (parser_skip_ws p1))" "cur p' = tl (cur (parser_skip_ws p1))"
    using assms by (auto simp: json_key_def Let_def split: prod.splits option.splits if_splits)
  then have "cur (parser_skip_ws p1) = CHR '':'' # cur p'"
    by (cases "cur (parser_skip_ws p1)") auto
  moreover obtain w where "cur p1 = w @ cur (parser_skip_ws p1)" "list_all json_ws w"
    using parser_skip_ws_split [of p1] by auto
  ultimately show ?thesis
    using string_arena_sound [OF p1] by auto
qed

lemma json_push_items:
  "json_push n p cap items item = (Some (cap', items'), p') \<Longrightarrow> items' = items @ [item] \<and> cur p' = cur p"
  by (auto simp: json_push_def split: option.splits prod.splits bool.splits if_splits dest: parser_alloc_cur)

text \<open>One round of the recursion, for each of the mutually recursive functions.\<close>

lemma json_array_sound:
  assumes "dcc_json_parse_array q = (Inr v, p')" "next_is (\<lambda>c. c = CHR ''['') (cur q)"
    and "\<And>p. json_begin (CHR '']'') q = (Inr False, p) \<Longrightarrow> json_array_loop p 0 [] = (Inr v, p')
      \<Longrightarrow> \<exists>vs w t. v = DCC_JSON_ARRAY ([] @ vs) \<and> cur p = w @ t @ CHR '']'' # cur p'
      \<and> list_all json_ws w \<and> json_elements False vs t"
  shows "\<exists>t. cur q = t @ cur p' \<and> json_value False v t"
proof -
  obtain r where q: "cur q = CHR ''['' # r"
    using assms(2) by (cases "cur q") auto
  obtain b p where b: "json_begin (CHR '']'') q = (Inr b, p)"
    using assms(1) q by (auto simp: dcc_json_parse_array.simps [of q] split: prod.splits sum.splits)
  obtain w where w: "list_all json_ws w" "cur q = CHR ''['' # w @ (if b then '']'' else []) @ cur p"
    using json_begin_sound [OF b q] by blast
  show ?thesis
  proof (cases b)
    case True
    then show ?thesis
      using assms(1) q b w EmptyArray [OF w(1), of False]
      by (intro exI [of _ "CHR ''['' # w @ '']''"]) (simp add: dcc_json_parse_array.simps [of q])
  next
    case False
    then have "json_array_loop p 0 [] = (Inr v, p')"
      using assms(1) q b by (simp add: dcc_json_parse_array.simps [of q])
    then obtain vs w1 t where "v = DCC_JSON_ARRAY vs" "cur p = w1 @ t @ CHR '']'' # cur p'" "list_all json_ws w1"
      "json_elements False vs t"
      using assms(3) [of p] b False by auto
    then show ?thesis
      using w False Array [of "w @ w1" False vs t]
      by (intro exI [of _ "CHR ''['' # (w @ w1) @ t @ '']''"]) simp
  qed
qed

lemma json_array_loop_sound:
  assumes "json_array_loop q cap items = (Inr v, p')"
    and "\<And>item p1. dcc_json_parse_value q = (Inr item, p1) \<Longrightarrow> \<exists>w t. cur q = w @ t @ cur p1 \<and> list_all json_ws w \<and> json_value False item t"
    and "\<And>item p1 cap' items' p2 p. dcc_json_parse_value q = (Inr item, p1)
      \<Longrightarrow> dcc_json_array_push p1 cap items item = (Some (cap', items'), p2)
      \<Longrightarrow> json_separator (CHR '']'') p2 = (Inr False, p) \<Longrightarrow> json_array_loop p cap' items' = (Inr v, p')
      \<Longrightarrow> \<exists>vs w t. v = DCC_JSON_ARRAY (items' @ vs) \<and> cur p = w @ t @ CHR '']'' # cur p'
      \<and> list_all json_ws w \<and> json_elements False vs t"
  shows "\<exists>vs w t. v = DCC_JSON_ARRAY (items @ vs) \<and> cur q = w @ t @ CHR '']'' # cur p'
      \<and> list_all json_ws w \<and> json_elements False vs t"
proof -
  obtain item p1 where item: "dcc_json_parse_value q = (Inr item, p1)"
    using assms(1) by (auto simp: json_array_loop.simps [of q] split: prod.splits sum.splits)
  obtain cap' items' p2 where push: "dcc_json_array_push p1 cap items item = (Some (cap', items'), p2)"
    using assms(1) item by (auto simp: json_array_loop.simps [of q] split: prod.splits option.splits)
  obtain b p where sep: "json_separator (CHR '']'') p2 = (Inr b, p)"
    using assms(1) item push by (auto simp: json_array_loop.simps [of q] split: prod.splits sum.splits)
  have items': "items' = items @ [item]" "cur p2 = cur p1"
    using json_push_items push by (fastforce simp: dcc_json_array_push_def)+
  obtain w t where t: "cur q = w @ t @ cur p1" "list_all json_ws w" "json_value False item t"
    using assms(2) [OF item] by blast
  obtain w1 w2 where w1: "list_all json_ws w1" "list_all json_ws w2"
    "cur p1 = w1 @ (if b then '']'' else CHR '','' # w2) @ cur p"
    using json_separator_sound [OF sep] items'(2) by auto
  show ?thesis
  proof (cases b)
    case True
    then show ?thesis
      using assms(1) item push sep items' t w1 LastElement [OF t(3) w1(1)]
      by (intro exI [of _ "[item]"] exI [of _ w] exI [of _ "t @ w1"]) (auto simp: json_array_loop.simps [of q])
  next
    case False
    then have "json_array_loop p cap' items' = (Inr v, p')"
      using assms(1) item push sep by (simp add: json_array_loop.simps [of q])
    then obtain vs w3 u where u: "v = DCC_JSON_ARRAY (items' @ vs)" "cur p = w3 @ u @ CHR '']'' # cur p'"
      "list_all json_ws w3" "json_elements False vs u"
      using assms(3) [OF item push] sep False by auto
    then show ?thesis
      using t w1 False items'(1) Element [OF t(3) w1(1), of "w2 @ w3" vs u]
      by (intro exI [of _ "item # vs"] exI [of _ w] exI [of _ "t @ w1 @ CHR '','' # (w2 @ w3) @ u"]) simp
  qed
qed

lemma json_object_sound:
  assumes "dcc_json_parse_object q = (Inr v, p')" "next_is (\<lambda>c. c = CHR ''{'') (cur q)"
    and "\<And>p. json_begin (CHR ''}'') q = (Inr False, p) \<Longrightarrow> json_object_loop p 0 [] = (Inr v, p')
      \<Longrightarrow> \<exists>es t. v = DCC_JSON_OBJECT ([] @ es) \<and> cur p = t @ CHR ''}'' # cur p' \<and> json_members False es t"
  shows "\<exists>t. cur q = t @ cur p' \<and> json_value False v t"
proof -
  obtain r where q: "cur q = CHR ''{'' # r"
    using assms(2) by (cases "cur q") auto
  obtain b p where b: "json_begin (CHR ''}'') q = (Inr b, p)"
    using assms(1) q by (auto simp: dcc_json_parse_object.simps [of q] split: prod.splits sum.splits)
  obtain w where w: "list_all json_ws w" "cur q = CHR ''{'' # w @ (if b then ''}'' else []) @ cur p"
    using json_begin_sound [OF b q] by blast
  show ?thesis
  proof (cases b)
    case True
    then show ?thesis
      using assms(1) q b w EmptyObject [OF w(1), of False]
      by (intro exI [of _ "CHR ''{'' # w @ ''}''"]) (simp add: dcc_json_parse_object.simps [of q])
  next
    case False
    then have "json_object_loop p 0 [] = (Inr v, p')"
      using assms(1) q b by (simp add: dcc_json_parse_object.simps [of q])
    then obtain es t where "v = DCC_JSON_OBJECT es" "cur p = t @ CHR ''}'' # cur p'" "json_members False es t"
      using assms(3) [of p] b False by auto
    then show ?thesis
      using w False Object [of w False es t]
      by (intro exI [of _ "CHR ''{'' # w @ t @ ''}''"]) simp
  qed
qed

lemma json_object_loop_sound:
  assumes "json_object_loop q cap entries = (Inr v, p')"
    and "\<And>key p1 item p2. json_key q = (Some key, p1) \<Longrightarrow> dcc_json_parse_value p1 = (Inr item, p2)
      \<Longrightarrow> \<exists>w t. cur p1 = w @ t @ cur p2 \<and> list_all json_ws w \<and> json_value False item t"
    and "\<And>key p1 item p2 cap' entries' p3 p. json_key q = (Some key, p1)
      \<Longrightarrow> dcc_json_parse_value p1 = (Inr item, p2)
      \<Longrightarrow> dcc_json_object_push p2 cap entries (key, item) = (Some (cap', entries'), p3)
      \<Longrightarrow> json_separator (CHR ''}'') p3 = (Inr False, p) \<Longrightarrow> json_object_loop p cap' entries' = (Inr v, p')
      \<Longrightarrow> \<exists>es t. v = DCC_JSON_OBJECT (entries' @ es) \<and> cur p = t @ CHR ''}'' # cur p' \<and> json_members False es t"
  shows "\<exists>es t. v = DCC_JSON_OBJECT (entries @ es) \<and> cur q = t @ CHR ''}'' # cur p' \<and> json_members False es t"
proof -
  obtain key p1 where key: "json_key q = (Some key, p1)"
    using assms(1) by (auto simp: json_object_loop.simps [of q] split: prod.splits option.splits)
  obtain item p2 where item: "dcc_json_parse_value p1 = (Inr item, p2)"
    using assms(1) key by (auto simp: json_object_loop.simps [of q] split: prod.splits sum.splits)
  obtain cap' entries' p3 where push: "dcc_json_object_push p2 cap entries (key, item) = (Some (cap', entries'), p3)"
    using assms(1) key item by (auto simp: json_object_loop.simps [of q] split: prod.splits option.splits)
  obtain b p where sep: "json_separator (CHR ''}'') p3 = (Inr b, p)"
    using assms(1) key item push by (auto simp: json_object_loop.simps [of q] split: prod.splits sum.splits)
  have entries': "entries' = entries @ [(key, item)]" "cur p3 = cur p2"
    using json_push_items push by (fastforce simp: dcc_json_object_push_def)+
  obtain cps raw w1 where k: "cur q = CHR 0x22 # raw @ CHR 0x22 # w1 @ CHR '':'' # cur p1" "json_chars cps raw"
    "key = utf8s cps" "list_all json_ws w1"
    using json_key_sound [OF key] by blast
  obtain w2 t where t: "cur p1 = w2 @ t @ cur p2" "list_all json_ws w2" "json_value False item t"
    using assms(2) [OF key item] by blast
  obtain w w' where w: "list_all json_ws w" "list_all json_ws w'"
    "cur p2 = w @ (if b then ''}'' else CHR '','' # w') @ cur p"
    using json_separator_sound [OF sep] entries'(2) by auto
  show ?thesis
  proof (cases b)
    case True
    then show ?thesis
      using assms(1) key item push sep entries' k t w LastMember [OF k(2,4) t(2,3) w(1)]
      by (intro exI [of _ "[(key, item)]"] exI [of _ "CHR 0x22 # raw @ CHR 0x22 # w1 @ CHR '':'' # w2 @ t @ w"])
        (auto simp: json_object_loop.simps [of q])
  next
    case False
    then have "json_object_loop p cap' entries' = (Inr v, p')"
      using assms(1) key item push sep by (simp add: json_object_loop.simps [of q])
    then obtain es u where u: "v = DCC_JSON_OBJECT (entries' @ es)" "cur p = u @ CHR ''}'' # cur p'"
      "json_members False es u"
      using assms(3) [OF key item push] sep False by auto
    then show ?thesis
      using k t w False entries'(1) Member [OF k(2,4) t(2,3) w(1,2) _ u(3)]
      by (intro exI [of _ "(key, item) # es"]
          exI [of _ "CHR 0x22 # raw @ CHR 0x22 # w1 @ CHR '':'' # w2 @ t @ w @ CHR '','' # w' @ u"]) simp
  qed
qed

lemma json_parse_sound:
  "dcc_json_parse_value q1 = (Inr v, p') \<Longrightarrow> \<exists>w t. cur q1 = w @ t @ cur p' \<and> list_all json_ws w \<and> json_value False v t"
  "dcc_json_parse_array q2 = (Inr v, p') \<Longrightarrow> next_is (\<lambda>c. c = CHR ''['') (cur q2)
     \<Longrightarrow> \<exists>t. cur q2 = t @ cur p' \<and> json_value False v t"
  "json_array_loop q3 cap3 items = (Inr v, p') \<Longrightarrow> \<exists>vs w t. v = DCC_JSON_ARRAY (items @ vs)
     \<and> cur q3 = w @ t @ CHR '']'' # cur p' \<and> list_all json_ws w \<and> json_elements False vs t"
  "dcc_json_parse_object q4 = (Inr v, p') \<Longrightarrow> next_is (\<lambda>c. c = CHR ''{'') (cur q4)
     \<Longrightarrow> \<exists>t. cur q4 = t @ cur p' \<and> json_value False v t"
  "json_object_loop q5 cap5 entries = (Inr v, p') \<Longrightarrow> \<exists>es t. v = DCC_JSON_OBJECT (entries @ es)
     \<and> cur q5 = t @ CHR ''}'' # cur p' \<and> json_members False es t"
proof (induction q1 and q2 and q3 cap3 items and q4 and q5 cap5 entries
    arbitrary: v p' and v p' and v p' and v p' and v p'
    rule: dcc_json_parse_value_dcc_json_parse_array_json_array_loop_dcc_json_parse_object_json_object_loop.induct)
  case (1 q)
  let ?p = "parser_skip_ws q"
  obtain w where w: "cur q = w @ cur ?p" "list_all json_ws w"
    using parser_skip_ws_split [of q] by auto
  obtain c r where c: "cur ?p = c # r"
    using "1.prems" by (cases "cur ?p") (auto simp: dcc_json_parse_value.simps)
  have "\<exists>t. cur ?p = t @ cur p' \<and> json_value False v t"
    using "1.prems" "1.IH" [OF refl c] c json_scalar_sound [of ?p c v p' r False]
    by (auto simp: dcc_json_parse_value.simps [of q] Let_def split: if_splits)
  then show ?case
    using w by auto
next
  case (2 q)
  show ?case
    by (rule json_array_sound [OF "2.prems"]) (use 2 in \<open>fastforce simp: next_is_def\<close>)
next
  case (3 q cap items)
  show ?case
    by (rule json_array_loop_sound [OF "3.prems"]) (use 3 in \<open>fastforce+\<close>)
next
  case (4 q)
  show ?case
    by (rule json_object_sound [OF "4.prems"]) (use 4 in \<open>fastforce simp: next_is_def\<close>)
next
  case (5 q cap entries)
  show ?case
    by (rule json_object_loop_sound [OF "5.prems"]) (use 5 in \<open>fastforce+\<close>)
qed

section \<open>Every text of the grammar is accepted\<close>

lemma parser_alloc_ok:
  assumes "heap p = []" "0 < n" "n \<le> 2 ^ 62"
  shows "\<exists>p'. parser_alloc p n = (True, p') \<and> cur p' = cur p \<and> heap p' = []"
  using arena_alloc_succeeds [OF assms(2,3), of "doc_arena p"] assms(1) by (auto simp: parser_alloc_def)

lemma json_new_ok: "heap p = [] \<Longrightarrow> \<exists>p'. dcc_json_new p = (True, p') \<and> cur p' = cur p \<and> heap p' = []"
  unfolding dcc_json_new_def by (rule parser_alloc_ok) (simp_all add: sizeof_json_def)

lemma json_push_ok:
  assumes "heap p = []" "length items \<le> cap" "length items \<le> 2 ^ 57" "0 < n" "n \<le> 16"
  shows "\<exists>cap' p'. json_push n p cap items item = (Some (cap', items @ [item]), p') \<and> length items + 1 \<le> cap'
    \<and> cur p' = cur p \<and> heap p' = []"
proof (cases "length items = cap")
  case True
  define c where "c = (if cap \<noteq> 0 then cap * 2 else 4)"
  have grow: "dcc_json_next_cap cap 4 n = Some c"
    unfolding c_def using assms True by (intro next_cap_some) auto
  have c: "cap + 1 \<le> c" "c \<le> 2 ^ 58"
    using assms(3) True by (auto simp: c_def)
  then have "c * n \<le> 2 ^ 58 * 16"
    using assms(5) by (intro mult_le_mono)
  moreover have "0 < c * n"
    using c(1) assms(4) by simp
  ultimately obtain p' where "parser_alloc p (c * n) = (True, p')" "cur p' = cur p" "heap p' = []"
    using parser_alloc_ok [of p "c * n"] assms(1) by auto
  then show ?thesis
    using True grow c(1) by (auto simp: json_push_def)
qed (use assms in \<open>auto simp: json_push_def\<close>)

lemma string_arena_ok:
  assumes "cur p = CHR 0x22 # raw @ CHR 0x22 # r" "json_chars cps raw" "heap p = []" "length raw \<le> 2 ^ 58"
  shows "\<exists>p'. dcc_json_parse_string_arena p = (Some (utf8s cps), p') \<and> cur p' = r \<and> heap p' = []"
proof -
  let ?e = "CHR 0x5C \<in> set raw"
  have raw: "raw_chars raw"
    using assms(2) by (rule json_chars_raw)
  then have "dcc_json_find_string_end (cur p) = Some (raw, CHR 0x22 # r, ?e)"
    unfolding find_string_end_iff using assms(1) by simp
  moreover obtain p' where "parser_alloc p (length raw + 1) = (True, p')" "cur p' = cur p" "heap p' = []"
    using parser_alloc_ok [of p "length raw + 1"] assms(3,4) by auto
  moreover have "string_content (length raw + 1) raw ?e = Some (utf8s cps)"
    unfolding string_content_iff [OF raw] using assms(2) json_chars_shrink [OF assms(2)] by auto
  then have "(if \<not> ?e then Some raw else dcc_json_decode_string_span raw (length raw + 1)) = Some (utf8s cps)"
    by (auto simp: string_content_def split: if_splits)
  ultimately show ?thesis
    using assms(4) by (simp add: dcc_json_parse_string_arena_def SIZE_MAX_def)
qed

lemma skip_ws_nonws: "list_all json_ws w \<Longrightarrow> \<not> json_ws c \<Longrightarrow> dcc_json_skip_ws (w @ c # r) = c # r"
  by simp

lemma structural_not_ws: "\<not> json_ws (CHR ''['')" "\<not> json_ws (CHR '']'')" "\<not> json_ws (CHR ''{'')" "\<not> json_ws (CHR ''}'')"
  "\<not> json_ws (CHR '','')" "\<not> json_ws (CHR '':'')" "\<not> json_ws (CHR 0x22)"
  by (simp_all add: json_ws_def)

lemma ends_number_ws:
  assumes "list_all json_ws w" "\<not> dcc_json_is_number_char c"
  shows "ends_number (w @ c # r)"
  using assms by (cases w) (auto simp: json_ws_def dcc_json_is_number_char_def is_digit_def)

lemma ends_number_close [simp]:
  "\<not> dcc_json_is_number_char (CHR '']'')" "\<not> dcc_json_is_number_char (CHR ''}'')" "\<not> dcc_json_is_number_char (CHR '','')"
  by (simp_all add: dcc_json_is_number_char_def is_digit_def)

text \<open>What reading the text \<open>t\<close> of a value, of elements or of members has to do, wherever it stands.\<close>

definition value_ok :: "dcc_json \<Rightarrow> string \<Rightarrow> bool" where
  "value_ok v t \<longleftrightarrow>
     (\<forall>p w r. cur p = w @ t @ r \<longrightarrow> list_all json_ws w \<longrightarrow> heap p = [] \<longrightarrow> ends_number r \<longrightarrow> length (cur p) \<le> 2 ^ 57
        \<longrightarrow> (\<exists>p'. dcc_json_parse_value p = (Inr v, p') \<and> cur p' = r \<and> heap p' = []))"

definition elements_ok :: "dcc_json list \<Rightarrow> string \<Rightarrow> bool" where
  "elements_ok vs t \<longleftrightarrow>
     (\<forall>p cap items r. cur p = t @ CHR '']'' # r \<longrightarrow> heap p = [] \<longrightarrow> length items \<le> cap
        \<longrightarrow> length items + length (cur p) \<le> 2 ^ 57
        \<longrightarrow> (\<exists>p'. json_array_loop p cap items = (Inr (DCC_JSON_ARRAY (items @ vs)), p') \<and> cur p' = r \<and> heap p' = []))"

definition members_ok :: "(string \<times> dcc_json) list \<Rightarrow> string \<Rightarrow> bool" where
  "members_ok es t \<longleftrightarrow>
     (\<forall>p cap entries r. cur p = t @ CHR ''}'' # r \<longrightarrow> heap p = [] \<longrightarrow> length entries \<le> cap
        \<longrightarrow> length entries + length (cur p) \<le> 2 ^ 57
        \<longrightarrow> (\<exists>p'. json_object_loop p cap entries = (Inr (DCC_JSON_OBJECT (entries @ es)), p') \<and> cur p' = r \<and> heap p' = []))"

text \<open>The character a value starts with.\<close>

definition value_char :: "char \<Rightarrow> bool" where
  "value_char c \<longleftrightarrow> is_digit c \<or> c \<in> set ''-{[tfn'' \<or> c = CHR 0x22"

lemma value_char_not: "value_char c \<Longrightarrow> \<not> json_ws c \<and> c \<noteq> CHR '']'' \<and> c \<noteq> CHR ''}'' \<and> c \<noteq> CHR '',''"
  by (auto simp: value_char_def json_ws_def is_digit_def)

lemma json_number_first:
  assumes "json_number t i"
  shows "\<exists>c s. t = c # s \<and> (c = CHR ''-'' \<or> is_digit c)"
proof -
  obtain sgn n f e where t: "t = sgn @ n @ f @ e" "sgn \<in> {[], ''-''}" "json_int n"
    using assms unfolding json_number_def by blast
  moreover obtain d n' where "n = d # n'" "is_digit d"
    using t(3) by (cases n) (auto simp: json_int_def json_digits_def is_digit_def)
  ultimately show ?thesis
    by auto
qed

lemma json_value_first:
  "json_value tight v t \<Longrightarrow> \<exists>c s. t = c # s \<and> value_char c"
  by (erule json_value.cases) (auto simp: value_char_def dest: json_number_first)

lemma value_ok_scalar:
  assumes "\<And>p r. cur p = (c # s) @ r \<Longrightarrow> heap p = [] \<Longrightarrow> ends_number r \<Longrightarrow> length (cur p) \<le> 2 ^ 57
      \<Longrightarrow> \<exists>p'. json_parse_scalar p c = (Inr v, p') \<and> cur p' = r \<and> heap p' = []"
    and "\<not> json_ws c" "c \<noteq> CHR ''{''" "c \<noteq> CHR ''[''"
  shows "value_ok v (c # s)"
  unfolding value_ok_def
proof (intro allI impI)
  fix p :: dcc_json_parser and w r
  assume p: "cur p = w @ (c # s) @ r" "list_all json_ws w" "heap p = []" "ends_number r" "length (cur p) \<le> 2 ^ 57"
  then have skip: "parser_skip_ws p = p\<lparr>cur := c # s @ r\<rparr>"
    using assms(2) by (simp add: parser_skip_ws_def)
  then have "dcc_json_parse_value p = json_parse_scalar (p\<lparr>cur := c # s @ r\<rparr>) c"
    using assms(3,4) by (simp add: dcc_json_parse_value.simps [of p])
  then show "\<exists>p'. dcc_json_parse_value p = (Inr v, p') \<and> cur p' = r \<and> heap p' = []"
    using assms(1) [of "p\<lparr>cur := c # s @ r\<rparr>" r] p by simp
qed

lemma literal_ok:
  assumes "cur p = l @ r" "heap p = []"
  shows "\<exists>p'. json_parse_literal p l v = (Inr v, p') \<and> cur p' = r \<and> heap p' = []"
proof -
  have "dcc_json_match_literal (cur p) l = Some r"
    using assms(1) match_literal_iff by blast
  then show ?thesis
    using json_new_ok [of "p\<lparr>cur := r\<rparr>"] assms(2) by (auto simp: json_parse_literal_def)
qed

lemma value_ok_literal:
  "value_ok DCC_JSON_NULL ''null''" "value_ok (DCC_JSON_BOOL True) ''true''" "value_ok (DCC_JSON_BOOL False) ''false''"
  by (rule value_ok_scalar; use literal_ok in \<open>auto simp: json_parse_scalar_def json_ws_def is_digit_def\<close>)+

lemma value_ok_number:
  assumes "json_number t i"
  shows "value_ok (DCC_JSON_NUMBER t) t"
proof -
  obtain c s where t: "t = c # s" "c = CHR ''-'' \<or> is_digit c"
    using json_number_first [OF assms] by blast
  have "\<exists>p'. json_parse_scalar p c = (Inr (DCC_JSON_NUMBER t), p') \<and> cur p' = r \<and> heap p' = []"
    if "cur p = t @ r" "heap p = []" "ends_number r" "length (cur p) \<le> 2 ^ 57" for p r
  proof -
    have span: "dcc_json_parse_number_span (cur p) = Inr (t, i, r)"
      unfolding number_span_iff using that assms by blast
    obtain p1 where p1: "dcc_json_new (p\<lparr>cur := r\<rparr>) = (True, p1)" "cur p1 = r" "heap p1 = []"
      using json_new_ok [of "p\<lparr>cur := r\<rparr>"] \<open>heap p = []\<close> by auto
    have "length t \<le> 2 ^ 57"
      using \<open>cur p = t @ r\<close> \<open>length (cur p) \<le> _\<close> by simp
    then obtain p2 where "parser_alloc p1 (length t + 1) = (True, p2)" "cur p2 = r" "heap p2 = []"
      using parser_alloc_ok [of p1 "length t + 1"] p1 by auto
    with span p1(1) \<open>length t \<le> _\<close> have "dcc_json_parse_number p = (Inr (DCC_JSON_NUMBER t), p2)"
      by (simp add: dcc_json_parse_number_def SIZE_MAX_def)
    then show ?thesis
      using t(2) \<open>cur p2 = r\<close> \<open>heap p2 = []\<close> by (auto simp: json_parse_scalar_def is_digit_def)
  qed
  then show ?thesis
    unfolding t(1) by (rule value_ok_scalar) (use t(2) in \<open>auto simp: json_ws_def is_digit_def\<close>)
qed

lemma value_ok_string:
  assumes "json_chars cps raw"
  shows "value_ok (DCC_JSON_STRING (utf8s cps)) (CHR 0x22 # raw @ [CHR 0x22])"
proof (rule value_ok_scalar)
  fix p :: dcc_json_parser and r
  assume p: "cur p = (CHR 0x22 # raw @ [CHR 0x22]) @ r" "heap p = []" "length (cur p) \<le> 2 ^ 57"
  then obtain p1 where p1: "dcc_json_new p = (True, p1)" "cur p1 = cur p" "heap p1 = []"
    using json_new_ok by blast
  moreover obtain p2 where "dcc_json_parse_string_arena p1 = (Some (utf8s cps), p2)" "cur p2 = r" "heap p2 = []"
    using string_arena_ok [of p1 raw r cps] p p1 assms by auto
  ultimately show "\<exists>p'. json_parse_scalar p (CHR 0x22) = (Inr (DCC_JSON_STRING (utf8s cps)), p') \<and> cur p' = r \<and> heap p' = []"
    by (simp add: json_parse_scalar_def json_parse_string_value_def)
qed (simp_all add: json_ws_def)

lemma json_begin_ok:
  assumes "cur p = c # w @ d # r" "list_all json_ws w" "\<not> json_ws d" "heap p = []"
  shows "\<exists>p'. json_begin close p = (Inr (d = close), p') \<and> heap p' = []
    \<and> cur p' = (if d = close then r else d # r)"
proof -
  obtain p1 where p1: "dcc_json_new (p\<lparr>cur := tl (cur p)\<rparr>) = (True, p1)" "cur p1 = w @ d # r" "heap p1 = []"
    using json_new_ok [of "p\<lparr>cur := tl (cur p)\<rparr>"] assms(1,4) by auto
  then show ?thesis
    using assms(2,3) by (auto simp: json_begin_def Let_def parser_skip_ws_def)
qed

lemma json_separator_close:
  assumes "cur p = w @ close # r" "list_all json_ws w" "\<not> json_ws close" "heap p = []"
  shows "\<exists>p'. json_separator close p = (Inr True, p') \<and> heap p' = [] \<and> cur p' = r"
  using assms by (simp add: json_separator_def Let_def parser_skip_ws_def)

lemma json_separator_comma:
  assumes "cur p = w @ CHR '','' # w' @ c # r" "list_all json_ws w" "list_all json_ws w'" "\<not> json_ws c"
    "heap p = []" "close \<noteq> CHR '',''"
  shows "\<exists>p'. json_separator close p = (Inr False, p') \<and> heap p' = [] \<and> cur p' = c # r"
  using assms structural_not_ws by (simp add: json_separator_def Let_def parser_skip_ws_def)

lemma json_key_ok:
  assumes "cur p = CHR 0x22 # raw @ CHR 0x22 # w @ CHR '':'' # r" "json_chars cps raw" "list_all json_ws w"
    "heap p = []" "length raw \<le> 2 ^ 58"
  shows "\<exists>p'. json_key p = (Some (utf8s cps), p') \<and> cur p' = r \<and> heap p' = []"
proof -
  obtain p1 where "dcc_json_parse_string_arena p = (Some (utf8s cps), p1)" "cur p1 = w @ CHR '':'' # r" "heap p1 = []"
    using string_arena_ok [OF assms(1,2,4,5)] by blast
  then show ?thesis
    using assms(3) structural_not_ws by (simp add: json_key_def Let_def parser_skip_ws_def)
qed

text \<open>Arrays and objects at the cursor, behind white space.\<close>

lemma value_ok_container:
  assumes "\<And>p r. cur p = (c # s) @ r \<Longrightarrow> heap p = [] \<Longrightarrow> length (cur p) \<le> 2 ^ 57
      \<Longrightarrow> \<exists>p'. (if c = CHR ''{'' then dcc_json_parse_object p else dcc_json_parse_array p) = (Inr v, p')
              \<and> cur p' = r \<and> heap p' = []"
    and "c = CHR ''{'' \<or> c = CHR ''[''"
  shows "value_ok v (c # s)"
  unfolding value_ok_def
proof (intro allI impI)
  fix p :: dcc_json_parser and w r
  assume p: "cur p = w @ (c # s) @ r" "list_all json_ws w" "heap p = []" "ends_number r" "length (cur p) \<le> 2 ^ 57"
  have "\<not> json_ws c"
    using assms(2) structural_not_ws by auto
  with p have skip: "parser_skip_ws p = p\<lparr>cur := c # s @ r\<rparr>"
    by (simp add: parser_skip_ws_def)
  with assms(2) have "dcc_json_parse_value p =
      (if c = CHR ''{'' then dcc_json_parse_object (p\<lparr>cur := c # s @ r\<rparr>)
       else dcc_json_parse_array (p\<lparr>cur := c # s @ r\<rparr>))"
    by (auto simp: dcc_json_parse_value.simps [of p])
  then show "\<exists>p'. dcc_json_parse_value p = (Inr v, p') \<and> cur p' = r \<and> heap p' = []"
    using assms(1) [of "p\<lparr>cur := c # s @ r\<rparr>" r] p by simp
qed

lemma value_ok_empty:
  assumes "list_all json_ws w"
  shows "value_ok (DCC_JSON_ARRAY []) (CHR ''['' # w @ '']'')" "value_ok (DCC_JSON_OBJECT []) (CHR ''{'' # w @ ''}'')"
proof -
  show "value_ok (DCC_JSON_ARRAY []) (CHR ''['' # w @ '']'')"
  proof (rule value_ok_container)
    fix p :: dcc_json_parser and r
    assume "cur p = (CHR ''['' # w @ '']'') @ r" "heap p = []"
    then show "\<exists>p'. (if CHR ''['' = CHR ''{'' then dcc_json_parse_object p else dcc_json_parse_array p)
        = (Inr (DCC_JSON_ARRAY []), p') \<and> cur p' = r \<and> heap p' = []"
      using json_begin_ok [of p "CHR ''[''" w "CHR '']''" r "CHR '']''"] assms structural_not_ws
      by (auto simp: dcc_json_parse_array.simps [of p])
  qed simp
  show "value_ok (DCC_JSON_OBJECT []) (CHR ''{'' # w @ ''}'')"
  proof (rule value_ok_container)
    fix p :: dcc_json_parser and r
    assume "cur p = (CHR ''{'' # w @ ''}'') @ r" "heap p = []"
    then show "\<exists>p'. (if CHR ''{'' = CHR ''{'' then dcc_json_parse_object p else dcc_json_parse_array p)
        = (Inr (DCC_JSON_OBJECT []), p') \<and> cur p' = r \<and> heap p' = []"
      using json_begin_ok [of p "CHR ''{''" w "CHR ''}''" r "CHR ''}''"] assms structural_not_ws
      by (auto simp: dcc_json_parse_object.simps [of p])
  qed simp
qed

lemma value_ok_array:
  assumes "list_all json_ws w" "elements_ok vs t" "t = c # s" "value_char c"
  shows "value_ok (DCC_JSON_ARRAY vs) (CHR ''['' # w @ t @ '']'')"
proof (rule value_ok_container)
  fix p :: dcc_json_parser and r
  assume p: "cur p = (CHR ''['' # w @ t @ '']'') @ r" "heap p = []" "length (cur p) \<le> 2 ^ 57"
  have "cur p = CHR ''['' # w @ c # s @ CHR '']'' # r"
    using p(1) assms(3) by simp
  then obtain p1 where p1: "json_begin (CHR '']'') p = (Inr False, p1)" "cur p1 = t @ CHR '']'' # r" "heap p1 = []"
    using json_begin_ok [of p "CHR ''[''" w c "s @ CHR '']'' # r" "CHR '']''"] assms value_char_not [OF assms(4)] p(2)
    by auto
  have "length (cur p1) \<le> 2 ^ 57"
    using p(1,3) p1(2) by simp
  then obtain p' where "json_array_loop p1 0 [] = (Inr (DCC_JSON_ARRAY ([] @ vs)), p')" "cur p' = r" "heap p' = []"
    using assms(2) p1(2,3) unfolding elements_ok_def by (metis add_0 le0 list.size(3))
  then show "\<exists>p'. (if CHR ''['' = CHR ''{'' then dcc_json_parse_object p else dcc_json_parse_array p)
      = (Inr (DCC_JSON_ARRAY vs), p') \<and> cur p' = r \<and> heap p' = []"
    using p(1) p1(1) by (simp add: dcc_json_parse_array.simps [of p])
qed simp

lemma value_ok_object:
  assumes "list_all json_ws w" "members_ok es t" "t = CHR 0x22 # s"
  shows "value_ok (DCC_JSON_OBJECT es) (CHR ''{'' # w @ t @ ''}'')"
proof (rule value_ok_container)
  fix p :: dcc_json_parser and r
  assume p: "cur p = (CHR ''{'' # w @ t @ ''}'') @ r" "heap p = []" "length (cur p) \<le> 2 ^ 57"
  have "cur p = CHR ''{'' # w @ CHR 0x22 # s @ CHR ''}'' # r"
    using p(1) assms(3) by simp
  then obtain p1 where p1: "json_begin (CHR ''}'') p = (Inr False, p1)" "cur p1 = t @ CHR ''}'' # r" "heap p1 = []"
    using json_begin_ok [of p "CHR ''{''" w "CHR 0x22" "s @ CHR ''}'' # r" "CHR ''}''"] assms structural_not_ws p(2)
    by auto
  have "length (cur p1) \<le> 2 ^ 57"
    using p(1,3) p1(2) by simp
  then obtain p' where "json_object_loop p1 0 [] = (Inr (DCC_JSON_OBJECT ([] @ es)), p')" "cur p' = r" "heap p' = []"
    using assms(2) p1(2,3) unfolding members_ok_def by (metis add_0 le0 list.size(3))
  then show "\<exists>p'. (if CHR ''{'' = CHR ''{'' then dcc_json_parse_object p else dcc_json_parse_array p)
      = (Inr (DCC_JSON_OBJECT es), p') \<and> cur p' = r \<and> heap p' = []"
    using p(1) p1(1) by (simp add: dcc_json_parse_object.simps [of p])
qed simp

text \<open>One round of the array loop up to the separator.\<close>

lemma value_okD:
  assumes "value_ok v t" "cur p = w @ t @ r" "list_all json_ws w" "heap p = []" "ends_number r" "length (cur p) \<le> 2 ^ 57"
  obtains p' where "dcc_json_parse_value p = (Inr v, p')" "cur p' = r" "heap p' = []"
  using assms unfolding value_ok_def by blast

lemma array_round_ok:
  assumes "value_ok v t" "cur p = t @ r" "heap p = []" "ends_number r"
    and "length items \<le> cap" "length items + length (cur p) \<le> 2 ^ 57"
  obtains p1 cap' p2 where "dcc_json_parse_value p = (Inr v, p1)"
    "dcc_json_array_push p1 cap items v = (Some (cap', items @ [v]), p2)" "length items + 1 \<le> cap'"
    "cur p2 = r" "heap p2 = []"
proof -
  obtain p1 where p1: "dcc_json_parse_value p = (Inr v, p1)" "cur p1 = r" "heap p1 = []"
    using value_okD [OF assms(1), of p "[]" r] assms by auto
  then obtain cap' p2 where "dcc_json_array_push p1 cap items v = (Some (cap', items @ [v]), p2)"
    "length items + 1 \<le> cap'" "cur p2 = r" "heap p2 = []"
    using json_push_ok [of p1 items cap 8 v] assms(5,6) unfolding dcc_json_array_push_def by auto
  with p1(1) that show thesis by blast
qed

lemma elements_ok_last:
  assumes "value_ok v t" "list_all json_ws w"
  shows "elements_ok [v] (t @ w)"
  unfolding elements_ok_def
proof (intro allI impI)
  fix p :: dcc_json_parser and cap and items :: "dcc_json list" and r
  assume p: "cur p = (t @ w) @ CHR '']'' # r" "heap p = []" "length items \<le> cap" "length items + length (cur p) \<le> 2 ^ 57"
  have cur: "cur p = t @ w @ CHR '']'' # r" and ends: "ends_number (w @ CHR '']'' # r)"
    using p(1) assms(2) ends_number_ws by auto
  obtain p1 cap' p2 where r: "dcc_json_parse_value p = (Inr v, p1)"
    "dcc_json_array_push p1 cap items v = (Some (cap', items @ [v]), p2)" "length items + 1 \<le> cap'"
    "cur p2 = w @ CHR '']'' # r" "heap p2 = []"
    by (rule array_round_ok [OF assms(1) cur p(2) ends p(3,4)])
  then show "\<exists>p'. json_array_loop p cap items = (Inr (DCC_JSON_ARRAY (items @ [v])), p') \<and> cur p' = r \<and> heap p' = []"
    using json_separator_close [of p2 w "CHR '']''" r] assms(2) structural_not_ws
    by (auto simp: json_array_loop.simps [of p])
qed

lemma elements_ok_more:
  assumes "value_ok v t" "list_all json_ws w" "list_all json_ws w'" "elements_ok vs u" "u = c # s" "value_char c"
  shows "elements_ok (v # vs) (t @ w @ CHR '','' # w' @ u)"
  unfolding elements_ok_def
proof (intro allI impI)
  fix p :: dcc_json_parser and cap and items :: "dcc_json list" and r
  let ?r = "w @ CHR '','' # w' @ c # s @ CHR '']'' # r"
  assume p: "cur p = (t @ w @ CHR '','' # w' @ u) @ CHR '']'' # r" "heap p = []" "length items \<le> cap"
    "length items + length (cur p) \<le> 2 ^ 57"
  have cur: "cur p = t @ ?r" and ends: "ends_number ?r"
    using p(1) assms(2,5) ends_number_ws by auto
  obtain p1 cap' p2 where r: "dcc_json_parse_value p = (Inr v, p1)"
    "dcc_json_array_push p1 cap items v = (Some (cap', items @ [v]), p2)" "length items + 1 \<le> cap'"
    "cur p2 = ?r" "heap p2 = []"
    by (rule array_round_ok [OF assms(1) cur p(2) ends p(3,4)])
  obtain p3 where p3: "json_separator (CHR '']'') p2 = (Inr False, p3)" "heap p3 = []" "cur p3 = u @ CHR '']'' # r"
    using json_separator_comma [of p2 w w' c "s @ CHR '']'' # r" "CHR '']''"] r(4,5) assms(2,3,5) value_char_not [OF assms(6)]
    by auto
  have "length (items @ [v]) \<le> cap'" "length (items @ [v]) + length (cur p3) \<le> 2 ^ 57"
    using r(3) p(1,4) p3(3) by auto
  then obtain p' where "json_array_loop p3 cap' (items @ [v]) = (Inr (DCC_JSON_ARRAY ((items @ [v]) @ vs)), p')"
    "cur p' = r" "heap p' = []"
    using assms(4) p3(2,3) unfolding elements_ok_def by blast
  then show "\<exists>p'. json_array_loop p cap items = (Inr (DCC_JSON_ARRAY (items @ v # vs)), p') \<and> cur p' = r \<and> heap p' = []"
    using r(1,2) p3(1) by (simp add: json_array_loop.simps [of p])
qed

text \<open>One round of the object loop up to the separator.\<close>

lemma object_round_ok:
  assumes "value_ok v t" "cur p = CHR 0x22 # raw @ CHR 0x22 # w1 @ CHR '':'' # w2 @ t @ r" "heap p = []"
    and "json_chars cps raw" "list_all json_ws w1" "list_all json_ws w2" "ends_number r"
    and "length entries \<le> cap" "length entries + length (cur p) \<le> 2 ^ 57"
  obtains p1 p2 cap' p3 where "json_key p = (Some (utf8s cps), p1)" "dcc_json_parse_value p1 = (Inr v, p2)"
    "dcc_json_object_push p2 cap entries (utf8s cps, v) = (Some (cap', entries @ [(utf8s cps, v)]), p3)"
    "length entries + 1 \<le> cap'" "cur p3 = r" "heap p3 = []"
proof -
  obtain p1 where p1: "json_key p = (Some (utf8s cps), p1)" "cur p1 = w2 @ t @ r" "heap p1 = []"
    using json_key_ok [OF assms(2,4,5,3)] assms(2,9) by auto
  obtain p2 where p2: "dcc_json_parse_value p1 = (Inr v, p2)" "cur p2 = r" "heap p2 = []"
    using value_okD [OF assms(1) p1(2) assms(6) p1(3) assms(7)] assms(2,9) p1(2) by auto
  then obtain cap' p3 where "dcc_json_object_push p2 cap entries (utf8s cps, v) = (Some (cap', entries @ [(utf8s cps, v)]), p3)"
    "length entries + 1 \<le> cap'" "cur p3 = r" "heap p3 = []"
    using json_push_ok [of p2 entries cap 16 "(utf8s cps, v)"] assms(8,9) unfolding dcc_json_object_push_def by auto
  with p1(1) p2(1) that show thesis by blast
qed

lemma members_ok_last:
  assumes "json_chars cps raw" "list_all json_ws w1" "list_all json_ws w2" "value_ok v t" "list_all json_ws w"
  shows "members_ok [(utf8s cps, v)] (CHR 0x22 # raw @ CHR 0x22 # w1 @ CHR '':'' # w2 @ t @ w)"
  unfolding members_ok_def
proof (intro allI impI)
  fix p :: dcc_json_parser and cap and entries :: "(string \<times> dcc_json) list" and r
  let ?r = "w @ CHR ''}'' # r"
  assume p: "cur p = (CHR 0x22 # raw @ CHR 0x22 # w1 @ CHR '':'' # w2 @ t @ w) @ CHR ''}'' # r" "heap p = []"
    "length entries \<le> cap" "length entries + length (cur p) \<le> 2 ^ 57"
  have cur: "cur p = CHR 0x22 # raw @ CHR 0x22 # w1 @ CHR '':'' # w2 @ t @ ?r"
    using p(1) by simp
  have ends: "ends_number ?r"
    using assms(5) by (rule ends_number_ws) simp
  obtain p1 p2 cap' p3 where r: "json_key p = (Some (utf8s cps), p1)" "dcc_json_parse_value p1 = (Inr v, p2)"
    "dcc_json_object_push p2 cap entries (utf8s cps, v) = (Some (cap', entries @ [(utf8s cps, v)]), p3)"
    "length entries + 1 \<le> cap'" "cur p3 = ?r" "heap p3 = []"
    by (rule object_round_ok [OF assms(4) cur p(2) assms(1-3) ends p(3,4)])
  then show "\<exists>p'. json_object_loop p cap entries = (Inr (DCC_JSON_OBJECT (entries @ [(utf8s cps, v)])), p')
      \<and> cur p' = r \<and> heap p' = []"
    using json_separator_close [of p3 w "CHR ''}''" r] assms(5) structural_not_ws
    by (auto simp: json_object_loop.simps [of p])
qed

lemma members_ok_more:
  assumes "json_chars cps raw" "list_all json_ws w1" "list_all json_ws w2" "value_ok v t" "list_all json_ws w"
    and "list_all json_ws w'" "members_ok es u" "u = CHR 0x22 # s"
  shows "members_ok ((utf8s cps, v) # es)
    (CHR 0x22 # raw @ CHR 0x22 # w1 @ CHR '':'' # w2 @ t @ w @ CHR '','' # w' @ u)"
  unfolding members_ok_def
proof (intro allI impI)
  fix p :: dcc_json_parser and cap and entries :: "(string \<times> dcc_json) list" and r
  let ?r = "w @ CHR '','' # w' @ CHR 0x22 # s @ CHR ''}'' # r"
  assume p: "cur p = (CHR 0x22 # raw @ CHR 0x22 # w1 @ CHR '':'' # w2 @ t @ w @ CHR '','' # w' @ u) @ CHR ''}'' # r"
    "heap p = []" "length entries \<le> cap" "length entries + length (cur p) \<le> 2 ^ 57"
  have cur: "cur p = CHR 0x22 # raw @ CHR 0x22 # w1 @ CHR '':'' # w2 @ t @ ?r"
    using p(1) assms(8) by simp
  have ends: "ends_number ?r"
    using assms(5) by (rule ends_number_ws) simp
  obtain p1 p2 cap' p3 where r: "json_key p = (Some (utf8s cps), p1)" "dcc_json_parse_value p1 = (Inr v, p2)"
    "dcc_json_object_push p2 cap entries (utf8s cps, v) = (Some (cap', entries @ [(utf8s cps, v)]), p3)"
    "length entries + 1 \<le> cap'" "cur p3 = ?r" "heap p3 = []"
    by (rule object_round_ok [OF assms(4) cur p(2) assms(1-3) ends p(3,4)])
  obtain p4 where p4: "json_separator (CHR ''}'') p3 = (Inr False, p4)" "heap p4 = []" "cur p4 = u @ CHR ''}'' # r"
    using json_separator_comma [of p3 w w' "CHR 0x22" "s @ CHR ''}'' # r" "CHR ''}''"] r(5,6) assms(5,6,8) structural_not_ws
    by auto
  let ?e = "entries @ [(utf8s cps, v)]"
  have "length ?e \<le> cap'" "length ?e + length (cur p4) \<le> 2 ^ 57"
    using r(4) p(1,4) p4(3) by auto
  then obtain p' where "json_object_loop p4 cap' ?e = (Inr (DCC_JSON_OBJECT (?e @ es)), p')" "cur p' = r" "heap p' = []"
    using assms(7) p4(2,3) unfolding members_ok_def by blast
  then show "\<exists>p'. json_object_loop p cap entries = (Inr (DCC_JSON_OBJECT (entries @ (utf8s cps, v) # es)), p')
      \<and> cur p' = r \<and> heap p' = []"
    using r(1-3) p4(1) by (simp add: json_object_loop.simps [of p])
qed

lemma json_elements_first: "json_elements tight vs t \<Longrightarrow> \<exists>c s. t = c # s \<and> value_char c"
  by (erule json_elements.cases) (auto dest: json_value_first)

lemma json_members_first: "json_members tight es t \<Longrightarrow> \<exists>s. t = CHR 0x22 # s"
  by (erule json_members.cases) auto

lemma json_parse_complete:
  "json_value tight v t \<Longrightarrow> value_ok v t"
  "json_elements tight vs t \<Longrightarrow> elements_ok vs t"
  "json_members tight es t \<Longrightarrow> members_ok es t"
proof (induction rule: json_value_json_elements_json_members.inducts)
  case (Array w vs t)
  then show ?case using value_ok_array json_elements_first by metis
next
  case (Object w es t)
  then show ?case using value_ok_object json_members_first by metis
next
  case (Element v t w w' vs u)
  then show ?case using elements_ok_more json_elements_first by metis
next
  case (Member cps raw w1 w2 v t w w' es u)
  then show ?case using members_ok_more json_members_first by metis
qed (auto intro: value_ok_literal value_ok_number value_ok_string value_ok_empty elements_ok_last members_ok_last)

section \<open>The first pass accepts the grammar\<close>

definition scan_ok :: "string \<Rightarrow> bool \<Rightarrow> bool" where
  "scan_ok p in_string \<longleftrightarrow> plain_scan 0 p in_string False \<noteq> None"

text \<open>A piece of text that the scan passes, in a string before it and after it or not.\<close>

definition passes :: "bool \<Rightarrow> string \<Rightarrow> bool \<Rightarrow> bool" where
  "passes a u b \<longleftrightarrow> (\<forall>p. scan_ok (u @ p) a = scan_ok p b)"

lemma plain_scan_index: "plain_scan i p a e = None \<longleftrightarrow> plain_scan j p a e = None"
  by (induction p arbitrary: i j a e) auto

lemma passes_append [intro]: "passes a u b \<Longrightarrow> passes b v c \<Longrightarrow> passes a (u @ v) c"
  by (simp add: passes_def)

lemma passes_Nil [simp]: "passes a [] a"
  by (simp add: passes_def)

lemma scan_ok_Cons:
  "scan_ok (c # p) False \<longleftrightarrow> scan_ok p (c = CHR 0x22)"
  "c \<noteq> CHR 0x5C \<Longrightarrow> 0x20 \<le> code c \<Longrightarrow> scan_ok (c # p) True \<longleftrightarrow> scan_ok p (c \<noteq> CHR 0x22)"
  "scan_ok (CHR 0x5C # c # p) True \<longleftrightarrow> scan_ok p True"
proof -
  have index: "(plain_scan (Suc j) p a e = None) = (plain_scan 0 p a e = None)" for j p a e
    by (rule plain_scan_index)
  show "scan_ok (c # p) False \<longleftrightarrow> scan_ok p (c = CHR 0x22)"
    "c \<noteq> CHR 0x5C \<Longrightarrow> 0x20 \<le> code c \<Longrightarrow> scan_ok (c # p) True \<longleftrightarrow> scan_ok p (c \<noteq> CHR 0x22)"
    "scan_ok (CHR 0x5C # c # p) True \<longleftrightarrow> scan_ok p True"
    by (simp_all add: scan_ok_def index del: not_None_eq)
qed

lemma passes_outside: "CHR 0x22 \<notin> set u \<Longrightarrow> passes False u False"
proof (induction u)
  case (Cons c u)
  then have "(c = CHR 0x22) = False" by auto
  with Cons show ?case by (simp add: passes_def scan_ok_Cons(1))
qed simp

lemma passes_plain:
  "list_all (\<lambda>c. 0x20 \<le> code c \<and> code c \<noteq> 0x22 \<and> code c \<noteq> 0x5c) u \<Longrightarrow> passes True u True"
  by (induction u) (auto simp: passes_def scan_ok_Cons char_code)

lemma passes_escape: "passes True [CHR 0x5C, c] True"
  by (simp add: passes_def scan_ok_Cons)

lemma passes_hex:
  assumes "hex4 h cp"
  shows "passes True h True"
  using assms by (intro passes_plain) (auto simp: hex4_code list_all_iff dcc_json_hex_value_def split: if_splits)

lemma passes_json_chars: "json_chars cps raw \<Longrightarrow> passes True raw True"
proof (induction rule: json_chars.induct)
  case (Plain cp cps raw)
  have "passes True (utf8 cp) True"
    using utf8_plain_byte [OF Plain.hyps(1-4)] by (intro passes_plain) (auto simp: list_all_iff)
  then show ?case using Plain.IH by blast
next
  case (Escape esc cp cps raw)
  then show ?case using passes_append [OF passes_escape [of esc]] by simp
next
  case (Unicode h cp cps raw)
  have "passes True ([CHR 0x5C, CHR ''u''] @ h @ raw) True"
    using passes_escape passes_hex [OF Unicode.hyps(1)] Unicode.IH by blast
  then show ?case by simp
next
  case (Surrogates h hi l lo cps raw)
  have "passes True ([CHR 0x5C, CHR ''u''] @ h @ [CHR 0x5C, CHR ''u''] @ l @ raw) True"
    using passes_escape passes_hex [OF Surrogates.hyps(1)] passes_hex [OF Surrogates.hyps(4)] Surrogates.IH by blast
  then show ?case by simp
qed simp

lemma passes_string:
  assumes "json_chars cps raw"
  shows "passes False (CHR 0x22 # raw @ [CHR 0x22]) False"
proof -
  have "passes False [CHR 0x22] True" "passes True [CHR 0x22] False"
    by (simp_all add: passes_def scan_ok_Cons)
  then have "passes False ([CHR 0x22] @ raw @ [CHR 0x22]) False"
    using passes_json_chars [OF assms] by blast
  then show ?thesis by simp
qed

lemma digits_no_quote: "list_all is_digit d \<Longrightarrow> CHR 0x22 \<notin> set d"
  by (auto simp: list_all_iff is_digit_def)

lemma number_no_quote:
  assumes "json_number t i"
  shows "CHR 0x22 \<notin> set t"
proof -
  obtain sgn n f e where t: "t = sgn @ n @ f @ e" "sgn \<in> {[], ''-''}" "json_int n" "json_frac f" "json_exp e"
    using assms unfolding json_number_def by blast
  have "CHR 0x22 \<notin> set sgn" "CHR 0x22 \<notin> set n"
    using t(2,3) digits_no_quote by (auto simp: json_int_def json_digits_def)
  moreover have "CHR 0x22 \<notin> set f"
    using t(4) digits_no_quote by (auto simp: json_frac_def json_digits_def)
  moreover have "CHR 0x22 \<notin> set e"
    using t(5) digits_no_quote by (auto simp: json_exp_def json_digits_def)
  ultimately show ?thesis
    using t(1) by simp
qed

lemma ws_no_quote: "list_all json_ws w \<Longrightarrow> CHR 0x22 \<notin> set w"
  by (induction w) (auto simp: json_ws_def)

lemma passes_ws: "list_all json_ws w \<Longrightarrow> passes False w False"
  by (rule passes_outside) (rule ws_no_quote)

lemma passes_char: "c \<noteq> CHR 0x22 \<Longrightarrow> passes False u b \<Longrightarrow> passes False (c # u) b"
  by (simp add: passes_def scan_ok_Cons)

lemma passes_member:
  assumes "json_chars cps raw" "list_all json_ws w1" "list_all json_ws w2" "passes False u False"
  shows "passes False (CHR 0x22 # raw @ CHR 0x22 # w1 @ CHR '':'' # w2 @ u) False"
proof -
  have "passes False ((CHR 0x22 # raw @ [CHR 0x22]) @ w1 @ '':'' @ w2 @ u) False"
    using passes_string [OF assms(1)] passes_ws [OF assms(2)] passes_ws [OF assms(3)] assms(4)
      passes_outside [of "'':''"] by (intro passes_append [of False _ False]) simp_all
  then show ?thesis by simp
qed

lemma passes_json:
  "json_value tight v t \<Longrightarrow> passes False t False"
  "json_elements tight vs t \<Longrightarrow> passes False t False"
  "json_members tight es t \<Longrightarrow> passes False t False"
proof (induction rule: json_value_json_elements_json_members.inducts)
  case (Number t i)
  then show ?case by (rule number_no_quote [THEN passes_outside])
next
  case (LastMember cps raw w1 w2 v t w)
  then have "passes False (t @ w) False"
    using passes_ws by blast
  with LastMember.hyps show ?case by (intro passes_member)
next
  case (Member cps raw w1 w2 v t w w' es u)
  then have "passes False (t @ w @ '','' @ w' @ u) False"
    using passes_ws passes_outside [of "'',''"] by (intro passes_append [of False _ False]) auto
  then have "passes False (t @ w @ CHR '','' # w' @ u) False" by simp
  with Member.hyps show ?case by (intro passes_member)
next
  case (String cps raw)
  then show ?case by (rule passes_string)
next
  case (Array w vs t)
  then have "passes False (''['' @ w @ t @ '']'') False"
    using passes_ws by (intro passes_append [of False _ False]) (auto intro: passes_outside)
  then show ?case by simp
next
  case (Object w es t)
  then have "passes False (''{'' @ w @ t @ ''}'') False"
    using passes_ws by (intro passes_append [of False _ False]) (auto intro: passes_outside)
  then show ?case by simp
next
  case (LastElement v t w)
  then show ?case using passes_ws by blast
next
  case (Element v t w w' vs u)
  then have "passes False (t @ w @ '','' @ w' @ u) False"
    using passes_ws passes_outside [of "'',''"] by (intro passes_append [of False _ False]) auto
  then show ?case by simp
qed (use ws_no_quote in \<open>auto intro!: passes_outside\<close>)

lemma json_text_scan:
  assumes "json_text v s"
  shows "scan_ok s False"
proof -
  obtain w t w' where s: "s = w @ t @ w'" "list_all json_ws w" "list_all json_ws w'" "json_value False v t"
    using assms unfolding json_text_def by blast
  then have "passes False s False"
    using passes_ws passes_json(1) by blast
  then have "scan_ok (s @ []) False = scan_ok [] False"
    unfolding passes_def by blast
  then show ?thesis
    by (simp add: scan_ok_def)
qed

section \<open>The statuses of failures\<close>

abbreviation json_failure :: "dcc_status \<Rightarrow> bool" where
  "json_failure st \<equiv> st \<in> {DCC_ERR_JSON, DCC_ERR_NOMEM}"

lemma number_span_status: "dcc_json_parse_number_span p = Inl st \<Longrightarrow> st = DCC_ERR_JSON"
  by (auto simp: dcc_json_parse_number_span_def number_fraction_def number_exponent_def number_end_def Let_def
      split: if_splits)

lemma json_scalar_status: "json_parse_scalar p c = (Inl st, p') \<Longrightarrow> json_failure st"
  by (auto simp: json_parse_scalar_def json_parse_string_value_def dcc_json_parse_number_def json_parse_literal_def
      split: if_splits prod.splits bool.splits option.splits sum.splits dest: number_span_status)

lemma json_bracket_status:
  "json_begin close p = (Inl st, p') \<Longrightarrow> json_failure st" "json_separator close p = (Inl st, p') \<Longrightarrow> json_failure st"
  by (auto simp: json_begin_def json_separator_def Let_def split: if_splits prod.splits bool.splits list.splits)

lemma json_parse_status:
  "dcc_json_parse_value q1 = (Inl st, p') \<Longrightarrow> json_failure st"
  "dcc_json_parse_array q2 = (Inl st, p') \<Longrightarrow> json_failure st"
  "json_array_loop q3 cap3 items = (Inl st, p') \<Longrightarrow> json_failure st"
  "dcc_json_parse_object q4 = (Inl st, p') \<Longrightarrow> json_failure st"
  "json_object_loop q5 cap5 entries = (Inl st, p') \<Longrightarrow> json_failure st"
proof (induction q1 and q2 and q3 cap3 items and q4 and q5 cap5 entries
    arbitrary: st p' and st p' and st p' and st p' and st p'
    rule: dcc_json_parse_value_dcc_json_parse_array_json_array_loop_dcc_json_parse_object_json_object_loop.induct)
  case (1 q)
  then show ?case
    by (auto simp: dcc_json_parse_value.simps [of q] Let_def split: list.splits if_splits dest: json_scalar_status)
next
  case (2 q)
  then show ?case
    by (auto simp: dcc_json_parse_array.simps [of q] split: prod.splits sum.splits if_splits dest: json_bracket_status)
next
  case (3 q cap items)
  from "3.prems" show ?case
    by (auto simp: json_array_loop.simps [of q] split: prod.splits sum.splits option.splits if_splits
        dest: json_bracket_status "3.IH"(1) "3.IH"(2) [OF sym refl sym refl refl sym refl])
next
  case (4 q)
  then show ?case
    by (auto simp: dcc_json_parse_object.simps [of q] split: prod.splits sum.splits if_splits dest: json_bracket_status)
next
  case (5 q cap entries)
  from "5.prems" show ?case
    by (auto simp: json_object_loop.simps [of q] split: prod.splits sum.splits option.splits if_splits
        dest: json_bracket_status "5.IH"(1) [OF sym refl] "5.IH"(2) [OF sym refl sym refl sym refl refl sym refl])
qed

section \<open>Properties\<close>

lemma json_parse_sound_text:
  assumes "dcc_json_parse hp input = (DCC_OK, j)"
  shows "\<exists>s v. input = Some s \<and> j = Some v \<and> json_text v s"
proof -
  obtain s hp1 st hp2 v p where s: "input = Some s" "alloc_next hp = (True, hp1)"
    "dcc_json_stage1_scan hp1 s = (DCC_OK, st, hp2)"
    "dcc_json_parse_value \<lparr>cur = s, doc_arena = [], heap = hp2\<rparr> = (Inr v, p)" "cur (parser_skip_ws p) = []" "j = Some v"
    using assms by (auto simp: dcc_json_parse_def dest: json_parse_status(1)
        split: option.splits prod.splits bool.splits sum.splits if_splits)
  obtain w t where t: "s = w @ t @ cur p" "list_all json_ws w" "json_value False v t"
    using json_parse_sound(1) [OF s(4)] by auto
  obtain w' where "cur p = w'" "list_all json_ws w'"
    using parser_skip_ws_split [of p] s(5) by auto
  then have "json_text v s"
    using t unfolding json_text_def by blast
  with s(1,6) show ?thesis by blast
qed

lemma json_parse_complete_text:
  assumes "json_text v s" "length s \<le> 2 ^ 57"
  shows "dcc_json_parse [] (Some s) = (DCC_OK, Some v)"
proof -
  obtain w t w' where s: "s = w @ t @ w'" "list_all json_ws w" "list_all json_ws w'" "json_value False v t"
    using assms(1) unfolding json_text_def by blast
  obtain status st where scan: "dcc_json_stage1_scan [] s = (status, st, [])" "status \<in> {DCC_OK, DCC_ERR_JSON}"
    using stage1_scan_memory [of s] assms(2) by auto
  then have "status = DCC_OK"
    using json_text_scan [OF assms(1)] stage1_scan_cases(2) by (fastforce simp: scan_ok_def)
  moreover have "ends_number w'"
    using s(3) by (cases w') (auto simp: json_ws_def dcc_json_is_number_char_def is_digit_def)
  then obtain p where "dcc_json_parse_value \<lparr>cur = s, doc_arena = [], heap = []\<rparr> = (Inr v, p)" "cur p = w'"
    using value_okD [OF json_parse_complete(1) [OF s(4)], of "\<lparr>cur = s, doc_arena = [], heap = []\<rparr>" w w'] s assms(2)
    by auto
  moreover have "dcc_json_skip_ws w' = []"
    using skip_ws_append [OF s(3), of "[]"] by (simp add: dcc_json_skip_ws_def)
  ultimately show ?thesis
    using scan(1) by (simp add: dcc_json_parse_def alloc_next_def parser_skip_ws_def)
qed

text \<open>
  C4. The JSON parser accepts exactly JSON: given memory, \<open>dcc_json_parse\<close> returns the value \<open>v\<close> for a text if
  and only if the text is a JSON document that denotes \<open>v\<close>, in the grammar with any white space, any
  nesting, escapes, paired surrogates and well-formed UTF-8; every other text is refused. In particular the
  fast first pass refuses no document, and no text has two values.
\<close>

theorem json_parse_iff_grammar:
  assumes "length s \<le> 2 ^ 57"
  shows "(dcc_json_parse [] (Some s) = (DCC_OK, Some v) \<longleftrightarrow> json_text v s)
    \<and> ((\<nexists>v. json_text v s) \<longrightarrow> (\<exists>status. dcc_json_parse [] (Some s) = (status, None) \<and> status \<noteq> DCC_OK))"
proof (intro conjI iffI impI)
  assume "dcc_json_parse [] (Some s) = (DCC_OK, Some v)"
  then show "json_text v s"
    using json_parse_sound_text by blast
next
  assume "json_text v s"
  then show "dcc_json_parse [] (Some s) = (DCC_OK, Some v)"
    using assms by (rule json_parse_complete_text)
next
  assume no: "\<nexists>v. json_text v s"
  obtain status j where r: "dcc_json_parse [] (Some s) = (status, j)"
    by (metis surj_pair)
  then have "status \<noteq> DCC_OK"
    using no json_parse_sound_text by blast
  moreover from this have "j = None"
    using r by (auto simp: dcc_json_parse_def split: prod.splits bool.splits sum.splits if_splits)
  ultimately show "\<exists>status. dcc_json_parse [] (Some s) = (status, None) \<and> status \<noteq> DCC_OK"
    using r by blast
qed

definition sample_json :: string where
  "sample_json = ''[1, {'' @ [CHR 0x22] @ ''a'' @ [CHR 0x22] @ '' : null}]''"

lemma sample_json_text:
  "json_text (DCC_JSON_ARRAY [DCC_JSON_NUMBER ''1'', DCC_JSON_OBJECT [(''a'', DCC_JSON_NULL)]]) sample_json"
proof -
  have one: "json_number ''1'' True"
    unfolding json_number_def
    by (intro exI [of _ "[]"] exI [of _ "''1''"]) (simp add: json_int_def json_digits_def is_digit_def json_frac_def json_exp_def)
  have "json_chars [97] (utf8 97 @ [])"
    by (intro json_chars.intros) (simp_all add: scalar_def)
  moreover have u: "utf8 97 = ''a''"
    using eq_char_of [of 97 "CHR ''a''"] by (simp add: utf8_def)
  ultimately have a: "json_chars [97] ''a''"
    by simp
  have sp: "list_all json_ws '' ''" "list_all json_ws ''''"
    by (simp_all add: json_ws_def)
  have "json_members False [(utf8s [97], DCC_JSON_NULL)]
      (CHR 0x22 # ''a'' @ CHR 0x22 # '' '' @ CHR '':'' # '' '' @ ''null'' @ '''')"
    by (rule LastMember [OF a sp(1) sp(1) json_value_json_elements_json_members.Null sp(2)])
  note obj = Object [OF sp(2) this]
  note Array [OF sp(2) Element [OF Number [OF one] sp(2) sp(1) LastElement [OF obj sp(2)]]]
  then have "json_value False (DCC_JSON_ARRAY [DCC_JSON_NUMBER ''1'', DCC_JSON_OBJECT [(''a'', DCC_JSON_NULL)]]) sample_json"
    by (simp add: sample_json_def u)
  then show ?thesis
    unfolding json_text_def by (intro exI [of _ "''''"] exI [of _ sample_json]) simp
qed

theorem json_parse_iff_grammar_witness:
  "dcc_json_parse [] (Some sample_json)
     = (DCC_OK, Some (DCC_JSON_ARRAY [DCC_JSON_NUMBER ''1'', DCC_JSON_OBJECT [(''a'', DCC_JSON_NULL)]]))"
proof -
  have "length sample_json \<le> 2 ^ 57"
    by (simp add: sample_json_def)
  from json_parse_iff_grammar [OF this] sample_json_text show ?thesis
    by blast
qed

text \<open>
  C30. A failing allocator never changes what a text means: whichever of its allocations fail,
  \<open>dcc_json_parse\<close> either returns the value that the text denotes, or no document at all with a status
  that says the argument, the text or the memory was at fault.
\<close>

theorem json_parse_memory:
  "\<exists>status j. dcc_json_parse hp input = (status, j)
     \<and> (status = DCC_OK \<and> (\<exists>s v. input = Some s \<and> j = Some v \<and> json_text v s)
        \<or> j = None \<and> (status = DCC_ERR_INVALID_ARG \<and> input = None \<or> json_failure status))"
proof -
  obtain status j where r: "dcc_json_parse hp input = (status, j)"
    by (metis surj_pair)
  have stage1: "json_failure st" if "dcc_json_stage1_scan h s = (st, x, h')" "st \<noteq> DCC_OK" for h s st x h'
    using that stage1_loop_agrees [of stage1_empty 0 s False False h]
    by (auto simp: dcc_json_stage1_scan_def scan_agrees_def)
  have "j = None \<and> (status = DCC_ERR_INVALID_ARG \<and> input = None \<or> json_failure status)" if "status \<noteq> DCC_OK"
  proof (cases input)
    case None
    with r show ?thesis by (simp add: dcc_json_parse_def)
  next
    case (Some s)
    obtain ok h1 where a: "alloc_next hp = (ok, h1)" by (metis surj_pair)
    obtain st x h2 where b: "dcc_json_stage1_scan h1 s = (st, x, h2)" by (metis prod_cases3)
    obtain res p where c: "dcc_json_parse_value \<lparr>cur = s, doc_arena = [], heap = h2\<rparr> = (res, p)" by (metis surj_pair)
    have "res = Inl e \<Longrightarrow> json_failure e" for e
      using c json_parse_status(1) by blast
    then show ?thesis
      using r that Some a b c stage1 [OF b]
      by (cases ok; cases "st = DCC_OK"; cases res) (auto simp: dcc_json_parse_def split: if_splits)
  qed
  with r json_parse_sound_text [of hp input j] show ?thesis
    by (cases "status = DCC_OK") auto
qed

text \<open>
  C31. The first pass, which steps over sixteen bytes at a time, is a scan one character at a time: given
  memory it accepts the same texts and marks the same quotes and structural characters, and without memory it
  fails and does nothing else.
\<close>

theorem json_stage1_scan_plain:
  assumes "length input \<le> 2 ^ 58"
  shows "(\<exists>st. dcc_json_stage1_scan [] input =
        (case plain_scan 0 input False False of None \<Rightarrow> DCC_ERR_JSON | Some _ \<Rightarrow> DCC_OK, st, [])
      \<and> (\<forall>ms. plain_scan 0 input False False = Some ms \<longrightarrow> marks st = ms))
    \<and> (\<forall>heap. fst (dcc_json_stage1_scan heap input) \<noteq> DCC_ERR_NOMEM
        \<longrightarrow> fst (dcc_json_stage1_scan heap input) = fst (dcc_json_stage1_scan [] input))"
proof -
  let ?ref = "plain_scan 0 input False False"
  have agrees: "scan_agrees stage1_empty ?ref (dcc_json_stage1_scan heap input)" for heap
    unfolding dcc_json_stage1_scan_def by (rule stage1_loop_agrees)
  obtain status st where scan: "dcc_json_stage1_scan [] input = (status, st, [])" "status \<in> {DCC_OK, DCC_ERR_JSON}"
    using stage1_scan_memory [OF assms] by blast
  have st: "status = (case ?ref of None \<Rightarrow> DCC_ERR_JSON | Some _ \<Rightarrow> DCC_OK)" "\<forall>ms. ?ref = Some ms \<longrightarrow> marks st = ms"
    using agrees [of "[]"] scan by (auto simp: scan_agrees_def stage1_empty_def split: option.splits)
  have "fst (dcc_json_stage1_scan heap input) = status" if "fst (dcc_json_stage1_scan heap input) \<noteq> DCC_ERR_NOMEM" for heap
    using that agrees [of heap] st(1) by (auto simp: scan_agrees_def split: prod.splits option.splits)
  with scan(1) st show ?thesis
    by auto
qed

theorem json_stage1_scan_plain_witness:
  "\<exists>st. dcc_json_stage1_scan [] sample_json = (DCC_OK, st, []) \<and> marks st = [0, 2, 4, 5, 7, 9, 15, 16]"
proof -
  have "plain_scan 0 sample_json False False = Some [0, 2, 4, 5, 7, 9, 15, 16]"
    by (simp add: sample_json_def dcc_json_stage1_is_structural_def)
  moreover have "length sample_json \<le> 2 ^ 58"
    by (simp add: sample_json_def)
  ultimately show ?thesis
    using json_stage1_scan_plain [of sample_json] by auto
qed

text \<open>
  C9. Reading a string into a buffer of \<open>cap\<close> bytes succeeds exactly on a JSON string whose text fits: the
  buffer then holds the UTF-8 encoding of the characters, escapes and surrogate pairs decoded, with room for
  the terminator, and the cursor stands behind the closing quote. Malformed UTF-8, control characters,
  unknown escapes and lone surrogates are refused, and nothing is ever written past the buffer.
\<close>

theorem json_string_buffer_exact:
  "dcc_json_parse_string_buffer p cap = Some (s, r) \<longleftrightarrow>
     (\<exists>cps raw. p = CHR 0x22 # raw @ CHR 0x22 # r \<and> json_chars cps raw \<and> s = utf8s cps \<and> length s < cap)"
  by (rule string_buffer_iff)

lemma json_number_integer:
  assumes "json_number t integer"
  shows "integer \<longleftrightarrow> t \<noteq> [] \<and> json_digits (if hd t = CHR ''-'' then tl t else t)"
proof -
  obtain sgn n f e where t: "t = sgn @ n @ f @ e" "sgn \<in> {[], ''-''}" "json_int n" "json_frac f" "json_exp e"
    "integer = (f = [] \<and> e = [])"
    using assms unfolding json_number_def by blast
  have n: "json_digits n"
    using t(3) by (auto simp: json_int_def json_digits_def is_digit_def)
  then obtain d n' where d: "n = d # n'" "is_digit d"
    by (cases n) (auto simp: json_digits_def)
  have "(if hd t = CHR ''-'' then tl t else t) = n @ f @ e"
    using t(1,2) d is_digit_not_space [of d] by auto
  moreover have "list_all is_digit f \<longleftrightarrow> f = []"
    using t(4) by (auto simp: json_frac_def is_digit_def)
  moreover have "list_all is_digit e \<longleftrightarrow> e = []"
    using t(5) by (auto simp: json_exp_def is_digit_def)
  ultimately show ?thesis
    using n d t(1,6) by (simp add: json_digits_def)
qed

text \<open>
  Integers survive: every 64-bit number, printed in decimal, is read back by the token reader both bare
  and in quotes, with any white space in front; what the reader returns is always the value of the digits it
  read; and the accessor for signed numbers returns the value of a number's text exactly when the text is an
  integer between \<open>-2^63\<close> and \<open>2^63 - 1\<close>, so that nothing wraps.
\<close>

theorem json_integer_tokens:
  assumes "list_all json_ws w"
  shows "(ends_number r \<longrightarrow> dcc_json_parse_u64_token (w @ dec_string (unat v) @ r) = Inr (v, r))
    \<and> dcc_json_parse_u64_token (w @ CHR 0x22 # dec_string (unat v) @ CHR 0x22 # r) = Inr (v, r)
    \<and> (dcc_json_parse_u64_token p = Inr (u, r') \<longrightarrow>
        (\<exists>w' t. p = w' @ t @ r' \<and> list_all json_ws w'
          \<and> (json_number t True \<and> dec_value t = unat u
             \<or> (\<exists>raw cps. t = CHR 0x22 # raw @ [CHR 0x22] \<and> json_chars cps raw
                  \<and> json_digits (c_string (utf8s cps)) \<and> dec_value (c_string (utf8s cps)) = unat u))))
    \<and> (json_number t integer \<longrightarrow>
        dcc_json_i64 (Some (DCC_JSON_NUMBER t))
          = (if integer \<and> - (2 ^ 63) \<le> signed_value t \<and> signed_value t < 2 ^ 63 then Some (signed_value t) else None))"
proof (intro conjI impI)
  obtain c s where t: "dec_string (unat v) = c # s" "is_digit c"
    using dec_string_nonempty [of "unat v"] dec_string_digits [of "unat v"] by (cases "dec_string (unat v)") auto
  show "dcc_json_parse_u64_token (w @ dec_string (unat v) @ r) = Inr (v, r)" if "ends_number r"
    using u64_direct_dec [OF that, of v] t digit_not_ws assms
    by (auto simp: dcc_json_parse_u64_token_def Let_def is_digit_def)
  show "dcc_json_parse_u64_token (w @ CHR 0x22 # dec_string (unat v) @ CHR 0x22 # r) = Inr (v, r)"
    using snowflake_key_dec [of v r] assms structural_not_ws by (simp add: dcc_json_parse_u64_token_def)
next
  assume u: "dcc_json_parse_u64_token p = Inr (u, r')"
  obtain w' where w': "p = w' @ dcc_json_skip_ws p" "list_all json_ws w'"
    using skip_ws_split by blast
  have "\<exists>t. dcc_json_skip_ws p = t @ r' \<and> (json_number t True \<and> dec_value t = unat u
      \<or> (\<exists>raw cps. t = CHR 0x22 # raw @ [CHR 0x22] \<and> json_chars cps raw
           \<and> json_digits (c_string (utf8s cps)) \<and> dec_value (c_string (utf8s cps)) = unat u))"
  proof (cases "hd (dcc_json_skip_ws p) = CHR 0x22")
    case True
    then have "dcc_json_parse_snowflake_map_key (dcc_json_skip_ws p) = Inr (u, r')"
      using u by (auto simp: dcc_json_parse_u64_token_def Let_def split: if_splits)
    from snowflake_key_sound [OF this] show ?thesis
      by (metis append_Cons append_Nil append_assoc)
  next
    case False
    then have "dcc_json_parse_u64_direct (dcc_json_skip_ws p) = Inr (u, r')"
      using u by (auto simp: dcc_json_parse_u64_token_def Let_def split: if_splits)
    from u64_direct_sound [OF this] show ?thesis
      by blast
  qed
  then show "\<exists>w' t. p = w' @ t @ r' \<and> list_all json_ws w'
      \<and> (json_number t True \<and> dec_value t = unat u
         \<or> (\<exists>raw cps. t = CHR 0x22 # raw @ [CHR 0x22] \<and> json_chars cps raw
              \<and> json_digits (c_string (utf8s cps)) \<and> dec_value (c_string (utf8s cps)) = unat u))"
    using w' by metis
next
  assume "json_number t integer"
  then have "integer \<longleftrightarrow> t \<noteq> [] \<and> json_digits (if hd t = CHR ''-'' then tl t else t)"
    by (rule json_number_integer)
  then show "dcc_json_i64 (Some (DCC_JSON_NUMBER t))
      = (if integer \<and> - (2 ^ 63) \<le> signed_value t \<and> signed_value t < 2 ^ 63 then Some (signed_value t) else None)"
  proof -
    assume "integer \<longleftrightarrow> t \<noteq> [] \<and> json_digits (if hd t = CHR ''-'' then tl t else t)"
    then have "dcc_json_parse_i64_ascii t = Some x \<longleftrightarrow>
        (integer \<and> - (2 ^ 63) \<le> signed_value t \<and> signed_value t < 2 ^ 63) \<and> x = signed_value t" for x
      unfolding i64_ascii_iff by blast
    from this [of "signed_value t"] this show ?thesis
      by (cases "dcc_json_parse_i64_ascii t") (auto simp: dcc_json_i64_def)
  qed
qed

theorem json_integer_tokens_witness:
  "dcc_json_parse_u64_token ('' 42'' @ '']'') = Inr (42, '']'')
   \<and> dcc_json_i64 (Some (DCC_JSON_NUMBER ''-9223372036854775808'')) = Some (- (2 ^ 63))"
proof -
  have w: "list_all json_ws '' ''"
    by (simp add: json_ws_def)
  have d: "dec_string 42 = ''42''"
    using eq_char_of [of 52 "CHR ''4''"] eq_char_of [of 50 "CHR ''2''"]
    by (simp add: dec_string.simps digit_char_def)
  have n: "json_number ''-9223372036854775808'' True"
    unfolding json_number_def
    by (rule exI [of _ "''-''"], rule exI [of _ "''9223372036854775808''"], rule exI [of _ "[]"], rule exI [of _ "[]"])
      (simp add: json_int_def json_digits_def is_digit_def json_frac_def json_exp_def)
  have "signed_value ''-9223372036854775808'' = - (2 ^ 63)"
    by (simp add: signed_value_def dec_value_def)
  with n json_integer_tokens [OF w, of "'']''" 42 "[]" 0 "[]" "''-9223372036854775808''" True] d show ?thesis
    by simp
qed

text \<open>
  C29. The arena hands out memory that is the caller's alone: whatever is asked for and whichever chunks the
  allocator refuses, every block lies inside its chunk, starts at a multiple of the alignment, and shares no
  byte with another block of the same arena; the 64-bit sums of lengths and sizes never wrap.
\<close>

theorem json_arena_blocks:
  "let (blocks, arena) = arena_allocs [] hp sizes in
     list_all (\<lambda>b. block_inside arena b \<and> 16 dvd unat (snd (fst b))) blocks \<and> sorted_wrt blocks_apart blocks"
proof -
  obtain blocks arena where r: "arena_allocs [] hp sizes = (blocks, arena)"
    by (metis surj_pair)
  then show ?thesis
    using arena_allocs_blocks [OF _ r] by (auto simp: list_all_iff)
qed

end
