(* ===== verification/DCC_Json_Skip.thy ===== *)
theory DCC_Json_Skip
  imports DCC_Json_Grammar
begin

text \<open>
  Skipping a JSON value (\<^verbatim>\<open>src/json/dcc_json_parse_skip.c\<close>, \<^verbatim>\<open>dcc_json_parse_skip_array.c\<close>,
  \<^verbatim>\<open>dcc_json_parse_skip_object.c\<close>): the payload parsers step over the members they do not know with it. It
  allocates nothing, so a reader is a function of the text. It is compared with the grammar: it steps over
  every value in which no white space stands between a comma and the key behind it, and refuses every object
  in which some does.
\<close>

section \<open>Definitions\<close>

definition json_skip_scalar :: "string \<Rightarrow> char \<Rightarrow> dcc_status + string" where
  "json_skip_scalar p c =
     (if c = CHR 0x22 then
        (case dcc_json_find_string_end p of None \<Rightarrow> Inl DCC_ERR_JSON | Some (raw, r, escaped) \<Rightarrow> Inr (tl r))
      else if c = CHR ''-'' \<or> is_digit c then
        (case dcc_json_parse_number_span p of Inl status \<Rightarrow> Inl status | Inr (t, integer, r) \<Rightarrow> Inr r)
      else
        (case (if c = CHR ''t'' then dcc_json_match_literal p ''true''
               else if c = CHR ''f'' then dcc_json_match_literal p ''false''
               else if c = CHR ''n'' then dcc_json_match_literal p ''null''
               else None) of
           None \<Rightarrow> Inl DCC_ERR_JSON
         | Some r \<Rightarrow> Inr r))"

text \<open>Behind the opening bracket: \<open>True\<close> when the closing one follows.\<close>

definition json_skip_begin :: "char \<Rightarrow> string \<Rightarrow> bool \<times> string" where
  "json_skip_begin close p =
     (let p = dcc_json_skip_ws (tl p) in if next_is (\<lambda>c. c = close) p then (True, tl p) else (False, p))"

text \<open>The end of a round of the loops: the closing bracket or a comma; the space behind a comma stays.\<close>

definition json_skip_separator :: "char \<Rightarrow> string \<Rightarrow> dcc_status + bool \<times> string" where
  "json_skip_separator close p =
     (case dcc_json_skip_ws p of
        [] \<Rightarrow> Inl DCC_ERR_JSON
      | c # r \<Rightarrow>
          if c = close then Inr (True, r)
          else if c \<noteq> CHR '','' then Inl DCC_ERR_JSON
          else Inr (False, r))"

text \<open>The key of an object's entry and the colon. A key too long for the buffer of two bytes is found again
  by its closing quote; at the end of the text that second search is left out.\<close>

definition json_skip_key :: "string \<Rightarrow> string option" where
  "json_skip_key p =
     (case (case dcc_json_parse_string_buffer p 2 of
              Some (key, r) \<Rightarrow> Some r
            | None \<Rightarrow>
                if p = [] then Some p
                else map_option (\<lambda>(raw, r, escaped). tl r) (dcc_json_find_string_end p)) of
        None \<Rightarrow> None
      | Some r \<Rightarrow>
          let r = dcc_json_skip_ws r in
          if \<not> next_is (\<lambda>c. c = CHR '':'') r then None else Some (tl r))"

lemma json_skip_scalar_length: "json_skip_scalar p c = Inr r \<Longrightarrow> length r \<le> length p"
  by (auto simp: json_skip_scalar_def find_string_end_iff number_span_iff match_literal_iff
      split: if_splits option.splits sum.splits)

lemma skip_ws_less: "dcc_json_skip_ws p = c # r \<Longrightarrow> length r < length p"
  using skip_ws_length [of p] by simp

lemma json_skip_begin_length: "json_skip_begin close p = (b, r) \<Longrightarrow> p \<noteq> [] \<Longrightarrow> length r < length p"
  using skip_ws_length [of "tl p"] by (cases p) (auto simp: json_skip_begin_def Let_def split: if_splits)

lemma json_skip_separator_length: "json_skip_separator close p = Inr (b, r) \<Longrightarrow> length r < length p"
  by (auto simp: json_skip_separator_def split: list.splits if_splits dest: skip_ws_less)

lemma json_skip_key_length:
  assumes "json_skip_key p = Some r"
  shows "length r < length p"
proof -
  have "\<exists>q. length q \<le> length p \<and> r = tl (dcc_json_skip_ws q) \<and> dcc_json_skip_ws q \<noteq> []"
    using assms by (force simp: json_skip_key_def Let_def string_buffer_iff find_string_end_iff next_is_def
        split: option.splits if_splits)
  then obtain q where q: "length q \<le> length p" "r = tl (dcc_json_skip_ws q)" "dcc_json_skip_ws q \<noteq> []"
    by blast
  then have "length r < length (dcc_json_skip_ws q)"
    by (cases "dcc_json_skip_ws q") auto
  then show ?thesis
    using skip_ws_length [of q] q(1) by simp
qed

function dcc_json_skip_value :: "string \<Rightarrow> dcc_status + string"
  and dcc_json_skip_array :: "string \<Rightarrow> dcc_status + string"
  and json_skip_array_loop :: "string \<Rightarrow> dcc_status + string"
  and dcc_json_skip_object :: "string \<Rightarrow> dcc_status + string"
  and json_skip_object_loop :: "string \<Rightarrow> dcc_status + string"
where
  "dcc_json_skip_value q =
     (case dcc_json_skip_ws q of
        [] \<Rightarrow> Inl DCC_ERR_JSON
      | c # r \<Rightarrow>
          if c = CHR ''{'' then dcc_json_skip_object (c # r)
          else if c = CHR ''['' then dcc_json_skip_array (c # r)
          else json_skip_scalar (c # r) c)"
| "dcc_json_skip_array q =
     (if q = [] then Inl DCC_ERR_JSON
      else case json_skip_begin (CHR '']'') q of
        (closed, p) \<Rightarrow> if closed then Inr p else json_skip_array_loop p)"
| "json_skip_array_loop q =
     (case dcc_json_skip_value q of
        Inl status \<Rightarrow> Inl status
      | Inr p \<Rightarrow>
          (case json_skip_separator (CHR '']'') p of
             Inl status \<Rightarrow> Inl status
           | Inr (closed, r) \<Rightarrow> if closed then Inr r else json_skip_array_loop r))"
| "dcc_json_skip_object q =
     (if q = [] then Inl DCC_ERR_JSON
      else case json_skip_begin (CHR ''}'') q of
        (closed, p) \<Rightarrow> if closed then Inr p else json_skip_object_loop p)"
| "json_skip_object_loop q =
     (case json_skip_key q of
        None \<Rightarrow> Inl DCC_ERR_JSON
      | Some p \<Rightarrow>
          (case dcc_json_skip_value p of
             Inl status \<Rightarrow> Inl status
           | Inr p \<Rightarrow>
               (case json_skip_separator (CHR ''}'') p of
                  Inl status \<Rightarrow> Inl status
                | Inr (closed, r) \<Rightarrow> if closed then Inr r else json_skip_object_loop r)))"
  by pat_completeness auto

abbreviation json_skip_dom where
  "json_skip_dom \<equiv> dcc_json_skip_value_dcc_json_skip_array_json_skip_array_loop_dcc_json_skip_object_json_skip_object_loop_dom"

lemma json_skip_shrinks:
  "json_skip_dom (Inl (Inl q1)) \<Longrightarrow> dcc_json_skip_value q1 = Inr r \<Longrightarrow> length r \<le> length q1"
  "json_skip_dom (Inl (Inr q2)) \<Longrightarrow> dcc_json_skip_array q2 = Inr r \<Longrightarrow> length r \<le> length q2"
  "json_skip_dom (Inr (Inl q3)) \<Longrightarrow> json_skip_array_loop q3 = Inr r \<Longrightarrow> length r \<le> length q3"
  "json_skip_dom (Inr (Inr (Inl q4))) \<Longrightarrow> dcc_json_skip_object q4 = Inr r \<Longrightarrow> length r \<le> length q4"
  "json_skip_dom (Inr (Inr (Inr q5))) \<Longrightarrow> json_skip_object_loop q5 = Inr r \<Longrightarrow> length r \<le> length q5"
proof (induction q1 and q2 and q3 and q4 and q5 arbitrary: r and r and r and r and r
    rule: dcc_json_skip_value_dcc_json_skip_array_json_skip_array_loop_dcc_json_skip_object_json_skip_object_loop.pinduct)
  case (1 q)
  then show ?case
    using skip_ws_length [of q]
    by (fastforce simp: dcc_json_skip_value.psimps split: list.splits if_splits dest: json_skip_scalar_length)
next
  case (2 q)
  then show ?case
    by (fastforce simp: dcc_json_skip_array.psimps split: prod.splits if_splits dest: json_skip_begin_length)
next
  case (3 q)
  then show ?case
    by (fastforce simp: json_skip_array_loop.psimps split: sum.splits prod.splits if_splits
        dest: json_skip_separator_length)
next
  case (4 q)
  then show ?case
    by (fastforce simp: dcc_json_skip_object.psimps split: prod.splits if_splits dest: json_skip_begin_length)
next
  case (5 q)
  then show ?case
    by (fastforce simp: json_skip_object_loop.psimps split: option.splits sum.splits prod.splits if_splits
        dest: json_skip_separator_length json_skip_key_length)
qed

definition json_skip_rank :: "(string + string) + string + string + string \<Rightarrow> nat \<times> nat" where
  "json_skip_rank x =
     (case x of
        Inl (Inl q) \<Rightarrow> (length q, 1)
      | Inl (Inr q) \<Rightarrow> (length q, 0)
      | Inr (Inl q) \<Rightarrow> (length q, 2)
      | Inr (Inr (Inl q)) \<Rightarrow> (length q, 0)
      | Inr (Inr (Inr q)) \<Rightarrow> (length q, 2))"

lemma json_skip_round_shorter:
  assumes "dcc_json_skip_value q = Inr p" "json_skip_dom (Inl (Inl q))" "json_skip_separator close p = Inr (b, r)"
  shows "length r < length q"
  using json_skip_shrinks(1) [OF assms(2,1)] json_skip_separator_length [OF assms(3)] by simp

lemma json_skip_round_key:
  assumes "json_skip_key q = Some p1" "dcc_json_skip_value p1 = Inr p" "json_skip_dom (Inl (Inl p1))"
    "json_skip_separator close p = Inr (b, r)"
  shows "length r < length q"
  using json_skip_round_shorter [OF assms(2-4)] json_skip_key_length [OF assms(1)] by simp

lemma skip_ws_Suc: "dcc_json_skip_ws q = c # r \<Longrightarrow> Suc (length r) \<le> length q"
  using skip_ws_length [of q] by simp

termination dcc_json_skip_value
  by (relation "measures [fst \<circ> json_skip_rank, snd \<circ> json_skip_rank]")
    (auto simp: json_skip_rank_def order_le_less
       dest: json_skip_begin_length [OF sym] json_skip_round_shorter json_skip_round_key json_skip_key_length skip_ws_Suc)

declare dcc_json_skip_value.simps [simp del] dcc_json_skip_array.simps [simp del] json_skip_array_loop.simps [simp del]
  dcc_json_skip_object.simps [simp del] json_skip_object_loop.simps [simp del]

section \<open>Skipping and the grammar\<close>

lemma skip_key_ok:
  assumes "json_chars cps raw" "list_all json_ws w"
  shows "json_skip_key (CHR 0x22 # raw @ CHR 0x22 # w @ CHR '':'' # r) = Some r"
proof -
  let ?p = "CHR 0x22 # raw @ CHR 0x22 # w @ CHR '':'' # r"
  have found: "dcc_json_find_string_end ?p = Some (raw, CHR 0x22 # w @ CHR '':'' # r, CHR 0x5C \<in> set raw)"
    unfolding find_string_end_iff using json_chars_raw [OF assms(1)] by simp
  have "q = w @ CHR '':'' # r" if buf: "dcc_json_parse_string_buffer ?p 2 = Some (key, q)" for key q
  proof -
    obtain raw' cps' where p: "?p = CHR 0x22 # raw' @ CHR 0x22 # q" "json_chars cps' raw'"
      using buf [unfolded string_buffer_iff] by blast
    then have "dcc_json_find_string_end ?p = Some (raw', CHR 0x22 # q, CHR 0x5C \<in> set raw')"
      unfolding find_string_end_iff using json_chars_raw by blast
    with found show ?thesis by simp
  qed
  then have rest: "(case dcc_json_parse_string_buffer ?p 2 of
        Some (key, q) \<Rightarrow> Some q
      | None \<Rightarrow> if ?p = [] then Some ?p else map_option (\<lambda>(raw, q, escaped). tl q) (dcc_json_find_string_end ?p))
      = Some (w @ CHR '':'' # r)"
    using found by (cases "dcc_json_parse_string_buffer ?p 2") auto
  show ?thesis
    unfolding json_skip_key_def rest using assms(2) structural_not_ws by simp
qed

lemma skip_key_space: "json_ws c \<Longrightarrow> json_skip_key (c # r) = None"
proof -
  assume "json_ws c"
  then have "c \<noteq> CHR 0x22"
    by (auto simp: json_ws_def)
  then have "dcc_json_find_string_end (c # r) = None"
    by (simp add: dcc_json_find_string_end_def)
  then show ?thesis
    by (simp add: json_skip_key_def dcc_json_parse_string_buffer_def)
qed

definition value_skips :: "string \<Rightarrow> bool" where
  "value_skips t \<longleftrightarrow> (\<forall>w r. list_all json_ws w \<longrightarrow> ends_number r \<longrightarrow> dcc_json_skip_value (w @ t @ r) = Inr r)"

definition elements_skip :: "string \<Rightarrow> bool" where
  "elements_skip t \<longleftrightarrow> (\<forall>w r. list_all json_ws w \<longrightarrow> json_skip_array_loop (w @ t @ CHR '']'' # r) = Inr r)"

definition members_skip :: "string \<Rightarrow> bool" where
  "members_skip t \<longleftrightarrow> (\<forall>r. json_skip_object_loop (t @ CHR ''}'' # r) = Inr r)"

lemma value_skips_scalar:
  assumes "\<And>r. ends_number r \<Longrightarrow> json_skip_scalar ((c # s) @ r) c = Inr r" "\<not> json_ws c" "c \<noteq> CHR ''{''" "c \<noteq> CHR ''[''"
  shows "value_skips (c # s)"
  using assms by (simp add: value_skips_def dcc_json_skip_value.simps)

lemma value_skips_literal: "value_skips ''null''" "value_skips ''true''" "value_skips ''false''"
  by (rule value_skips_scalar;
      simp add: json_skip_scalar_def is_digit_def json_ws_def dcc_json_match_literal_def)+

lemma value_skips_number:
  assumes "json_number t i"
  shows "value_skips t"
proof -
  obtain c s where t: "t = c # s" "c = CHR ''-'' \<or> is_digit c"
    using json_number_first [OF assms] by blast
  have "json_skip_scalar (t @ r) c = Inr r" if "ends_number r" for r
  proof -
    have "dcc_json_parse_number_span (t @ r) = Inr (t, i, r)"
      unfolding number_span_iff using assms that by simp
    then show ?thesis
      using t(2) by (auto simp: json_skip_scalar_def is_digit_def)
  qed
  then show ?thesis
    unfolding t(1) by (rule value_skips_scalar) (use t(2) in \<open>auto simp: json_ws_def is_digit_def\<close>)
qed

lemma value_skips_string:
  assumes "json_chars cps raw"
  shows "value_skips (CHR 0x22 # raw @ [CHR 0x22])"
proof (rule value_skips_scalar)
  fix r
  have "dcc_json_find_string_end (CHR 0x22 # raw @ CHR 0x22 # r) = Some (raw, CHR 0x22 # r, CHR 0x5C \<in> set raw)"
    unfolding find_string_end_iff using json_chars_raw [OF assms] by simp
  then show "json_skip_scalar ((CHR 0x22 # raw @ [CHR 0x22]) @ r) (CHR 0x22) = Inr r"
    by (simp add: json_skip_scalar_def)
qed (simp_all add: json_ws_def)

lemma skip_begin_ok:
  assumes "list_all json_ws w" "\<not> json_ws d"
  shows "json_skip_begin close (c # w @ d # r) = (d = close, if d = close then r else d # r)"
  using assms by (simp add: json_skip_begin_def)

lemma value_skips_empty:
  assumes "list_all json_ws w"
  shows "value_skips (CHR ''['' # w @ '']'')" "value_skips (CHR ''{'' # w @ ''}'')"
  using assms structural_not_ws
  by (simp_all add: value_skips_def dcc_json_skip_value.simps dcc_json_skip_array.simps dcc_json_skip_object.simps
      skip_begin_ok)

lemma value_skips_array:
  assumes "list_all json_ws w" "elements_skip t" "t = c # s" "value_char c"
  shows "value_skips (CHR ''['' # w @ t @ '']'')"
proof -
  have "json_skip_array_loop (c # s @ CHR '']'' # r) = Inr r" for r
    using assms(2,3) unfolding elements_skip_def by (metis append_Cons append_Nil list.pred_inject(1))
  then show ?thesis
    using assms(1,3) value_char_not [OF assms(4)] structural_not_ws
    by (simp add: value_skips_def dcc_json_skip_value.simps dcc_json_skip_array.simps skip_begin_ok)
qed

lemma value_skips_object:
  assumes "list_all json_ws w" "members_skip t" "t = CHR 0x22 # s"
  shows "value_skips (CHR ''{'' # w @ t @ ''}'')"
  using assms structural_not_ws
  by (simp add: value_skips_def members_skip_def dcc_json_skip_value.simps dcc_json_skip_object.simps skip_begin_ok)

lemma skip_separator_ok:
  assumes "list_all json_ws w" "close \<in> {CHR '']'', CHR ''}''}"
  shows "json_skip_separator close (w @ close # r) = Inr (True, r)"
    "json_skip_separator close (w @ CHR '','' # r) = Inr (False, r)"
  using assms structural_not_ws by (auto simp: json_skip_separator_def)

lemma elements_skip_last:
  assumes "value_skips t" "list_all json_ws w"
  shows "elements_skip (t @ w)"
proof -
  have "dcc_json_skip_value (w0 @ t @ w @ CHR '']'' # r) = Inr (w @ CHR '']'' # r)" if "list_all json_ws w0" for w0 r
    using assms that ends_number_ws unfolding value_skips_def by simp
  then show ?thesis
    using assms(2) by (simp add: elements_skip_def json_skip_array_loop.simps skip_separator_ok)
qed

lemma elements_skip_more:
  assumes "value_skips t" "list_all json_ws w" "list_all json_ws w'" "elements_skip u"
  shows "elements_skip (t @ w @ CHR '','' # w' @ u)"
proof -
  have "dcc_json_skip_value (w0 @ t @ w @ CHR '','' # r) = Inr (w @ CHR '','' # r)" if "list_all json_ws w0" for w0 r
    using assms that ends_number_ws unfolding value_skips_def by simp
  moreover have "json_skip_array_loop (w' @ u @ CHR '']'' # r) = Inr r" for r
    using assms(3,4) unfolding elements_skip_def by blast
  ultimately show ?thesis
    unfolding elements_skip_def using assms(2)
    by (subst json_skip_array_loop.simps) (simp add: skip_separator_ok)
qed

lemma member_round:
  assumes "json_chars cps raw" "list_all json_ws w1" "list_all json_ws w2" "value_skips t" "ends_number r"
  shows "json_skip_object_loop (CHR 0x22 # raw @ CHR 0x22 # w1 @ CHR '':'' # w2 @ t @ r) =
     (case json_skip_separator (CHR ''}'') r of
        Inl status \<Rightarrow> Inl status
      | Inr (closed, r) \<Rightarrow> if closed then Inr r else json_skip_object_loop r)"
proof -
  have "dcc_json_skip_value (w2 @ t @ r) = Inr r"
    using assms(3-5) unfolding value_skips_def by blast
  then show ?thesis
    using skip_key_ok [OF assms(1,2)] by (subst json_skip_object_loop.simps) simp
qed

lemma members_skip_last:
  assumes "json_chars cps raw" "list_all json_ws w1" "list_all json_ws w2" "value_skips t" "list_all json_ws w"
  shows "members_skip (CHR 0x22 # raw @ CHR 0x22 # w1 @ CHR '':'' # w2 @ t @ w)"
  using member_round [OF assms(1-4)] ends_number_ws [OF assms(5)] assms(5)
  by (simp add: members_skip_def skip_separator_ok)

lemma members_skip_more:
  assumes "json_chars cps raw" "list_all json_ws w1" "list_all json_ws w2" "value_skips t" "list_all json_ws w"
    "members_skip u"
  shows "members_skip (CHR 0x22 # raw @ CHR 0x22 # w1 @ CHR '':'' # w2 @ t @ w @ CHR '','' # u)"
  using member_round [OF assms(1-4)] ends_number_ws [OF assms(5)] assms(5,6)
  by (simp add: members_skip_def skip_separator_ok)

lemma json_skips:
  "json_value tight v t \<Longrightarrow> tight \<Longrightarrow> value_skips t"
  "json_elements tight vs t \<Longrightarrow> tight \<Longrightarrow> elements_skip t"
  "json_members tight es t \<Longrightarrow> tight \<Longrightarrow> members_skip t"
proof (induction rule: json_value_json_elements_json_members.inducts)
  case (Array w vs t)
  then show ?case using value_skips_array json_elements_first by metis
next
  case (Object w es t)
  then show ?case using value_skips_object json_members_first by metis
next
  case (Member cps raw w1 w2 v t w w' es u)
  then show ?case using members_skip_more [of cps raw w1 w2 t w u] by simp
qed (auto intro: value_skips_literal value_skips_number value_skips_string value_skips_empty
    elements_skip_last elements_skip_more members_skip_last)

lemma json_loosen:
  "json_value tight v t \<Longrightarrow> json_value False v t"
  "json_elements tight vs t \<Longrightarrow> json_elements False vs t"
  "json_members tight es t \<Longrightarrow> json_members False es t"
  by (induction rule: json_value_json_elements_json_members.inducts)
    (auto intro: json_value_json_elements_json_members.intros)

section \<open>Properties\<close>

text \<open>
  C32. Skipping follows the grammar but for white space before a later key: a JSON value without white
  space between a comma and the next key is stepped over, wherever it stands and up to its last character;
  but an object whose second key has white space in front is refused with \<open>DCC_ERR_JSON\<close>, although it is JSON
  and \<open>dcc_json_parse\<close> accepts it.
\<close>

theorem json_skip_value_exact:
  assumes "list_all json_ws w0" "ends_number r"
  shows "(json_value True v t \<longrightarrow> dcc_json_skip_value (w0 @ t @ r) = Inr r)
    \<and> (json_chars cps raw \<and> list_all json_ws (w @ w1 @ w2 @ w3 @ w4) \<and> w4 \<noteq> [] \<and> json_value True v1 t1
         \<and> json_members False es m
       \<longrightarrow> (let u = CHR ''{'' # w @ CHR 0x22 # raw @ CHR 0x22 # w1 @ CHR '':'' # w2 @ t1 @ w3 @ CHR '','' # w4 @ m @ ''}'' in
            dcc_json_skip_value (w0 @ u @ r) = Inl DCC_ERR_JSON
            \<and> json_value False (DCC_JSON_OBJECT ((utf8s cps, v1) # es)) u))"
proof (intro conjI impI)
  assume "json_value True v t"
  then show "dcc_json_skip_value (w0 @ t @ r) = Inr r"
    using json_skips(1) assms unfolding value_skips_def by blast
next
  assume a: "json_chars cps raw \<and> list_all json_ws (w @ w1 @ w2 @ w3 @ w4) \<and> w4 \<noteq> [] \<and> json_value True v1 t1
      \<and> json_members False es m"
  let ?m = "CHR 0x22 # raw @ CHR 0x22 # w1 @ CHR '':'' # w2 @ t1 @ w3 @ CHR '','' # w4 @ m"
  obtain c w4' where w4: "w4 = c # w4'" "json_ws c"
    using a by (cases w4) auto
  have "value_skips t1"
    using a json_skips(1) by blast
  then have "json_skip_object_loop (?m @ CHR ''}'' # r) = json_skip_object_loop (w4 @ m @ CHR ''}'' # r)"
    using member_round [of cps raw w1 w2 t1 "w3 @ CHR '','' # w4 @ m @ CHR ''}'' # r"] a ends_number_ws
    by (simp add: skip_separator_ok)
  also have "\<dots> = Inl DCC_ERR_JSON"
    using skip_key_space [OF w4(2)] w4(1) by (subst json_skip_object_loop.simps) simp
  finally have "dcc_json_skip_value (w0 @ (CHR ''{'' # w @ ?m @ ''}'') @ r) = Inl DCC_ERR_JSON"
    using a assms(1) structural_not_ws
    by (simp add: dcc_json_skip_value.simps dcc_json_skip_object.simps skip_begin_ok)
  moreover have "json_value False (DCC_JSON_OBJECT ((utf8s cps, v1) # es)) (CHR ''{'' # w @ ?m @ ''}'')"
    using a json_loosen(1) by (intro Object Member) auto
  ultimately show "let u = CHR ''{'' # w @ CHR 0x22 # raw @ CHR 0x22 # w1 @ CHR '':'' # w2 @ t1 @ w3 @ CHR '','' # w4 @ m @ ''}'' in
            dcc_json_skip_value (w0 @ u @ r) = Inl DCC_ERR_JSON
            \<and> json_value False (DCC_JSON_OBJECT ((utf8s cps, v1) # es)) u"
    by simp
qed

lemma sample_member:
  "json_chars [97] ''a''" "json_value tight (DCC_JSON_NUMBER ''1'') ''1''"
  "json_members tight [(''a'', DCC_JSON_NUMBER ''1'')] (CHR 0x22 # ''a'' @ CHR 0x22 # '':1'')" and utf8_a: "utf8 97 = ''a''"
proof -
  show u: "utf8 97 = ''a''"
    using eq_char_of [of 97 "CHR ''a''"] by (simp add: utf8_def)
  have "json_chars [97] (utf8 97 @ [])"
    by (intro json_chars.intros) (simp_all add: scalar_def)
  then show a: "json_chars [97] ''a''"
    using u by simp
  have "json_number ''1'' True"
    unfolding json_number_def
    by (rule exI [of _ "[]"], rule exI [of _ "''1''"], rule exI [of _ "[]"], rule exI [of _ "[]"])
      (simp add: json_int_def json_digits_def is_digit_def json_frac_def json_exp_def)
  then show one: "json_value tight (DCC_JSON_NUMBER ''1'') ''1''"
    by (rule Number)
  from LastMember [OF a _ _ one, of "[]" "[]" "[]"] u
  show "json_members tight [(''a'', DCC_JSON_NUMBER ''1'')] (CHR 0x22 # ''a'' @ CHR 0x22 # '':1'')"
    by simp
qed

theorem json_skip_value_exact_witness:
  "let a = CHR 0x22 # ''a'' @ CHR 0x22 # '':1'' in
     dcc_json_skip_value (''{'' @ a @ ''},'') = Inr '',''
     \<and> dcc_json_skip_value (''{'' @ a @ '', '' @ a @ ''},'') = Inl DCC_ERR_JSON"
proof -
  let ?a = "CHR 0x22 # ''a'' @ CHR 0x22 # '':1''"
  have obj: "json_value True (DCC_JSON_OBJECT [(''a'', DCC_JSON_NUMBER ''1'')]) (CHR ''{'' # [] @ ?a @ ''}'')"
    by (rule Object) (simp_all add: sample_member [simplified])
  have ws: "list_all json_ws []" "list_all json_ws ([] @ [] @ [] @ [] @ '' '')"
    by (simp_all add: json_ws_def)
  have "ends_number '',''"
    by simp
  from json_skip_value_exact [OF ws(1) this, of "DCC_JSON_OBJECT [(''a'', DCC_JSON_NUMBER ''1'')]" "CHR ''{'' # [] @ ?a @ ''}''"
      "[97]" "''a''" "[]" "[]" "[]" "[]" "'' ''" "DCC_JSON_NUMBER ''1''" "''1''" "[(''a'', DCC_JSON_NUMBER ''1'')]" ?a]
    obj ws(2) sample_member show ?thesis
    by (simp add: Let_def)
qed

end
