(* ===== verification/DCC_Component_Session.thy ===== *)
theory DCC_Component_Session
  imports DCC_Gateway_Text DCC_Json_Memory "HOL-Library.Monad_Syntax"
begin

text \<open>
  Component sessions (\<^verbatim>\<open>src/component_session/\<close>): a bot puts signed ids on its buttons, menus and forms and
  checks the ids that come back. This theory has the options and the creation of a session
  (\<^verbatim>\<open>component_session_options.c\<close>, \<^verbatim>\<open>component_session_state.c\<close>), tokens, random ids and signatures
  (\<^verbatim>\<open>component_session_crypto.c\<close>), the format of the ids (\<^verbatim>\<open>component_session_custom_id.c\<close>) and their
  verification (\<^verbatim>\<open>component_session_verify.c\<close>).

  HMAC-SHA256 of OpenSSL is the argument \<open>hmac\<close>: key and message to digest, \<open>None\<close> when the call fails. The
  answers of the random generator are arguments too. A secret is its bytes; the empty list stands for no secret.
  The ids a session owns for its buttons are only ever freed and are left out of the state, and so are the
  button builders that use them.
\<close>

section \<open>Sessions, checks and results\<close>

definition DCC_COMPONENT_SESSION_CUSTOM_ID_MAX :: nat where
  "DCC_COMPONENT_SESSION_CUSTOM_ID_MAX = 100"

definition DCC_COMPONENT_SESSION_ID_MAX :: nat where
  "DCC_COMPONENT_SESSION_ID_MAX = 16"

definition DCC_COMPONENT_SESSION_ACTION_MAX :: nat where
  "DCC_COMPONENT_SESSION_ACTION_MAX = 32"

definition DCC_COMPONENT_SESSION_NONCE_MAX :: nat where
  "DCC_COMPONENT_SESSION_NONCE_MAX = 16"

definition DCC_COMPONENT_SESSION_SIG_HEX_LEN :: nat where
  "DCC_COMPONENT_SESSION_SIG_HEX_LEN = 16"

definition INT_MAX :: nat where
  "INT_MAX = 2 ^ 31 - 1"

lemmas component_limits =
  DCC_COMPONENT_SESSION_CUSTOM_ID_MAX_def DCC_COMPONENT_SESSION_ID_MAX_def DCC_COMPONENT_SESSION_ACTION_MAX_def
  DCC_COMPONENT_SESSION_NONCE_MAX_def DCC_COMPONENT_SESSION_SIG_HEX_LEN_def

datatype dcc_component_session_verify_status =
    VERIFY_OK
  | VERIFY_BAD_FORMAT
  | VERIFY_BAD_SIGNATURE
  | VERIFY_EXPIRED
  | VERIFY_WRONG_USER
  | VERIFY_WRONG_CHANNEL
  | VERIFY_WRONG_GUILD
  | VERIFY_NOT_FOUND

record dcc_component_session_options =
  opt_secret :: "u8 list"
  opt_session_id :: "string option"
  opt_nonce :: "string option"
  opt_now_ms :: u64
  opt_ttl_ms :: u64
  opt_user_id :: snowflake
  opt_channel_id :: snowflake
  opt_guild_id :: snowflake
  opt_lock_user :: bool
  opt_lock_channel :: bool
  opt_lock_guild :: bool

record dcc_component_session_state =
  session_id :: string
  nonce :: string
  secret :: "u8 list"
  expires_at_ms :: u64
  user_id :: snowflake
  channel_id :: snowflake
  guild_id :: snowflake
  lock_user :: bool
  lock_channel :: bool
  lock_guild :: bool

record dcc_component_session_parts =
  parts_session_id :: string
  parts_action :: string
  parts_nonce :: string
  parts_sig :: string

record dcc_component_session_check =
  check_custom_id :: string
  check_now_ms :: u64
  check_user_id :: snowflake
  check_channel_id :: snowflake
  check_guild_id :: snowflake

record dcc_component_session_result =
  result_status :: dcc_component_session_verify_status
  result_session_id :: string
  result_action :: string
  result_nonce :: string
  result_expires_at_ms :: u64

type_synonym hmac_fun = "u8 list \<Rightarrow> string \<Rightarrow> u8 list option"

section \<open>Tokens and signatures\<close>

definition dcc_component_session_token_char :: "char \<Rightarrow> bool" where
  "dcc_component_session_token_char c \<longleftrightarrow>
     97 \<le> code c \<and> code c \<le> 122 \<or> 65 \<le> code c \<and> code c \<le> 90 \<or> is_digit c \<or> c = CHR ''_'' \<or> c = CHR ''-''"

fun token_loop :: "nat \<Rightarrow> nat \<Rightarrow> string \<Rightarrow> bool" where
  "token_loop max_len len [] = (len \<noteq> 0)"
| "token_loop max_len len (c # s) =
     (if len \<ge> max_len \<or> \<not> dcc_component_session_token_char c then False else token_loop max_len (len + 1) s)"

definition dcc_component_session_token_valid :: "string option \<Rightarrow> nat \<Rightarrow> bool" where
  "dcc_component_session_token_valid token max_len =
     (case token of None \<Rightarrow> False | Some t \<Rightarrow> t \<noteq> [] \<and> token_loop max_len 0 t)"

text \<open>The two hexadecimal digits of a byte.\<close>

definition hex_pair :: "u8 \<Rightarrow> string" where
  "hex_pair b = [hex_char (unat (drop_bit 4 b)), hex_char (unat (b AND 0x0F))]"

definition dcc_component_session_make_random_hex :: "u8 list option \<Rightarrow> nat \<Rightarrow> dcc_status + string" where
  "dcc_component_session_make_random_hex rand hex_len =
     (if hex_len = 0 \<or> hex_len mod 2 \<noteq> 0 then Inl DCC_ERR_INVALID_ARG
      else if hex_len div 2 > DCC_COMPONENT_SESSION_ID_MAX div 2 then Inl DCC_ERR_INVALID_ARG
      else case rand of
        None \<Rightarrow> Inl DCC_ERR_RUNTIME
      | Some raw \<Rightarrow> Inr (concat (map hex_pair (take (hex_len div 2) raw))))"

definition signed_text :: "string \<Rightarrow> string \<Rightarrow> string \<Rightarrow> string" where
  "signed_text sid action nc = ''dcc:v1:'' @ sid @ '':'' @ action @ '':'' @ nc"

definition dcc_component_session_sign ::
  "hmac_fun \<Rightarrow> dcc_component_session_state \<Rightarrow> string \<Rightarrow> string \<Rightarrow> dcc_status + string" where
  "dcc_component_session_sign hmac st action nc =
     (if secret st = [] \<or> length (secret st) > INT_MAX then Inl DCC_ERR_INVALID_ARG
      else
        let message = signed_text (session_id st) action nc in
        if length message \<ge> 96 then Inl DCC_ERR_INVALID_ARG
        else case hmac (secret st) message of
          None \<Rightarrow> Inl DCC_ERR_RUNTIME
        | Some digest \<Rightarrow>
            if length digest < DCC_COMPONENT_SESSION_SIG_HEX_LEN div 2 then Inl DCC_ERR_RUNTIME
            else Inr (concat (map hex_pair (take (DCC_COMPONENT_SESSION_SIG_HEX_LEN div 2) digest))))"

text \<open>The comparison runs over all places whatever it finds. A place behind the end of a text holds NUL.\<close>

definition text_at :: "string \<Rightarrow> nat \<Rightarrow> u8" where
  "text_at s i = (if i < length s then of_nat (code (s ! i)) else 0)"

definition dcc_component_session_sig_equal :: "string \<Rightarrow> string \<Rightarrow> bool" where
  "dcc_component_session_sig_equal a b =
     (let diff = foldl (\<lambda>d i. d OR (text_at a i XOR text_at b i)) 0 [0..<DCC_COMPONENT_SESSION_SIG_HEX_LEN] in
      diff = 0 \<and> text_at a DCC_COMPONENT_SESSION_SIG_HEX_LEN = 0 \<and> text_at b DCC_COMPONENT_SESSION_SIG_HEX_LEN = 0)"

section \<open>Options and creation\<close>

definition dcc_component_session_options_init :: dcc_component_session_options where
  "dcc_component_session_options_init =
     \<lparr>opt_secret = [], opt_session_id = None, opt_nonce = None, opt_now_ms = 0, opt_ttl_ms = 15 * 60 * 1000,
      opt_user_id = 0, opt_channel_id = 0, opt_guild_id = 0,
      opt_lock_user = False, opt_lock_channel = False, opt_lock_guild = False\<rparr>"

definition dcc_component_session_options_set_secret ::
  "dcc_component_session_options \<Rightarrow> u8 list \<Rightarrow> dcc_status \<times> dcc_component_session_options" where
  "dcc_component_session_options_set_secret opts sec =
     (if sec = [] then (DCC_ERR_INVALID_ARG, opts) else (DCC_OK, opts\<lparr>opt_secret := sec\<rparr>))"

definition dcc_component_session_options_set_ids ::
  "dcc_component_session_options \<Rightarrow> string option \<Rightarrow> string option \<Rightarrow> dcc_status \<times> dcc_component_session_options" where
  "dcc_component_session_options_set_ids opts sid nc =
     (if \<not> dcc_component_session_token_valid sid DCC_COMPONENT_SESSION_ID_MAX
          \<or> \<not> dcc_component_session_token_valid nc DCC_COMPONENT_SESSION_NONCE_MAX then (DCC_ERR_INVALID_ARG, opts)
      else (DCC_OK, opts\<lparr>opt_session_id := sid, opt_nonce := nc\<rparr>))"

definition dcc_component_session_options_set_ttl ::
  "dcc_component_session_options \<Rightarrow> u64 \<Rightarrow> u64 \<Rightarrow> dcc_status \<times> dcc_component_session_options" where
  "dcc_component_session_options_set_ttl opts now ttl =
     (if ttl = 0 \<or> now > UINT64_MAX - ttl then (DCC_ERR_INVALID_ARG, opts)
      else (DCC_OK, opts\<lparr>opt_now_ms := now, opt_ttl_ms := ttl\<rparr>))"

definition dcc_component_session_options_lock_user ::
  "dcc_component_session_options \<Rightarrow> snowflake \<Rightarrow> dcc_status \<times> dcc_component_session_options" where
  "dcc_component_session_options_lock_user opts uid =
     (if uid = 0 then (DCC_ERR_INVALID_ARG, opts) else (DCC_OK, opts\<lparr>opt_user_id := uid, opt_lock_user := True\<rparr>))"

definition dcc_component_session_options_lock_channel ::
  "dcc_component_session_options \<Rightarrow> snowflake \<Rightarrow> dcc_status \<times> dcc_component_session_options" where
  "dcc_component_session_options_lock_channel opts cid =
     (if cid = 0 then (DCC_ERR_INVALID_ARG, opts) else (DCC_OK, opts\<lparr>opt_channel_id := cid, opt_lock_channel := True\<rparr>))"

definition dcc_component_session_options_lock_guild ::
  "dcc_component_session_options \<Rightarrow> snowflake \<Rightarrow> dcc_status \<times> dcc_component_session_options" where
  "dcc_component_session_options_lock_guild opts gid =
     (if gid = 0 then (DCC_ERR_INVALID_ARG, opts) else (DCC_OK, opts\<lparr>opt_guild_id := gid, opt_lock_guild := True\<rparr>))"

text \<open>Creation, with the answers of the allocator and of the random generator for the id and for the nonce. The
  generator is only asked for what the options leave out.\<close>

definition dcc_component_session_create ::
  "bool list \<Rightarrow> u8 list option \<Rightarrow> u8 list option \<Rightarrow> dcc_component_session_options
     \<Rightarrow> dcc_status + dcc_component_session_state" where
  "dcc_component_session_create hp rand_id rand_nonce opts =
     (if opt_secret opts = [] \<or> opt_ttl_ms opts = 0 \<or> opt_now_ms opts > UINT64_MAX - opt_ttl_ms opts then
        Inl DCC_ERR_INVALID_ARG
      else if opt_session_id opts \<noteq> None
          \<and> \<not> dcc_component_session_token_valid (opt_session_id opts) DCC_COMPONENT_SESSION_ID_MAX
        \<or> opt_nonce opts \<noteq> None
          \<and> \<not> dcc_component_session_token_valid (opt_nonce opts) DCC_COMPONENT_SESSION_NONCE_MAX then
        Inl DCC_ERR_INVALID_ARG
      else case alloc_next hp of
        (False, hp) \<Rightarrow> Inl DCC_ERR_NOMEM
      | (True, hp) \<Rightarrow>
          (case alloc_next hp of
             (False, hp) \<Rightarrow> Inl DCC_ERR_NOMEM
           | (True, hp) \<Rightarrow>
               (case (case opt_session_id opts of
                        Some sid \<Rightarrow> Inr sid
                      | None \<Rightarrow> dcc_component_session_make_random_hex rand_id DCC_COMPONENT_SESSION_ID_MAX) of
                  Inl status \<Rightarrow> Inl status
                | Inr sid \<Rightarrow>
                    (case (case opt_nonce opts of
                             Some nc \<Rightarrow> Inr nc
                           | None \<Rightarrow> dcc_component_session_make_random_hex rand_nonce DCC_COMPONENT_SESSION_NONCE_MAX) of
                       Inl status \<Rightarrow> Inl status
                     | Inr nc \<Rightarrow>
                         Inr \<lparr>session_id = sid, nonce = nc, secret = opt_secret opts,
                              expires_at_ms = opt_now_ms opts + opt_ttl_ms opts,
                              user_id = opt_user_id opts, channel_id = opt_channel_id opts, guild_id = opt_guild_id opts,
                              lock_user = opt_lock_user opts, lock_channel = opt_lock_channel opts,
                              lock_guild = opt_lock_guild opts\<rparr>))))"

section \<open>Custom ids\<close>

definition dcc_component_session_hex_string :: "string \<Rightarrow> bool" where
  "dcc_component_session_hex_string s \<longleftrightarrow>
     length s = DCC_COMPONENT_SESSION_SIG_HEX_LEN
     \<and> list_all (\<lambda>c. is_digit c \<or> 97 \<le> code c \<and> code c \<le> 102 \<or> 65 \<le> code c \<and> code c \<le> 70) s"

text \<open>A part is copied into a field of one byte more than it may have.\<close>

definition dcc_component_session_copy_part :: "string \<Rightarrow> nat \<Rightarrow> nat \<Rightarrow> dcc_status + string" where
  "dcc_component_session_copy_part t dst_len max_len =
     (if length t = 0 \<or> length t > max_len \<or> length t + 1 > dst_len then Inl DCC_ERR_JSON
      else if dcc_component_session_token_valid (Some t) max_len then Inr t else Inl DCC_ERR_JSON)"

text \<open>The text in front of the next colon and the text behind it.\<close>

definition split_colon :: "string \<Rightarrow> (string \<times> string) option" where
  "split_colon s = (case find_byte (CHR '':'') s of None \<Rightarrow> None | Some i \<Rightarrow> Some (take i s, drop (Suc i) s))"

definition split_parts :: "string \<Rightarrow> (string \<times> string \<times> string \<times> string) option" where
  "split_parts s = do {
     (sid, s) \<leftarrow> split_colon s;
     (action, s) \<leftarrow> split_colon s;
     (nc, sig) \<leftarrow> split_colon s;
     if CHR '':'' \<in> set sig then None else Some (sid, action, nc, sig) }"

definition dcc_component_session_parse_custom_id :: "string \<Rightarrow> dcc_status + dcc_component_session_parts" where
  "dcc_component_session_parse_custom_id custom_id =
     (if \<not> has_prefix custom_id ''dcc:v1:'' \<or> length custom_id > DCC_COMPONENT_SESSION_CUSTOM_ID_MAX then Inl DCC_ERR_JSON
      else case split_parts (drop 7 custom_id) of
        None \<Rightarrow> Inl DCC_ERR_JSON
      | Some (sid, action, nc, sig) \<Rightarrow>
          (case dcc_component_session_copy_part sid (DCC_COMPONENT_SESSION_ID_MAX + 1) DCC_COMPONENT_SESSION_ID_MAX of
             Inl status \<Rightarrow> Inl status
           | Inr sid \<Rightarrow>
               (case dcc_component_session_copy_part action (DCC_COMPONENT_SESSION_ACTION_MAX + 1)
                       DCC_COMPONENT_SESSION_ACTION_MAX of
                  Inl status \<Rightarrow> Inl status
                | Inr action \<Rightarrow>
                    (case dcc_component_session_copy_part nc (DCC_COMPONENT_SESSION_NONCE_MAX + 1)
                            DCC_COMPONENT_SESSION_NONCE_MAX of
                       Inl status \<Rightarrow> Inl status
                     | Inr nc \<Rightarrow>
                         if length sig \<noteq> DCC_COMPONENT_SESSION_SIG_HEX_LEN \<or> \<not> dcc_component_session_hex_string sig then
                           Inl DCC_ERR_JSON
                         else
                           Inr \<lparr>parts_session_id = sid, parts_action = action, parts_nonce = nc, parts_sig = sig\<rparr>))))"

definition dcc_component_session_build_custom_id_heap ::
  "hmac_fun \<Rightarrow> bool list \<Rightarrow> dcc_component_session_state \<Rightarrow> string option \<Rightarrow> dcc_status + string" where
  "dcc_component_session_build_custom_id_heap hmac hp st action =
     (if \<not> dcc_component_session_token_valid action DCC_COMPONENT_SESSION_ACTION_MAX then Inl DCC_ERR_INVALID_ARG
      else case dcc_component_session_sign hmac st (the action) (nonce st) of
        Inl status \<Rightarrow> Inl status
      | Inr sig \<Rightarrow>
          let custom_id = signed_text (session_id st) (the action) (nonce st) @ '':'' @ sig in
          if length custom_id > DCC_COMPONENT_SESSION_CUSTOM_ID_MAX then Inl DCC_ERR_INVALID_ARG
          else if \<not> fst (alloc_next hp) then Inl DCC_ERR_NOMEM
          else Inr custom_id)"

definition dcc_component_session_custom_id ::
  "hmac_fun \<Rightarrow> bool list \<Rightarrow> dcc_component_session_state option \<Rightarrow> string option \<Rightarrow> nat \<Rightarrow> dcc_status + string" where
  "dcc_component_session_custom_id hmac hp session action out_len =
     (case session of
        None \<Rightarrow> Inl DCC_ERR_INVALID_ARG
      | Some st \<Rightarrow>
          if out_len = 0 then Inl DCC_ERR_INVALID_ARG
          else case dcc_component_session_build_custom_id_heap hmac hp st action of
            Inl status \<Rightarrow> Inl status
          | Inr custom_id \<Rightarrow> if length custom_id + 1 > out_len then Inl DCC_ERR_INVALID_ARG else Inr custom_id)"

section \<open>Verification\<close>

definition dcc_component_session_verify_parts ::
  "hmac_fun \<Rightarrow> dcc_component_session_state option \<Rightarrow> dcc_component_session_parts \<Rightarrow> dcc_component_session_check
     \<Rightarrow> dcc_component_session_verify_status" where
  "dcc_component_session_verify_parts hmac session parts check =
     (case session of
        None \<Rightarrow> VERIFY_NOT_FOUND
      | Some st \<Rightarrow>
          if session_id st \<noteq> parts_session_id parts then VERIFY_NOT_FOUND
          else if (case dcc_component_session_sign hmac st (parts_action parts) (parts_nonce parts) of
                     Inl _ \<Rightarrow> True
                   | Inr expected \<Rightarrow> \<not> dcc_component_session_sig_equal expected (parts_sig parts)) then VERIFY_BAD_SIGNATURE
          else if check_now_ms check > expires_at_ms st then VERIFY_EXPIRED
          else if lock_user st \<and> check_user_id check \<noteq> user_id st then VERIFY_WRONG_USER
          else if lock_channel st \<and> check_channel_id check \<noteq> channel_id st then VERIFY_WRONG_CHANNEL
          else if lock_guild st \<and> check_guild_id check \<noteq> guild_id st then VERIFY_WRONG_GUILD
          else VERIFY_OK)"

definition result_of :: "dcc_component_session_verify_status \<Rightarrow> dcc_component_session_parts \<Rightarrow> u64 \<Rightarrow> dcc_component_session_result" where
  "result_of status parts expires =
     \<lparr>result_status = status, result_session_id = parts_session_id parts, result_action = parts_action parts,
      result_nonce = parts_nonce parts, result_expires_at_ms = expires\<rparr>"

definition bad_format :: dcc_component_session_result where
  "bad_format = \<lparr>result_status = VERIFY_BAD_FORMAT, result_session_id = [], result_action = [], result_nonce = [],
     result_expires_at_ms = 0\<rparr>"

text \<open>The result of a call whose pointers are all given; it is never an error.\<close>

definition dcc_component_session_verify ::
  "hmac_fun \<Rightarrow> dcc_component_session_state option \<Rightarrow> dcc_component_session_check \<Rightarrow> dcc_component_session_result" where
  "dcc_component_session_verify hmac session check =
     (case dcc_component_session_parse_custom_id (check_custom_id check) of
        Inl _ \<Rightarrow> bad_format
      | Inr parts \<Rightarrow>
          result_of (dcc_component_session_verify_parts hmac session parts check) parts
            (case session of None \<Rightarrow> 0 | Some st \<Rightarrow> expires_at_ms st))"

fun dcc_component_session_verify_status_string :: "dcc_component_session_verify_status \<Rightarrow> string" where
  "dcc_component_session_verify_status_string VERIFY_OK = ''ok''"
| "dcc_component_session_verify_status_string VERIFY_BAD_FORMAT = ''bad_format''"
| "dcc_component_session_verify_status_string VERIFY_BAD_SIGNATURE = ''bad_signature''"
| "dcc_component_session_verify_status_string VERIFY_EXPIRED = ''expired''"
| "dcc_component_session_verify_status_string VERIFY_WRONG_USER = ''wrong_user''"
| "dcc_component_session_verify_status_string VERIFY_WRONG_CHANNEL = ''wrong_channel''"
| "dcc_component_session_verify_status_string VERIFY_WRONG_GUILD = ''wrong_guild''"
| "dcc_component_session_verify_status_string VERIFY_NOT_FOUND = ''not_found''"

section \<open>Facts about tokens, signatures and ids\<close>

lemma token_loop_iff:
  "token_loop n k t \<longleftrightarrow> list_all dcc_component_session_token_char t \<and> (t \<noteq> [] \<longrightarrow> k + length t \<le> n) \<and> (k \<noteq> 0 \<or> t \<noteq> [])"
proof (induction t arbitrary: k)
  case (Cons c t)
  then show ?case by (cases t) auto
qed simp

lemma token_valid_iff [simp]:
  "dcc_component_session_token_valid (Some t) n \<longleftrightarrow> t \<noteq> [] \<and> length t \<le> n \<and> list_all dcc_component_session_token_char t"
  by (auto simp: dcc_component_session_token_valid_def token_loop_iff)

lemma token_valid_None [simp]: "\<not> dcc_component_session_token_valid None n"
  by (simp add: dcc_component_session_token_valid_def)

abbreviation token :: "nat \<Rightarrow> string \<Rightarrow> bool" where
  "token n t \<equiv> t \<noteq> [] \<and> length t \<le> n \<and> list_all dcc_component_session_token_char t"

lemma token_no_colon: "list_all dcc_component_session_token_char t \<Longrightarrow> CHR '':'' \<notin> set t"
  by (auto simp: list_all_iff dcc_component_session_token_char_def is_digit_def)

lemma hex_char_cases: "d < 16 \<Longrightarrow> hex_char d \<in> set ''0123456789abcdef''"
  unfolding hex_char_def by (intro nth_mem) simp

lemma hex_char_hex: "d < 16 \<Longrightarrow> is_digit (hex_char d) \<or> 97 \<le> code (hex_char d) \<and> code (hex_char d) \<le> 102"
  using hex_char_cases [of d] by (auto simp: is_digit_def)

lemma and_low_nibble: "(n :: nat) AND 15 = n mod 16"
  using take_bit_eq_mask [of 4 n] by (simp add: take_bit_eq_mod mask_eq_exp_minus_1)

lemma byte_halves: "unat (drop_bit 4 (b :: u8)) < 16" "unat (b AND 0x0F) < 16" "unat (drop_bit 4 b) * 16 + unat (b AND 0x0F) = unat b"
proof -
  have low: "unat (b AND 0x0F) = unat b mod 16"
    by (simp add: unsigned_and_eq and_low_nibble)
  have high: "unat (drop_bit 4 b) = unat b div 16"
    by (simp add: drop_bit_eq_div unat_div)
  have "unat b < 256"
    using unsigned_less [of b] by simp
  then show "unat (drop_bit 4 b) < 16" "unat (b AND 0x0F) < 16" "unat (drop_bit 4 b) * 16 + unat (b AND 0x0F) = unat b"
    by (simp_all add: low high)
qed

lemma length_hex_pairs [simp]: "length (concat (map hex_pair bs)) = 2 * length bs"
  by (induction bs) (simp_all add: hex_pair_def)

lemma hex_pairs_hex:
  "list_all (\<lambda>c. is_digit c \<or> 97 \<le> code c \<and> code c \<le> 102) (concat (map hex_pair bs))"
  by (induction bs) (simp_all add: hex_pair_def hex_char_hex byte_halves)

lemma split_colon_iff: "split_colon s = Some (a, r) \<longleftrightarrow> s = a @ CHR '':'' # r \<and> CHR '':'' \<notin> set a"
proof
  assume "split_colon s = Some (a, r)"
  then obtain i where "find_byte (CHR '':'') s = Some i" "a = take i s" "r = drop (Suc i) s"
    by (auto simp: split_colon_def split: option.splits)
  then show "s = a @ CHR '':'' # r \<and> CHR '':'' \<notin> set a"
    using find_byte_SomeD id_take_nth_drop by metis
next
  assume "s = a @ CHR '':'' # r \<and> CHR '':'' \<notin> set a"
  then show "split_colon s = Some (a, r)"
    using find_byte_append [of "CHR '':''" a r] by (simp add: split_colon_def)
qed

lemma split_parts_iff:
  "split_parts s = Some (a, b, c, d) \<longleftrightarrow>
     s = a @ CHR '':'' # b @ CHR '':'' # c @ CHR '':'' # d
     \<and> CHR '':'' \<notin> set a \<and> CHR '':'' \<notin> set b \<and> CHR '':'' \<notin> set c \<and> CHR '':'' \<notin> set d"
proof
  assume "split_parts s = Some (a, b, c, d)"
  then show "s = a @ CHR '':'' # b @ CHR '':'' # c @ CHR '':'' # d
     \<and> CHR '':'' \<notin> set a \<and> CHR '':'' \<notin> set b \<and> CHR '':'' \<notin> set c \<and> CHR '':'' \<notin> set d"
    by (auto simp: split_parts_def split_colon_iff bind_eq_Some_conv split: if_splits)
next
  assume "s = a @ CHR '':'' # b @ CHR '':'' # c @ CHR '':'' # d
     \<and> CHR '':'' \<notin> set a \<and> CHR '':'' \<notin> set b \<and> CHR '':'' \<notin> set c \<and> CHR '':'' \<notin> set d"
  moreover from this have "split_colon s = Some (a, b @ CHR '':'' # c @ CHR '':'' # d)"
    "split_colon (b @ CHR '':'' # c @ CHR '':'' # d) = Some (b, c @ CHR '':'' # d)"
    "split_colon (c @ CHR '':'' # d) = Some (c, d)"
    by (auto simp: split_colon_iff)
  ultimately show "split_parts s = Some (a, b, c, d)"
    by (simp add: split_parts_def)
qed

lemma copy_part_iff:
  "dcc_component_session_copy_part t (n + 1) n = Inr u \<longleftrightarrow> u = t \<and> token n t"
  by (auto simp: dcc_component_session_copy_part_def)

text \<open>The format: what the parser accepts is what the printer of ids writes.\<close>

definition custom_id_text :: "dcc_component_session_parts \<Rightarrow> string" where
  "custom_id_text p = signed_text (parts_session_id p) (parts_action p) (parts_nonce p) @ '':'' @ parts_sig p"

definition parts_ok :: "dcc_component_session_parts \<Rightarrow> bool" where
  "parts_ok p \<longleftrightarrow> token DCC_COMPONENT_SESSION_ID_MAX (parts_session_id p) \<and> token DCC_COMPONENT_SESSION_ACTION_MAX (parts_action p)
     \<and> token DCC_COMPONENT_SESSION_NONCE_MAX (parts_nonce p) \<and> dcc_component_session_hex_string (parts_sig p)"

lemma hex_string_no_colon: "dcc_component_session_hex_string s \<Longrightarrow> CHR '':'' \<notin> set s"
  by (auto simp: dcc_component_session_hex_string_def list_all_iff is_digit_def)

lemma length_custom_id_text: "parts_ok p \<Longrightarrow> length (custom_id_text p) \<le> 90"
  by (auto simp: parts_ok_def custom_id_text_def signed_text_def dcc_component_session_hex_string_def component_limits)

lemma parse_custom_id_iff:
  "dcc_component_session_parse_custom_id s = Inr p \<longleftrightarrow> parts_ok p \<and> s = custom_id_text p"
proof
  assume "dcc_component_session_parse_custom_id s = Inr p"
  then show "parts_ok p \<and> s = custom_id_text p"
    by (auto simp: dcc_component_session_parse_custom_id_def split_parts_iff copy_part_iff [simplified] has_prefix_iff parts_ok_def
        custom_id_text_def signed_text_def split: if_splits option.splits sum.splits)
next
  assume p: "parts_ok p \<and> s = custom_id_text p"
  then have "split_parts (drop 7 s) = Some (parts_session_id p, parts_action p, parts_nonce p, parts_sig p)"
    by (simp add: split_parts_iff custom_id_text_def signed_text_def parts_ok_def token_no_colon hex_string_no_colon)
  moreover have "has_prefix s ''dcc:v1:''"
    using p by (simp add: has_prefix_iff custom_id_text_def signed_text_def)
  moreover have "length s \<le> DCC_COMPONENT_SESSION_CUSTOM_ID_MAX"
    using p length_custom_id_text [of p] by (simp add: component_limits)
  ultimately show "dcc_component_session_parse_custom_id s = Inr p"
    using p by (simp add: dcc_component_session_parse_custom_id_def dcc_component_session_copy_part_def parts_ok_def
        dcc_component_session_hex_string_def)
qed

lemma sign_hex: "dcc_component_session_sign hmac st action nc = Inr sig \<Longrightarrow> dcc_component_session_hex_string sig"
proof -
  assume "dcc_component_session_sign hmac st action nc = Inr sig"
  then obtain bs where "sig = concat (map hex_pair bs)" "length bs = 8"
    by (auto simp: dcc_component_session_sign_def Let_def component_limits split: if_splits option.splits)
  then show ?thesis
    using hex_pairs_hex [of bs] by (simp add: dcc_component_session_hex_string_def component_limits) (auto simp: list_all_iff)
qed

lemma code_word_inj: "of_nat (code c) = (of_nat (code d) :: u8) \<longleftrightarrow> c = d"
proof -
  have "unat (of_nat (code x) :: u8) = code x" for x :: char
    by (simp add: unat_of_nat)
  then show ?thesis
    by (metis of_char_eq_iff)
qed

lemma text_at_inj: "length a = length b \<Longrightarrow> (\<forall>i < length a. text_at a i = text_at b i) \<longleftrightarrow> a = b"
  by (auto simp: text_at_def list_eq_iff_nth_eq code_word_inj)

lemma or_fold_zero: "foldl (\<lambda>d i. d OR f i) d xs = (0 :: u8) \<longleftrightarrow> d = 0 \<and> (\<forall>i \<in> set xs. f i = 0)"
  by (induction xs arbitrary: d) (auto simp: or_eq_0_iff)

lemma xor_zero_iff: "a XOR b = 0 \<longleftrightarrow> a = (b :: u8)"
  by (metis xor.assoc xor.left_neutral xor.right_neutral xor_self_eq)

lemma sig_equal_iff:
  assumes "length a = DCC_COMPONENT_SESSION_SIG_HEX_LEN" "length b = DCC_COMPONENT_SESSION_SIG_HEX_LEN"
  shows "dcc_component_session_sig_equal a b \<longleftrightarrow> a = b"
proof -
  have "text_at a DCC_COMPONENT_SESSION_SIG_HEX_LEN = 0" "text_at b DCC_COMPONENT_SESSION_SIG_HEX_LEN = 0"
    using assms by (simp_all add: text_at_def)
  then show ?thesis
    using text_at_inj [of a b] assms by (simp add: dcc_component_session_sig_equal_def or_fold_zero xor_zero_iff Ball_def)
qed

section \<open>What verification accepts\<close>

text \<open>The locks of a session, and the status of an id with a good signature.\<close>

definition authorised :: "dcc_component_session_state \<Rightarrow> dcc_component_session_check \<Rightarrow> bool" where
  "authorised st check \<longleftrightarrow> check_now_ms check \<le> expires_at_ms st
     \<and> (lock_user st \<longrightarrow> check_user_id check = user_id st)
     \<and> (lock_channel st \<longrightarrow> check_channel_id check = channel_id st)
     \<and> (lock_guild st \<longrightarrow> check_guild_id check = guild_id st)"

lemma verify_parts_signed:
  assumes "dcc_component_session_hex_string (parts_sig p)"
  shows "dcc_component_session_verify_parts hmac (Some st) p check = VERIFY_OK \<longleftrightarrow>
     session_id st = parts_session_id p
     \<and> dcc_component_session_sign hmac st (parts_action p) (parts_nonce p) = Inr (parts_sig p)
     \<and> authorised st check"
proof -
  have "dcc_component_session_sig_equal sig (parts_sig p) \<longleftrightarrow> sig = parts_sig p"
    if "dcc_component_session_sign hmac st (parts_action p) (parts_nonce p) = Inr sig" for sig
    using sig_equal_iff sign_hex [OF that] assms by (simp add: dcc_component_session_hex_string_def)
  then show ?thesis
    by (auto simp: dcc_component_session_verify_parts_def authorised_def not_less split: sum.splits)
qed

lemma verify_parts_found:
  "dcc_component_session_verify_parts hmac (Some st) p check \<noteq> VERIFY_NOT_FOUND \<longleftrightarrow> session_id st = parts_session_id p"
  by (auto simp: dcc_component_session_verify_parts_def)

definition session_ok :: "dcc_component_session_state \<Rightarrow> bool" where
  "session_ok st \<longleftrightarrow> token DCC_COMPONENT_SESSION_ID_MAX (session_id st) \<and> token DCC_COMPONENT_SESSION_NONCE_MAX (nonce st)
     \<and> secret st \<noteq> []"

lemma hex_token: "list_all dcc_component_session_token_char (concat (map hex_pair bs))"
  by (rule list.pred_mono_strong [OF hex_pairs_hex]) (auto simp: dcc_component_session_token_char_def)

lemma random_hex_token:
  assumes "dcc_component_session_make_random_hex rand 16 = Inr t" "\<forall>bs. rand = Some bs \<longrightarrow> length bs = 8"
  shows "token 16 t"
proof -
  obtain bs where "t = concat (map hex_pair bs)" "length bs = 8"
    using assms by (auto simp: dcc_component_session_make_random_hex_def component_limits split: if_splits option.splits)
  then have "length t = 16" "list_all dcc_component_session_token_char t"
    using hex_token by (simp_all only: length_hex_pairs)
  then show ?thesis
    by auto
qed

lemma create_session:
  assumes "dcc_component_session_create hp rand_id rand_nonce opts = Inr st"
    and "\<forall>bs. rand_id = Some bs \<or> rand_nonce = Some bs \<longrightarrow> length bs = 8"
  shows "session_ok st" "unat (expires_at_ms st) = unat (opt_now_ms opts) + unat (opt_ttl_ms opts)" "secret st = opt_secret opts"
    "lock_user st = opt_lock_user opts" "user_id st = opt_user_id opts" "lock_channel st = opt_lock_channel opts"
    "channel_id st = opt_channel_id opts" "lock_guild st = opt_lock_guild opts" "guild_id st = opt_guild_id opts"
proof -
  have guard: "opt_secret opts \<noteq> []" "\<not> opt_now_ms opts > UINT64_MAX - opt_ttl_ms opts"
    using assms(1) by (auto simp: dcc_component_session_create_def split: if_splits)
  have "unat (opt_now_ms opts) + unat (opt_ttl_ms opts) < 2 ^ 64"
    using guard(2) unat_u64_less [of "opt_ttl_ms opts"] by (simp add: word_less_nat_alt unat_UINT64_MAX_minus)
  then have sum: "unat (opt_now_ms opts + opt_ttl_ms opts) = unat (opt_now_ms opts) + unat (opt_ttl_ms opts)"
    by (subst unat_add_lem [THEN iffD1]) auto
  have rnd: "\<forall>bs. rand_id = Some bs \<longrightarrow> length bs = 8" "\<forall>bs. rand_nonce = Some bs \<longrightarrow> length bs = 8"
    using assms(2) by auto
  show "session_ok st" "unat (expires_at_ms st) = unat (opt_now_ms opts) + unat (opt_ttl_ms opts)" "secret st = opt_secret opts"
    "lock_user st = opt_lock_user opts" "user_id st = opt_user_id opts" "lock_channel st = opt_lock_channel opts"
    "channel_id st = opt_channel_id opts" "lock_guild st = opt_lock_guild opts" "guild_id st = opt_guild_id opts"
    using assms(1) guard(1) sum random_hex_token [OF _ rnd(1)] random_hex_token [OF _ rnd(2)]
    by (auto simp: dcc_component_session_create_def session_ok_def component_limits
        split: if_splits prod.splits bool.splits option.splits sum.splits)
qed

section \<open>Properties\<close>

lemma build_custom_id:
  assumes "session_ok st" "dcc_component_session_build_custom_id_heap hmac hp st (Some action) = Inr cid"
  shows "\<exists>sig. dcc_component_session_sign hmac st action (nonce st) = Inr sig
    \<and> dcc_component_session_parse_custom_id cid =
        Inr \<lparr>parts_session_id = session_id st, parts_action = action, parts_nonce = nonce st, parts_sig = sig\<rparr>"
  using assms by (auto simp: dcc_component_session_build_custom_id_heap_def Let_def parse_custom_id_iff parts_ok_def
      custom_id_text_def session_ok_def dest: sign_hex split: if_splits sum.splits)

lemma build_custom_id_succeeds:
  assumes "session_ok st" "token DCC_COMPONENT_SESSION_ACTION_MAX action" "length (secret st) \<le> INT_MAX"
    and "\<exists>d. hmac (secret st) (signed_text (session_id st) action (nonce st)) = Some d \<and> 8 \<le> length d"
  shows "\<exists>cid. dcc_component_session_build_custom_id_heap hmac [] st (Some action) = Inr cid \<and> length cid \<le> 90"
proof -
  have "length (signed_text (session_id st) action (nonce st)) \<le> 73"
    using assms(1,2) by (auto simp: session_ok_def signed_text_def component_limits)
  moreover obtain sig where "dcc_component_session_sign hmac st action (nonce st) = Inr sig"
    using assms calculation by (auto simp: dcc_component_session_sign_def Let_def session_ok_def component_limits)
  moreover from this have "length sig = 16"
    using sign_hex by (auto simp: dcc_component_session_hex_string_def component_limits)
  ultimately show ?thesis
    using assms(2) by (auto simp: dcc_component_session_build_custom_id_heap_def Let_def alloc_next_def component_limits)
qed

text \<open>
  C26. The ids of a session come back as they went out. With a working HMAC and memory, a session made from its
  options gives every valid action an id of at most 90 characters; and whatever id it gives, checking that id
  finds the session, the action and the nonce, and accepts it exactly until the lifetime ends and from the user,
  channel and guild it is locked to, naming the first reason otherwise. The time of expiry does not overflow.
\<close>

theorem component_id_roundtrip:
  assumes "dcc_component_session_create hp rand_id rand_nonce opts = Inr st"
    and "\<forall>bs. rand_id = Some bs \<or> rand_nonce = Some bs \<longrightarrow> length bs = 8"
  shows "(token DCC_COMPONENT_SESSION_ACTION_MAX action \<and> length (opt_secret opts) \<le> INT_MAX
      \<and> (\<exists>d. hmac (opt_secret opts) (signed_text (session_id st) action (nonce st)) = Some d \<and> 8 \<le> length d)
      \<and> 91 \<le> out_len
      \<longrightarrow> (\<exists>cid. dcc_component_session_custom_id hmac [] (Some st) (Some action) out_len = Inr cid \<and> length cid \<le> 90))
    \<and> (dcc_component_session_custom_id hmac hp' (Some st) (Some action) out_len = Inr (check_custom_id check)
      \<longrightarrow> dcc_component_session_verify hmac (Some st) check =
        \<lparr>result_status =
           (if unat (opt_now_ms opts) + unat (opt_ttl_ms opts) < unat (check_now_ms check) then VERIFY_EXPIRED
            else if opt_lock_user opts \<and> check_user_id check \<noteq> opt_user_id opts then VERIFY_WRONG_USER
            else if opt_lock_channel opts \<and> check_channel_id check \<noteq> opt_channel_id opts then VERIFY_WRONG_CHANNEL
            else if opt_lock_guild opts \<and> check_guild_id check \<noteq> opt_guild_id opts then VERIFY_WRONG_GUILD
            else VERIFY_OK),
         result_session_id = session_id st, result_action = action, result_nonce = nonce st,
         result_expires_at_ms = opt_now_ms opts + opt_ttl_ms opts\<rparr>)"
proof (intro conjI impI)
  note st = create_session [OF assms]
  assume "token DCC_COMPONENT_SESSION_ACTION_MAX action \<and> length (opt_secret opts) \<le> INT_MAX
      \<and> (\<exists>d. hmac (opt_secret opts) (signed_text (session_id st) action (nonce st)) = Some d \<and> 8 \<le> length d)
      \<and> 91 \<le> out_len"
  then show "\<exists>cid. dcc_component_session_custom_id hmac [] (Some st) (Some action) out_len = Inr cid \<and> length cid \<le> 90"
    using build_custom_id_succeeds [OF st(1), of action hmac] by (auto simp: dcc_component_session_custom_id_def st(3))
next
  note st = create_session [OF assms]
  have expires: "expires_at_ms st = opt_now_ms opts + opt_ttl_ms opts"
    using assms(1) by (auto simp: dcc_component_session_create_def
        split: if_splits prod.splits bool.splits option.splits sum.splits)
  assume "dcc_component_session_custom_id hmac hp' (Some st) (Some action) out_len = Inr (check_custom_id check)"
  then have "dcc_component_session_build_custom_id_heap hmac hp' st (Some action) = Inr (check_custom_id check)"
    by (auto simp: dcc_component_session_custom_id_def split: if_splits sum.splits)
  then obtain sig where sig: "dcc_component_session_sign hmac st action (nonce st) = Inr sig"
    "dcc_component_session_parse_custom_id (check_custom_id check) =
       Inr \<lparr>parts_session_id = session_id st, parts_action = action, parts_nonce = nonce st, parts_sig = sig\<rparr>"
    using build_custom_id [OF st(1)] by blast
  have "dcc_component_session_sig_equal sig sig"
    using sig_equal_iff sign_hex [OF sig(1)] by (simp add: dcc_component_session_hex_string_def)
  then show "dcc_component_session_verify hmac (Some st) check =
        \<lparr>result_status =
           (if unat (opt_now_ms opts) + unat (opt_ttl_ms opts) < unat (check_now_ms check) then VERIFY_EXPIRED
            else if opt_lock_user opts \<and> check_user_id check \<noteq> opt_user_id opts then VERIFY_WRONG_USER
            else if opt_lock_channel opts \<and> check_channel_id check \<noteq> opt_channel_id opts then VERIFY_WRONG_CHANNEL
            else if opt_lock_guild opts \<and> check_guild_id check \<noteq> opt_guild_id opts then VERIFY_WRONG_GUILD
            else VERIFY_OK),
         result_session_id = session_id st, result_action = action, result_nonce = nonce st,
         result_expires_at_ms = opt_now_ms opts + opt_ttl_ms opts\<rparr>"
    using sig st(2) by (simp add: dcc_component_session_verify_def dcc_component_session_verify_parts_def result_of_def
        st(4-9) expires word_less_nat_alt)
qed

text \<open>A session with given ids, and a digest of eight zero bytes.\<close>

definition sample_options :: dcc_component_session_options where
  "sample_options = dcc_component_session_options_init
     \<lparr>opt_secret := [1], opt_session_id := Some ''s1'', opt_nonce := Some ''n1'', opt_user_id := 7, opt_lock_user := True\<rparr>"

definition sample_session :: dcc_component_session_state where
  "sample_session = \<lparr>session_id = ''s1'', nonce = ''n1'', secret = [1], expires_at_ms = 900000, user_id = 7,
     channel_id = 0, guild_id = 0, lock_user = True, lock_channel = False, lock_guild = False\<rparr>"

definition sample_hmac :: hmac_fun where
  "sample_hmac key message = Some [0, 0, 0, 0, 0, 0, 0, 0]"

lemma sample_create: "dcc_component_session_create [] None None sample_options = Inr sample_session"
  by (simp add: sample_options_def dcc_component_session_options_init_def dcc_component_session_create_def sample_session_def
      alloc_next_def component_limits dcc_component_session_token_char_def is_digit_def word_less_nat_alt unat_UINT64_MAX_minus)

lemma sample_id:
  "dcc_component_session_custom_id sample_hmac [] (Some sample_session) (Some ''go'') 100 = Inr ''dcc:v1:s1:go:n1:0000000000000000''"
  by (simp add: dcc_component_session_custom_id_def dcc_component_session_build_custom_id_heap_def component_limits
      dcc_component_session_token_char_def is_digit_def dcc_component_session_sign_def sample_session_def INT_MAX_def
      signed_text_def sample_hmac_def alloc_next_def hex_pair_def hex_char_def)

theorem component_id_roundtrip_witness:
  "result_status (dcc_component_session_verify sample_hmac (Some sample_session)
     \<lparr>check_custom_id = ''dcc:v1:s1:go:n1:0000000000000000'', check_now_ms = 900000, check_user_id = 7, check_channel_id = 1,
       check_guild_id = 1\<rparr>) = VERIFY_OK"
proof -
  let ?check = "\<lparr>check_custom_id = ''dcc:v1:s1:go:n1:0000000000000000'', check_now_ms = 900000, check_user_id = 7, check_channel_id = 1,
       check_guild_id = 1\<rparr>"
  from component_id_roundtrip [OF sample_create, of "''go''" sample_hmac 100 "[]" ?check] sample_id show ?thesis
    by (simp add: sample_options_def dcc_component_session_options_init_def)
qed

end
