(* ===== verification/DCC_Component_Store.thy ===== *)
theory DCC_Component_Store
  imports DCC_Component_Session
begin

text \<open>
  The store of component sessions (\<^verbatim>\<open>src/component_session/component_session_store.c\<close>): an array of sessions
  with distinct ids, searched from the front. A store whose state pointer is \<open>NULL\<close> is \<open>None\<close>; the count of a
  state is the length of its array. A session in the store is a copy (\<open>dcc_component_session_state_copy\<close>) of the
  caller's. The array refines a map from ids to sessions.
\<close>

section \<open>Definitions\<close>

record dcc_component_session_store_state =
  sessions :: "dcc_component_session_state list"
  sessions_cap :: nat

type_synonym dcc_component_session_store = "dcc_component_session_store_state option"

definition dcc_component_session_store_init :: dcc_component_session_store where
  "dcc_component_session_store_init = None"

text \<open>The size of a session in bytes.\<close>

definition sizeof_session :: nat where
  "sizeof_session = 120"

definition dcc_component_session_store_ensure ::
  "bool list \<Rightarrow> dcc_component_session_store \<Rightarrow> dcc_component_session_store_state option \<times> bool list" where
  "dcc_component_session_store_ensure hp store =
     (case store of
        Some st \<Rightarrow> (Some st, hp)
      | None \<Rightarrow>
          (case alloc_next hp of
             (False, hp) \<Rightarrow> (None, hp)
           | (True, hp) \<Rightarrow> (Some \<lparr>sessions = [], sessions_cap = 0\<rparr>, hp)))"

definition dcc_component_session_state_copy ::
  "bool list \<Rightarrow> dcc_component_session_state \<Rightarrow> (dcc_status + dcc_component_session_state) \<times> bool list" where
  "dcc_component_session_state_copy hp src =
     (if secret src = [] then (Inl DCC_ERR_INVALID_ARG, hp)
      else case alloc_next hp of
        (False, hp) \<Rightarrow> (Inl DCC_ERR_NOMEM, hp)
      | (True, hp) \<Rightarrow> (Inr src, hp))"

definition dcc_component_session_store_grow ::
  "bool list \<Rightarrow> dcc_component_session_store_state \<Rightarrow> dcc_component_session_store_state option \<times> bool list" where
  "dcc_component_session_store_grow hp st =
     (if length (sessions st) < sessions_cap st then (Some st, hp)
      else if sessions_cap st \<noteq> 0 \<and> sessions_cap st > SIZE_MAX div 2 then (None, hp)
      else
        let next_cap = (if sessions_cap st \<noteq> 0 then sessions_cap st * 2 else 8) in
        if next_cap > SIZE_MAX div sizeof_session then (None, hp)
        else case alloc_next hp of
          (False, hp) \<Rightarrow> (None, hp)
        | (True, hp) \<Rightarrow> (Some (st\<lparr>sessions_cap := next_cap\<rparr>), hp))"

text \<open>Putting a copy in the place of the session with the same id, if there is one.\<close>

fun replace_session :: "dcc_component_session_state \<Rightarrow> dcc_component_session_state list \<Rightarrow> dcc_component_session_state list option" where
  "replace_session copy [] = None"
| "replace_session copy (s # ss) =
     (if session_id s = session_id copy then Some (copy # ss) else map_option (Cons s) (replace_session copy ss))"

definition dcc_component_session_store_add ::
  "bool list \<Rightarrow> dcc_component_session_store \<Rightarrow> dcc_component_session_state option
     \<Rightarrow> dcc_status \<times> dcc_component_session_store \<times> bool list" where
  "dcc_component_session_store_add hp store session =
     (case session of
        None \<Rightarrow> (DCC_ERR_INVALID_ARG, store, hp)
      | Some src \<Rightarrow>
          (case dcc_component_session_store_ensure hp store of
             (None, hp) \<Rightarrow> (DCC_ERR_NOMEM, store, hp)
           | (Some st, hp) \<Rightarrow>
               (case dcc_component_session_state_copy hp src of
                  (Inl status, hp) \<Rightarrow> (status, Some st, hp)
                | (Inr copy, hp) \<Rightarrow>
                    (case replace_session copy (sessions st) of
                       Some ss \<Rightarrow> (DCC_OK, Some (st\<lparr>sessions := ss\<rparr>), hp)
                     | None \<Rightarrow>
                         (case dcc_component_session_store_grow hp st of
                            (None, hp) \<Rightarrow> (DCC_ERR_NOMEM, Some st, hp)
                          | (Some st, hp) \<Rightarrow> (DCC_OK, Some (st\<lparr>sessions := sessions st @ [copy]\<rparr>), hp))))))"

text \<open>The search of \<open>dcc_component_session_store_verify\<close>: the first session that does not answer \<open>VERIFY_NOT_FOUND\<close>.\<close>

fun verify_first ::
  "hmac_fun \<Rightarrow> dcc_component_session_state list \<Rightarrow> dcc_component_session_parts \<Rightarrow> dcc_component_session_check
     \<Rightarrow> dcc_component_session_verify_status \<times> u64" where
  "verify_first hmac [] parts check = (VERIFY_NOT_FOUND, 0)"
| "verify_first hmac (s # ss) parts check =
     (let match = dcc_component_session_verify_parts hmac (Some s) parts check in
      if match \<noteq> VERIFY_NOT_FOUND then (match, expires_at_ms s) else verify_first hmac ss parts check)"

definition dcc_component_session_store_verify ::
  "hmac_fun \<Rightarrow> dcc_component_session_store \<Rightarrow> dcc_component_session_check \<Rightarrow> dcc_component_session_result" where
  "dcc_component_session_store_verify hmac store check =
     (case dcc_component_session_parse_custom_id (check_custom_id check) of
        Inl _ \<Rightarrow> bad_format
      | Inr parts \<Rightarrow>
          (case store of
             None \<Rightarrow> result_of VERIFY_NOT_FOUND parts 0
           | Some st \<Rightarrow>
               (case verify_first hmac (sessions st) parts check of
                  (status, expires) \<Rightarrow> result_of status parts expires)))"

text \<open>Sweeping: an expired session is overwritten with the last one, which is looked at next.\<close>

function sweep_loop ::
  "u64 \<Rightarrow> dcc_component_session_state list \<Rightarrow> nat \<Rightarrow> nat \<Rightarrow> dcc_component_session_state list \<times> nat" where
  "sweep_loop now ss i removed =
     (if i < length ss then
        if now > expires_at_ms (ss ! i) then
          sweep_loop now (butlast (if i + 1 < length ss then ss[i := last ss] else ss)) i (removed + 1)
        else sweep_loop now ss (i + 1) removed
      else (ss, removed))"
  by pat_completeness auto
termination
  by (relation "measure (\<lambda>(now, ss, i, removed). length ss - i)") auto

declare sweep_loop.simps [simp del]

definition dcc_component_session_store_sweep ::
  "dcc_component_session_store \<Rightarrow> u64 \<Rightarrow> nat \<times> dcc_component_session_store" where
  "dcc_component_session_store_sweep store now =
     (case store of
        None \<Rightarrow> (0, None)
      | Some st \<Rightarrow>
          (case sweep_loop now (sessions st) 0 0 of (ss, removed) \<Rightarrow> (removed, Some (st\<lparr>sessions := ss\<rparr>))))"

definition dcc_component_session_store_count :: "dcc_component_session_store \<Rightarrow> nat" where
  "dcc_component_session_store_count store = (case store of None \<Rightarrow> 0 | Some st \<Rightarrow> length (sessions st))"

section \<open>The store as a map\<close>

definition stored :: "dcc_component_session_store \<Rightarrow> dcc_component_session_state list" where
  "stored store = (case store of None \<Rightarrow> [] | Some st \<Rightarrow> sessions st)"

definition session_map :: "dcc_component_session_store \<Rightarrow> (string \<rightharpoonup> dcc_component_session_state)" where
  "session_map store = map_of (map (\<lambda>s. (session_id s, s)) (stored store))"

definition store_inv :: "dcc_component_session_store \<Rightarrow> bool" where
  "store_inv store \<longleftrightarrow> distinct (map session_id (stored store)) \<and> list_all (\<lambda>s. secret s \<noteq> []) (stored store)
     \<and> (case store of None \<Rightarrow> True | Some st \<Rightarrow> length (sessions st) \<le> sessions_cap st)"

text \<open>What happens to a store: sessions are added, with the answers of the allocator, and it is swept.\<close>

datatype store_command = Add "bool list" "dcc_component_session_state option" | Sweep u64

definition unexpired :: "u64 \<Rightarrow> (string \<rightharpoonup> dcc_component_session_state) \<Rightarrow> (string \<rightharpoonup> dcc_component_session_state)" where
  "unexpired now m = (\<lambda>k. case m k of None \<Rightarrow> None | Some s \<Rightarrow> if now > expires_at_ms s then None else Some s)"

text \<open>A command on the store and on the map that the caller has in mind: only a successful addition counts.\<close>

fun store_command_step ::
  "dcc_component_session_store \<times> (string \<rightharpoonup> dcc_component_session_state) \<Rightarrow> store_command
     \<Rightarrow> dcc_component_session_store \<times> (string \<rightharpoonup> dcc_component_session_state)" where
  "store_command_step (store, m) (Add hp session) =
     (case dcc_component_session_store_add hp store session of
        (status, store', hp') \<Rightarrow> (store', if status = DCC_OK then m(session_id (the session) \<mapsto> the session) else m))"
| "store_command_step (store, m) (Sweep now) = (snd (dcc_component_session_store_sweep store now), unexpired now m)"

definition store_history ::
  "store_command list \<Rightarrow> dcc_component_session_store \<times> (string \<rightharpoonup> dcc_component_session_state)" where
  "store_history = foldl store_command_step (dcc_component_session_store_init, Map.empty)"

lemma replace_session_None: "replace_session c ss = None \<longleftrightarrow> session_id c \<notin> session_id ` set ss"
  by (induction ss) auto

lemma replace_session_Some:
  assumes "replace_session c ss = Some ss'"
  shows "map session_id ss' = map session_id ss \<and> set ss' \<subseteq> insert c (set ss)
    \<and> map_of (map (\<lambda>s. (session_id s, s)) ss') = (map_of (map (\<lambda>s. (session_id s, s)) ss))(session_id c \<mapsto> c)"
  using assms by (induction ss arbitrary: ss') (auto split: if_splits)

lemma sweep_removes:
  assumes "i < length ss"
  shows "mset (butlast (if i + 1 < length ss then ss[i := last ss] else ss)) = mset ss - {#ss ! i#}"
    and "\<forall>j < i. butlast (if i + 1 < length ss then ss[i := last ss] else ss) ! j = ss ! j"
proof -
  obtain xs l where ss: "ss = xs @ [l]"
    using assms by (cases ss rule: rev_cases) auto
  show "mset (butlast (if i + 1 < length ss then ss[i := last ss] else ss)) = mset ss - {#ss ! i#}"
  proof (cases "i < length xs")
    case True
    then show ?thesis
      by (simp add: ss mset_update nth_append list_update_append)
  next
    case False
    then show ?thesis
      using assms by (simp add: ss nth_append)
  qed
  show "\<forall>j < i. butlast (if i + 1 < length ss then ss[i := last ss] else ss) ! j = ss ! j"
    using assms by (auto simp: ss nth_append list_update_append)
qed

lemma sweep_loop_mset:
  assumes "sweep_loop now ss i removed = (ss', r)" "\<forall>j < i. \<not> now > expires_at_ms (ss ! j)" "i \<le> length ss"
  shows "mset ss' = {#s \<in># mset ss. \<not> now > expires_at_ms s#} \<and> r + length ss' = removed + length ss"
  using assms
proof (induction now ss i removed rule: sweep_loop.induct)
  case (1 now ss i removed)
  let ?rest = "butlast (if i + 1 < length ss then ss[i := last ss] else ss)"
  consider (expired) "i < length ss" "now > expires_at_ms (ss ! i)" | (kept) "i < length ss" "\<not> now > expires_at_ms (ss ! i)"
    | (finished) "i = length ss"
    using "1.prems"(3) by fastforce
  then show ?case
  proof cases
    case expired
    have eq: "sweep_loop now ?rest i (removed + 1) = (ss', r)"
      using "1.prems"(1) expired by (subst (asm) sweep_loop.simps) simp
    have len: "Suc (length ?rest) = length ss"
      using expired(1) by simp
    have "mset ss' = {#s \<in># mset ?rest. \<not> now > expires_at_ms s#} \<and> r + length ss' = removed + 1 + length ?rest"
      using "1.IH"(1) [OF expired eq] sweep_removes(2) [OF expired(1)] "1.prems"(2) len expired(1) by simp
    moreover have "ss ! i \<in># mset ss"
      using expired(1) by simp
    ultimately show ?thesis
      using sweep_removes(1) [OF expired(1)] expired(2) len by (simp add: filter_diff_mset)
  next
    case kept
    then have "sweep_loop now ss (i + 1) removed = (ss', r)"
      using "1.prems"(1) by (subst (asm) sweep_loop.simps) simp
    then show ?thesis
      using "1.IH"(2) [OF kept] "1.prems"(2) kept by (auto simp: less_Suc_eq)
  next
    case finished
    then have "ss' = ss" "r = removed"
      using "1.prems"(1) by (auto simp: sweep_loop.simps)
    moreover have "\<forall>s \<in># mset ss. \<not> now > expires_at_ms s"
      using "1.prems"(2) finished by (auto simp: in_set_conv_nth)
    ultimately show ?thesis
      using filter_mset_cong [of "mset ss" "mset ss" "\<lambda>s. \<not> now > expires_at_ms s" "\<lambda>s. True"] by simp
  qed
qed

lemma session_map_iff:
  "distinct (map session_id (stored store)) \<Longrightarrow> session_map store k = Some s \<longleftrightarrow> s \<in> set (stored store) \<and> session_id s = k"
  unfolding session_map_def by (subst map_of_eq_Some_iff) (auto simp: comp_def)

lemma grow_store:
  assumes "dcc_component_session_store_grow hp st = (Some st', hp')" "length (sessions st) \<le> sessions_cap st"
  shows "sessions st' = sessions st" "length (sessions st) < sessions_cap st'"
  using assms by (auto simp: dcc_component_session_store_grow_def Let_def split: if_splits prod.splits bool.splits)

lemma add_cases:
  assumes "dcc_component_session_store_add hp store session = (status, store', hp')"
  obtains (unchanged) "status \<noteq> DCC_OK" "stored store' = stored store"
      "store' = store \<or> store = None \<and> store' = Some \<lparr>sessions = [], sessions_cap = 0\<rparr>"
  | (replaced) st ss s where "status = DCC_OK" "session = Some s" "secret s \<noteq> []" "store = Some st"
      "replace_session s (sessions st) = Some ss" "store' = Some (st\<lparr>sessions := ss\<rparr>)"
  | (appended) st st' hp1 s where "status = DCC_OK" "session = Some s" "secret s \<noteq> []"
      "store = Some st \<or> store = None \<and> st = \<lparr>sessions = [], sessions_cap = 0\<rparr>"
      "replace_session s (sessions st) = None" "dcc_component_session_store_grow hp1 st = (Some st', hp')"
      "store' = Some (st'\<lparr>sessions := sessions st' @ [s]\<rparr>)"
proof (cases session)
  case None
  then show ?thesis
    using assms unchanged by (auto simp: dcc_component_session_store_add_def)
next
  case (Some src)
  obtain est hp1 where e: "dcc_component_session_store_ensure hp store = (est, hp1)"
    by fastforce
  show ?thesis
  proof (cases est)
    case None
    then show ?thesis
      using assms Some e unchanged by (auto simp: dcc_component_session_store_add_def)
  next
    case st: (Some st)
    then have before: "store = Some st \<or> store = None \<and> st = \<lparr>sessions = [], sessions_cap = 0\<rparr>"
      using e by (auto simp: dcc_component_session_store_ensure_def split: option.splits prod.splits bool.splits)
    obtain cp hp2 where c: "dcc_component_session_state_copy hp1 src = (cp, hp2)"
      by fastforce
    show ?thesis
    proof (cases cp)
      case (Inl err)
      then have "err \<noteq> DCC_OK"
        using c by (auto simp: dcc_component_session_state_copy_def split: if_splits prod.splits bool.splits)
      then show ?thesis
        using assms Some e st c Inl before unchanged by (auto simp: dcc_component_session_store_add_def stored_def)
    next
      case (Inr s)
      then have s: "s = src" "secret src \<noteq> []"
        using c by (auto simp: dcc_component_session_state_copy_def split: if_splits prod.splits bool.splits)
      show ?thesis
      proof (cases "replace_session src (sessions st)")
        case (Some ss)
        then have "store = Some st"
          using before by auto
        with assms \<open>session = Some src\<close> e st c Inr s Some show ?thesis
          by (intro replaced) (auto simp: dcc_component_session_store_add_def)
      next
        case None
        obtain g hp3 where g: "dcc_component_session_store_grow hp2 st = (g, hp3)"
          by fastforce
        show ?thesis
        proof (cases g)
          case None
          then show ?thesis
            using assms Some e st c Inr s g \<open>replace_session src (sessions st) = None\<close> before unchanged
            by (auto simp: dcc_component_session_store_add_def stored_def)
        next
          case (Some st')
          then show ?thesis
            using assms \<open>session = Some src\<close> e st c Inr s g \<open>replace_session src (sessions st) = None\<close> before
            by (intro appended [of src st hp2 st']) (auto simp: dcc_component_session_store_add_def)
        qed
      qed
    qed
  qed
qed

lemma add_refines:
  assumes "dcc_component_session_store_add hp store session = (status, store', hp')" "store_inv store"
  shows "store_inv store'"
    and "session_map store' =
      (if status = DCC_OK then (session_map store)(session_id (the session) \<mapsto> the session) else session_map store)"
proof -
  have "store_inv store' \<and> session_map store' =
      (if status = DCC_OK then (session_map store)(session_id (the session) \<mapsto> the session) else session_map store)"
    using assms(1)
  proof (cases rule: add_cases)
    case unchanged
    then show ?thesis
      using assms(2) by (auto simp: store_inv_def session_map_def stored_def)
  next
    case (replaced st ss s)
    have "length ss = length (sessions st)"
      using replace_session_Some [OF replaced(5)] by (metis length_map)
    then show ?thesis
      using replaced replace_session_Some [OF replaced(5)] assms(2)
      by (auto simp: store_inv_def session_map_def stored_def list_all_iff)
  next
    case (appended st st' hp1 s)
    have st: "sessions st = stored store" "length (sessions st) \<le> sessions_cap st"
      using appended(4) assms(2) by (auto simp: stored_def store_inv_def)
    have new: "session_id s \<notin> session_id ` set (stored store)"
      using appended(5) by (simp add: replace_session_None st(1))
    then have "map_of (map (\<lambda>s. (session_id s, s)) (stored store)) (session_id s) = None"
      by (simp add: map_of_eq_None_iff image_image)
    then have "session_map store' = (session_map store)(session_id s \<mapsto> s)"
      using appended(7) grow_store(1) [OF appended(6) st(2)] st(1)
      by (auto simp: session_map_def stored_def fun_eq_iff map_add_def split: option.splits)
    moreover have "store_inv store'"
      using appended(3,7) grow_store [OF appended(6) st(2)] st new assms(2) by (auto simp: store_inv_def stored_def)
    ultimately show ?thesis
      using appended(1,2) by simp
  qed
  then show "store_inv store'"
    "session_map store' =
      (if status = DCC_OK then (session_map store)(session_id (the session) \<mapsto> the session) else session_map store)"
    by blast+
qed

lemma sweep_refines:
  assumes "dcc_component_session_store_sweep store now = (removed, store')" "store_inv store"
  shows "store_inv store'" "session_map store' = unexpired now (session_map store)"
    and "removed + length (stored store') = length (stored store)"
proof -
  have "mset (stored store') = {#s \<in># mset (stored store). \<not> now > expires_at_ms s#} \<and> removed + length (stored store') = length (stored store)
      \<and> (store' = None \<and> store = None \<or> (\<exists>st. store = Some st \<and> store' = Some (st\<lparr>sessions := stored store'\<rparr>)))"
  proof (cases store)
    case None
    then show ?thesis
      using assms(1) by (simp add: dcc_component_session_store_sweep_def stored_def)
  next
    case (Some st)
    obtain ss where "sweep_loop now (sessions st) 0 0 = (ss, removed)" "store' = Some (st\<lparr>sessions := ss\<rparr>)"
      using assms(1) Some by (auto simp: dcc_component_session_store_sweep_def split: prod.splits)
    then show ?thesis
      using sweep_loop_mset [of now "sessions st" 0 0 ss removed] Some by (simp add: stored_def)
  qed
  then have sw: "mset (stored store') = {#s \<in># mset (stored store). \<not> now > expires_at_ms s#}" "removed + length (stored store') = length (stored store)"
      "store' = None \<and> store = None \<or> (\<exists>st. store = Some st \<and> store' = Some (st\<lparr>sessions := stored store'\<rparr>))"
    by blast+
  have sets: "set (stored store') = {s \<in> set (stored store). \<not> now > expires_at_ms s}"
    using arg_cong [OF sw(1), of set_mset] by simp
  have "mset (map session_id (stored store')) = mset (map session_id (filter (\<lambda>s. \<not> now > expires_at_ms s) (stored store)))"
    using sw(1) by simp
  then have dist: "distinct (map session_id (stored store'))"
    using assms(2) mset_eq_imp_distinct_iff distinct_map_filter unfolding store_inv_def by blast
  show "removed + length (stored store') = length (stored store)"
    by (rule sw(2))
  have "case store' of None \<Rightarrow> True | Some st \<Rightarrow> length (sessions st) \<le> sessions_cap st"
  proof (cases store')
    case (Some st')
    then obtain st where st: "store = Some st" "sessions_cap st' = sessions_cap st"
      using sw(3) by (metis dcc_component_session_store_state.select_convs(2) dcc_component_session_store_state.surjective
          dcc_component_session_store_state.update_convs(1) option.distinct(1) option.inject)
    then show ?thesis
      using sw(2) assms(2) Some by (simp add: store_inv_def stored_def)
  qed simp
  then show "store_inv store'"
    using dist sets assms(2) by (auto simp: store_inv_def list_all_iff)
  have dist0: "distinct (map session_id (stored store))"
    using assms(2) by (simp add: store_inv_def)
  have "unexpired now m k = Some s \<longleftrightarrow> m k = Some s \<and> \<not> now > expires_at_ms s" for m k s
    by (auto simp: unexpired_def split: option.splits)
  then have "session_map store' k = Some s \<longleftrightarrow> unexpired now (session_map store) k = Some s" for k s
    using sets by (auto simp: session_map_iff [OF dist] session_map_iff [OF dist0])
  then show "session_map store' = unexpired now (session_map store)"
    by (intro ext) (metis option.exhaust)
qed

section \<open>Properties\<close>

lemma history_refines: "store_history cmds = (store, m) \<Longrightarrow> store_inv store \<and> session_map store = m"
proof (induction cmds arbitrary: store m rule: rev_induct)
  case Nil
  then show ?case
    by (auto simp: store_history_def dcc_component_session_store_init_def store_inv_def session_map_def stored_def)
next
  case (snoc cmd cmds)
  obtain store0 m0 where h: "store_history cmds = (store0, m0)"
    by fastforce
  note before = snoc.IH [OF h]
  have "store_command_step (store0, m0) cmd = (store, m)"
    using snoc.prems h by (simp add: store_history_def)
  then show ?case
    using before add_refines [of _ store0] sweep_refines(1,2) [of store0]
    by (cases cmd) (auto split: prod.splits simp: prod_eq_iff)
qed

lemma verify_first_map:
  assumes "store_inv (Some st)"
  shows "verify_first hmac (sessions st) p check =
    (case session_map (Some st) (parts_session_id p) of
       None \<Rightarrow> (VERIFY_NOT_FOUND, 0)
     | Some s \<Rightarrow> (dcc_component_session_verify_parts hmac (Some s) p check, expires_at_ms s))"
proof -
  have "verify_first hmac ss p check =
      (case map_of (map (\<lambda>s. (session_id s, s)) ss) (parts_session_id p) of
         None \<Rightarrow> (VERIFY_NOT_FOUND, 0)
       | Some s \<Rightarrow> (dcc_component_session_verify_parts hmac (Some s) p check, expires_at_ms s))" for ss
    by (induction ss) (auto simp: Let_def verify_parts_found)
  then show ?thesis
    by (simp add: session_map_def stored_def)
qed

text \<open>
  C25. The session store is a map. Over every history of additions, whichever allocations fail, and sweeps,
  the array holds one session per id; the sessions it holds are those of the map in which a successful addition
  sets the id, a failed one changes nothing, and a sweep drops what has expired; and a sweep reports how many it
  dropped.
\<close>

theorem component_store_refines_map:
  assumes "store_history cmds = (store, m)"
  shows "distinct (map session_id (stored store)) \<and> session_map store = m
    \<and> dcc_component_session_store_count store = card (dom m)
    \<and> fst (dcc_component_session_store_sweep store now) = card {k \<in> dom m. now > expires_at_ms (the (m k))}"
proof -
  have inv: "store_inv store" "session_map store = m"
    using history_refines [OF assms] by auto
  have count: "length (stored st) = card (dom (session_map st))" if "store_inv st" for st
    using that distinct_card [of "map session_id (stored st)"]
    by (simp add: store_inv_def session_map_def dom_map_of_conv_image_fst image_image)
  obtain removed store' where sw: "dcc_component_session_store_sweep store now = (removed, store')"
    by fastforce
  have "removed + card (dom (unexpired now m)) = card (dom m)"
    using sweep_refines [OF sw inv(1)] count [of store'] count [OF inv(1)] inv(2) by simp
  moreover have "dom m = dom (unexpired now m) \<union> {k \<in> dom m. now > expires_at_ms (the (m k))}"
    "dom (unexpired now m) \<inter> {k \<in> dom m. now > expires_at_ms (the (m k))} = {}"
    by (auto simp: unexpired_def split: option.splits if_splits)
  moreover have "finite (dom m)"
    using inv(2) by (auto simp: session_map_def finite_dom_map_of)
  ultimately have "removed = card {k \<in> dom m. now > expires_at_ms (the (m k))}"
    by (metis (no_types, lifting) add.commute add_left_cancel card_Un_disjoint finite_Un)
  then show ?thesis
    using inv count [OF inv(1)] sw
    by (simp add: store_inv_def dcc_component_session_store_count_def stored_def split: option.splits)
qed

text \<open>
  C5. Only signed ids are accepted. Whatever sessions were added and swept, an id is malformed unless it has the
  format of the ids that sessions print, unknown unless the store has its session, and accepted exactly when
  that session's secret signs its action and nonce with its signature, it has not expired, and user, channel
  and guild are those the session is locked to. The comparison of signatures, which does not stop at a
  difference, is equality.
\<close>

theorem component_store_verify_exact:
  assumes "store_history cmds = (store, m)"
  shows "let status = result_status (dcc_component_session_store_verify hmac store check); cid = check_custom_id check in
    (status = VERIFY_BAD_FORMAT \<longleftrightarrow> (\<nexists>p. parts_ok p \<and> cid = custom_id_text p))
    \<and> (status = VERIFY_NOT_FOUND \<longleftrightarrow> (\<exists>p. parts_ok p \<and> cid = custom_id_text p \<and> m (parts_session_id p) = None))
    \<and> (status = VERIFY_OK \<longleftrightarrow>
         (\<exists>p s. parts_ok p \<and> cid = custom_id_text p \<and> m (parts_session_id p) = Some s
            \<and> dcc_component_session_sign hmac s (parts_action p) (parts_nonce p) = Inr (parts_sig p)
            \<and> authorised s check))"
proof (cases "dcc_component_session_parse_custom_id (check_custom_id check)")
  case (Inl e)
  then have "\<not> (parts_ok p \<and> check_custom_id check = custom_id_text p)" for p
    using parse_custom_id_iff [of "check_custom_id check" p] by auto
  with Inl show ?thesis
    by (auto simp: dcc_component_session_store_verify_def bad_format_def Let_def)
next
  case (Inr p)
  have inv: "store_inv store" "session_map store = m"
    using history_refines [OF assms] by auto
  have uniq: "parts_ok q \<and> check_custom_id check = custom_id_text q \<longleftrightarrow> q = p" for q
    using parse_custom_id_iff [of "check_custom_id check" q] Inr by auto
  have ex: "(\<exists>q. parts_ok q \<and> check_custom_id check = custom_id_text q \<and> P q) \<longleftrightarrow> P p"
      "(\<exists>q s. parts_ok q \<and> check_custom_id check = custom_id_text q \<and> Q q s) \<longleftrightarrow> (\<exists>s. Q p s)" for P Q
    using uniq by metis+
  have some: "\<exists>q. parts_ok q \<and> check_custom_id check = custom_id_text q"
    using uniq by blast
  have res: "result_status (dcc_component_session_store_verify hmac store check) =
      (case m (parts_session_id p) of None \<Rightarrow> VERIFY_NOT_FOUND
       | Some s \<Rightarrow> dcc_component_session_verify_parts hmac (Some s) p check)"
    using Inr inv verify_first_map [of _ hmac p check]
    by (auto simp: dcc_component_session_store_verify_def result_of_def session_map_def stored_def split: option.splits)
  have sig: "dcc_component_session_hex_string (parts_sig p)"
    using uniq [of p] by (simp add: parts_ok_def)
  have id: "session_id s = parts_session_id p" if "m (parts_session_id p) = Some s" for s
    using that inv session_map_iff [of store] by (auto simp: store_inv_def)
  have bad: "dcc_component_session_verify_parts hmac (Some s) p check \<noteq> VERIFY_BAD_FORMAT" for s
    by (auto simp: dcc_component_session_verify_parts_def)
  show ?thesis
  proof (cases "m (parts_session_id p)")
    case None
    then show ?thesis
      unfolding Let_def ex using res some by simp
  next
    case (Some s)
    then have "result_status (dcc_component_session_store_verify hmac store check) =
        dcc_component_session_verify_parts hmac (Some s) p check"
      using res by simp
    then show ?thesis
      unfolding Let_def ex
      using Some some id [OF Some] bad [of s] verify_parts_signed [OF sig, of hmac s check] verify_parts_found [of hmac s p check]
      by simp
  qed
qed

definition sample_commands :: "store_command list" where
  "sample_commands = [Add [] (Some sample_session), Sweep 5, Add [False] (Some (sample_session\<lparr>session_id := ''s2''\<rparr>))]"

lemma sample_history:
  "store_history sample_commands = (Some \<lparr>sessions = [sample_session], sessions_cap = 8\<rparr>, [''s1'' \<mapsto> sample_session])"
  by (simp add: store_history_def sample_commands_def dcc_component_session_store_init_def dcc_component_session_store_add_def
      dcc_component_session_store_ensure_def dcc_component_session_state_copy_def alloc_next_def sample_session_def
      dcc_component_session_store_grow_def SIZE_MAX_def sizeof_session_def dcc_component_session_store_sweep_def
      sweep_loop.simps unexpired_def fun_eq_iff)

theorem component_store_refines_map_witness:
  "dcc_component_session_store_count (fst (store_history sample_commands)) = 1
    \<and> fst (dcc_component_session_store_sweep (fst (store_history sample_commands)) 900001) = 1"
proof -
  have "{k \<in> dom [''s1'' \<mapsto> sample_session]. expires_at_ms (the ([''s1'' \<mapsto> sample_session] k)) < 900001} = {''s1''}"
    by (auto simp: sample_session_def)
  with component_store_refines_map [OF sample_history, of 900001] show ?thesis
    unfolding sample_history fst_conv by simp
qed

theorem component_store_verify_exact_witness:
  "result_status (dcc_component_session_store_verify sample_hmac (fst (store_history sample_commands))
     \<lparr>check_custom_id = ''dcc:v1:s1:go:n1:0000000000000000'', check_now_ms = 1, check_user_id = 7, check_channel_id = 1,
       check_guild_id = 1\<rparr>) = VERIFY_OK"
proof -
  let ?p = "\<lparr>parts_session_id = ''s1'', parts_action = ''go'', parts_nonce = ''n1'', parts_sig = ''0000000000000000''\<rparr>"
  let ?check = "\<lparr>check_custom_id = ''dcc:v1:s1:go:n1:0000000000000000'', check_now_ms = 1, check_user_id = 7, check_channel_id = 1,
       check_guild_id = 1\<rparr>"
  have p: "parts_ok ?p" "check_custom_id ?check = custom_id_text ?p"
    by (simp_all add: parts_ok_def component_limits dcc_component_session_token_char_def is_digit_def
        dcc_component_session_hex_string_def custom_id_text_def signed_text_def)
  have "[''s1'' \<mapsto> sample_session] (parts_session_id ?p) = Some sample_session"
    "dcc_component_session_sign sample_hmac sample_session (parts_action ?p) (parts_nonce ?p) = Inr (parts_sig ?p)"
    "authorised sample_session ?check"
    by (simp_all add: dcc_component_session_sign_def sample_session_def INT_MAX_def signed_text_def sample_hmac_def hex_pair_def
        hex_char_def component_limits authorised_def)
  with component_store_verify_exact [OF sample_history, of sample_hmac ?check] p show ?thesis
    unfolding Let_def by (metis fst_conv sample_history)
qed

end
