(* ===== verification/DCC_Json_Print.thy ===== *)
theory DCC_Json_Print
  imports DCC_Json_Grammar DCC_Gateway_Text
begin

text \<open>
  Compact printing of JSON values, a reference for the texts that the program writes piece by piece: strings with
  the escapes of \<open>json_escape\<close>, no white space. What is printed is JSON and denotes the value that was printed,
  so \<open>dcc_json_parse\<close> reads it back.
\<close>

section \<open>The printer\<close>

fun commas :: "string list \<Rightarrow> string" where
  "commas [] = []"
| "commas [t] = t"
| "commas (t # u # us) = t @ CHR '','' # commas (u # us)"

definition print_string :: "string \<Rightarrow> string" where
  "print_string s = CHR 0x22 # concat (map json_escape s) @ [CHR 0x22]"

fun json_print :: "dcc_json \<Rightarrow> string" where
  "json_print DCC_JSON_NULL = ''null''"
| "json_print (DCC_JSON_BOOL b) = (if b then ''true'' else ''false'')"
| "json_print (DCC_JSON_NUMBER t) = t"
| "json_print (DCC_JSON_STRING s) = print_string s"
| "json_print (DCC_JSON_ARRAY vs) = CHR ''['' # commas (map json_print vs) @ '']''"
| "json_print (DCC_JSON_OBJECT es) = CHR ''{'' # commas (map (\<lambda>(k, v). print_string k @ CHR '':'' # json_print v) es) @ ''}''"

definition utf8_text :: "string \<Rightarrow> bool" where
  "utf8_text s \<longleftrightarrow> (\<exists>cps. list_all scalar cps \<and> s = utf8s cps)"

fun printable :: "dcc_json \<Rightarrow> bool" where
  "printable DCC_JSON_NULL \<longleftrightarrow> True"
| "printable (DCC_JSON_BOOL b) \<longleftrightarrow> True"
| "printable (DCC_JSON_NUMBER t) \<longleftrightarrow> (\<exists>i. json_number t i)"
| "printable (DCC_JSON_STRING s) \<longleftrightarrow> utf8_text s"
| "printable (DCC_JSON_ARRAY vs) \<longleftrightarrow> (\<forall>v \<in> set vs. printable v)"
| "printable (DCC_JSON_OBJECT es) \<longleftrightarrow> (\<forall>(k, v) \<in> set es. utf8_text k \<and> printable v)"

section \<open>Strings\<close>

lemma hex_value_eq: "dcc_json_hex_value c = hex_value c"
  by (auto simp: dcc_json_hex_value_def hex_value_def is_digit_def)

lemma hex4_control: "cp < 0x20 \<Longrightarrow> hex4 [CHR ''0'', CHR ''0'', hex_char (cp div 16), hex_char (cp mod 16)] cp"
proof -
  assume "cp < 0x20"
  then have "cp div 16 < 16" "cp mod 16 < 16" "cp div 16 * 16 + cp mod 16 = cp"
    by auto
  moreover have "hex_value (CHR ''0'') = Some 0"
    by (simp add: hex_value_def)
  ultimately show ?thesis
    by (simp add: hex4_code hex_value_eq hex_value_hex_char)
qed

lemma escape_control:
  assumes "cp < 0x20" "json_chars cps raw"
  shows "json_chars (cp # cps) (json_escape (char_of cp) @ raw)"
proof -
  let ?c = "char_of cp :: char"
  have c: "code ?c = cp"
    using assms(1) by simp
  consider (simple) "cp \<in> {8, 12, 10, 13, 9}" | (other) "cp \<notin> {8, 12, 10, 13, 9}"
    by blast
  then show ?thesis
  proof cases
    case simple
    have esc: "json_chars (code e' # cps) (CHR 0x5C # e # raw)" if "(e, code e') \<in> set json_escapes" for e e' :: char
      using that assms(2) by (rule json_chars.Escape)
    from simple show ?thesis
      using c esc [of "CHR ''b''" ?c] esc [of "CHR ''f''" ?c] esc [of "CHR ''n''" ?c] esc [of "CHR ''r''" ?c] esc [of "CHR ''t''" ?c]
      by (auto simp: json_escape_def json_escapes_def)
  next
    case other
    then have "json_escape ?c = [CHR 0x5C, CHR ''u'', CHR ''0'', CHR ''0'', hex_char (cp div 16), hex_char (cp mod 16)]"
      using assms(1) c by (simp add: json_escape_def)
    then show ?thesis
      using json_chars.Unicode [OF hex4_control [OF assms(1)] _ assms(2)] assms(1) by (simp add: scalar_def)
  qed
qed

lemma utf8_bytes_plain:
  assumes "scalar cp" "0x20 \<le> cp" "cp \<noteq> 0x22" "cp \<noteq> 0x5c"
  shows "concat (map json_escape (utf8 cp)) = utf8 cp"
proof -
  have plain: "json_escape c = [c]" if "0x20 \<le> code c" "code c \<noteq> 0x22" "code c \<noteq> 0x5c" for c
    using that by (simp add: json_escape_def)
  have high: "json_escape (char_of n) = [char_of n]" if "128 \<le> n" "n < 256" for n :: nat
    using that by (intro plain) simp_all
  have "cp < 0x110000"
    using assms(1) by (auto simp: scalar_def)
  then show ?thesis
    using assms by (auto simp: utf8_def high plain)
qed

lemma escape_quote: "concat (map json_escape (utf8 0x22)) = [CHR 0x5C, CHR 0x22]"
  and escape_backslash: "concat (map json_escape (utf8 0x5c)) = [CHR 0x5C, CHR 0x5C]"
  using eq_char_of [of 34 "CHR 0x22"] eq_char_of [of 92 "CHR 0x5C"] by (simp_all add: utf8_def json_escape_def)

lemma escaped_chars: "list_all scalar cps \<Longrightarrow> json_chars cps (concat (map json_escape (utf8s cps)))"
proof (induction cps)
  case Nil
  show ?case by (simp add: json_chars.Empty)
next
  case (Cons cp cps)
  then have IH: "json_chars cps (concat (map json_escape (utf8s cps)))" and sc: "scalar cp"
    by simp_all
  consider "cp < 0x20" | "cp = 0x22" | "cp = 0x5c" | "0x20 \<le> cp" "cp \<noteq> 0x22" "cp \<noteq> 0x5c"
    by linarith
  then show ?case
  proof cases
    case 1
    then show ?thesis
      using escape_control [OF 1 IH] by (simp add: utf8_def [of cp])
  next
    case 2
    then show ?thesis
      using json_chars.Escape [OF _ IH, of "CHR 0x22" 34] by (simp add: escape_quote escape_backslash json_escapes_def)
  next
    case 3
    then show ?thesis
      using json_chars.Escape [OF _ IH, of "CHR 0x5C" 92] by (simp add: escape_quote escape_backslash json_escapes_def)
  next
    case 4
    then show ?thesis
      using json_chars.Plain [OF sc 4 IH] utf8_bytes_plain [OF sc 4] by simp
  qed
qed

lemma ascii_utf8: "list_all (\<lambda>c. code c < 128) s \<Longrightarrow> utf8_text s"
proof -
  assume "list_all (\<lambda>c. code c < 128) s"
  then have "s = utf8s (map code s) \<and> list_all scalar (map code s)"
    by (induction s) (auto simp: utf8_def scalar_def)
  then show ?thesis
    unfolding utf8_text_def by blast
qed

section \<open>Values\<close>

lemma print_string_text: "utf8_text s \<Longrightarrow> \<exists>cps raw. s = utf8s cps \<and> json_chars cps raw \<and> print_string s = CHR 0x22 # raw @ [CHR 0x22]"
  unfolding utf8_text_def print_string_def using escaped_chars by blast

lemma print_elements:
  "vs \<noteq> [] \<Longrightarrow> \<forall>v \<in> set vs. json_value tight v (json_print v) \<Longrightarrow> json_elements tight vs (commas (map json_print vs))"
proof (induction vs rule: induct_list012)
  case (2 v)
  then show ?case
    using LastElement [of tight v "json_print v" "[]"] by simp
next
  case (3 v u vs)
  then show ?case
    using Element [of tight v "json_print v" "[]" "[]" "u # vs"] by simp
qed simp

lemma print_members:
  "es \<noteq> [] \<Longrightarrow> \<forall>(k, v) \<in> set es. utf8_text k \<and> json_value tight v (json_print v)
     \<Longrightarrow> json_members tight es (commas (map (\<lambda>(k, v). print_string k @ CHR '':'' # json_print v) es))"
proof (induction es rule: induct_list012)
  case (2 e)
  obtain k v where e: "e = (k, v)"
    by fastforce
  then obtain cps raw where "k = utf8s cps" "json_chars cps raw" "print_string k = CHR 0x22 # raw @ [CHR 0x22]"
    using 2 print_string_text [of k] by auto
  then show ?case
    using 2 LastMember [of cps raw "[]" "[]" tight v "json_print v" "[]"] by (simp add: e)
next
  case (3 e f es)
  obtain k v where e: "e = (k, v)"
    by fastforce
  then obtain cps raw where "k = utf8s cps" "json_chars cps raw" "print_string k = CHR 0x22 # raw @ [CHR 0x22]"
    using 3 print_string_text [of k] by auto
  then show ?case
    using 3 Member [of cps raw "[]" "[]" tight v "json_print v" "[]" "[]" "f # es"] by (simp add: e)
qed simp

lemma json_print_value: "printable v \<Longrightarrow> json_value tight v (json_print v)"
proof (induction v rule: json_print.induct)
  case (4 s)
  then show ?case
    using print_string_text [of s] json_value_json_elements_json_members.String by fastforce
next
  case (5 vs)
  then show ?case
    using EmptyArray [of "[]" tight] Array [of "[]" tight vs] print_elements [of vs tight] by (cases vs) auto
next
  case (6 es)
  have "\<forall>(k, v) \<in> set es. utf8_text k \<and> json_value tight v (json_print v)"
    using 6 by fastforce
  then show ?case
    using EmptyObject [of "[]" tight] Object [of "[]" tight es] print_members [of es tight] by (cases es) auto
qed (auto intro: json_value_json_elements_json_members.intros)

lemma json_parse_print:
  assumes "printable v" "length (json_print v) \<le> 2 ^ 57"
  shows "dcc_json_parse [] (Some (json_print v)) = (DCC_OK, Some v)"
proof -
  have "json_text v (json_print v)"
    unfolding json_text_def using json_print_value [OF assms(1)] by (intro exI [of _ "[]"] exI [of _ "json_print v"]) simp
  then show ?thesis
    using assms(2) by (rule json_parse_complete_text)
qed

lemma dec_string_number: "json_number (dec_string n) True"
  unfolding json_number_def using json_int_dec_string [of n]
  by (intro exI [of _ "[]"] exI [of _ "dec_string n"]) (simp add: json_frac_def json_exp_def)

end
