(* ===== verification/DCC_Rest_Buffer.thy ===== *)
theory DCC_Rest_Buffer
  imports DCC_Json_Print
begin

text \<open>
  The text buffer of the REST layer (\<^verbatim>\<open>src/rest/rest_buffer.c\<close>, \<^verbatim>\<open>src/rest/rest_buffer_json_string.c\<close>), in which
  request bodies and exported stores are built. The answers of the allocator are a list, as for the JSON
  documents. The probes that tests use to count allocations and to make them fail are left out.
\<close>

section \<open>Definitions\<close>

text \<open>The terminator is part of what is reserved and not of the data. The capacity doubles; where doubling would
  overflow, it is what is needed.\<close>

definition dcc_rest_buffer_reserve ::
  "bool list \<Rightarrow> char dcc_buffer \<Rightarrow> nat \<Rightarrow> dcc_status \<times> char dcc_buffer \<times> bool list" where
  "dcc_rest_buffer_reserve hp buf extra =
     (if extra > SIZE_MAX - length (buf_data buf) then (DCC_ERR_NOMEM, buf, hp)
      else
        let needed = length (buf_data buf) + extra in
        if needed \<le> buf_cap buf then (DCC_OK, buf, hp)
        else
          let next_cap = (case grow_cap (if buf_cap buf \<noteq> 0 then buf_cap buf else 1024) needed of
                            None \<Rightarrow> needed | Some c \<Rightarrow> c) in
          case alloc_next hp of
            (False, hp) \<Rightarrow> (DCC_ERR_NOMEM, buf, hp)
          | (True, hp) \<Rightarrow> (DCC_OK, buf\<lparr>buf_cap := next_cap\<rparr>, hp))"

definition dcc_rest_buffer_append ::
  "bool list \<Rightarrow> char dcc_buffer \<Rightarrow> string \<Rightarrow> dcc_status \<times> char dcc_buffer \<times> bool list" where
  "dcc_rest_buffer_append hp buf data =
     (if length (buf_data buf) > SIZE_MAX - 1 \<or> length data > SIZE_MAX - length (buf_data buf) - 1 then
        (DCC_ERR_NOMEM, buf, hp)
      else case dcc_rest_buffer_reserve hp buf (length data + 1) of
        (status, buf, hp) \<Rightarrow>
          if status \<noteq> DCC_OK then (status, buf, hp) else (DCC_OK, buf\<lparr>buf_data := buf_data buf @ data\<rparr>, hp))"

text \<open>Appends in order, up to the first that fails.\<close>

fun rest_appends ::
  "bool list \<Rightarrow> char dcc_buffer \<Rightarrow> string list \<Rightarrow> dcc_status \<times> char dcc_buffer \<times> bool list" where
  "rest_appends hp buf [] = (DCC_OK, buf, hp)"
| "rest_appends hp buf (p # ps) =
     (case dcc_rest_buffer_append hp buf p of
        (status, buf, hp) \<Rightarrow> if status \<noteq> DCC_OK then (status, buf, hp) else rest_appends hp buf ps)"

definition dcc_rest_buffer_append_cstr ::
  "bool list \<Rightarrow> char dcc_buffer \<Rightarrow> string \<Rightarrow> dcc_status \<times> char dcc_buffer \<times> bool list" where
  "dcc_rest_buffer_append_cstr hp buf data = dcc_rest_buffer_append hp buf data"

text \<open>A JSON string is a quote, the escape of every character and a quote, each an append of its own; the escapes
  are those of the gateway's buffer.\<close>

definition dcc_rest_buffer_append_json_string ::
  "bool list \<Rightarrow> char dcc_buffer \<Rightarrow> string \<Rightarrow> dcc_status \<times> char dcc_buffer \<times> bool list" where
  "dcc_rest_buffer_append_json_string hp buf v = rest_appends hp buf (json_string_pieces (Some v))"

section \<open>What the buffer holds\<close>

lemma rest_append_ok:
  assumes "dcc_rest_buffer_append hp buf data = (DCC_OK, buf', hp')"
  shows "buf_data buf' = buf_data buf @ data" "length (buf_data buf') < buf_cap buf'"
proof -
  have "buf_data buf' = buf_data buf @ data \<and> length (buf_data buf') < buf_cap buf'"
    using assms grow_cap_ge [of _ "length (buf_data buf) + (length data + 1)"]
    by (fastforce simp: dcc_rest_buffer_append_def dcc_rest_buffer_reserve_def Let_def
        split: if_splits prod.splits bool.splits option.splits)
  then show "buf_data buf' = buf_data buf @ data" "length (buf_data buf') < buf_cap buf'"
    by blast+
qed

lemma rest_append_status:
  "dcc_rest_buffer_append hp buf data = (status, buf', hp') \<Longrightarrow> status \<in> {DCC_OK, DCC_ERR_NOMEM}"
  by (auto simp: dcc_rest_buffer_append_def dcc_rest_buffer_reserve_def Let_def split: if_splits prod.splits bool.splits)

lemma rest_append_memory:
  assumes "length (buf_data buf) + length data < SIZE_MAX"
  shows "\<exists>buf'. dcc_rest_buffer_append [] buf data = (DCC_OK, buf', [])"
  using assms by (auto simp: dcc_rest_buffer_append_def dcc_rest_buffer_reserve_def Let_def alloc_next_def)

lemma rest_appends_append:
  "rest_appends hp buf (ps @ qs) =
     (case rest_appends hp buf ps of
        (status, buf, hp) \<Rightarrow> if status \<noteq> DCC_OK then (status, buf, hp) else rest_appends hp buf qs)"
  by (induction ps arbitrary: hp buf) (auto split: prod.splits)

lemma rest_appends_ok: "rest_appends hp buf ps = (DCC_OK, buf', hp') \<Longrightarrow> buf_data buf' = buf_data buf @ concat ps"
  by (induction ps arbitrary: hp buf) (auto split: prod.splits if_splits dest: rest_append_ok(1))

lemma rest_appends_status:
  "rest_appends hp buf ps = (status, buf', hp') \<Longrightarrow> status \<in> {DCC_OK, DCC_ERR_NOMEM}"
  by (induction ps arbitrary: hp buf) (auto split: prod.splits if_splits dest: rest_append_status)

lemma rest_appends_memory:
  assumes "length (buf_data buf) + length (concat ps) < SIZE_MAX"
  shows "\<exists>buf'. rest_appends [] buf ps = (DCC_OK, buf', []) \<and> buf_data buf' = buf_data buf @ concat ps"
  using assms
proof (induction ps arbitrary: buf)
  case (Cons p ps)
  then obtain b where "dcc_rest_buffer_append [] buf p = (DCC_OK, b, [])"
    using rest_append_memory [of buf p] by auto
  then show ?case
    using Cons.IH [of b] Cons.prems rest_append_ok(1) by fastforce
qed simp

end
