(* ===== verification/DCC_Component_Persist.thy ===== *)
theory DCC_Component_Persist
  imports DCC_Component_Store DCC_Rest_Buffer
begin

text \<open>
  Exporting a session store as JSON and importing it (\<^verbatim>\<open>src/component_session/component_session_store_persist.c\<close>),
  with the text buffer of the REST layer on the way out and the JSON parser on the way in. The allocator's
  answers to the parser and to the rest of an import are two lists. An exported store is imported as it was, also
  on top of other sessions.
\<close>

section \<open>Export\<close>

definition dcc_component_session_append_json_u64_string ::
  "bool list \<Rightarrow> char dcc_buffer \<Rightarrow> u64 \<Rightarrow> dcc_status \<times> char dcc_buffer \<times> bool list" where
  "dcc_component_session_append_json_u64_string hp buf v =
     (if length (dec_string (unat v)) \<ge> 32 then (DCC_ERR_RUNTIME, buf, hp)
      else dcc_rest_buffer_append_json_string hp buf (dec_string (unat v)))"

definition dcc_component_session_append_secret_hex ::
  "bool list \<Rightarrow> char dcc_buffer \<Rightarrow> u8 list \<Rightarrow> dcc_status \<times> char dcc_buffer \<times> bool list" where
  "dcc_component_session_append_secret_hex hp buf sec =
     (if sec = [] then (DCC_ERR_INVALID_ARG, buf, hp)
      else rest_appends hp buf ([[CHR 0x22]] @ map hex_pair sec @ [[CHR 0x22]]))"

text \<open>The steps of \<open>dcc_component_session_append_session_json\<close>, each taken if the ones before it succeeded.\<close>

type_synonym append_step = "bool list \<Rightarrow> char dcc_buffer \<Rightarrow> dcc_status \<times> char dcc_buffer \<times> bool list"

fun append_steps :: "append_step list \<Rightarrow> append_step" where
  "append_steps [] hp buf = (DCC_OK, buf, hp)"
| "append_steps (f # fs) hp buf =
     (case f hp buf of (status, buf, hp) \<Rightarrow> if status \<noteq> DCC_OK then (status, buf, hp) else append_steps fs hp buf)"

definition cstr_step :: "string \<Rightarrow> append_step" where
  "cstr_step t hp buf = dcc_rest_buffer_append_cstr hp buf t"

definition string_step :: "string \<Rightarrow> append_step" where
  "string_step t hp buf = dcc_rest_buffer_append_json_string hp buf t"

definition u64_step :: "u64 \<Rightarrow> append_step" where
  "u64_step v hp buf = dcc_component_session_append_json_u64_string hp buf v"

definition secret_step :: "u8 list \<Rightarrow> append_step" where
  "secret_step sec hp buf = dcc_component_session_append_secret_hex hp buf sec"

definition session_steps :: "dcc_component_session_state \<Rightarrow> append_step list" where
  "session_steps s =
     [cstr_step (quoted ''{~session_id~:''), string_step (session_id s),
      cstr_step (quoted '',~nonce~:''), string_step (nonce s),
      cstr_step (quoted '',~secret_hex~:''), secret_step (secret s),
      cstr_step (quoted '',~expires_at_ms~:''), u64_step (expires_at_ms s),
      cstr_step (quoted '',~user_id~:''), u64_step (user_id s),
      cstr_step (quoted '',~channel_id~:''), u64_step (channel_id s),
      cstr_step (quoted '',~guild_id~:''), u64_step (guild_id s),
      cstr_step (if lock_user s then quoted '',~lock_user~:true'' else quoted '',~lock_user~:false''),
      cstr_step (if lock_channel s then quoted '',~lock_channel~:true'' else quoted '',~lock_channel~:false''),
      cstr_step (if lock_guild s then quoted '',~lock_guild~:true}'' else quoted '',~lock_guild~:false}'')]"

definition dcc_component_session_append_session_json ::
  "bool list \<Rightarrow> char dcc_buffer \<Rightarrow> dcc_component_session_state \<Rightarrow> dcc_status \<times> char dcc_buffer \<times> bool list" where
  "dcc_component_session_append_session_json hp buf s =
     (if secret s = [] then (DCC_ERR_INVALID_ARG, buf, hp) else append_steps (session_steps s) hp buf)"

fun export_loop ::
  "bool \<Rightarrow> bool list \<Rightarrow> char dcc_buffer \<Rightarrow> dcc_component_session_state list \<Rightarrow> dcc_status \<times> char dcc_buffer \<times> bool list" where
  "export_loop first hp buf [] = (DCC_OK, buf, hp)"
| "export_loop first hp buf (s # ss) =
     (case (if first then (DCC_OK, buf, hp) else dcc_rest_buffer_append_cstr hp buf '','') of
        (status, buf, hp) \<Rightarrow>
          if status \<noteq> DCC_OK then (status, buf, hp)
          else case dcc_component_session_append_session_json hp buf s of
            (status, buf, hp) \<Rightarrow> if status \<noteq> DCC_OK then (status, buf, hp) else export_loop False hp buf ss)"

definition dcc_component_session_store_export_json ::
  "bool list \<Rightarrow> dcc_component_session_store \<Rightarrow> dcc_status + string" where
  "dcc_component_session_store_export_json hp store =
     (case dcc_rest_buffer_append_cstr hp empty_buffer (quoted ''{~version~:1,~sessions~:['') of
        (status, buf, hp) \<Rightarrow>
          if status \<noteq> DCC_OK then Inl status
          else case export_loop True hp buf (case store of None \<Rightarrow> [] | Some st \<Rightarrow> sessions st) of
            (status, buf, hp) \<Rightarrow>
              if status \<noteq> DCC_OK then Inl status
              else case dcc_rest_buffer_append_cstr hp buf '']}'' of
                (status, buf, hp) \<Rightarrow> if status \<noteq> DCC_OK then Inl status else Inr (buf_data buf))"

section \<open>Import\<close>

definition dcc_component_session_hex_value :: "char \<Rightarrow> nat option" where
  "dcc_component_session_hex_value c =
     (if is_digit c then Some (code c - 48)
      else if 97 \<le> code c \<and> code c \<le> 102 then Some (code c - 97 + 10)
      else if 65 \<le> code c \<and> code c \<le> 70 then Some (code c - 65 + 10)
      else None)"

definition dcc_component_session_parse_u64_text :: "string option \<Rightarrow> u64 option" where
  "dcc_component_session_parse_u64_text t =
     (case t of None \<Rightarrow> None | Some s \<Rightarrow> if s = [] then None else ascii_digits UINT64_MAX 0 s)"

definition dcc_component_session_json_u64_required :: "dcc_json option \<Rightarrow> string \<Rightarrow> dcc_status + u64" where
  "dcc_component_session_json_u64_required j key =
     (let v = dcc_json_object_get j (Some key) in
      case dcc_json_u64 v of
        Some n \<Rightarrow> Inr n
      | None \<Rightarrow>
          (case dcc_component_session_parse_u64_text (dcc_json_string v) of
             Some n \<Rightarrow> Inr n
           | None \<Rightarrow> Inl DCC_ERR_JSON))"

definition dcc_component_session_json_bool_required :: "dcc_json option \<Rightarrow> string \<Rightarrow> dcc_status + bool" where
  "dcc_component_session_json_bool_required j key =
     (case dcc_json_bool (dcc_json_object_get j (Some key)) of None \<Rightarrow> Inl DCC_ERR_JSON | Some b \<Rightarrow> Inr b)"

fun decode_pairs :: "string \<Rightarrow> u8 list option" where
  "decode_pairs (a # b # t) =
     (case (dcc_component_session_hex_value a, dcc_component_session_hex_value b) of
        (Some high, Some low) \<Rightarrow> map_option (Cons (push_bit 4 (of_nat high) OR of_nat low)) (decode_pairs t)
      | _ \<Rightarrow> None)"
| "decode_pairs _ = Some []"

definition dcc_component_session_decode_secret_hex ::
  "bool list \<Rightarrow> string option \<Rightarrow> (dcc_status + u8 list) \<times> bool list" where
  "dcc_component_session_decode_secret_hex hp hex =
     (case hex of
        None \<Rightarrow> (Inl DCC_ERR_JSON, hp)
      | Some t \<Rightarrow>
          if length t = 0 \<or> length t mod 2 \<noteq> 0 \<or> length t div 2 > INT_MAX then (Inl DCC_ERR_JSON, hp)
          else case alloc_next hp of
            (False, hp) \<Rightarrow> (Inl DCC_ERR_NOMEM, hp)
          | (True, hp) \<Rightarrow>
              (case decode_pairs t of None \<Rightarrow> (Inl DCC_ERR_JSON, hp) | Some sec \<Rightarrow> (Inr sec, hp)))"

text \<open>The fields of a session behind its secret, read in the order of the source.\<close>

definition import_fields :: "dcc_json option \<Rightarrow> string \<Rightarrow> string \<Rightarrow> u8 list \<Rightarrow> dcc_status + dcc_component_session_state" where
  "import_fields j sid nc sec =
     (case dcc_component_session_json_u64_required j ''expires_at_ms'' of
        Inl status \<Rightarrow> Inl status
      | Inr expires \<Rightarrow>
     (case dcc_component_session_json_u64_required j ''user_id'' of
        Inl status \<Rightarrow> Inl status
      | Inr uid \<Rightarrow>
     (case dcc_component_session_json_u64_required j ''channel_id'' of
        Inl status \<Rightarrow> Inl status
      | Inr cid \<Rightarrow>
     (case dcc_component_session_json_u64_required j ''guild_id'' of
        Inl status \<Rightarrow> Inl status
      | Inr gid \<Rightarrow>
     (case dcc_component_session_json_bool_required j ''lock_user'' of
        Inl status \<Rightarrow> Inl status
      | Inr lu \<Rightarrow>
     (case dcc_component_session_json_bool_required j ''lock_channel'' of
        Inl status \<Rightarrow> Inl status
      | Inr lc \<Rightarrow>
     (case dcc_component_session_json_bool_required j ''lock_guild'' of
        Inl status \<Rightarrow> Inl status
      | Inr lg \<Rightarrow>
          Inr \<lparr>session_id = sid, nonce = nc, secret = sec, expires_at_ms = expires, user_id = uid, channel_id = cid,
               guild_id = gid, lock_user = lu, lock_channel = lc, lock_guild = lg\<rparr>)))))))"

definition dcc_component_session_import_one ::
  "bool list \<Rightarrow> dcc_component_session_store \<Rightarrow> dcc_json option \<Rightarrow> dcc_status \<times> dcc_component_session_store \<times> bool list" where
  "dcc_component_session_import_one hp store j =
     (if dcc_json_typeof j \<noteq> TYPE_OBJECT then (DCC_ERR_JSON, store, hp)
      else
        let sid = dcc_json_string (dcc_json_object_get j (Some ''session_id''));
            nc = dcc_json_string (dcc_json_object_get j (Some ''nonce''));
            secret_hex = dcc_json_string (dcc_json_object_get j (Some ''secret_hex'')) in
        if \<not> dcc_component_session_token_valid sid DCC_COMPONENT_SESSION_ID_MAX
           \<or> \<not> dcc_component_session_token_valid nc DCC_COMPONENT_SESSION_NONCE_MAX then (DCC_ERR_JSON, store, hp)
        else case alloc_next hp of
          (False, hp) \<Rightarrow> (DCC_ERR_NOMEM, store, hp)
        | (True, hp) \<Rightarrow>
            (case dcc_component_session_decode_secret_hex hp secret_hex of
               (Inl status, hp) \<Rightarrow> (status, store, hp)
             | (Inr sec, hp) \<Rightarrow>
                 (case import_fields j (the sid) (the nc) sec of
                    Inl status \<Rightarrow> (status, store, hp)
                  | Inr s \<Rightarrow> dcc_component_session_store_add hp store (Some s))))"

fun import_loop ::
  "bool list \<Rightarrow> dcc_component_session_store \<Rightarrow> dcc_json list \<Rightarrow> dcc_status \<times> dcc_component_session_store" where
  "import_loop hp store [] = (DCC_OK, store)"
| "import_loop hp store (v # vs) =
     (case dcc_component_session_import_one hp store (Some v) of
        (status, store, hp) \<Rightarrow> if status \<noteq> DCC_OK then (status, store) else import_loop hp store vs)"

text \<open>The items of an array from the first to the last, as \<open>dcc_json_array_get\<close> returns them.\<close>

definition json_items :: "dcc_json option \<Rightarrow> dcc_json list" where
  "json_items j = map (\<lambda>i. the (dcc_json_array_get j i)) [0..<dcc_json_array_size j]"

definition dcc_component_session_store_import_json ::
  "bool list \<Rightarrow> bool list \<Rightarrow> dcc_component_session_store \<Rightarrow> string \<Rightarrow> dcc_status \<times> dcc_component_session_store" where
  "dcc_component_session_store_import_json hp_parse hp store text =
     (if text = [] then (DCC_ERR_INVALID_ARG, store)
      else case dcc_json_parse hp_parse (Some text) of
        (status, root) \<Rightarrow>
          if status \<noteq> DCC_OK then (status, store)
          else if dcc_json_typeof root \<noteq> TYPE_OBJECT then (DCC_ERR_JSON, store)
          else case dcc_component_session_json_u64_required root ''version'' of
            Inl status \<Rightarrow> (status, store)
          | Inr version \<Rightarrow>
              let items = dcc_json_object_get root (Some ''sessions'') in
              if version \<noteq> 1 \<or> items = None \<or> dcc_json_typeof items \<noteq> TYPE_ARRAY then (DCC_ERR_JSON, store)
              else import_loop hp store (json_items items))"

section \<open>What is exported\<close>

text \<open>The JSON value of a session and of a store.\<close>

definition session_json :: "dcc_component_session_state \<Rightarrow> dcc_json" where
  "session_json s = DCC_JSON_OBJECT
     [(''session_id'', DCC_JSON_STRING (session_id s)), (''nonce'', DCC_JSON_STRING (nonce s)),
      (''secret_hex'', DCC_JSON_STRING (concat (map hex_pair (secret s)))),
      (''expires_at_ms'', DCC_JSON_STRING (dec_string (unat (expires_at_ms s)))),
      (''user_id'', DCC_JSON_STRING (dec_string (unat (user_id s)))),
      (''channel_id'', DCC_JSON_STRING (dec_string (unat (channel_id s)))),
      (''guild_id'', DCC_JSON_STRING (dec_string (unat (guild_id s)))),
      (''lock_user'', DCC_JSON_BOOL (lock_user s)), (''lock_channel'', DCC_JSON_BOOL (lock_channel s)),
      (''lock_guild'', DCC_JSON_BOOL (lock_guild s))]"

definition store_json :: "dcc_component_session_state list \<Rightarrow> dcc_json" where
  "store_json ss = DCC_JSON_OBJECT [(''version'', DCC_JSON_NUMBER ''1''), (''sessions'', DCC_JSON_ARRAY (map session_json ss))]"

definition session_text :: "dcc_component_session_state \<Rightarrow> string" where
  "session_text s = json_print (session_json s)"

text \<open>With memory, a step of the export appends a text.\<close>

definition writes :: "append_step \<Rightarrow> string \<Rightarrow> bool" where
  "writes f t \<longleftrightarrow> (\<forall>buf. length (buf_data buf) + length t < SIZE_MAX
     \<longrightarrow> (\<exists>buf'. f [] buf = (DCC_OK, buf', []) \<and> buf_data buf' = buf_data buf @ t))"

lemma writesD:
  "writes f t \<Longrightarrow> length (buf_data buf) + length t < SIZE_MAX
     \<Longrightarrow> \<exists>buf'. f [] buf = (DCC_OK, buf', []) \<and> buf_data buf' = buf_data buf @ t"
  by (simp add: writes_def)

lemma writes_cstr: "writes (cstr_step t) t"
  unfolding writes_def cstr_step_def dcc_rest_buffer_append_cstr_def using rest_append_memory rest_append_ok(1) by metis

lemma writes_string: "writes (string_step t) (print_string t)"
  unfolding writes_def string_step_def dcc_rest_buffer_append_json_string_def
  using rest_appends_memory [where ps = "json_string_pieces (Some t)"] by (simp add: json_string_pieces_def print_string_def)

lemma writes_u64: "writes (u64_step v) (print_string (dec_string (unat v)))"
proof -
  have "length (dec_string (unat v)) < 32"
    using length_dec_string [of 20 "unat v"] unat_u64_less [of v] by simp
  then have "u64_step v = string_step (dec_string (unat v))"
    by (simp add: fun_eq_iff u64_step_def string_step_def dcc_component_session_append_json_u64_string_def)
  then show ?thesis
    using writes_string by simp
qed

lemma writes_secret: "sec \<noteq> [] \<Longrightarrow> writes (secret_step sec) (CHR 0x22 # concat (map hex_pair sec) @ [CHR 0x22])"
  unfolding writes_def secret_step_def dcc_component_session_append_secret_hex_def
  using rest_appends_memory [where ps = "[[CHR 0x22]] @ map hex_pair sec @ [[CHR 0x22]]"] by simp

lemma writes_steps: "list_all2 writes fs ts \<Longrightarrow> writes (append_steps fs) (concat ts)"
proof (induction rule: list_all2_induct)
  case (Cons f fs t ts)
  show ?case
    unfolding writes_def
  proof (intro allI impI)
    fix buf :: "char dcc_buffer"
    assume len: "length (buf_data buf) + length (concat (t # ts)) < SIZE_MAX"
    then have "length (buf_data buf) + length t < SIZE_MAX"
      by simp
    then obtain b where b: "f [] buf = (DCC_OK, b, [])" "buf_data b = buf_data buf @ t"
      using Cons(1) unfolding writes_def by blast
    then have "length (buf_data b) + length (concat ts) < SIZE_MAX"
      using len by simp
    then obtain c where "append_steps fs [] b = (DCC_OK, c, [])" "buf_data c = buf_data b @ concat ts"
      using Cons(3) unfolding writes_def by blast
    with b show "\<exists>buf'. append_steps (f # fs) [] buf = (DCC_OK, buf', []) \<and> buf_data buf' = buf_data buf @ concat (t # ts)"
      by simp
  qed
qed (simp add: writes_def)

definition plain_char :: "char \<Rightarrow> bool" where
  "plain_char c \<longleftrightarrow> 0x20 \<le> code c \<and> code c < 128 \<and> code c \<noteq> 0x22 \<and> code c \<noteq> 0x5c"

lemma print_plain: "list_all plain_char t \<Longrightarrow> print_string t = CHR 0x22 # t @ [CHR 0x22]"
proof -
  assume "list_all plain_char t"
  then have "concat (map json_escape t) = t"
    by (induction t) (auto simp: plain_char_def json_escape_def)
  then show ?thesis
    by (simp add: print_string_def)
qed

lemma hex_pairs_plain: "list_all plain_char (concat (map hex_pair sec))"
  by (rule list.pred_mono_strong [OF hex_pairs_hex]) (auto simp: plain_char_def is_digit_def)

lemma digits_plain: "list_all plain_char (dec_string n)"
  by (rule list.pred_mono_strong [OF dec_string_digits]) (auto simp: plain_char_def is_digit_def)

lemma token_plain: "list_all dcc_component_session_token_char t \<Longrightarrow> list_all plain_char t"
  by (erule list.pred_mono_strong) (auto simp: plain_char_def dcc_component_session_token_char_def is_digit_def)

lemma plain_utf8: "list_all plain_char t \<Longrightarrow> utf8_text t"
  by (intro ascii_utf8) (auto simp: plain_char_def elim: list.pred_mono_strong)

lemma writes_session: "secret s \<noteq> [] \<Longrightarrow> writes (append_steps (session_steps s)) (session_text s)"
proof -
  let ?n = "\<lambda>v. print_string (dec_string (unat v))"
  let ?ts = "[quoted ''{~session_id~:'', print_string (session_id s), quoted '',~nonce~:'', print_string (nonce s),
      quoted '',~secret_hex~:'', CHR 0x22 # concat (map hex_pair (secret s)) @ [CHR 0x22],
      quoted '',~expires_at_ms~:'', ?n (expires_at_ms s), quoted '',~user_id~:'', ?n (user_id s),
      quoted '',~channel_id~:'', ?n (channel_id s), quoted '',~guild_id~:'', ?n (guild_id s),
      if lock_user s then quoted '',~lock_user~:true'' else quoted '',~lock_user~:false'',
      if lock_channel s then quoted '',~lock_channel~:true'' else quoted '',~lock_channel~:false'',
      if lock_guild s then quoted '',~lock_guild~:true}'' else quoted '',~lock_guild~:false}'']"
  assume "secret s \<noteq> []"
  then have "list_all2 writes (session_steps s) ?ts"
    by (simp add: session_steps_def writes_cstr writes_string writes_u64 writes_secret)
  moreover have "concat ?ts = session_text s"
    by (simp add: session_text_def session_json_def print_plain plain_char_def hex_pairs_plain quoted_def)
  ultimately show ?thesis
    using writes_steps by metis
qed

lemma export_loop_text:
  assumes "list_all (\<lambda>s. secret s \<noteq> []) ss"
    and "length (buf_data buf) + length (commas (map session_text ss)) + (if first \<or> ss = [] then 0 else 1) < SIZE_MAX"
  shows "\<exists>buf'. export_loop first [] buf ss = (DCC_OK, buf', [])
    \<and> buf_data buf' = buf_data buf @ (if first \<or> ss = [] then [] else '','') @ commas (map session_text ss)"
  using assms
proof (induction ss arbitrary: first buf)
  case (Cons s ss)
  let ?sep = "if first then [] else '',''"
  let ?rest = "(if ss = [] then [] else '','') @ commas (map session_text ss)"
  have eq: "commas (map session_text (s # ss)) = session_text s @ ?rest"
    by (cases ss) simp_all
  obtain b1 where b1: "(if first then (DCC_OK, buf, []) else dcc_rest_buffer_append_cstr [] buf '','') = (DCC_OK, b1, [])"
    "buf_data b1 = buf_data buf @ ?sep"
    using writesD [OF writes_cstr [of "'',''"], of buf] Cons.prems(2) by (cases first) (auto simp: cstr_step_def)
  have "length (buf_data b1) + length (session_text s) < SIZE_MAX"
    using Cons.prems(2) b1(2) unfolding eq by (cases first) auto
  then obtain b2 where b2: "dcc_component_session_append_session_json [] b1 s = (DCC_OK, b2, [])"
    "buf_data b2 = buf_data b1 @ session_text s"
    using writes_session [of s] Cons.prems(1)
    unfolding writes_def dcc_component_session_append_session_json_def by (metis list.pred_inject(2))
  have "length (buf_data b2) + length (commas (map session_text ss)) + (if False \<or> ss = [] then 0 else 1) < SIZE_MAX"
    using Cons.prems(2) b1(2) b2(2) unfolding eq by (cases first; cases ss) auto
  then obtain b3 where "export_loop False [] b2 ss = (DCC_OK, b3, [])" "buf_data b3 = buf_data b2 @ ?rest"
    using Cons.IH [of b2 False] Cons.prems(1) by auto
  with b1 b2 show ?case
    unfolding eq by simp
qed simp

definition exported :: "dcc_component_session_state list \<Rightarrow> string" where
  "exported ss = json_print (store_json ss)"

lemma exported_pieces: "exported ss = quoted ''{~version~:1,~sessions~:['' @ commas (map session_text ss) @ '']}''"
  by (simp add: exported_def store_json_def print_plain plain_char_def quoted_def comp_def session_text_def [abs_def])

lemma export_text:
  assumes "store_inv store" "length (exported (stored store)) < SIZE_MAX - 1"
  shows "dcc_component_session_store_export_json [] store = Inr (exported (stored store))"
proof -
  let ?head = "quoted ''{~version~:1,~sessions~:[''"
  let ?body = "commas (map session_text (stored store))"
  have len: "length ?head + length ?body + 2 < SIZE_MAX - 1"
    using assms(2) by (simp add: exported_pieces)
  then have "length (buf_data empty_buffer) + length ?head < SIZE_MAX"
    by (simp add: empty_buffer_def)
  then obtain b1 where b1: "dcc_rest_buffer_append_cstr [] empty_buffer ?head = (DCC_OK, b1, [])" "buf_data b1 = ?head"
    using writesD [OF writes_cstr [of ?head], of empty_buffer] by (auto simp: cstr_step_def empty_buffer_def)
  have "list_all (\<lambda>s. secret s \<noteq> []) (stored store)"
    using assms(1) by (simp add: store_inv_def)
  then obtain b2 where b2: "export_loop True [] b1 (stored store) = (DCC_OK, b2, [])" "buf_data b2 = ?head @ ?body"
    using export_loop_text [of "stored store" b1 True] b1(2) len by fastforce
  obtain b3 where "dcc_rest_buffer_append_cstr [] b2 '']}'' = (DCC_OK, b3, [])" "buf_data b3 = ?head @ ?body @ '']}''"
    using writesD [OF writes_cstr [of "'']}''"], of b2] b2(2) len by (fastforce simp: cstr_step_def)
  with b1(1) b2(1) show ?thesis
    by (simp add: dcc_component_session_store_export_json_def exported_pieces stored_def)
qed

section \<open>What is imported\<close>

definition exportable :: "dcc_component_session_state \<Rightarrow> bool" where
  "exportable s \<longleftrightarrow> session_ok s \<and> length (secret s) \<le> INT_MAX"

lemma printable_store:
  assumes "list_all session_ok ss"
  shows "printable (store_json ss)"
proof -
  have keys: "utf8_text ''session_id''" "utf8_text ''nonce''" "utf8_text ''secret_hex''" "utf8_text ''expires_at_ms''"
    "utf8_text ''user_id''" "utf8_text ''channel_id''" "utf8_text ''guild_id''" "utf8_text ''lock_user''"
    "utf8_text ''lock_channel''" "utf8_text ''lock_guild''" "utf8_text ''version''" "utf8_text ''sessions''"
    by (intro plain_utf8, simp add: plain_char_def)+
  have "\<exists>i. json_number ''1'' i"
    using dec_string_number [of 1] eq_char_of [of 49 "CHR ''1''"] by (auto simp: dec_string.simps digit_char_def)
  moreover have "printable (session_json s)" if "session_ok s" for s
    using that keys plain_utf8 [OF token_plain] plain_utf8 [OF digits_plain] plain_utf8 [OF hex_pairs_plain]
    by (simp add: session_json_def session_ok_def)
  ultimately show ?thesis
    using assms keys by (simp add: store_json_def list_all_iff)
qed

lemma plain_c_string [simp]: "list_all plain_char t \<Longrightarrow> c_string t = t"
  by (auto simp: c_string_def takeWhile_eq_all_conv list_all_iff plain_char_def)

lemma u64_text: "dcc_component_session_parse_u64_text (Some (dec_string (unat v))) = Some v"
  using u64_ascii_iff [of "dec_string (unat v)" v] unat_u64_less [of v]
  by (auto simp: dcc_component_session_parse_u64_text_def dcc_json_parse_u64_ascii_def json_digits_def split: if_splits)

lemma hex_value_char: "d < 16 \<Longrightarrow> dcc_component_session_hex_value (hex_char d) = Some d"
  using hex_value_hex_char [of d] by (auto simp: dcc_component_session_hex_value_def hex_value_def is_digit_def split: if_splits)

lemma join_halves: "push_bit 4 (drop_bit 4 b) OR (b AND 15) = (b :: u8)"
proof -
  have "b AND 15 = take_bit 4 b"
    by (simp add: take_bit_eq_mask mask_eq_exp_minus_1)
  moreover have "push_bit 4 (drop_bit 4 b) OR take_bit 4 b = b"
    by (rule bit_eqI) (auto simp: bit_simps)
  ultimately show ?thesis
    by simp
qed

lemma decode_hex_pairs: "decode_pairs (concat (map hex_pair sec)) = Some sec"
  by (induction sec) (simp_all add: hex_pair_def hex_value_char byte_halves join_halves)

lemma import_session:
  assumes "exportable s"
  shows "dcc_component_session_import_one [] store (Some (session_json s)) = dcc_component_session_store_add [] store (Some s)"
proof -
  have tok: "token DCC_COMPONENT_SESSION_ID_MAX (session_id s)" "token DCC_COMPONENT_SESSION_NONCE_MAX (nonce s)"
    and sec: "secret s \<noteq> []" "length (secret s) \<le> INT_MAX"
    using assms by (auto simp: exportable_def session_ok_def)
  have str: "c_string (session_id s) = session_id s" "c_string (nonce s) = nonce s"
    "c_string (dec_string n) = dec_string n" "c_string (concat (map hex_pair (secret s))) = concat (map hex_pair (secret s))" for n
    using tok token_plain digits_plain hex_pairs_plain by simp_all
  have keys: "c_string t = t" if "list_all plain_char t" for t
    using that by simp
  have field: "dcc_component_session_json_u64_required (Some (session_json s)) ''expires_at_ms'' = Inr (expires_at_ms s)"
    "dcc_component_session_json_u64_required (Some (session_json s)) ''user_id'' = Inr (user_id s)"
    "dcc_component_session_json_u64_required (Some (session_json s)) ''channel_id'' = Inr (channel_id s)"
    "dcc_component_session_json_u64_required (Some (session_json s)) ''guild_id'' = Inr (guild_id s)"
    by (simp_all add: dcc_component_session_json_u64_required_def dcc_json_object_get_def session_json_def plain_char_def
        dcc_json_u64_def dcc_json_string_def str u64_text)
  have flag: "dcc_component_session_json_bool_required (Some (session_json s)) ''lock_user'' = Inr (lock_user s)"
    "dcc_component_session_json_bool_required (Some (session_json s)) ''lock_channel'' = Inr (lock_channel s)"
    "dcc_component_session_json_bool_required (Some (session_json s)) ''lock_guild'' = Inr (lock_guild s)"
    by (simp_all add: dcc_component_session_json_bool_required_def dcc_json_object_get_def session_json_def plain_char_def
        dcc_json_bool_def)
  have strings: "dcc_json_string (dcc_json_object_get (Some (session_json s)) (Some ''session_id'')) = Some (session_id s)"
    "dcc_json_string (dcc_json_object_get (Some (session_json s)) (Some ''nonce'')) = Some (nonce s)"
    "dcc_json_string (dcc_json_object_get (Some (session_json s)) (Some ''secret_hex'')) = Some (concat (map hex_pair (secret s)))"
    by (simp_all add: dcc_json_string_def dcc_json_object_get_def session_json_def plain_char_def str)
  have "import_fields (Some (session_json s)) (session_id s) (nonce s) (secret s) = Inr s"
    by (simp add: import_fields_def field flag)
  moreover have "dcc_component_session_decode_secret_hex [] (Some (concat (map hex_pair (secret s)))) = (Inr (secret s), [])"
    using sec by (simp only: dcc_component_session_decode_secret_hex_def length_hex_pairs option.case) (simp add: alloc_next_def decode_hex_pairs)
  moreover have "dcc_json_typeof (Some (session_json s)) = TYPE_OBJECT"
    by (simp add: dcc_json_typeof_def session_json_def)
  ultimately show ?thesis
    using tok by (simp add: dcc_component_session_import_one_def strings alloc_next_def)
qed

lemma add_memory:
  assumes "store_inv store" "secret s \<noteq> []" "length (stored store) < 2 ^ 50"
  shows "\<exists>store'. dcc_component_session_store_add [] store (Some s) = (DCC_OK, store', [])"
proof -
  obtain st where st: "dcc_component_session_store_ensure [] store = (Some st, [])" "sessions st = stored store"
    "length (sessions st) \<le> sessions_cap st"
    using assms(1) by (cases store) (auto simp: dcc_component_session_store_ensure_def alloc_next_def stored_def store_inv_def)
  have "\<exists>st'. dcc_component_session_store_grow [] st = (Some st', [])"
    using assms(3) st(2,3) by (auto simp: dcc_component_session_store_grow_def Let_def alloc_next_def SIZE_MAX_def sizeof_session_def)
  moreover have "dcc_component_session_state_copy [] s = (Inr s, [])"
    using assms(2) by (simp add: dcc_component_session_state_copy_def alloc_next_def)
  ultimately show ?thesis
    using st(1) by (auto simp: dcc_component_session_store_add_def split: option.splits)
qed

lemma add_length:
  assumes "dcc_component_session_store_add hp store session = (DCC_OK, store', hp')" "store_inv store"
  shows "length (stored store') \<le> Suc (length (stored store))"
  using assms(1)
proof (cases rule: add_cases)
  case (replaced st ss s)
  then show ?thesis
    using replace_session_Some [OF replaced(5)] by (metis length_map le_SucI order_refl stored_def option.case(2)
        dcc_component_session_store_state.select_convs(1) dcc_component_session_store_state.update_convs(1)
        dcc_component_session_store_state.surjective)
next
  case (appended st st' hp1 s)
  then show ?thesis
    using grow_store(1) [OF appended(6)] assms(2) by (auto simp: stored_def store_inv_def)
qed simp

lemma import_loop_sessions:
  assumes "store_inv store" "list_all exportable ss" "length (stored store) + length ss < 2 ^ 50"
  shows "\<exists>store'. import_loop [] store (map session_json ss) = (DCC_OK, store') \<and> store_inv store'
    \<and> session_map store' = foldl (\<lambda>m s. m(session_id s \<mapsto> s)) (session_map store) ss"
  using assms
proof (induction ss arbitrary: store)
  case (Cons s ss)
  then have s: "exportable s" "secret s \<noteq> []"
    by (auto simp: exportable_def session_ok_def)
  obtain store1 where add: "dcc_component_session_store_add [] store (Some s) = (DCC_OK, store1, [])"
    using add_memory [OF Cons.prems(1) s(2)] Cons.prems(3) by auto
  have "length (stored store1) + length ss < 2 ^ 50"
    using add_length [OF add Cons.prems(1)] Cons.prems(3) by simp
  then show ?case
    using Cons.IH [of store1] add_refines [OF add Cons.prems(1)] add import_session [OF s(1)] Cons.prems(2) by simp
qed simp

lemma fold_sessions:
  "distinct (map session_id ss)
    \<Longrightarrow> foldl (\<lambda>m s. m(session_id s \<mapsto> s)) m ss = m ++ map_of (map (\<lambda>s. (session_id s, s)) ss)"
proof (induction ss arbitrary: m)
  case (Cons s ss)
  then have "map_of (map (\<lambda>s. (session_id s, s)) ss) (session_id s) = None"
    by (simp add: map_of_eq_None_iff image_image)
  with Cons show ?case
    by (auto simp: fun_eq_iff map_add_def split: option.splits)
qed simp

section \<open>Properties\<close>

lemma store_verify_map:
  assumes "store_inv store"
  shows "dcc_component_session_store_verify hmac store check =
    (case dcc_component_session_parse_custom_id (check_custom_id check) of
       Inl _ \<Rightarrow> bad_format
     | Inr p \<Rightarrow>
         (case session_map store (parts_session_id p) of
            None \<Rightarrow> result_of VERIFY_NOT_FOUND p 0
          | Some s \<Rightarrow> result_of (dcc_component_session_verify_parts hmac (Some s) p check) p (expires_at_ms s)))"
proof (cases store)
  case None
  then show ?thesis
    by (simp add: dcc_component_session_store_verify_def session_map_def stored_def split: sum.splits)
next
  case (Some st)
  then show ?thesis
    using verify_first_map [of st hmac] assms
    by (simp add: dcc_component_session_store_verify_def split: sum.splits option.splits)
qed

lemma import_exported:
  assumes "store_inv store0" "list_all exportable ss" "length (stored store0) + length ss < 2 ^ 50"
    and "length (exported ss) \<le> 2 ^ 57"
  shows "\<exists>store'. dcc_component_session_store_import_json [] [] store0 (exported ss) = (DCC_OK, store')
    \<and> store_inv store' \<and> session_map store' = foldl (\<lambda>m s. m(session_id s \<mapsto> s)) (session_map store0) ss"
proof -
  have "list_all session_ok ss"
    using assms(2) by (auto simp: list_all_iff exportable_def)
  then have parse: "dcc_json_parse [] (Some (exported ss)) = (DCC_OK, Some (store_json ss))"
    using json_parse_print [OF printable_store] assms(4) by (simp add: exported_def)
  have "dcc_json_parse_u64_ascii ''1'' = Some 1"
    by (simp add: dcc_json_parse_u64_ascii_def is_digit_def)
  then have version: "dcc_component_session_json_u64_required (Some (store_json ss)) ''version'' = Inr 1"
    by (simp add: dcc_component_session_json_u64_required_def dcc_json_object_get_def store_json_def plain_char_def dcc_json_u64_def
        next_is_def)
  have items: "dcc_json_object_get (Some (store_json ss)) (Some ''sessions'') = Some (DCC_JSON_ARRAY (map session_json ss))"
    by (simp add: dcc_json_object_get_def store_json_def plain_char_def)
  have "json_items (Some (DCC_JSON_ARRAY vs)) = vs" for vs
    by (rule nth_equalityI) (simp_all add: json_items_def dcc_json_array_size_def dcc_json_array_get_def)
  moreover have "exported ss \<noteq> []" "dcc_json_typeof (Some (store_json ss)) = TYPE_OBJECT"
    by (simp_all add: exported_def store_json_def dcc_json_typeof_def)
  ultimately show ?thesis
    using import_loop_sessions [OF assms(1-3)] parse version items
    by (simp add: dcc_component_session_store_import_json_def dcc_json_typeof_def [of "Some (DCC_JSON_ARRAY _)"])
qed

text \<open>
  C24. A store survives a restart. Given memory, exporting a store whose sessions are well formed succeeds, the
  text is JSON that the parser of the library reads, and importing it into any store adds exactly the exported
  sessions, with their secrets, times and locks: on ids they share, the imported session wins. Imported into
  an empty store, every id gets the same answer as before the export.
\<close>

theorem component_store_persists:
  assumes "store_history cmds = (store, m)" "store_history cmds0 = (store0, m0)"
    and "list_all exportable (stored store)" "length (stored store0) + length (stored store) < 2 ^ 50"
    and "length (exported (stored store)) \<le> 2 ^ 57"
  shows "\<exists>text store'. dcc_component_session_store_export_json [] store = Inr text
    \<and> dcc_component_session_store_import_json [] [] store0 text = (DCC_OK, store') \<and> session_map store' = m0 ++ m
    \<and> (m0 = Map.empty \<longrightarrow> dcc_component_session_store_verify hmac store' check = dcc_component_session_store_verify hmac store check)"
proof -
  have inv: "store_inv store" "session_map store = m" "store_inv store0" "session_map store0 = m0"
    using history_refines assms(1,2) by auto
  have exp: "dcc_component_session_store_export_json [] store = Inr (exported (stored store))"
    using export_text [OF inv(1)] assms(5) by (simp add: SIZE_MAX_def)
  obtain store' where imp: "dcc_component_session_store_import_json [] [] store0 (exported (stored store)) = (DCC_OK, store')"
    "store_inv store'" "session_map store' = foldl (\<lambda>m s. m(session_id s \<mapsto> s)) m0 (stored store)"
    using import_exported [OF inv(3) assms(3-5)] inv(4) by auto
  then have map': "session_map store' = m0 ++ m"
    using fold_sessions [of "stored store" m0] inv(1,2) by (simp add: store_inv_def session_map_def)
  have "dcc_component_session_store_verify hmac store' check = dcc_component_session_store_verify hmac store check" if "m0 = Map.empty"
  proof -
    have same: "session_map store' = session_map store"
      using map' inv(2) that by simp
    show ?thesis
      unfolding store_verify_map [OF imp(2)] store_verify_map [OF inv(1)] same ..
  qed
  with exp imp(1) map' show ?thesis
    by blast
qed

definition sample_store :: dcc_component_session_store where
  "sample_store = Some \<lparr>sessions = [sample_session], sessions_cap = 8\<rparr>"

theorem component_store_persists_witness:
  "\<exists>text store'. dcc_component_session_store_export_json [] sample_store = Inr text
    \<and> dcc_component_session_store_import_json [] [] None text = (DCC_OK, store') \<and> session_map store' = [''s1'' \<mapsto> sample_session]"
proof -
  have h: "store_history sample_commands = (sample_store, [''s1'' \<mapsto> sample_session])"
    by (simp add: sample_history sample_store_def)
  have h0: "store_history [] = (None, Map.empty)"
    by (simp add: store_history_def dcc_component_session_store_init_def)
  have st: "stored sample_store = [sample_session]"
    by (simp add: sample_store_def stored_def)
  have "exportable sample_session"
    by (simp add: exportable_def session_ok_def sample_session_def component_limits dcc_component_session_token_char_def
        is_digit_def INT_MAX_def)
  moreover have "length (exported [sample_session]) \<le> 2 ^ 57"
    by (simp add: exported_def store_json_def session_json_def sample_session_def print_plain plain_char_def dec_string.simps
        digit_char_def hex_pair_def hex_char_def)
  moreover have "stored None = []"
    by (simp add: stored_def)
  ultimately show ?thesis
    using component_store_persists [OF h h0, unfolded st] by (simp add: map_add_def) blast
qed

end
