(* ===== verification/Spec2Isabelle.thy ===== *)
theory Spec2Isabelle
  imports DCC_Snowflake DCC_Cache_Table DCC_Firewall DCC_Rest_Async DCC_Ws_Handshake DCC_Http DCC_Gateway_Run DCC_Json_Skip DCC_Component_Persist
begin

text \<open>
  A verification of the core of DCC, a C11 client runtime for Discord: the transport (connections, HTTP, WebSocket), the
  gateway session that keeps a bot connected, and the machinery that decides when a REST request may run (firewall, rate
  limits, resource accounting, scheduler), with the ids and the cache tables they use, the JSON parser, and the signed
  component sessions of interactive messages. The sources are under
  \<^verbatim>\<open>src/src\<close> and \<^verbatim>\<open>src/include/dcc\<close>; file names below are relative to \<^verbatim>\<open>src/src\<close>.

  \<^bold>\<open>The parts and how they interact.\<close> A client owns a gateway task and a REST scheduler. The gateway task loops over
  connection attempts (\<^verbatim>\<open>gateway/gateway_runtime_loop.c\<close>); an attempt waits for an identify slot that the shards of a
  cluster share (\<^verbatim>\<open>gateway/gateway_identify.c\<close>), opens a WebSocket (\<^verbatim>\<open>ws/dcc_ws_connect.c\<close> over \<^verbatim>\<open>net/dcc_conn.c\<close>), reads
  HELLO, starts a heartbeat task, sends IDENTIFY or RESUME and handles payloads until the session ends; other tasks may
  ask it to stop or to reconnect. REST requests pass the firewall, wait in the scheduler for their route, their rate limit
  bucket and a free slot, are charged to the resource ledger, and are performed by the HTTP client over the same
  connections. Objects seen on the gateway are kept in cache tables, keyed by snowflake ids. Texts from Discord go through
  the JSON parser (\<^verbatim>\<open>json/\<close>): a first pass marks structural characters, a recursive descent builds values in an arena, and
  the payload parsers use the same string and number readers and skip what they do not know. Component sessions
  (\<^verbatim>\<open>component_session/\<close>) sign the ids of buttons, menus and forms, check the ids that come back, and are kept in a store
  that is exported as JSON and imported through the parser.

  \<^bold>\<open>Theories.\<close>
  \<^item> \<^verbatim>\<open>DCC_Prelude\<close>: status codes, machine integers, saturating arithmetic, linked lists as lists, C strings, decimal
    numbers, \<open>strtoul\<close>; the conventions of the models.
  \<^item> \<^verbatim>\<open>DCC_Transition\<close>, \<^verbatim>\<open>DCC_Object_Store\<close>: the two generic interfaces, as locales. \<open>transition_system\<close> (start states, steps,
    an invariant) is interpreted by the firewall of a client, the resource ledger (twice), the scheduler and the identify
    coordinator; \<open>object_store\<close> (a bounded association list, the key stored last in front, cut at the capacity) by the
    cache tables. A third locale,
    \<open>untouched_by_actions\<close> in \<^verbatim>\<open>DCC_Gateway_Session\<close>, is the contract between the gateway task and the tasks that interfere with
    it; it is interpreted on the four parts of the session state that the others must leave alone.
  \<^item> \<^verbatim>\<open>DCC_Snowflake\<close> (\<^verbatim>\<open>snowflake.c\<close>): parsing of ids and mentions. The parsers accept exactly the texts of the grammar and return
    the number, with the overflow check at 64 bits; creation times do not overflow.
  \<^item> \<^verbatim>\<open>DCC_Cache_Table\<close> (\<^verbatim>\<open>cache/cache_table*.c\<close>): the chained hash table with eviction of the oldest entry. After any history of
    operations the table holds exactly what a list of its keys in the order of storing, cut at the capacity, holds; every value
    handed over is stored or freed exactly once, also when allocation fails.
  \<^item> \<^verbatim>\<open>DCC_Firewall\<close> (\<^verbatim>\<open>rest/firewall/\<close>): counting of invalid responses in a time window, decisions by the count, and a bound on
    the invalid responses of a client whose requests ask once and make up to four attempts (\<^verbatim>\<open>rest/rest_request.c\<close>).
  \<^item> \<^verbatim>\<open>DCC_Rate_Limit\<close> (\<^verbatim>\<open>rest/rest_rate_limit*.c\<close>, \<^verbatim>\<open>rest/rest_header*.c\<close>): buckets, routes, header parsing, reservation and waiting.
    A request that is let through has budget in its bucket; the waiting time is exact, and the wait ends, other requests
    changing the table between its looks.
  \<^item> \<^verbatim>\<open>DCC_Rest_Resource\<close> (\<^verbatim>\<open>rest/rest_resource.c\<close>): the ledger of queued, active and response bytes: every counter is the sum of
    the requests it stands for, over all histories; the limit on queued bytes is lost once a requeue has passed it.
  \<^item> \<^verbatim>\<open>DCC_Rest_Async\<close> (\<^verbatim>\<open>rest/async/\<close>): the scheduler, as a step relation over submit, drain, completion, retry and cancellation: no
    route has two active requests, the concurrency limit holds, no request is lost or duplicated, and the first
    eligible request is taken.
  \<^item> \<^verbatim>\<open>DCC_Net\<close> (\<^verbatim>\<open>net/\<close>), \<^verbatim>\<open>DCC_Wire_Text\<close>, \<^verbatim>\<open>DCC_Http\<close> (\<^verbatim>\<open>http/\<close>), \<^verbatim>\<open>DCC_Ws\<close> and \<^verbatim>\<open>DCC_Ws_Handshake\<close> (\<^verbatim>\<open>ws/\<close>): byte streams cut in any way,
    requests and responses with chunked bodies, frames with masks, fragments and control frames, and the opening
    handshake. Receiving refines an abstract receiver on whole frames; sending and receiving are inverse; a
    handshake loses no byte that follows it.
  \<^item> \<^verbatim>\<open>DCC_Identify\<close>, \<^verbatim>\<open>DCC_Gateway_Events\<close>, \<^verbatim>\<open>DCC_Gateway_Text\<close>, \<^verbatim>\<open>DCC_Gateway_Session\<close>, \<^verbatim>\<open>DCC_Gateway_Run\<close> (\<^verbatim>\<open>gateway/\<close>): identify
    admission over all interleavings of shards, with clock readings older than the lock and the copy of the gateway
    information (\<^verbatim>\<open>client/cluster_gateway_info_copy.c\<close>) among the steps, event names, the texts that are sent, one session with its heartbeat task and
    control requests, and the reconnect loop. The session follows the sequence numbers of the stream, decides soundly how
    to go on and finds dead connections. Slots of one identify bucket are reserved five seconds apart, within the budget of
    the window the gateway information describes, and a shard that is left its slot gets it.
  \<^item> \<^verbatim>\<open>DCC_Json_Memory\<close>, \<^verbatim>\<open>DCC_Json_String\<close>, \<^verbatim>\<open>DCC_Json_Tokens\<close>, \<^verbatim>\<open>DCC_Json_Stage1\<close>, \<^verbatim>\<open>DCC_Json_Dom\<close>, \<^verbatim>\<open>DCC_Json_Skip\<close> (\<^verbatim>\<open>json/\<close>):
    the arena and growing vectors, UTF-8, escapes and string readers, white space, numbers and typed tokens, the first
    pass, the value tree with its accessors, and skipping. \<^verbatim>\<open>DCC_Json_Grammar\<close> compares them with the grammar of JSON, stated
    as inductive predicates with tables of their own: with memory the parser returns a value exactly for the texts of the grammar and the value
    they denote, and without memory it fails and does nothing else; arena blocks never overlap; the first pass is a
    plain scan, and its vector variants compute the same masks; strings and integers are read exactly. Skipping follows the grammar but for one kind of white space.
    \<^verbatim>\<open>DCC_Json_Print\<close> is a reference printer whose texts the parser reads back.
  \<^item> \<^verbatim>\<open>DCC_Rest_Buffer\<close> (\<^verbatim>\<open>rest/rest_buffer*.c\<close>), \<^verbatim>\<open>DCC_Component_Session\<close>, \<^verbatim>\<open>DCC_Component_Store\<close>, \<^verbatim>\<open>DCC_Component_Persist\<close>
    (\<^verbatim>\<open>component_session/\<close>): text buffers, sessions and signed ids, the store and its export and import. Ids are accepted
    exactly when a stored, unexpired session signs them for the user, channel and guild it is locked to; the
    store is a map over all histories; an exported store is imported as it was.
  \<^item> This theory has the property that spans gateway and JSON: what the gateway sends, the parser reads.

  \<^bold>\<open>Environment, bounds and fuel.\<close> Clock readings, allocation outcomes, socket events, random masks and the actions of other
  tasks are arguments. Loops over data are total functions. Loops that wait for the outside (\<open>cluster_passes\<close>, the receive loop
  of the gateway, the reconnect loop, the waits of the rate limiter) recurse over the list of what the environment does and give \<open>None\<close>
  when it ends first; claims that they return say how much is enough. What other threads make of the
  shared state between two passes of such a loop is part of the list. Allocation outcomes of the JSON parser and of what
  is built on it are a list of answers in the order of the calls, and a list that is used up stands for success; the
  parser recurses on the text, without fuel and without a limit on nesting, as the source does. Its theorems hold for
  texts up to \<open>2^57\<close> bytes, so that no size computed for them reaches \<open>2^64\<close>. \<open>recv_loop\<close> of the WebSocket terminates because
  every frame uses up bytes of the connection, so no fuel is needed. Code under a lock is one atomic step; a clock
  read before the lock is a reading of its own.
  The library functions the sources call but do not contain (SHA-1, base64, HMAC, random bytes, the TLS handshake, name resolution) are
  arguments; the theorems assume nothing of them beyond what their statements say.

  \<^bold>\<open>Not modelled.\<close> The field by field extraction of Discord objects from payloads, with its generated table of member
  names, floating point numbers (\<open>strtod\<close>) and the JSON builders of REST (\<^verbatim>\<open>json/\<close>, \<^verbatim>\<open>objects/\<close>, \<^verbatim>\<open>rest/\<close>): they are long and
  uniform, and the parsed payload is an argument of the gateway theories. Delivery of events to listeners, typed cache
  wrappers, REST endpoint functions and routes, the app framework, the command registry, listeners and buttons of component
  sessions, interaction servers, hot reload, replay, the key-value store, clients and clusters above the coordinator,
  and voice. Error texts, log lines and statistics counters are left out of the components that are modelled.
\<close>

section \<open>Properties across components\<close>

text \<open>The JSON values of the texts that log a client in and keep its session alive.\<close>

definition identify_json :: "string \<Rightarrow> u64 \<Rightarrow> u32 \<Rightarrow> u32 \<Rightarrow> dcc_json" where
  "identify_json tok mask_bits shard cnt = DCC_JSON_OBJECT
     [(''op'', DCC_JSON_NUMBER ''2''),
      (''d'', DCC_JSON_OBJECT
        [(''token'', DCC_JSON_STRING tok), (''intents'', DCC_JSON_NUMBER (dec_string (unat mask_bits))),
         (''properties'', DCC_JSON_OBJECT
           [(''os'', DCC_JSON_STRING ''unknown''), (''browser'', DCC_JSON_STRING ''dcc''), (''device'', DCC_JSON_STRING ''dcc'')]),
         (''shard'', DCC_JSON_ARRAY [DCC_JSON_NUMBER (dec_string (unat shard)), DCC_JSON_NUMBER (dec_string (unat cnt))])])]"

definition resume_json :: "string \<Rightarrow> string \<Rightarrow> u64 \<Rightarrow> dcc_json" where
  "resume_json tok sid sq = DCC_JSON_OBJECT
     [(''op'', DCC_JSON_NUMBER ''6''),
      (''d'', DCC_JSON_OBJECT
        [(''token'', DCC_JSON_STRING tok), (''session_id'', DCC_JSON_STRING sid), (''seq'', DCC_JSON_NUMBER (dec_string (unat sq)))])]"

definition heartbeat_json :: "bool \<Rightarrow> u64 \<Rightarrow> dcc_json" where
  "heartbeat_json has sq = DCC_JSON_OBJECT
     [(''op'', DCC_JSON_NUMBER ''1''), (''d'', if has then DCC_JSON_NUMBER (dec_string (unat sq)) else DCC_JSON_NULL)]"

lemma identify_printed: "concat (identify_pieces (Some tok) mask_bits shard cnt) = json_print (identify_json tok mask_bits shard cnt)"
  by (simp add: identify_pieces_def identify_json_def json_string_pieces_def print_plain plain_char_def quoted_def u64_piece_def
      unat_ucast_u32 print_string_def [of tok])

lemma resume_printed: "concat (resume_pieces (Some tok) (Some sid) sq) = json_print (resume_json tok sid sq)"
  by (simp add: resume_pieces_def resume_json_def json_string_pieces_def print_plain plain_char_def quoted_def u64_piece_def
      print_string_def [of tok] print_string_def [of sid])

lemma heartbeat_printed: "heartbeat_text has sq = json_print (heartbeat_json has sq)"
  by (simp add: heartbeat_text_def heartbeat_json_def print_plain plain_char_def quoted_def)

lemma digit_number: "\<exists>i. json_number ''1'' i" "\<exists>i. json_number ''2'' i" "\<exists>i. json_number ''6'' i"
  using dec_string_number [of 1] dec_string_number [of 2] dec_string_number [of 6]
    eq_char_of [of 49 "CHR ''1''"] eq_char_of [of 50 "CHR ''2''"] eq_char_of [of 54 "CHR ''6''"]
  by (auto simp: dec_string.simps digit_char_def)

lemma login_printable:
  "utf8_text tok \<Longrightarrow> printable (identify_json tok mask_bits shard cnt)"
  "utf8_text tok \<Longrightarrow> utf8_text sid \<Longrightarrow> printable (resume_json tok sid sq)"
  "printable (heartbeat_json has sq)"
  using dec_string_number digit_number
  by (auto simp: identify_json_def resume_json_def heartbeat_json_def intro!: plain_utf8 simp: plain_char_def)

text \<open>
  C27. What the gateway sends is what it means. For every token and session id that is UTF-8, the texts that
  IDENTIFY, RESUME and heartbeats are built from are JSON documents, and the parser of the library reads from them
  the opcode, the token, the session id, the intents, the shard and the sequence number that went in, whatever
  characters the token and the session id have.
\<close>

theorem gateway_texts_parse:
  assumes "utf8_text tok" "utf8_text sid"
    and "length (concat (identify_pieces (Some tok) mask_bits shard cnt)) \<le> 2 ^ 57"
    and "length (concat (resume_pieces (Some tok) (Some sid) sq)) \<le> 2 ^ 57"
  shows "dcc_json_parse [] (Some (concat (identify_pieces (Some tok) mask_bits shard cnt))) = (DCC_OK, Some (identify_json tok mask_bits shard cnt))
    \<and> dcc_json_parse [] (Some (concat (resume_pieces (Some tok) (Some sid) sq))) = (DCC_OK, Some (resume_json tok sid sq))
    \<and> dcc_json_parse [] (Some (heartbeat_text has sq)) = (DCC_OK, Some (heartbeat_json has sq))"
proof -
  have "length (dec_string (unat sq)) \<le> 20"
    using length_dec_string [of 20 "unat sq"] unat_u64_less [of sq] by simp
  then have "length (heartbeat_text has sq) \<le> 2 ^ 57"
    by (simp add: heartbeat_text_def quoted_def)
  then show ?thesis
    using assms json_parse_print [OF login_printable(1)] json_parse_print [OF login_printable(2)] json_parse_print [OF login_printable(3)]
    by (simp add: identify_printed resume_printed heartbeat_printed)
qed

theorem gateway_texts_parse_witness:
  "dcc_json_parse [] (Some (concat (resume_pieces (Some ''t'') (Some (CHR 0x22 # ''s'')) 7))) = (DCC_OK, Some (resume_json ''t'' (CHR 0x22 # ''s'') 7))"
proof -
  have "utf8_text ''t''" "utf8_text (CHR 0x22 # ''s'')"
    by (intro ascii_utf8, simp)+
  moreover have "length (concat (identify_pieces (Some ''t'') 0 0 1)) \<le> 2 ^ 57"
    "length (concat (resume_pieces (Some ''t'') (Some (CHR 0x22 # ''s'')) 7)) \<le> 2 ^ 57"
    by (simp_all add: identify_pieces_def resume_pieces_def json_string_pieces_def quoted_def u64_piece_def dec_string.simps json_escape_def)
  ultimately show ?thesis
    using gateway_texts_parse [of "''t''" "CHR 0x22 # ''s''" 0 0 1 7] by blast
qed

end
